(* ===== verification/Ring.thy ===== *)
theory Ring
  imports Prelude
begin

text \<open>
  Ring buffers indexed by free-running 32-bit counters, the scheme both \<^verbatim>\<open>pipe.c\<close> and the console
  input buffer use: a counter is never reduced, only its residue modulo the buffer size is used as an
  index. The scheme survives the wrap-around of the counters because the size divides \<open>2\<^sup>3\<^sup>2\<close>, which is
  the assumption of the locale; both users interpret it at their own size.
\<close>

definition slice :: "nat \<Rightarrow> 'a list \<Rightarrow> u32 \<Rightarrow> u32 \<Rightarrow> 'a list" where
  "slice N d r w = map (\<lambda>i. d ! (unat (r + of_nat i) mod N)) [0..<unat (w - r)]"

lemma slice_length [simp]: "length (slice N d r w) = unat (w - r)"
  by (simp add: slice_def)

lemma slice_Nil [simp]: "slice N d r r = []"
  by (simp add: slice_def)

lemma mod_sum_ge:
  fixes x y M :: nat
  assumes "x < M" and "y < M" and "x \<le> (x + y) mod M"
  shows "(x + y) mod M = x + y"
proof (cases "x + y < M")
  case False
  then have "(x + y) mod M = (x + y - M) mod M" by (simp add: le_mod_geq)
  also have "\<dots> = x + y - M" using assms by (intro mod_less) linarith
  finally show ?thesis using assms False by linarith
qed simp

lemma unat_dist:
  fixes r w :: u32
  assumes "r \<noteq> w"
  shows "unat (w - r) = Suc (unat (w - (r + 1)))"
proof -
  have nz: "w - r \<noteq> 0" using assms by auto
  have e: "w - (r + 1) = w - r - 1" by (simp add: algebra_simps)
  have "unat (w - (r + 1)) = unat (w - r) - 1" using unat_minus_one [OF nz] by (simp only: e)
  moreover have "0 < unat (w - r)" using nz by (simp add: unat_gt_0)
  ultimately show ?thesis by linarith
qed

locale ring =
  fixes N :: nat
  assumes size_pos: "0 < N" and size_dvd: "N dvd 4294967296"
begin

lemma index_add: "unat (r + of_nat i :: u32) mod N = (unat r + i) mod N"
proof -
  have "unat (r + of_nat i) = (unat r + i) mod 4294967296"
    by (simp add: unat_word_ariths unat_of_nat take_bit_eq_mod mod_simps)
  then show ?thesis using size_dvd by (simp add: mod_mod_cancel)
qed

lemma index_differs:
  fixes r w :: u32
  assumes "i < unat (w - r)" and "unat (w - r) < N"
  shows "unat (r + of_nat i) mod N \<noteq> unat w mod N"
proof
  let ?n = "unat (w - r)"
  assume "unat (r + of_nat i) mod N = unat w mod N"
  moreover have "unat w mod N = (unat r + ?n) mod N"
    using index_add [of r ?n] by simp
  ultimately have "(unat r + i) mod N = (unat r + ?n) mod N" by (simp add: index_add)
  then have "i mod N = ?n mod N" by (simp add: nat_mod_eq_iff)
  with assms show False by simp
qed

lemma slice_push:
  assumes "length d = N" and "unat (w - r) < N" and "N < 4294967296"
  shows "slice N (d[unat w mod N := b]) r (w + 1) = slice N d r w @ [b]"
proof -
  let ?n = "unat (w - r)"
  have n: "unat (w + 1 - r) = Suc ?n"
    using assms unat_add_small [of "w - r" 1] by (simp add: algebra_simps)
  have "d[unat w mod N := b] ! (unat (r + of_nat i) mod N) = d ! (unat (r + of_nat i) mod N)" if "i < ?n" for i
    using index_differs [OF that assms(2)] by simp
  moreover have "d[unat w mod N := b] ! (unat (r + of_nat ?n) mod N) = b"
    using assms(1) size_pos by simp
  ultimately show ?thesis unfolding slice_def n by simp
qed

lemma slice_pop:
  assumes "r \<noteq> w"
  shows "slice N d r w = d ! (unat r mod N) # slice N d (r + 1) w"
proof -
  let ?n = "unat (w - (r + 1))"
  have n: "unat (w - r) = Suc ?n" by (rule unat_dist) (use assms in auto)
  have up: "[0..<Suc ?n] = 0 # map Suc [0..<?n]" by (simp add: upt_conv_Cons map_Suc_upt del: upt_Suc)
  show ?thesis unfolding slice_def n up by (simp add: comp_def add.assoc)
qed

lemma slice_unpush:
  assumes "r \<noteq> w"
  shows "slice N d r (w - 1) = butlast (slice N d r w)"
proof -
  have "unat (w - r) = Suc (unat (w - 1 - r))"
    using unat_dist [OF assms] by (simp add: algebra_simps)
  then show ?thesis unfolding slice_def by (simp add: butlast_append)
qed

lemma slice_last:
  assumes "r \<noteq> w"
  shows "last (slice N d r w) = d ! (unat (w - 1) mod N)"
proof -
  have n: "unat (w - r) = Suc (unat (w - 1 - r))"
    using unat_dist [OF assms] by (simp add: algebra_simps)
  show ?thesis unfolding slice_def n by simp
qed

lemma slice_split:
  assumes "unat (w - r) \<le> unat (e - r)"
  shows "slice N d r e = slice N d r w @ slice N d w e"
proof -
  have le: "unat (e - r) = unat (w - r) + unat (e - w)"
  proof -
    have "unat (e - r) = (unat (w - r) + unat (e - w)) mod 4294967296"
      using unat_word_ariths(1) [of "w - r" "e - w"] by simp
    then show ?thesis using assms mod_sum_ge [of "unat (w - r)" 4294967296 "unat (e - w)"] by simp
  qed
  have up: "[0..<a + b] = [0..<a] @ map (\<lambda>i. i + a) [0..<b]" for a b :: nat
    using upt_add_eq_append [of 0 a b] by (simp add: map_add_upt add.commute)
  have "r + of_nat (i + unat (w - r)) = w + of_nat i" for i by simp
  then show ?thesis
    unfolding slice_def le up by (simp add: comp_def del: of_nat_add)
qed

end

end
