(* ===== verification/Pipe.thy ===== *)
theory Pipe
  imports Ring
begin

text \<open>
  Pipes, \<^verbatim>\<open>pipe.c\<close>. \<^verbatim>\<open>pipewrite\<close> and \<^verbatim>\<open>piperead\<close> run under \<^verbatim>\<open>p->lock\<close> and release it only inside
  \<^verbatim>\<open>sleep\<close>, so each is modelled as the step from one such point to the next: a run of the routine
  returns, or goes to sleep with the bytes it still has to write. A resumed writer is a new run on
  those bytes. The channels passed to \<^verbatim>\<open>wakeup\<close> are part of the result.
\<close>

section \<open>State and operations\<close>

definition PIPESIZE :: nat where "PIPESIZE = 512"

record pipe =
  pdata :: "byte list"
  nread :: u32
  nwrite :: u32
  readopen :: bool
  writeopen :: bool

datatype pchan = ChanNread | ChanNwrite

text \<open>A run of a pipe operation ends in a return value or asleep with the rest of its work.\<close>

datatype 'a outcome = Returned 'a | Asleep pchan "byte list"

text \<open>The part of \<^verbatim>\<open>pipealloc\<close> that sets up the page: the data array keeps what the page held.\<close>

definition pipe_init :: "byte list \<Rightarrow> pipe" where
  "pipe_init junk = \<lparr>pdata = junk, nread = 0, nwrite = 0, readopen = True, writeopen = True\<rparr>"

definition pipe_put :: "pipe \<Rightarrow> byte \<Rightarrow> pipe" where
  "pipe_put p b = p\<lparr>pdata := (pdata p)[unat (nwrite p) mod PIPESIZE := b], nwrite := nwrite p + 1\<rparr>"

fun pipewrite_loop :: "pipe \<Rightarrow> bool \<Rightarrow> byte list \<Rightarrow> int \<Rightarrow> pipe \<times> pchan list \<times> int outcome" where
  "pipewrite_loop p killed [] n = (p, [ChanNread], Returned n)"
| "pipewrite_loop p killed (b # bs) n =
     (if nwrite p = nread p + of_nat PIPESIZE
      then if \<not> readopen p \<or> killed then (p, [], Returned (-1))
           else (p, [ChanNread], Asleep ChanNwrite (b # bs))
      else pipewrite_loop (pipe_put p b) killed bs n)"

definition pipewrite :: "pipe \<Rightarrow> bool \<Rightarrow> byte list \<Rightarrow> pipe \<times> pchan list \<times> int outcome" where
  "pipewrite p killed addr = pipewrite_loop p killed addr (int (length addr))"

fun piperead_loop :: "pipe \<Rightarrow> nat \<Rightarrow> pipe \<times> byte list" where
  "piperead_loop p 0 = (p, [])"
| "piperead_loop p (Suc n) =
     (if nread p = nwrite p then (p, [])
      else let b = pdata p ! (unat (nread p) mod PIPESIZE);
               (p', bs) = piperead_loop (p\<lparr>nread := nread p + 1\<rparr>) n
           in (p', b # bs))"

text \<open>\<^verbatim>\<open>piperead\<close> returns the bytes it copies out, whose number is its C return value; \<open>None\<close> is \<open>-1\<close>.\<close>

definition piperead :: "pipe \<Rightarrow> bool \<Rightarrow> int \<Rightarrow> pipe \<times> pchan list \<times> byte list option outcome" where
  "piperead p killed n =
     (if nread p = nwrite p \<and> writeopen p
      then if killed then (p, [], Returned None) else (p, [], Asleep ChanNread [])
      else let (p', bs) = piperead_loop p (nat n) in (p', [ChanNwrite], Returned (Some bs)))"

text \<open>\<^verbatim>\<open>pipeclose\<close>; the flag of the result says that the page goes back to the allocator.\<close>

definition pipeclose :: "pipe \<Rightarrow> bool \<Rightarrow> pipe \<times> pchan list \<times> bool" where
  "pipeclose p writable =
     (let (p, wk) = (if writable then (p\<lparr>writeopen := False\<rparr>, [ChanNread])
                     else (p\<lparr>readopen := False\<rparr>, [ChanNwrite]))
      in (p, wk, \<not> readopen p \<and> \<not> writeopen p))"

section \<open>The bytes in flight\<close>

definition pipe_bytes :: "pipe \<Rightarrow> byte list" where
  "pipe_bytes p = slice PIPESIZE (pdata p) (nread p) (nwrite p)"

definition pipe_ok :: "pipe \<Rightarrow> bool" where
  "pipe_ok p \<longleftrightarrow> length (pdata p) = PIPESIZE \<and> length (pipe_bytes p) \<le> PIPESIZE"

interpretation pring: ring PIPESIZE
  by unfold_locales (simp_all add: PIPESIZE_def)

lemma pipe_bytes_length: "length (pipe_bytes p) = unat (nwrite p - nread p)"
  by (simp add: pipe_bytes_def)

lemma pipe_full: "pipe_ok p \<Longrightarrow> nwrite p = nread p + of_nat PIPESIZE \<longleftrightarrow> length (pipe_bytes p) = PIPESIZE"
proof -
  have "nwrite p = nread p + of_nat PIPESIZE \<longleftrightarrow> nwrite p - nread p = 512"
    by (auto simp: PIPESIZE_def algebra_simps)
  also have "\<dots> \<longleftrightarrow> unat (nwrite p - nread p) = 512" by (simp add: word_unat_eq_iff)
  finally show ?thesis by (simp add: pipe_bytes_length PIPESIZE_def)
qed

lemma pipe_empty: "nread p = nwrite p \<longleftrightarrow> pipe_bytes p = []"
  by (metis eq_iff_diff_eq_0 length_0_conv pipe_bytes_length unat_eq_0)

lemma pipe_put_bytes:
  assumes "pipe_ok p" and "length (pipe_bytes p) < PIPESIZE"
  shows "pipe_bytes (pipe_put p b) = pipe_bytes p @ [b] \<and> pipe_ok (pipe_put p b)"
proof -
  have "pipe_bytes (pipe_put p b) = pipe_bytes p @ [b]"
    using assms pring.slice_push [of "pdata p" "nwrite p" "nread p" b]
    by (simp add: pipe_ok_def pipe_bytes_def pipe_put_def) (simp add: PIPESIZE_def)
  then show ?thesis using assms by (simp add: pipe_ok_def) (simp add: pipe_put_def)
qed

lemma pipe_put_open [simp]:
  "readopen (pipe_put p b) = readopen p" "writeopen (pipe_put p b) = writeopen p"
  by (simp_all add: pipe_put_def)

definition pipe_room :: "pipe \<Rightarrow> nat" where
  "pipe_room p = PIPESIZE - length (pipe_bytes p)"

lemma pipewrite_loop_bytes:
  "pipe_ok p \<Longrightarrow> pipewrite_loop p killed bs n = (p', wk, r) \<Longrightarrow>
   pipe_ok p' \<and> pipe_bytes p' = pipe_bytes p @ take (pipe_room p) bs \<and>
   r = (if length bs \<le> pipe_room p then Returned n
        else if \<not> readopen p \<or> killed then Returned (-1)
        else Asleep ChanNwrite (drop (pipe_room p) bs))"
proof (induction p killed bs n arbitrary: p' rule: pipewrite_loop.induct)
  case (1 p killed n)
  then show ?case by auto
next
  case (2 p killed b bs n)
  show ?case
  proof (cases "nwrite p = nread p + of_nat PIPESIZE")
    case True
    with "2.prems" have "pipe_room p = 0" by (simp add: pipe_full pipe_room_def)
    with True 2 show ?thesis by (auto split: if_splits)
  next
    case False
    then have lt: "length (pipe_bytes p) < PIPESIZE"
      using "2.prems"(1) by (simp add: pipe_full pipe_ok_def)
    then obtain k where k: "pipe_room p = Suc k" by (cases "pipe_room p") (auto simp: pipe_room_def)
    have put: "pipe_bytes (pipe_put p b) = pipe_bytes p @ [b]" "pipe_ok (pipe_put p b)"
      using pipe_put_bytes [OF "2.prems"(1) lt] by auto
    then have "pipe_room (pipe_put p b) = k" using k by (simp add: pipe_room_def)
    with "2.IH" [OF False put(2)] "2.prems"(2) False k put(1) show ?thesis by auto
  qed
qed

lemma piperead_loop_bytes:
  "pipe_ok p \<Longrightarrow> piperead_loop p n = (p', bs) \<Longrightarrow>
   pipe_ok p' \<and> bs = take n (pipe_bytes p) \<and> pipe_bytes p' = drop n (pipe_bytes p)"
proof (induction p n arbitrary: p' bs rule: piperead_loop.induct)
  case (2 p n)
  show ?case
  proof (cases "nread p = nwrite p")
    case True
    with 2 show ?thesis by (auto simp: pipe_empty)
  next
    case False
    let ?p = "p\<lparr>nread := nread p + 1\<rparr>"
    have pop: "pipe_bytes p = pdata p ! (unat (nread p) mod PIPESIZE) # pipe_bytes ?p"
      using pring.slice_pop [OF False] by (simp add: pipe_bytes_def)
    with "2.prems"(1) have "pipe_ok ?p" by (simp add: pipe_ok_def)
    with 2 False pop show ?thesis by (auto split: prod.splits)
  qed
qed auto

lemma pipewrite_bytes:
  "pipe_ok p \<Longrightarrow> pipewrite p killed bs = (p', wk, r) \<Longrightarrow>
   pipe_ok p' \<and> pipe_bytes p' = pipe_bytes p @ take (pipe_room p) bs \<and>
   r = (if length bs \<le> pipe_room p then Returned (int (length bs))
        else if \<not> readopen p \<or> killed then Returned (-1)
        else Asleep ChanNwrite (drop (pipe_room p) bs))"
  unfolding pipewrite_def by (rule pipewrite_loop_bytes)

lemma piperead_bytes:
  "pipe_ok p \<Longrightarrow> piperead p killed n = (p', wk, r) \<Longrightarrow>
   pipe_ok p' \<and> pipe_bytes p = (case r of Returned (Some bs) \<Rightarrow> bs | _ \<Rightarrow> []) @ pipe_bytes p'"
  using piperead_loop_bytes [of p "nat n"]
  by (auto simp: piperead_def split: if_splits prod.splits)

section \<open>Interleaved use\<close>

text \<open>
  Any order of runs by readers and writers, and of closes, on one pipe. The ghost lists record the
  bytes the writers handed over, up to where a run stopped, and the bytes the readers got.
\<close>

inductive pipe_run :: "pipe \<Rightarrow> byte list \<Rightarrow> byte list \<Rightarrow> bool" where
  fresh: "length junk = PIPESIZE \<Longrightarrow> pipe_run (pipe_init junk) [] []"
| write_run: "pipe_run p sent got \<Longrightarrow> pipewrite p killed bs = (p', wk, r) \<Longrightarrow>
    pipe_run p' (sent @ take (pipe_room p) bs) got"
| read_run: "pipe_run p sent got \<Longrightarrow> piperead p killed n = (p', wk, r) \<Longrightarrow>
    pipe_run p' sent (got @ (case r of Returned (Some bs) \<Rightarrow> bs | _ \<Rightarrow> []))"
| close_run: "pipe_run p sent got \<Longrightarrow> pipeclose p writable = (p', wk, b) \<Longrightarrow> pipe_run p' sent got"

lemma pipeclose_bytes: "pipeclose p w = (p', wk, b) \<Longrightarrow> pipe_bytes p' = pipe_bytes p \<and> (pipe_ok p' \<longleftrightarrow> pipe_ok p)"
  by (auto simp: pipeclose_def pipe_ok_def pipe_bytes_def Let_def split: if_splits)

lemma pipe_run_inv: "pipe_run p sent got \<Longrightarrow> pipe_ok p \<and> sent = got @ pipe_bytes p"
proof (induction rule: pipe_run.induct)
  case (fresh junk)
  then show ?case by (simp add: pipe_ok_def pipe_bytes_def pipe_init_def)
next
  case (write_run p sent got killed bs p' wk r)
  then show ?case using pipewrite_bytes [of p killed bs p' wk r] by simp
next
  case (read_run p sent got killed n p' wk r)
  then show ?case using piperead_bytes [of p killed n p' wk r] by simp
next
  case (close_run p sent got writable p' wk b)
  then show ?case using pipeclose_bytes [of p writable p' wk b] by simp
qed

section \<open>Properties\<close>

text \<open>
  C7. A pipe is a first-in first-out queue of at most 512 bytes, whatever readers and writers
  interleave and however often the 32-bit counters wrap: the bytes the readers got are a prefix of the
  bytes the writers handed over, in order and without loss or duplication, and the difference is what
  the ring holds.
\<close>

theorem pipe_fifo:
  assumes "pipe_run p sent got"
  shows "sent = got @ pipe_bytes p \<and> length (pipe_bytes p) \<le> 512"
  using pipe_run_inv [OF assms] by (simp add: pipe_ok_def PIPESIZE_def)

lemma pipe_demo: "pipe_run (fst (pipewrite (pipe_init (replicate PIPESIZE 0)) False [1, 2, 3])) [1, 2, 3] []"
proof -
  let ?p = "pipe_init (replicate PIPESIZE 0)"
  have "pipe_room ?p = PIPESIZE" by (simp add: pipe_room_def pipe_bytes_def pipe_init_def)
  then have "take (pipe_room ?p) [1, 2, 3] = [1, 2, 3 :: byte]" by (simp add: PIPESIZE_def)
  moreover obtain p' wk r where w: "pipewrite ?p False [1, 2, 3] = (p', wk, r)" by (metis prod_cases3)
  moreover have "pipe_run ?p [] []" by (rule pipe_run.fresh) simp
  ultimately show ?thesis using pipe_run.write_run [of ?p "[]" "[]" False "[1, 2, 3]" p' wk r] by simp
qed

theorem pipe_fifo_witness:
  "pipe_bytes (fst (pipewrite (pipe_init (replicate PIPESIZE 0)) False [1, 2, 3])) = [1, 2, 3]"
  using pipe_fifo [OF pipe_demo] by simp

text \<open>
  \<^verbatim>\<open>pipewrite\<close> on a pipe with room for all its bytes returns their number; on a pipe without, it
  stores as many as fit and then fails with \<open>-1\<close> if the reader is gone or the process was killed, and
  otherwise sleeps on \<^verbatim>\<open>&p->nwrite\<close> holding exactly the bytes it has not stored.
\<close>

theorem pipewrite_outcome:
  assumes "pipe_ok p" and "pipewrite p killed bs = (p', wk, r)"
  shows "pipe_bytes p' = pipe_bytes p @ take (pipe_room p) bs \<and>
    r = (if length bs \<le> pipe_room p then Returned (int (length bs))
         else if \<not> readopen p \<or> killed then Returned (-1)
         else Asleep ChanNwrite (drop (pipe_room p) bs))"
  using pipewrite_bytes [OF assms] by simp

theorem pipewrite_outcome_witness:
  "\<exists>p' wk. pipewrite (pipe_init (replicate PIPESIZE 7)) True [1, 2] = (p', wk, Returned 2) \<and> pipe_bytes p' = [1, 2]"
proof -
  let ?p = "pipe_init (replicate PIPESIZE 7)"
  have e: "pipe_bytes ?p = []" by (simp add: pipe_bytes_def pipe_init_def)
  then have ok: "pipe_ok ?p" by (simp add: pipe_ok_def) (simp add: pipe_init_def)
  obtain p' wk r where w: "pipewrite ?p True [1, 2] = (p', wk, r)" by (metis prod_cases3)
  from pipewrite_outcome [OF ok w] show ?thesis
    using w e by (simp add: pipe_room_def PIPESIZE_def)
qed

end
