(* ===== verification/CString.thy ===== *)
theory CString
  imports Prelude
begin

text \<open>
  The C library of the kernel, \<^verbatim>\<open>string.c\<close>. The block operations (\<^verbatim>\<open>memset\<close>, \<^verbatim>\<open>memmove\<close>, \<^verbatim>\<open>memcmp\<close>)
  work on the flat address space, so overlapping source and destination are visible. The string
  operations read a C string through a view, the function from offsets to bytes that a
  \<^verbatim>\<open>char*\<close> denotes, and return the bytes they store.
\<close>

section \<open>Block operations on memory\<close>

text \<open>\<^verbatim>\<open>rep stosb\<close> and \<^verbatim>\<open>rep stosl\<close> of \<^verbatim>\<open>x86.h\<close>; a 32-bit store is little endian.\<close>

fun stosb :: "mem \<Rightarrow> u32 \<Rightarrow> byte \<Rightarrow> nat \<Rightarrow> mem" where
  "stosb m a b 0 = m"
| "stosb m a b (Suc k) = stosb (m(a := b)) (a + 1) b k"

definition store32 :: "mem \<Rightarrow> u32 \<Rightarrow> u32 \<Rightarrow> mem" where
  "store32 m a w = m(a := ucast w, a + 1 := ucast (drop_bit 8 w),
                     a + 2 := ucast (drop_bit 16 w), a + 3 := ucast (drop_bit 24 w))"

fun stosl :: "mem \<Rightarrow> u32 \<Rightarrow> u32 \<Rightarrow> nat \<Rightarrow> mem" where
  "stosl m a w 0 = m"
| "stosl m a w (Suc k) = stosl (store32 m a w) (a + 4) w k"

definition byte_word :: "u32 \<Rightarrow> u32" where
  "byte_word c = (let c = c AND 0xFF in push_bit 24 c OR push_bit 16 c OR push_bit 8 c OR c)"

definition memset :: "mem \<Rightarrow> u32 \<Rightarrow> u32 \<Rightarrow> u32 \<Rightarrow> mem" where
  "memset m dst c n =
     (if unat dst mod 4 = 0 \<and> unat n mod 4 = 0
      then stosl m dst (byte_word c) (unat n div 4)
      else stosb m dst (ucast c) (unat n))"

fun memcmp :: "mem \<Rightarrow> u32 \<Rightarrow> u32 \<Rightarrow> nat \<Rightarrow> int" where
  "memcmp m s1 s2 0 = 0"
| "memcmp m s1 s2 (Suc n) =
     (if m s1 \<noteq> m s2 then int (unat (m s1)) - int (unat (m s2))
      else memcmp m (s1 + 1) (s2 + 1) n)"

text \<open>The two loops of \<^verbatim>\<open>memmove\<close>: ascending, and descending from one past the end.\<close>

fun copy_up :: "mem \<Rightarrow> u32 \<Rightarrow> u32 \<Rightarrow> nat \<Rightarrow> mem" where
  "copy_up m d s 0 = m"
| "copy_up m d s (Suc n) = copy_up (m(d := m s)) (d + 1) (s + 1) n"

fun copy_down :: "mem \<Rightarrow> u32 \<Rightarrow> u32 \<Rightarrow> nat \<Rightarrow> mem" where
  "copy_down m d s 0 = m"
| "copy_down m d s (Suc n) = copy_down (m(d - 1 := m (s - 1))) (d - 1) (s - 1) n"

definition memmove :: "mem \<Rightarrow> u32 \<Rightarrow> u32 \<Rightarrow> u32 \<Rightarrow> mem" where
  "memmove m dst src n =
     (if src < dst \<and> src + n > dst
      then copy_down m (dst + n) (src + n) (unat n)
      else copy_up m dst src (unat n))"

definition memcpy :: "mem \<Rightarrow> u32 \<Rightarrow> u32 \<Rightarrow> u32 \<Rightarrow> mem" where
  "memcpy m dst src n = memmove m dst src n"

text \<open>What a block fill and a simultaneous block move should do.\<close>

definition filled :: "mem \<Rightarrow> u32 \<Rightarrow> byte \<Rightarrow> nat \<Rightarrow> mem" where
  "filled m d b n = (\<lambda>a. if unat (a - d) < n then b else m a)"

definition moved :: "mem \<Rightarrow> u32 \<Rightarrow> u32 \<Rightarrow> nat \<Rightarrow> mem" where
  "moved m d s n = (\<lambda>a. if unat (a - d) < n then m (s + (a - d)) else m a)"

section \<open>C strings\<close>

type_synonym cstr = "nat \<Rightarrow> byte"

definition cstr_of :: "byte list \<Rightarrow> cstr" where
  "cstr_of bs = (\<lambda>i. if i < length bs then bs ! i else 0)"

definition view_at :: "mem \<Rightarrow> u32 \<Rightarrow> cstr" where
  "view_at m p = (\<lambda>i. m (p + of_nat i))"

fun strncmp :: "cstr \<Rightarrow> cstr \<Rightarrow> nat \<Rightarrow> int" where
  "strncmp p q 0 = 0"
| "strncmp p q (Suc n) =
     (if p 0 \<noteq> 0 \<and> p 0 = q 0 then strncmp (\<lambda>i. p (Suc i)) (\<lambda>i. q (Suc i)) n
      else int (unat (p 0)) - int (unat (q 0)))"

text \<open>
  The loop \<^verbatim>\<open>while(n-- > 0 && (*s++ = *t++) != 0)\<close> shared by \<^verbatim>\<open>strncpy\<close> and \<^verbatim>\<open>safestrcpy\<close>: the bytes
  it stores, and what is left of the budget when it stops.
\<close>

fun copy_phase :: "cstr \<Rightarrow> nat \<Rightarrow> byte list \<times> nat" where
  "copy_phase t 0 = ([], 0)"
| "copy_phase t (Suc n) =
     (if t 0 = 0 then ([0], n)
      else let (bs, r) = copy_phase (\<lambda>i. t (Suc i)) n in (t 0 # bs, r))"

definition strncpy :: "cstr \<Rightarrow> int \<Rightarrow> byte list" where
  "strncpy t n = (let (bs, r) = copy_phase t (nat n) in bs @ replicate r 0)"

definition safestrcpy :: "cstr \<Rightarrow> int \<Rightarrow> byte list" where
  "safestrcpy t n = (if n \<le> 0 then [] else fst (copy_phase t (nat n - 1)) @ [0])"

partial_function (option) strlen_from :: "cstr \<Rightarrow> nat \<Rightarrow> nat option" where
  "strlen_from s n = (if s n = 0 then Some n else strlen_from s (Suc n))"

definition strlen :: "cstr \<Rightarrow> nat option" where
  "strlen s = strlen_from s 0"

text \<open>The characters of a string before its NUL, at most \<open>n\<close> of them.\<close>

fun cstr_list :: "cstr \<Rightarrow> nat \<Rightarrow> byte list" where
  "cstr_list p 0 = []"
| "cstr_list p (Suc n) = (if p 0 = 0 then [] else p 0 # cstr_list (\<lambda>i. p (Suc i)) n)"

section \<open>Facts on block operations\<close>

lemma unat_pred_less:
  "k < 4294967296 \<Longrightarrow> unat (x - 1 :: u32) < k \<or> x = 0 \<longleftrightarrow> unat x < Suc k"
proof (cases "x = 0")
  case False
  then have "unat x \<noteq> 0" by (simp add: unat_eq_0)
  with False show ?thesis by (auto simp: unat_minus_one)
qed (auto simp: not_less)

lemma filled_Suc:
  "k < 4294967296 \<Longrightarrow> filled (m(d := b)) (d + 1) b k = filled m d b (Suc k)"
  using unat_pred_less [of k] by (fastforce simp: filled_def fun_eq_iff diff_diff_eq [symmetric])

lemma stosb_filled: "k \<le> 4294967296 \<Longrightarrow> stosb m a b k = filled m a b k"
proof (induction k arbitrary: m a)
  case 0
  show ?case by (simp add: filled_def)
next
  case (Suc k)
  then show ?case by (simp add: filled_Suc)
qed

lemma stosb_append: "stosb m a b (i + k) = stosb (stosb m a b i) (a + of_nat i) b k"
  by (induction i arbitrary: m a) (simp_all add: algebra_simps)

lemma stosl_stosb:
  assumes "\<And>m a. store32 m a w = stosb m a b 4"
  shows "stosl m a w k = stosb m a b (4 * k)"
proof (induction k arbitrary: m a)
  case 0
  show ?case by simp
next
  case (Suc k)
  have "stosb m a b (4 * Suc k) = stosb (stosb m a b 4) (a + 4) b (4 * k)"
    using stosb_append [of m a b 4 "4 * k"] by simp
  then show ?case by (simp add: Suc.IH assms)
qed

lemma low_byte_mask: "(c :: u32) AND 0xFF = take_bit 8 c"
  by (simp add: take_bit_eq_mask mask_eq_exp_minus_1)

lemma byte_word_bytes:
  "ucast (byte_word c) = (ucast c :: byte)" "ucast (drop_bit 8 (byte_word c)) = (ucast c :: byte)"
  "ucast (drop_bit 16 (byte_word c)) = (ucast c :: byte)"
  "ucast (drop_bit 24 (byte_word c)) = (ucast c :: byte)"
  unfolding byte_word_def low_byte_mask Let_def
  by (rule bit_word_eqI; auto simp: bit_simps)+

lemma store32_byte_word: "store32 m a (byte_word c) = stosb m a (ucast c) 4"
proof -
  have "4 = Suc (Suc (Suc (Suc 0)))" by simp
  then show ?thesis by (simp only: stosb.simps store32_def byte_word_bytes) (simp add: add.assoc)
qed

lemma memset_filled: "memset m dst c n = filled m dst (ucast c) (unat n)"
proof -
  have "unat n \<le> 4294967296" by (simp add: less_imp_le)
  then show ?thesis
    by (auto simp: memset_def stosl_stosb [OF store32_byte_word] stosb_filled)
qed

lemma copy_up_moved: "unat (s - d) + n \<le> 4294967296 \<Longrightarrow> copy_up m d s n = moved m d s n"
proof (induction n arbitrary: m d s)
  case 0
  show ?case by (simp add: moved_def)
next
  case (Suc n)
  let ?m = "m(d := m s)"
  have "moved ?m (d + 1) (s + 1) n a = moved m d s (Suc n) a" for a
  proof (cases "a = d")
    case True
    then show ?thesis using Suc.prems by (simp add: moved_def not_less)
  next
    case False
    have eq: "unat (a - (d + 1)) < n \<longleftrightarrow> unat (a - d) < Suc n"
      using unat_pred_less [of n "a - d"] Suc.prems False by (simp add: diff_diff_eq)
    have "s + (a - d) \<noteq> d" if "unat (a - d) < Suc n"
    proof
      assume "s + (a - d) = d"
      then have "unat (s - d + (a - d)) = 0" by (simp add: algebra_simps)
      moreover have "unat (s - d + (a - d)) = unat (s - d) + unat (a - d)"
        using that Suc.prems by (intro unat_add_small) linarith
      ultimately show False using False by (simp add: unat_eq_0)
    qed
    with False eq show ?thesis by (simp add: moved_def algebra_simps)
  qed
  with Suc show ?case by (simp add: fun_eq_iff)
qed

lemma copy_down_moved:
  "unat (d - s) + n \<le> 4294967296 \<Longrightarrow> copy_down m (d + of_nat n) (s + of_nat n) n = moved m d s n"
proof (induction n arbitrary: m)
  case 0
  show ?case by (simp add: moved_def)
next
  case (Suc n)
  let ?m = "m(d + of_nat n := m (s + of_nat n))"
  have "moved ?m d s n a = moved m d s (Suc n) a" for a
  proof (cases "unat (a - d) < n")
    case True
    have "s + (a - d) \<noteq> d + of_nat n"
    proof
      assume "s + (a - d) = d + of_nat n"
      then have "a - d = (d - s) + of_nat n" by (simp add: algebra_simps)
      moreover have "unat (d - s + of_nat n) = unat (d - s) + n"
        using Suc.prems unat_add_small [of "d - s" "of_nat n"] by simp
      ultimately have "unat (a - d) = unat (d - s) + n" by (simp only:)
      with True show False by simp
    qed
    with True show ?thesis by (simp add: moved_def)
  next
    case False
    have "unat (a - d) = n \<longleftrightarrow> a = d + of_nat n"
      using Suc.prems by (auto simp: algebra_simps)
    with False show ?thesis by (auto simp: moved_def less_Suc_eq)
  qed
  with Suc show ?case by (simp add: fun_eq_iff algebra_simps)
qed

section \<open>Facts on C strings\<close>

lemma strncmp_eq_0: "strncmp p q n = 0 \<longleftrightarrow> cstr_list p n = cstr_list q n"
proof (induction p q n rule: strncmp.induct)
  case (2 p q n)
  have "int (unat (p 0)) - int (unat (q 0)) = 0 \<longleftrightarrow> p 0 = q 0"
    by (metis eq_iff_diff_eq_0 of_nat_eq_iff word_unat_eq_iff)
  with 2 show ?case by auto
qed simp

lemma copy_phase_length: "copy_phase t n = (bs, r) \<Longrightarrow> length bs + r = n"
  by (induction t n arbitrary: bs r rule: copy_phase.induct) (auto split: if_splits prod.splits)

lemma copy_phase_cstr:
  "copy_phase t n = (bs, r) \<Longrightarrow> cstr_list (cstr_of (bs @ 0 # xs)) (n + k) = cstr_list t n"
proof (induction t n arbitrary: bs r rule: copy_phase.induct)
  case (1 t)
  then show ?case by (cases k) (auto simp: cstr_of_def)
next
  case (2 t n)
  show ?case
  proof (cases "t 0 = 0")
    case True
    with "2.prems" show ?thesis by (auto simp: cstr_of_def)
  next
    case False
    obtain bs' r' where c: "copy_phase (\<lambda>i. t (Suc i)) n = (bs', r')" by fastforce
    with False "2.prems" have bs: "bs = t 0 # bs'" by auto
    have shift: "(\<lambda>i. cstr_of (t 0 # bs' @ 0 # xs) (Suc i)) = cstr_of (bs' @ 0 # xs)"
      by (simp add: cstr_of_def fun_eq_iff)
    show ?thesis
      using False "2.IH" [OF False c] by (simp add: bs shift) (simp add: cstr_of_def)
  qed
qed

lemma strncpy_length: "length (strncpy t n) = nat n"
  using copy_phase_length [of t "nat n"] by (auto simp: strncpy_def split: prod.splits)

lemma strlen_from_hit:
  "n \<le> k \<Longrightarrow> s k = 0 \<Longrightarrow> (\<And>i. n \<le> i \<Longrightarrow> i < k \<Longrightarrow> s i \<noteq> 0) \<Longrightarrow> strlen_from s n = Some k"
proof (induction "k - n" arbitrary: n)
  case 0
  then show ?case by (subst strlen_from.simps) simp
next
  case (Suc d)
  then have "strlen_from s (Suc n) = Some k" by (intro Suc.hyps(1)) auto
  with Suc show ?case by (subst strlen_from.simps) auto
qed

section \<open>Properties\<close>

text \<open>
  \<^verbatim>\<open>memmove\<close> is a simultaneous move even when source and destination overlap: every destination
  byte receives what the corresponding source byte held before the call, and no other byte of the
  address space changes. The blocks must not run past the end of the address space.
\<close>

theorem memmove_correct:
  assumes "unat src + unat n < 4294967296" and "unat dst + unat n \<le> 4294967296"
  shows "memmove m dst src n = moved m dst src (unat n)"
proof (cases "src < dst \<and> src + n > dst")
  case True
  have "unat (dst - src) + unat n \<le> 4294967296"
    using True assms by (simp add: unat_diff_u32 word_less_nat_alt word_le_nat_alt)
  then show ?thesis
    using True copy_down_moved [of dst src "unat n" m] by (simp add: memmove_def)
next
  case False
  have "unat (src + n) = unat src + unat n" using assms(1) by (rule unat_add_small)
  with False have "dst \<le> src \<or> unat src + unat n \<le> unat dst"
    by (auto simp: word_less_nat_alt word_le_nat_alt)
  then have "unat (src - dst) + unat n \<le> 4294967296"
    using assms by (auto simp: unat_diff_u32 word_le_nat_alt)
  then show ?thesis
    using False copy_up_moved [of src dst "unat n" m] by (auto simp: memmove_def)
qed

theorem memmove_correct_witness:
  "unat (memmove (\<lambda>a. ucast a) 102 100 4 105) = 103 \<and> memmove (\<lambda>a. ucast a) 102 100 4 = moved (\<lambda>a. ucast a) 102 100 4"
  using memmove_correct [of 100 4 102 "\<lambda>a. ucast a"] by (simp add: moved_def)

text \<open>
  The two ways \<^verbatim>\<open>memset\<close> fills a block, word stores of the replicated byte when address and length
  are multiples of four and byte stores otherwise, have the same effect: exactly the \<open>n\<close> bytes
  from \<^verbatim>\<open>dst\<close> hold the low byte of \<^verbatim>\<open>c\<close>.
\<close>

theorem memset_fills: "memset m dst c n = filled m dst (ucast c) (unat n)"
  by (rule memset_filled)

text \<open>
  \<^verbatim>\<open>safestrcpy\<close> with a positive bound never stores more than the bound, always stores a NUL, and
  the string it leaves is the source truncated to one character less than the bound.
\<close>

theorem safestrcpy_terminated:
  assumes "0 < n"
  shows "length (safestrcpy t n) \<le> nat n \<and> last (safestrcpy t n) = 0 \<and>
    cstr_list (cstr_of (safestrcpy t n)) (nat n) = cstr_list t (nat n - 1)"
proof -
  obtain bs r where c: "copy_phase t (nat n - 1) = (bs, r)" by fastforce
  have s: "safestrcpy t n = bs @ [0]" using assms c by (simp add: safestrcpy_def)
  have n: "nat n = nat n - 1 + 1" using assms by simp
  show ?thesis
    using copy_phase_length [OF c] copy_phase_cstr [OF c, of "[]" 1] s n by simp
qed

theorem safestrcpy_terminated_witness:
  "length (safestrcpy (\<lambda>_. 65) 4) \<le> 4 \<and> last (safestrcpy (\<lambda>_. 65) 4) = 0"
  using safestrcpy_terminated [of 4 "\<lambda>_. 65"] by simp

end
