(* ===== verification/Format.thy ===== *)
theory Format
  imports CString
begin

text \<open>
  Formatted output and its inverse: \<^verbatim>\<open>printint\<close> and \<^verbatim>\<open>cprintf\<close> of \<^verbatim>\<open>console.c\<close>, \<^verbatim>\<open>printint\<close> and
  \<^verbatim>\<open>printf\<close> of the user library \<^verbatim>\<open>printf.c\<close>, and the string routines of \<^verbatim>\<open>ulib.c\<close>. A routine returns
  the bytes it would hand to \<^verbatim>\<open>consputc\<close> or \<^verbatim>\<open>putc\<close>; \<open>None\<close> stands for a loop that does not end. The
  variable arguments are the words \<open>args 0\<close>, \<open>args 1\<close>, ... of the stack, and \<open>m\<close> is the memory their
  string arguments point into. A format is the list of its bytes before the NUL.
\<close>

abbreviation asc :: "char \<Rightarrow> byte" where
  "asc c \<equiv> of_char c"

abbreviation bytes :: "string \<Rightarrow> byte list" where
  "bytes s \<equiv> map of_char s"

section \<open>Numbers\<close>

definition lower_digits :: "byte list" where
  "lower_digits = bytes ''0123456789abcdef''"

definition upper_digits :: "byte list" where
  "upper_digits = bytes ''0123456789ABCDEF''"

text \<open>The loop \<^verbatim>\<open>do buf[i++] = digits[x % base]; while((x /= base) != 0)\<close>: what it leaves in \<^verbatim>\<open>buf\<close>.\<close>

partial_function (option) digit_loop :: "byte list \<Rightarrow> u32 \<Rightarrow> u32 \<Rightarrow> byte list option" where
  "digit_loop digits base x =
     (let d = digits ! unat (x mod base)
      in if x div base = 0 then Some [d]
         else Option.bind (digit_loop digits base (x div base)) (\<lambda>ds. Some (d # ds)))"

text \<open>The array \<^verbatim>\<open>buf\<close> when the sign has been added; it is sent from its last element to its first.\<close>

definition print_buf :: "byte list \<Rightarrow> u32 \<Rightarrow> u32 \<Rightarrow> bool \<Rightarrow> byte list option" where
  "print_buf digits xx base sign =
     (let neg = sign \<and> sint xx < 0;
          x = (if neg then - xx else xx)
      in map_option (\<lambda>buf. if neg then buf @ [asc CHR ''-''] else buf) (digit_loop digits base x))"

definition printint :: "u32 \<Rightarrow> u32 \<Rightarrow> bool \<Rightarrow> byte list option" where
  "printint xx base sign = map_option rev (print_buf lower_digits xx base sign)"

definition uprintint :: "u32 \<Rightarrow> u32 \<Rightarrow> bool \<Rightarrow> byte list option" where
  "uprintint xx base sign = map_option rev (print_buf upper_digits xx base sign)"

section \<open>Formats\<close>

partial_function (option) emit_string :: "mem \<Rightarrow> u32 \<Rightarrow> byte list option" where
  "emit_string m s =
     (if m s = 0 then Some [] else Option.bind (emit_string m (s + 1)) (\<lambda>bs. Some (m s # bs)))"

definition string_arg :: "mem \<Rightarrow> u32 \<Rightarrow> byte list option" where
  "string_arg m s = (if s = 0 then Some (bytes ''(null)'') else emit_string m s)"

abbreviation emit :: "byte list option \<Rightarrow> byte list option \<Rightarrow> byte list option" where
  "emit a b \<equiv> Option.bind a (\<lambda>x. map_option (\<lambda>y. x @ y) b)"

fun cprintf :: "mem \<Rightarrow> (nat \<Rightarrow> u32) \<Rightarrow> nat \<Rightarrow> byte list \<Rightarrow> byte list option" where
  "cprintf m args k [] = Some []"
| "cprintf m args k [c] = (if c \<noteq> asc CHR ''%'' then Some [c] else Some [])"
| "cprintf m args k (c # d # fmt) =
     (if c \<noteq> asc CHR ''%'' then emit (Some [c]) (cprintf m args k (d # fmt))
      else if d = asc CHR ''d'' then emit (printint (args k) 10 True) (cprintf m args (Suc k) fmt)
      else if d = asc CHR ''x'' \<or> d = asc CHR ''p''
        then emit (printint (args k) 16 False) (cprintf m args (Suc k) fmt)
      else if d = asc CHR ''s'' then emit (string_arg m (args k)) (cprintf m args (Suc k) fmt)
      else if d = asc CHR ''%'' then emit (Some [asc CHR ''%'']) (cprintf m args k fmt)
      else emit (Some [asc CHR ''%'', d]) (cprintf m args k fmt))"

text \<open>The user \<^verbatim>\<open>printf\<close> keeps a state variable instead of reading ahead.\<close>

fun printf :: "mem \<Rightarrow> (nat \<Rightarrow> u32) \<Rightarrow> nat \<Rightarrow> bool \<Rightarrow> byte list \<Rightarrow> byte list option" where
  "printf m args k pct [] = Some []"
| "printf m args k False (c # fmt) =
     (if c = asc CHR ''%'' then printf m args k True fmt
      else emit (Some [c]) (printf m args k False fmt))"
| "printf m args k True (c # fmt) =
     (if c = asc CHR ''d'' then emit (uprintint (args k) 10 True) (printf m args (Suc k) False fmt)
      else if c = asc CHR ''x'' \<or> c = asc CHR ''p''
        then emit (uprintint (args k) 16 False) (printf m args (Suc k) False fmt)
      else if c = asc CHR ''s'' then emit (string_arg m (args k)) (printf m args (Suc k) False fmt)
      else if c = asc CHR ''c'' then emit (Some [ucast (args k)]) (printf m args (Suc k) False fmt)
      else if c = asc CHR ''%'' then emit (Some [c]) (printf m args k False fmt)
      else emit (Some [asc CHR ''%'', c]) (printf m args k False fmt))"

section \<open>The user string library\<close>

text \<open>\<^verbatim>\<open>*s\<close> is a signed \<^verbatim>\<open>char\<close>; the accumulator is an \<^verbatim>\<open>int\<close> and wraps.\<close>

partial_function (option) atoi_loop :: "cstr \<Rightarrow> nat \<Rightarrow> u32 \<Rightarrow> u32 option" where
  "atoi_loop s i n =
     (if 48 \<le> sint (s i) \<and> sint (s i) \<le> 57
      then atoi_loop s (Suc i) (n * 10 + scast (s i) - 48) else Some n)"

definition atoi :: "cstr \<Rightarrow> u32 option" where
  "atoi s = atoi_loop s 0 0"

partial_function (option) strcmp_from :: "cstr \<Rightarrow> cstr \<Rightarrow> nat \<Rightarrow> int option" where
  "strcmp_from p q i =
     (if p i \<noteq> 0 \<and> p i = q i then strcmp_from p q (Suc i)
      else Some (int (unat (p i)) - int (unat (q i))))"

definition strcmp :: "cstr \<Rightarrow> cstr \<Rightarrow> int option" where
  "strcmp p q = strcmp_from p q 0"

text \<open>\<^verbatim>\<open>strchr\<close> returns the offset of the character, or \<open>None\<close> inside \<open>Some\<close> for the null pointer.\<close>

partial_function (option) strchr_from :: "cstr \<Rightarrow> byte \<Rightarrow> nat \<Rightarrow> nat option option" where
  "strchr_from s c i =
     (if s i = 0 then Some None else if s i = c then Some (Some i) else strchr_from s c (Suc i))"

definition strchr :: "cstr \<Rightarrow> byte \<Rightarrow> nat option option" where
  "strchr s c = strchr_from s c 0"

partial_function (option) strcpy_from :: "cstr \<Rightarrow> nat \<Rightarrow> byte list option" where
  "strcpy_from t i =
     (if t i = 0 then Some [0] else Option.bind (strcpy_from t (Suc i)) (\<lambda>bs. Some (t i # bs)))"

definition strcpy :: "cstr \<Rightarrow> byte list option" where
  "strcpy t = strcpy_from t 0"

text \<open>\<^verbatim>\<open>gets\<close>: the bytes stored in \<^verbatim>\<open>buf\<close>; \<open>inp\<close> is what one-byte reads of descriptor 0 will return.\<close>

fun gets_loop :: "byte list \<Rightarrow> nat \<Rightarrow> byte list" where
  "gets_loop inp 0 = []"
| "gets_loop [] room = []"
| "gets_loop (c # inp) (Suc room) =
     (if c = asc CHR ''\<newline>'' \<or> c = 13 then [c] else c # gets_loop inp room)"

definition gets :: "byte list \<Rightarrow> int \<Rightarrow> byte list" where
  "gets inp n = gets_loop inp (nat (n - 1)) @ [0]"

section \<open>Values of digit strings\<close>

definition digit_val :: "byte \<Rightarrow> nat" where
  "digit_val d = (if d \<ge> 97 then unat d - 87 else if d \<ge> 65 then unat d - 55 else unat d - 48)"

text \<open>The number a list of digits denotes, least significant first as in \<^verbatim>\<open>buf\<close>.\<close>

fun le_value :: "nat \<Rightarrow> byte list \<Rightarrow> nat" where
  "le_value b [] = 0"
| "le_value b (d # ds) = digit_val d + b * le_value b ds"

lemma digit_tables_length: "length lower_digits = 16" "length upper_digits = 16"
  by (simp_all add: lower_digits_def upper_digits_def)

lemma digit_val_table:
  assumes "n < 16"
  shows "digit_val (lower_digits ! n) = n" "digit_val (upper_digits ! n) = n"
proof -
  have "map digit_val lower_digits = [0..<16]" "map digit_val upper_digits = [0..<16]"
    by code_simp+
  then have "map digit_val lower_digits ! n = n" "map digit_val upper_digits ! n = n"
    using assms by simp_all
  then show "digit_val (lower_digits ! n) = n" "digit_val (upper_digits ! n) = n"
    using assms nth_map [of n lower_digits digit_val] nth_map [of n upper_digits digit_val]
    by (simp_all add: digit_tables_length)
qed

lemma digit_loop_value:
  assumes "2 \<le> base" and "base \<le> 16" and "unat x < unat base ^ n" and "0 < n"
    and "\<And>i. i < 16 \<Longrightarrow> digit_val (digits ! i) = i"
  shows "\<exists>ds. digit_loop digits base x = Some ds \<and> 0 < length ds \<and> length ds \<le> n \<and> le_value (unat base) ds = unat x \<and>
    set ds \<subseteq> (\<lambda>i. digits ! i) ` {..<unat base}"
  using assms(3,4)
proof (induction n arbitrary: x)
  case (Suc n)
  have b: "2 \<le> unat base" "unat base \<le> 16" using assms(1,2) by (simp_all add: word_le_nat_alt)
  have m: "unat (x mod base) = unat x mod unat base" by (rule unat_mod)
  have lt: "unat x mod unat base < unat base" using b by simp
  have d: "digit_val (digits ! unat (x mod base)) = unat x mod unat base"
    using assms(5) [of "unat x mod unat base"] m lt b by simp
  have dv: "unat (x div base) = unat x div unat base" by (rule unat_div)
  show ?case
  proof (cases "x div base = 0")
    case True
    then have "unat x div unat base = 0" using dv by simp
    then have "unat x mod unat base = unat x" using b by (simp add: div_eq_0_iff)
    with True d m lt show ?thesis by (subst digit_loop.simps) auto
  next
    case False
    then have nz: "unat x div unat base \<noteq> 0" using dv by (metis unat_eq_0)
    have "unat x div unat base < unat base ^ n"
      using Suc.prems(1) b by (simp add: less_mult_imp_div_less mult.commute)
    with nz dv obtain ds where ds: "digit_loop digits base (x div base) = Some ds" "0 < length ds" "length ds \<le> n"
        "le_value (unat base) ds = unat x div unat base" "set ds \<subseteq> (\<lambda>i. digits ! i) ` {..<unat base}"
      using Suc.IH [of "x div base"] by (cases n) auto
    with False d m lt show ?thesis by (subst digit_loop.simps) auto
  qed
qed simp

lemma decimal_tables_agree: "unat base \<le> 10 \<Longrightarrow> 0 < base \<Longrightarrow> lower_digits ! unat (x mod base) = upper_digits ! unat (x mod base)"
proof -
  assume b: "unat base \<le> 10" "0 < base"
  then have "unat (x mod base) < 10" by (simp add: unat_mod word_less_nat_alt) (metis dual_order.strict_trans1 mod_less_divisor)
  moreover have "take 10 lower_digits = take 10 upper_digits"
    by (simp add: lower_digits_def upper_digits_def)
  ultimately show ?thesis by (metis nth_take)
qed

lemma digit_loop_10:
  "\<exists>ds. digit_loop lower_digits 10 x = Some ds \<and> digit_loop upper_digits 10 x = Some ds \<and>
    0 < length ds \<and> length ds \<le> 10 \<and> le_value 10 ds = unat x \<and> set ds \<subseteq> (\<lambda>i. lower_digits ! i) ` {..<10}"
proof -
  have lt: "unat x < unat (10 :: u32) ^ 10" by (rule less_trans [OF unat_lt_2p32]) simp
  obtain ds where ds: "digit_loop lower_digits 10 x = Some ds" "0 < length ds" "length ds \<le> 10"
      "le_value 10 ds = unat x" "set ds \<subseteq> (\<lambda>i. lower_digits ! i) ` {..<10}"
    using digit_loop_value [of 10 x 10 lower_digits] lt digit_val_table(1) by auto
  have "digit_loop lower_digits 10 x = Some es \<Longrightarrow> digit_loop upper_digits 10 x = Some es" for x es
  proof (induction es arbitrary: x)
    case Nil
    then show ?case by (subst (asm) digit_loop.simps) (auto simp: Let_def bind_eq_Some_conv split: if_splits)
  next
    case (Cons e es)
    then show ?case using decimal_tables_agree [of 10 x]
      by (subst (asm) (2) digit_loop.simps, subst digit_loop.simps)
        (auto simp: Let_def bind_eq_Some_conv split: if_splits)
  qed
  with ds show ?thesis by blast
qed

lemma unat_neg_sint: "sint (x :: u32) < 0 \<Longrightarrow> int (unat (- x)) = - sint x"
proof -
  assume neg: "sint x < 0"
  have ge: "- 2147483648 \<le> sint x" using sint_greater_eq [of x] by simp
  have u: "uint (word_of_int k :: u32) = k" if "0 \<le> k" "k < 4294967296" for k
    using that by (simp add: uint_word_of_int)
  have "uint (word_of_int (- sint x) :: u32) = - sint x" using neg ge by (intro u) auto
  moreover have "word_of_int (- sint x) = - x" by simp
  ultimately show ?thesis by (metis uint_nat)
qed

lemma unat_pos_sint: "0 \<le> sint (x :: u32) \<Longrightarrow> int (unat x) = sint x"
proof -
  assume pos: "0 \<le> sint x"
  have "sint x < 2147483648" using sint_less [of x] by simp
  with pos have "uint (word_of_int (sint x) :: u32) = sint x" by (simp only: uint_word_of_int) simp
  then show ?thesis by simp
qed

lemma decimal_digits:
  "\<exists>ds. printint xx 10 True = Some ((if sint xx < 0 then [asc CHR ''-''] else []) @ rev ds) \<and>
     uprintint xx 10 True = printint xx 10 True \<and> 0 < length ds \<and> length ds \<le> 10 \<and>
     int (le_value 10 ds) = \<bar>sint xx\<bar> \<and> set ds \<subseteq> (\<lambda>i. lower_digits ! i) ` {..<10}"
proof -
  let ?x = "if sint xx < 0 then - xx else xx"
  obtain ds where ds: "digit_loop lower_digits 10 ?x = Some ds" "digit_loop upper_digits 10 ?x = Some ds"
      "0 < length ds" "length ds \<le> 10" "le_value 10 ds = unat ?x" "set ds \<subseteq> (\<lambda>i. lower_digits ! i) ` {..<10}"
    using digit_loop_10 [of ?x] by blast
  have "int (unat ?x) = \<bar>sint xx\<bar>" using unat_neg_sint [of xx] unat_pos_sint [of xx] by auto
  with ds show ?thesis
    by (intro exI [of _ ds]) (auto simp: printint_def uprintint_def print_buf_def Let_def split: if_splits)
qed

lemma hex_digits:
  "\<exists>ds. printint xx 16 False = Some (rev ds) \<and> 0 < length ds \<and> length ds \<le> 8 \<and> le_value 16 ds = unat xx"
proof -
  have "unat xx < unat (16 :: u32) ^ 8" by simp
  from digit_loop_value [of 16 xx 8 lower_digits, OF _ _ this _ digit_val_table(1)] show ?thesis
    by (auto simp: printint_def print_buf_def)
qed

section \<open>Reading back\<close>

lemma decimal_byte:
  assumes "b \<in> (\<lambda>i. lower_digits ! i) ` {..<10}"
  shows "48 \<le> sint b \<and> sint b \<le> 57 \<and> (scast b - 48 :: u32) = of_nat (digit_val b)"
proof -
  have "\<forall>b \<in> set (take 10 lower_digits). 48 \<le> sint b \<and> sint b \<le> 57 \<and> (scast b - 48 :: u32) = of_nat (digit_val b)"
    by code_simp
  moreover have "b \<in> set (take 10 lower_digits)"
    using assms by (auto simp: in_set_conv_nth digit_tables_length)
  ultimately show ?thesis by blast
qed

lemma be_value_snoc: "le_value b (rev (ds @ [d])) = digit_val d + b * le_value b (rev ds)"
  by simp

lemma atoi_loop_digits:
  assumes "set bs \<subseteq> (\<lambda>i. lower_digits ! i) ` {..<10}" and "i \<le> length bs"
  shows "atoi_loop (cstr_of bs) i (of_nat (le_value 10 (rev (take i bs)))) = Some (of_nat (le_value 10 (rev bs)))"
  using assms(2)
proof (induction "length bs - i" arbitrary: i)
  case 0
  then show ?case by (subst atoi_loop.simps) (simp add: cstr_of_def)
next
  case (Suc k)
  then have i: "i < length bs" by simp
  then have b: "48 \<le> sint (bs ! i) \<and> sint (bs ! i) \<le> 57 \<and> (scast (bs ! i) - 48 :: u32) = of_nat (digit_val (bs ! i))"
    using assms(1) by (intro decimal_byte) (meson nth_mem subsetD)
  have t: "take (Suc i) bs = take i bs @ [bs ! i]" using i by (simp add: take_Suc_conv_app_nth)
  have "of_nat (le_value 10 (rev (take i bs))) * 10 + scast (bs ! i) - 48
      = (of_nat (le_value 10 (rev (take (Suc i) bs))) :: u32)"
    using b unfolding t be_value_snoc by (simp add: algebra_simps add_diff_eq [symmetric])
  moreover have "atoi_loop (cstr_of bs) (Suc i) (of_nat (le_value 10 (rev (take (Suc i) bs)))) = Some (of_nat (le_value 10 (rev bs)))"
    using Suc i by (intro Suc.hyps) auto
  ultimately show ?case using b i by (subst atoi_loop.simps) (simp add: cstr_of_def)
qed

text \<open>Formats both printers know and print alike: no \<^verbatim>\<open>%c\<close> and no hexadecimal directive.\<close>

fun common_format :: "byte list \<Rightarrow> bool" where
  "common_format (c # d # fmt) =
     (if c \<noteq> asc CHR ''%'' then common_format (d # fmt)
      else d \<noteq> asc CHR ''c'' \<and> d \<noteq> asc CHR ''x'' \<and> d \<noteq> asc CHR ''p'' \<and> common_format fmt)"
| "common_format _ = True"

section \<open>Properties\<close>

text \<open>
  Both \<^verbatim>\<open>printint\<close> routines end on every 32-bit value, INT_MIN included, and stay within their
  16-byte buffer: in decimal they print an optional minus sign and at most 10 digits that denote the
  absolute value of the number, in hexadecimal at most 8 digits that denote its unsigned value.
\<close>

theorem printint_value:
  "(\<exists>ds. printint xx 10 True = Some ((if sint xx < 0 then [asc CHR ''-''] else []) @ rev ds) \<and>
      uprintint xx 10 True = printint xx 10 True \<and> length ds \<le> 10 \<and> int (le_value 10 ds) = \<bar>sint xx\<bar>) \<and>
   (\<exists>ds. printint xx 16 False = Some (rev ds) \<and> length ds \<le> 8 \<and> le_value 16 ds = unat xx)"
  using decimal_digits [of xx] hex_digits [of xx] by blast

text \<open>
  C32. \<^verbatim>\<open>atoi\<close> reads back what \<^verbatim>\<open>printf\<close> prints: for every non-negative number, the decimal string the
  user library prints is turned into the same number again.
\<close>

theorem atoi_printint:
  assumes "0 \<le> sint xx"
  shows "Option.bind (uprintint xx 10 True) (\<lambda>bs. atoi (cstr_of bs)) = Some xx"
proof -
  obtain ds where ds: "printint xx 10 True = Some (rev ds)" "uprintint xx 10 True = printint xx 10 True"
      "int (le_value 10 ds) = sint xx" "set ds \<subseteq> (\<lambda>i. lower_digits ! i) ` {..<10}"
    using decimal_digits [of xx] assms by auto
  have "atoi (cstr_of (rev ds)) = Some (of_nat (le_value 10 ds))"
    using atoi_loop_digits [of "rev ds" 0] ds(4) by (simp add: atoi_def)
  moreover have "le_value 10 ds = unat xx"
    using ds(3) unat_pos_sint [OF assms] by linarith
  then have "of_nat (le_value 10 ds) = xx" by simp
  ultimately show ?thesis using ds by simp
qed

theorem atoi_printint_witness:
  "0 \<le> sint (1234 :: u32) \<and> Option.bind (uprintint 1234 10 True) (\<lambda>bs. atoi (cstr_of bs)) = Some 1234"
  using atoi_printint [of 1234] by simp

text \<open>
  The kernel's \<^verbatim>\<open>cprintf\<close> and the user library's \<^verbatim>\<open>printf\<close>, written in two different ways, print
  the same bytes and consume the same arguments on every format without \<^verbatim>\<open>%c\<close>, which only \<^verbatim>\<open>printf\<close>
  knows, and without hexadecimal directives, which differ in the case of the digits.
\<close>

theorem printf_cprintf:
  assumes "common_format fmt"
  shows "printf m args k False fmt = cprintf m args k fmt"
  using assms
proof (induction m args k fmt rule: cprintf.induct)
  case (3 m args k c d fmt)
  have "uprintint x 10 True = printint x 10 True" for x using decimal_digits by blast
  with 3 show ?case by (auto split: if_splits intro!: Option.bind_cong)
qed simp_all

theorem printf_cprintf_witness:
  "common_format (bytes ''a%d%%%q'') \<and>
   printf (\<lambda>_. 0) (\<lambda>_. 7) 0 False (bytes ''a%d%%%q'') = cprintf (\<lambda>_. 0) (\<lambda>_. 7) 0 (bytes ''a%d%%%q'')"
  using printf_cprintf [of "bytes ''a%d%%%q''"] by simp

end
