(* ===== verification/Console.thy ===== *)
theory Console
  imports Ring Format
begin

text \<open>
  The console, \<^verbatim>\<open>console.c\<close>: the CGA screen and serial output of \<^verbatim>\<open>consputc\<close>, and the input line
  discipline of \<^verbatim>\<open>consoleintr\<close> and \<^verbatim>\<open>consoleread\<close>, whose state is a ring buffer with three free-running
  indices. The ring is shown to implement an abstract terminal: a list of bytes ready for readers and
  the line being edited. The routines run under \<^verbatim>\<open>cons.lock\<close>; a reader that has to wait is cut there,
  as in the pipe, and its \<open>Waiting\<close> outcome holds the bytes it still wants.
\<close>

section \<open>Output\<close>

definition BACKSPACE :: int where "BACKSPACE = 0x100"

record screen =
  crt :: "u16 list"
  cursor :: nat

text \<open>
  \<^verbatim>\<open>cgaputc\<close>: \<open>cursor\<close> is the position the CRT controller keeps, read at the start and written at the
  end. Cells are 16-bit; the two block operations of the scroll are list operations on whole cells.
\<close>

definition cell :: "int \<Rightarrow> u16" where
  "cell c = (word_of_int c AND 0xFF) OR 0x0700"

definition cga_place :: "screen \<Rightarrow> int \<Rightarrow> u16 list \<times> nat" where
  "cga_place s c =
     (let pos = cursor s
      in if c = 10 then (crt s, pos + (80 - pos mod 80))
         else if c = BACKSPACE then (crt s, if pos > 0 then pos - 1 else pos)
         else ((crt s)[pos := cell c], pos + 1))"

definition cga_scroll :: "u16 list \<Rightarrow> nat \<Rightarrow> u16 list \<times> nat" where
  "cga_scroll v pos =
     (let v = take (23 * 80) (drop 80 v) @ drop (23 * 80) v;
          pos = pos - 80;
          v = take pos v @ replicate (24 * 80 - pos) 0 @ drop (24 * 80) v
      in (v, pos))"

definition cgaputc :: "screen \<Rightarrow> int \<Rightarrow> screen res" where
  "cgaputc s c =
     (let (v, pos) = cga_place s c
      in if pos > 25 * 80 then panic ''pos under/overflow''
         else let (v, pos) = (if pos div 80 \<ge> 24 then cga_scroll v pos else (v, pos))
              in ret (s\<lparr>crt := v[pos := cell 32], cursor := pos\<rparr>))"

record console =
  panicked :: bool
  has_uart :: bool
  serial :: "byte list"
  display :: screen

definition uartputc :: "console \<Rightarrow> int \<Rightarrow> console" where
  "uartputc s c = (if has_uart s then s\<lparr>serial := serial s @ [word_of_int c]\<rparr> else s)"

definition consputc :: "console \<Rightarrow> int \<Rightarrow> console res" where
  "consputc s c =
     (if panicked s then Inl (Sleep ''panicked'')
      else let s = (if c = BACKSPACE then uartputc (uartputc (uartputc s 8) 32) 8 else uartputc s c)
           in andthen (cgaputc (display s) c) (\<lambda>d. ret (s\<lparr>display := d\<rparr>)))"

fun consolewrite_loop :: "console \<Rightarrow> byte list \<Rightarrow> console res" where
  "consolewrite_loop s [] = ret s"
| "consolewrite_loop s (b # bs) = andthen (consputc s (uint b)) (\<lambda>s. consolewrite_loop s bs)"

definition consolewrite :: "console \<Rightarrow> byte list \<Rightarrow> (console \<times> int) res" where
  "consolewrite s buf = andthen (consolewrite_loop s buf) (\<lambda>s. ret (s, int (length buf)))"

section \<open>Input\<close>

definition INPUT_BUF :: nat where "INPUT_BUF = 128"

record input =
  ibuf :: "byte list"
  ir :: u32
  iw :: u32
  ie :: u32

text \<open>The control characters of the line discipline.\<close>

definition ctl :: "char \<Rightarrow> int" where
  "ctl c = of_char c - 64"

function kill_line :: "input \<Rightarrow> input \<times> int list" where
  "kill_line s =
     (if ie s \<noteq> iw s \<and> ibuf s ! (unat (ie s - 1) mod INPUT_BUF) \<noteq> 10
      then let (s', out) = kill_line (s\<lparr>ie := ie s - 1\<rparr>) in (s', BACKSPACE # out)
      else (s, []))"
  by auto

termination
proof (relation "measure (\<lambda>s. unat (ie s - iw s))")
  fix s :: input
  assume "ie s \<noteq> iw s \<and> ibuf s ! (unat (ie s - 1) mod INPUT_BUF) \<noteq> 10"
  then show "(s\<lparr>ie := ie s - 1\<rparr>, s) \<in> measure (\<lambda>s. unat (ie s - iw s))"
    using unat_dist [of "iw s" "ie s"] by (auto simp: algebra_simps)
qed simp

declare kill_line.simps [simp del]

text \<open>What one character does: the new buffer, the characters echoed, and whether readers are woken.\<close>

definition input_char :: "input \<Rightarrow> int \<Rightarrow> input \<times> int list \<times> bool" where
  "input_char s c =
     (if c = ctl CHR ''U'' then (let (s', out) = kill_line s in (s', out, False))
      else if c = ctl CHR ''H'' \<or> c = 0x7f then
        (if ie s \<noteq> iw s then (s\<lparr>ie := ie s - 1\<rparr>, [BACKSPACE], False) else (s, [], False))
      else if c \<noteq> 0 \<and> ie s - ir s < of_nat INPUT_BUF then
        (let c = (if c = 13 then 10 else c);
             s = s\<lparr>ibuf := (ibuf s)[unat (ie s) mod INPUT_BUF := word_of_int c], ie := ie s + 1\<rparr>
         in if c = 10 \<or> c = ctl CHR ''D'' \<or> ie s = ir s + of_nat INPUT_BUF
            then (s\<lparr>iw := ie s\<rparr>, [c], True) else (s, [c], False))
      else (s, [], False))"

text \<open>
  \<^verbatim>\<open>consoleintr\<close> on the characters its \<^verbatim>\<open>getc\<close> argument returns, up to the first negative one: the
  buffer, the echo, whether readers are woken, and whether \<^verbatim>\<open>procdump\<close> runs at the end.
\<close>

fun consoleintr :: "input \<Rightarrow> int list \<Rightarrow> input \<times> int list \<times> bool \<times> bool" where
  "consoleintr s [] = (s, [], False, False)"
| "consoleintr s (c # cs) =
     (if c < 0 then (s, [], False, False)
      else if c = ctl CHR ''P'' then
        (let (s', out, wk, dump) = consoleintr s cs in (s', out, wk, True))
      else let (s1, out1, wk1) = input_char s c;
               (s2, out2, wk2, dump) = consoleintr s1 cs
           in (s2, out1 @ out2, wk1 \<or> wk2, dump))"

datatype read_outcome = Done int | Waiting nat

fun consoleread_loop :: "input \<Rightarrow> bool \<Rightarrow> nat \<Rightarrow> nat \<Rightarrow> input \<times> byte list \<times> read_outcome" where
  "consoleread_loop s killed target 0 = (s, [], Done (int target))"
| "consoleread_loop s killed target (Suc n) =
     (if ir s = iw s then (s, [], if killed then Done (-1) else Waiting (Suc n))
      else let c = ibuf s ! (unat (ir s) mod INPUT_BUF);
               s' = s\<lparr>ir := ir s + 1\<rparr>
           in if uint c = ctl CHR ''D'' then
                (if Suc n < target then s'\<lparr>ir := ir s' - 1\<rparr> else s', [], Done (int target - int (Suc n)))
              else if c = 10 then (s', [c], Done (int target - int n))
              else let (s'', bs, r) = consoleread_loop s' killed target n in (s'', c # bs, r))"

definition consoleread :: "input \<Rightarrow> bool \<Rightarrow> int \<Rightarrow> input \<times> byte list \<times> read_outcome" where
  "consoleread s killed n = consoleread_loop s killed (nat n) (nat n)"

section \<open>The abstract terminal\<close>

record tty =
  ready :: "byte list"
  edit :: "byte list"

definition tty_char :: "tty \<Rightarrow> int \<Rightarrow> tty" where
  "tty_char t c =
     (if c = 21 then t\<lparr>edit := []\<rparr>
      else if c = 8 \<or> c = 127 then t\<lparr>edit := butlast (edit t)\<rparr>
      else if c = 0 \<or> length (ready t @ edit t) = INPUT_BUF then t
      else let c = (if c = 13 then 10 else c); line = edit t @ [word_of_int c]
           in if c = 10 \<or> c = 4 \<or> length (ready t @ line) = INPUT_BUF
              then \<lparr>ready = ready t @ line, edit = []\<rparr>
              else t\<lparr>edit := line\<rparr>)"

text \<open>
  What one read of at most \<open>n\<close> bytes takes from the ready bytes; \<open>None\<close> if it has to wait. An
  end-of-file mark is consumed only by a read that has nothing else to return.
\<close>

definition tty_take :: "bool \<Rightarrow> byte list \<Rightarrow> nat \<Rightarrow> (byte list \<times> byte list) option" where
  "tty_take fresh q n =
     (let l = takeWhile (\<lambda>b. b \<noteq> 10 \<and> b \<noteq> 4) q
      in if n \<le> length l then Some (take n q, drop n q)
         else if length l = length q then None
         else if q ! length l = 10 then Some (l @ [10], drop (Suc (length l)) q)
         else Some (l, if fresh \<and> l = [] then tl q else drop (length l) q))"

definition tty_read :: "byte list \<Rightarrow> nat \<Rightarrow> (byte list \<times> byte list) option" where
  "tty_read q n = tty_take True q n"

definition tty_of :: "input \<Rightarrow> tty" where
  "tty_of s = \<lparr>ready = slice INPUT_BUF (ibuf s) (ir s) (iw s), edit = slice INPUT_BUF (ibuf s) (iw s) (ie s)\<rparr>"

definition input_ok :: "input \<Rightarrow> bool" where
  "input_ok s \<longleftrightarrow> length (ibuf s) = INPUT_BUF \<and>
     unat (iw s - ir s) \<le> unat (ie s - ir s) \<and> unat (ie s - ir s) \<le> INPUT_BUF \<and>
     10 \<notin> set (edit (tty_of s))"

interpretation iring: ring INPUT_BUF
  by unfold_locales (simp_all add: INPUT_BUF_def)

lemma ctl_values [simp]: "ctl CHR ''U'' = 21" "ctl CHR ''H'' = 8" "ctl CHR ''D'' = 4" "ctl CHR ''P'' = 16"
  by (simp_all add: ctl_def)

lemma uint_byte_4: "uint (c :: byte) = 4 \<longleftrightarrow> c = 4"
  by (simp add: word_uint_eq_iff)

lemma input_total:
  assumes "input_ok s"
  shows "slice INPUT_BUF (ibuf s) (ir s) (ie s) = ready (tty_of s) @ edit (tty_of s)"
  using assms iring.slice_split [of "iw s" "ir s" "ie s"] by (simp add: input_ok_def tty_of_def)

lemma input_length:
  assumes "input_ok s"
  shows "unat (ie s - ir s) = length (ready (tty_of s) @ edit (tty_of s))"
  using arg_cong [OF input_total [OF assms], of length] by simp

lemma ready_length: "length (ready (tty_of s)) = unat (iw s - ir s)"
  by (simp add: tty_of_def)

lemma edit_empty: "ie s = iw s \<longleftrightarrow> edit (tty_of s) = []"
  by (metis eq_iff_diff_eq_0 input.ext_inject length_0_conv select_convs(2) slice_length tty_of_def unat_eq_0)

lemma input_erase:
  assumes "input_ok s" and "ie s \<noteq> iw s"
  shows "input_ok (s\<lparr>ie := ie s - 1\<rparr>) \<and> tty_of (s\<lparr>ie := ie s - 1\<rparr>) = (tty_of s)\<lparr>edit := butlast (edit (tty_of s))\<rparr>"
proof -
  let ?s = "s\<lparr>ie := ie s - 1\<rparr>"
  have t: "tty_of ?s = (tty_of s)\<lparr>edit := butlast (edit (tty_of s))\<rparr>"
    using iring.slice_unpush [of "iw s" "ie s" "ibuf s"] assms(2) by (simp add: tty_of_def)
  have "edit (tty_of s) \<noteq> []" using assms(2) edit_empty by blast
  then have len: "unat (ie s - ir s) = Suc (unat (iw s - ir s) + length (butlast (edit (tty_of s))))"
    using input_length [OF assms(1)] by (cases "edit (tty_of s)" rule: rev_cases) (simp_all add: ready_length)
  then have "ir s \<noteq> ie s" by auto
  then have "unat (ie s - ir s) = Suc (unat (ie s - 1 - ir s))"
    using unat_dist [of "ir s" "ie s"] by (simp add: algebra_simps)
  with len assms(1) t show ?thesis
    by (auto simp: input_ok_def dest: in_set_butlastD)
qed

lemma kill_line_spec:
  "input_ok s \<Longrightarrow> kill_line s = (s', out) \<Longrightarrow>
   input_ok s' \<and> tty_of s' = (tty_of s)\<lparr>edit := []\<rparr> \<and> out = replicate (length (edit (tty_of s))) BACKSPACE"
proof (induction s arbitrary: s' out rule: kill_line.induct)
  case (1 s)
  show ?case
  proof (cases "ie s = iw s")
    case True
    then have "kill_line s = (s, [])" by (subst kill_line.simps) simp
    then show ?thesis using True "1.prems" edit_empty [of s] by simp
  next
    case False
    then have ne: "edit (tty_of s) \<noteq> []" using edit_empty by blast
    have "last (edit (tty_of s)) = ibuf s ! (unat (ie s - 1) mod INPUT_BUF)"
      using iring.slice_last [of "iw s" "ie s" "ibuf s"] False by (simp add: tty_of_def)
    moreover have "last (edit (tty_of s)) \<noteq> 10"
      using ne "1.prems"(1) last_in_set by (force simp: input_ok_def)
    ultimately have cond: "ie s \<noteq> iw s \<and> ibuf s ! (unat (ie s - 1) mod INPUT_BUF) \<noteq> 10"
      using False by simp
    obtain s1 out1 where k: "kill_line (s\<lparr>ie := ie s - 1\<rparr>) = (s1, out1)" by (meson surj_pair)
    have "s' = s1" "out = BACKSPACE # out1"
      using "1.prems"(2) k cond by (subst (asm) kill_line.simps, simp)+
    moreover have "length (edit (tty_of s)) = Suc (length (edit (tty_of s)) - 1)" using ne by simp
    ultimately show ?thesis
      using "1.IH" [OF cond _ k] input_erase [OF "1.prems"(1) False] by (simp add: replicate_Suc [symmetric] del: replicate_Suc)
  qed
qed

lemma word_room:
  assumes "input_ok s"
  shows "ie s - ir s < of_nat INPUT_BUF \<longleftrightarrow> length (ready (tty_of s) @ edit (tty_of s)) \<noteq> INPUT_BUF"
proof -
  have "ie s - ir s < of_nat INPUT_BUF \<longleftrightarrow> unat (ie s - ir s) < INPUT_BUF"
    by (simp add: word_less_nat_alt INPUT_BUF_def)
  moreover have "unat (ie s - ir s) \<le> INPUT_BUF" using assms by (simp add: input_ok_def)
  ultimately show ?thesis unfolding input_length [OF assms] by linarith
qed

lemma word_full: "ie s = ir s + of_nat INPUT_BUF \<longleftrightarrow> unat (ie s - ir s) = INPUT_BUF"
proof -
  have "ie s = ir s + of_nat INPUT_BUF \<longleftrightarrow> ie s - ir s = 128"
    by (auto simp: INPUT_BUF_def algebra_simps)
  also have "\<dots> \<longleftrightarrow> unat (ie s - ir s) = 128" by (simp add: word_unat_eq_iff)
  finally show ?thesis by (simp add: INPUT_BUF_def)
qed

lemma input_append:
  fixes b :: byte
  assumes "input_ok s" and "unat (ie s - ir s) < INPUT_BUF"
  defines "t \<equiv> s\<lparr>ibuf := (ibuf s)[unat (ie s) mod INPUT_BUF := b], ie := ie s + 1\<rparr>"
  shows "tty_of t = (tty_of s)\<lparr>edit := edit (tty_of s) @ [b]\<rparr>"
    and "unat (ie t - ir t) = Suc (unat (ie s - ir s))"
    and "tty_of (t\<lparr>iw := ie t\<rparr>) = \<lparr>ready = ready (tty_of s) @ edit (tty_of s) @ [b], edit = []\<rparr>"
proof -
  have len: "length (ibuf s) = INPUT_BUF" "INPUT_BUF < 4294967296"
    using assms(1) by (simp_all add: input_ok_def INPUT_BUF_def)
  have all: "slice INPUT_BUF (ibuf t) (ir s) (ie s + 1) = slice INPUT_BUF (ibuf s) (ir s) (ie s) @ [b]"
    using iring.slice_push [OF len(1) assms(2) len(2)] by (simp add: t_def)
  show e: "unat (ie t - ir t) = Suc (unat (ie s - ir s))"
    using arg_cong [OF all, of length] by (simp add: t_def)
  show "tty_of (t\<lparr>iw := ie t\<rparr>) = \<lparr>ready = ready (tty_of s) @ edit (tty_of s) @ [b], edit = []\<rparr>"
    using all input_total [OF assms(1)] by (simp add: t_def tty_of_def)
  have le: "unat (iw s - ir s) \<le> unat (ie s - ir s)" using assms(1) by (simp add: input_ok_def)
  have ed: "unat (ie s - iw s) < INPUT_BUF"
    using input_length [OF assms(1)] assms(2) by (simp add: tty_of_def)
  have "slice INPUT_BUF (ibuf t) (iw s) (ie s + 1) = slice INPUT_BUF (ibuf s) (iw s) (ie s) @ [b]"
    using iring.slice_push [OF len(1) ed len(2)] by (simp add: t_def)
  moreover have "slice INPUT_BUF (ibuf t) (ir s) (iw s) = slice INPUT_BUF (ibuf s) (ir s) (iw s)"
  proof -
    have "slice INPUT_BUF (ibuf t) (ir s) (ie s + 1)
        = slice INPUT_BUF (ibuf t) (ir s) (iw s) @ slice INPUT_BUF (ibuf t) (iw s) (ie s + 1)"
      using e le by (intro iring.slice_split) (simp add: t_def)
    with all calculation input_total [OF assms(1)] show ?thesis by (simp add: tty_of_def)
  qed
  ultimately show "tty_of t = (tty_of s)\<lparr>edit := edit (tty_of s) @ [b]\<rparr>"
    by (simp add: tty_of_def t_def)
qed

lemma byte_of_char_10: "0 \<le> c \<Longrightarrow> c < 256 \<Longrightarrow> (word_of_int c :: byte) = 10 \<longleftrightarrow> c = 10"
  by (auto simp: word_uint_eq_iff uint_word_of_int)

lemma input_char_insert:
  assumes ok: "input_ok s" and c: "0 \<le> c" "c < 256" and step: "input_char s c = (s', out, wk)"
    and nc: "c \<notin> {21, 8, 127}" "c \<noteq> 0" and room: "ie s - ir s < of_nat INPUT_BUF"
  shows "input_ok s' \<and> tty_of s' = tty_char (tty_of s) c"
proof -
  let ?c = "if c = 13 then 10 else c"
  let ?b = "word_of_int ?c :: byte"
  let ?t = "s\<lparr>ibuf := (ibuf s)[unat (ie s) mod INPUT_BUF := ?b], ie := ie s + 1\<rparr>"
  have lt: "unat (ie s - ir s) < INPUT_BUF"
    using room by (simp add: word_less_nat_alt INPUT_BUF_def)
  note app = input_append [OF ok lt, of ?b]
  let ?commit = "?c = 10 \<or> ?c = 4 \<or> ie ?t = ir ?t + of_nat INPUT_BUF"
  have s': "s' = (if ?commit then ?t\<lparr>iw := ie ?t\<rparr> else ?t)"
    using step c nc room by (auto simp: input_char_def Let_def split: if_splits)
  have full: "ie ?t = ir ?t + of_nat INPUT_BUF \<longleftrightarrow> length (ready (tty_of s) @ edit (tty_of s) @ [?b]) = INPUT_BUF"
    unfolding word_full app(2) using input_length [OF ok] by simp
  have tt: "tty_char (tty_of s) c = (if ?commit then \<lparr>ready = ready (tty_of s) @ edit (tty_of s) @ [?b], edit = []\<rparr>
      else (tty_of s)\<lparr>edit := edit (tty_of s) @ [?b]\<rparr>)"
    unfolding full using nc c room word_room [OF ok] by (simp add: tty_char_def Let_def)
  have len: "length (ibuf s) = INPUT_BUF" using ok by (simp add: input_ok_def)
  show ?thesis
  proof (cases ?commit)
    case True
    then have s'': "s' = ?t\<lparr>iw := ie ?t\<rparr>" using s' by (rule_tac trans) (assumption, rule if_P)
    have "input_ok s'"
      unfolding s'' input_ok_def app(3) using app(2) lt len by simp
    then show ?thesis unfolding tt s'' app(3) using True by (simp only: if_P simp_thms)
  next
    case False
    then have s'': "s' = ?t" using s' by (rule_tac trans) (assumption, rule if_not_P)
    have "?b \<noteq> 10" using False c byte_of_char_10 [of ?c] by auto
    moreover have "unat (iw s - ir s) \<le> Suc (unat (ie s - ir s))" "10 \<notin> set (edit (tty_of s))"
      using ok by (auto simp: input_ok_def)
    ultimately have "input_ok s'"
      unfolding s'' input_ok_def app(1) using app(2) lt len by simp
    then show ?thesis unfolding tt s'' app(1) using False by (simp only: if_not_P simp_thms)
  qed
qed

lemma input_char_refines:
  assumes ok: "input_ok s" and c: "0 \<le> c" "c < 256" and step: "input_char s c = (s', out, wk)"
  shows "input_ok s' \<and> tty_of s' = tty_char (tty_of s) c"
proof -
  consider "c = 21" | "c = 8 \<or> c = 127" | "c \<notin> {21, 8, 127}" "c = 0 \<or> \<not> ie s - ir s < of_nat INPUT_BUF"
    | "c \<notin> {21, 8, 127}" "c \<noteq> 0" "ie s - ir s < of_nat INPUT_BUF" by blast
  then show ?thesis
  proof cases
    case 1
    obtain s1 o1 where k: "kill_line s = (s1, o1)" by (meson surj_pair)
    with 1 step have "s' = s1" by (simp add: input_char_def)
    with kill_line_spec [OF ok k] 1 show ?thesis by (simp add: tty_char_def)
  next
    case 2
    then show ?thesis
      using step ok input_erase [OF ok] edit_empty [of s]
      by (auto simp: input_char_def tty_char_def split: if_splits)
  next
    case 3
    then show ?thesis
      using step ok word_room [OF ok] by (auto simp: input_char_def tty_char_def)
  next
    case 4
    from input_char_insert [OF ok c step 4] show ?thesis .
  qed
qed

lemma tty_take_simps:
  "tty_take fresh q 0 = Some ([], q)"
  "tty_take fresh [] (Suc n) = None"
  "tty_take fresh (b # q) (Suc n) =
     (if b = 4 then Some ([], if fresh then q else b # q)
      else if b = 10 then Some ([10], q)
      else map_option (\<lambda>(bs, q'). (b # bs, q')) (tty_take False q n))"
  by (auto simp: tty_take_def Let_def)

lemma input_pop:
  assumes "input_ok s" and "ir s \<noteq> iw s"
  defines "t \<equiv> s\<lparr>ir := ir s + 1\<rparr>"
  shows "ready (tty_of s) = ibuf s ! (unat (ir s) mod INPUT_BUF) # ready (tty_of t) \<and>
    edit (tty_of t) = edit (tty_of s) \<and> input_ok t"
proof -
  have r: "ready (tty_of s) = ibuf s ! (unat (ir s) mod INPUT_BUF) # ready (tty_of t)"
    using iring.slice_pop [OF assms(2)] by (simp add: tty_of_def t_def)
  have e: "edit (tty_of t) = edit (tty_of s)" by (simp add: tty_of_def t_def)
  have "ir s \<noteq> ie s"
    using input_length [OF assms(1)] r by auto
  then have "unat (ie s - ir s) = Suc (unat (ie t - ir t))" using unat_dist by (simp add: t_def)
  moreover have "unat (iw s - ir s) = Suc (unat (iw t - ir t))"
    using arg_cong [OF r, of length] by (simp add: ready_length)
  ultimately show ?thesis
    using r e assms(1) by (simp add: input_ok_def) (simp add: t_def)
qed

lemma consoleread_loop_refines:
  assumes "input_ok s" and "n \<le> target" and "consoleread_loop s killed target n = (s', bs, r)"
  shows "input_ok s' \<and> edit (tty_of s') = edit (tty_of s) \<and>
    (case tty_take (n = target) (ready (tty_of s)) n of
       Some (out, rest) \<Rightarrow> bs = out \<and> ready (tty_of s') = rest \<and> r = Done (int (target - n) + int (length out))
     | None \<Rightarrow> bs = ready (tty_of s) \<and> ready (tty_of s') = [] \<and> 
         r = (if killed then Done (-1) else Waiting (n - length bs)))"
  using assms
proof (induction s killed target n arbitrary: s' bs r rule: consoleread_loop.induct)
  case (1 s killed target)
  then show ?case by (auto simp: tty_take_simps)
next
  case (2 s killed target n)
  show ?case
  proof (cases "ir s = iw s")
    case True
    then have "ready (tty_of s) = []" by (simp add: tty_of_def)
    with 2 True show ?thesis by (auto simp: tty_take_simps)
  next
    case False
    let ?c = "ibuf s ! (unat (ir s) mod INPUT_BUF)" and ?t = "s\<lparr>ir := ir s + 1\<rparr>"
    note pop = input_pop [OF "2.prems"(1) False]
    consider "?c = 4" | "?c = 10" | "?c \<noteq> 4" "?c \<noteq> 10" by blast
    then show ?thesis
    proof cases
      case 1
      with 2 pop False show ?thesis
        by (auto simp: tty_take_simps uint_byte_4 tty_of_def split: if_splits)
    next
      case 2
      with "2.prems" pop False show ?thesis by (auto simp: tty_take_simps uint_byte_4)
    next
      case 3
      obtain s1 bs1 r1 where l: "consoleread_loop ?t killed target n = (s1, bs1, r1)" by (metis prod_cases3)
      have len: "length (ready (tty_of s)) = Suc (length (ready (tty_of ?t)))" using pop by simp
      have "n \<le> target" "n \<noteq> target" using "2.prems"(2) by auto
      with "2.IH" [OF False refl refl _ _ _ _ l] 3 pop
      show ?thesis using "2.prems" False l
        by (auto simp: tty_take_simps uint_byte_4 len split: option.splits)
    qed
  qed
qed

text \<open>The characters one interrupt delivers before its \<^verbatim>\<open>getc\<close> runs dry, without the \<^verbatim>\<open>^P\<close> that only
  asks for a process listing.\<close>

definition delivered :: "int list \<Rightarrow> int list" where
  "delivered cs = filter (\<lambda>c. c \<noteq> 16) (takeWhile (\<lambda>c. 0 \<le> c) cs)"

lemma consoleintr_refines_lemma:
  "input_ok s \<Longrightarrow> \<forall>c \<in> set cs. c < 256 \<Longrightarrow> consoleintr s cs = (s', out, wk, dump) \<Longrightarrow>
   input_ok s' \<and> tty_of s' = foldl tty_char (tty_of s) (delivered cs)"
proof (induction s cs arbitrary: out wk dump rule: consoleintr.induct)
  case (2 s c cs)
  consider "c < 0" | "c = 16" | "0 \<le> c" "c \<noteq> 16" by linarith
  then show ?case
  proof cases
    case 3
    obtain s1 o1 w1 where st: "input_char s c = (s1, o1, w1)" by (metis prod_cases3)
    have r: "input_ok s1 \<and> tty_of s1 = tty_char (tty_of s) c"
      using 2 3 by (intro input_char_refines [OF _ _ _ st]) auto
    obtain s2 o2 w2 d2 where rest: "consoleintr s1 cs = (s2, o2, w2, d2)" by (metis prod_cases4)
    have "s2 = s'" using "2.prems"(3) 3 st rest by simp
    with "2.IH"(2) [OF _ _ refl, of s1 "(o1, w1)" o1 w1] 3 st r rest "2.prems" show ?thesis
      by (simp add: delivered_def)
  qed (use 2 in \<open>auto simp: delivered_def split: prod.splits\<close>)
qed (simp add: delivered_def)

definition screen_ok :: "screen \<Rightarrow> bool" where
  "screen_ok s \<longleftrightarrow> length (crt s) = 2000 \<and> cursor s < 1920"

lemma cga_place_ok:
  assumes "screen_ok s" and "cga_place s c = (v, pos)"
  shows "length v = 2000 \<and> pos \<le> 1920 \<and> drop 1920 v = drop 1920 (crt s)"
proof -
  have "cursor s + (80 - cursor s mod 80) \<le> 1920"
  proof -
    have "cursor s div 80 < 24" using assms(1) by (auto simp: screen_ok_def)
    moreover have "cursor s = 80 * (cursor s div 80) + cursor s mod 80" by simp
    ultimately show ?thesis using mod_less_divisor [of 80 "cursor s"] by linarith
  qed
  then show ?thesis
    using assms by (auto simp: cga_place_def screen_ok_def Let_def split: if_splits)
qed

lemma cgaputc_ok:
  assumes "screen_ok s"
  shows "\<exists>s'. cgaputc s c = Inr s' \<and> screen_ok s' \<and> crt s' ! cursor s' = cell 32 \<and>
    drop 1920 (crt s') = drop 1920 (crt s)"
proof -
  obtain v pos where p: "cga_place s c = (v, pos)" by (meson surj_pair)
  note ok = cga_place_ok [OF assms p]
  show ?thesis
  proof (cases "pos = 1920")
    case True
    then show ?thesis using p ok assms
      by (auto simp: cgaputc_def cga_scroll_def Let_def screen_ok_def)
  next
    case False
    then have "pos < 1920" using ok by simp
    moreover from this have "\<not> pos div 80 \<ge> 24" by simp
    ultimately show ?thesis using p ok
      by (auto simp: cgaputc_def Let_def screen_ok_def)
  qed
qed

lemma consolewrite_loop_ok:
  "screen_ok (display s) \<Longrightarrow> \<not> panicked s \<Longrightarrow> has_uart s \<Longrightarrow>
   \<exists>s'. consolewrite_loop s bs = Inr s' \<and> serial s' = serial s @ bs \<and> screen_ok (display s')"
proof (induction bs arbitrary: s)
  case (Cons b bs)
  obtain d where d: "cgaputc (display s) (uint b) = Inr d" "screen_ok d"
    using cgaputc_ok [OF Cons.prems(1)] by blast
  have "uint b \<noteq> BACKSPACE" using uint_bounded [of b] by (simp add: BACKSPACE_def)
  then have "consputc s (uint b) = Inr (s\<lparr>serial := serial s @ [b], display := d\<rparr>)"
    using Cons.prems d by (simp add: consputc_def uartputc_def Let_def)
  with Cons.IH [of "s\<lparr>serial := serial s @ [b], display := d\<rparr>"] Cons.prems d show ?case by simp
qed simp

section \<open>Properties\<close>

text \<open>
  C30. The console interrupt handler implements the abstract line discipline: whatever bytes arrive,
  the bytes committed to readers and the line under edit change exactly as the terminal
  specification says (kill line, erase, carriage return, end of file, and commit when the 128-byte
  buffer is full), and the ring's invariant is kept through the wrap-around of its indices.
\<close>

theorem consoleintr_refines:
  assumes "input_ok s" and "\<forall>c \<in> set cs. c < 256" and "consoleintr s cs = (s', out, wk, dump)"
  shows "input_ok s' \<and> tty_of s' = foldl tty_char (tty_of s) (delivered cs)"
  using assms by (rule consoleintr_refines_lemma)

definition input_start :: input where
  "input_start = \<lparr>ibuf = replicate 128 0, ir = 0xFFFFFFFF, iw = 0xFFFFFFFF, ie = 0xFFFFFFFF\<rparr>"

lemma input_start_ok: "input_ok input_start \<and> tty_of input_start = \<lparr>ready = [], edit = []\<rparr>"
  by (simp add: input_ok_def input_start_def tty_of_def INPUT_BUF_def)

theorem consoleintr_refines_witness:
  "tty_of (fst (consoleintr input_start [104, 8, 105, 13, 120])) = \<lparr>ready = [105, 10], edit = [120]\<rparr>"
proof -
  obtain s' o' w d where c: "consoleintr input_start [104, 8, 105, 13, 120] = (s', o', w, d)" by (metis prod_cases4)
  have "foldl tty_char \<lparr>ready = [], edit = []\<rparr> (delivered [104, 8, 105, 13, 120]) = \<lparr>ready = [105, 10], edit = [120]\<rparr>"
    by (simp add: delivered_def tty_char_def INPUT_BUF_def)
  with consoleintr_refines [OF _ _ c] input_start_ok c show ?thesis by simp
qed

text \<open>
  \<^verbatim>\<open>consoleread\<close> returns the bytes of the first ready line, at most as many as asked for, with its
  newline; an end-of-file mark ends the read and stays for the next one unless the read is empty; with
  no complete line it takes what there is and waits for the rest, or returns \<open>-1\<close> if killed. The line
  under edit is never visible to a reader.
\<close>

theorem consoleread_refines:
  assumes "input_ok s" and "consoleread s killed n = (s', bs, r)"
  shows "input_ok s' \<and> edit (tty_of s') = edit (tty_of s) \<and>
    (case tty_read (ready (tty_of s)) (nat n) of
       Some (out, rest) \<Rightarrow> bs = out \<and> ready (tty_of s') = rest \<and> r = Done (int (length out))
     | None \<Rightarrow> bs = ready (tty_of s) \<and> ready (tty_of s') = [] \<and>
         r = (if killed then Done (-1) else Waiting (nat n - length bs)))"
  using consoleread_loop_refines [OF assms(1) order_refl assms(2) [unfolded consoleread_def]]
  by (simp add: tty_read_def cong: option.case_cong)

theorem consoleread_refines_witness:
  "snd (consoleread input_start True 5) = ([], Done (-1))"
proof -
  obtain s' bs r where c: "consoleread input_start True 5 = (s', bs, r)" by (metis prod_cases3)
  have "tty_read [] (nat 5) = None" by (simp add: tty_read_def tty_take_def)
  with consoleread_refines [OF _ c] input_start_ok c show ?thesis by simp
qed

text \<open>
  Console output is safe: from a cursor on the first 24 rows of the 25 by 80 screen, every
  character leaves the cursor there on a blank cell, never writes the last row or beyond the screen
  and never panics; so \<^verbatim>\<open>consolewrite\<close> of any bytes succeeds, returns their number and sends exactly
  these bytes to the serial port.
\<close>

theorem consolewrite_safe:
  assumes "screen_ok (display s)" and "\<not> panicked s" and "has_uart s"
  shows "(\<forall>c. \<exists>d. cgaputc (display s) c = Inr d \<and> screen_ok d \<and> crt d ! cursor d = cell 32 \<and>
            drop 1920 (crt d) = drop 1920 (crt (display s))) \<and>
    (\<exists>s'. consolewrite s bs = Inr (s', int (length bs)) \<and> serial s' = serial s @ bs \<and> screen_ok (display s'))"
  using cgaputc_ok [OF assms(1)] consolewrite_loop_ok [OF assms, of bs] by (auto simp: consolewrite_def)

definition console_start :: console where
  "console_start = \<lparr>panicked = False, has_uart = True, serial = [], display = \<lparr>crt = replicate 2000 0, cursor = 1919\<rparr>\<rparr>"

theorem consolewrite_safe_witness:
  "\<exists>s'. consolewrite console_start [72, 105, 10] = Inr (s', 3) \<and> serial s' = [72, 105, 10]"
  using consolewrite_safe [of console_start "[72, 105, 10]"]
  by (auto simp: console_start_def screen_ok_def)

end
