(* ===== verification/Spinlock.thy ===== *)
theory Spinlock
  imports Prelude
begin

text \<open>
  Mutual exclusion locks, \<^verbatim>\<open>spinlock.c\<close>. A machine state holds the interrupt state of every CPU and
  every lock word. The routines of the file are functions of the CPU that runs them; \<^verbatim>\<open>acquire\<close> and
  \<^verbatim>\<open>release\<close> are also cut at their atomic accesses to the lock word into the steps of a relation in
  which the CPUs interleave freely.
\<close>

section \<open>State\<close>

text \<open>The fields of \<^verbatim>\<open>struct cpu\<close> the locks use, with the interrupt flag of \<^verbatim>\<open>eflags\<close>.\<close>

record cpu =
  ncli :: int
  intena :: bool
  fl_if :: bool

record spinlock =
  locked :: bool
  lkcpu :: "nat option"
  pcs :: "u32 list"

text \<open>What a CPU is doing inside \<^verbatim>\<open>acquire\<close> or \<^verbatim>\<open>release\<close>.\<close>

datatype 'l phase = Running | Spinning 'l | Got 'l | Releasing 'l

record 'l machine =
  cpus :: "nat \<Rightarrow> cpu"
  lks :: "'l \<Rightarrow> spinlock"
  phase :: "nat \<Rightarrow> 'l phase"
  owned :: "nat \<Rightarrow> 'l set"

abbreviation upd_cpu :: "nat \<Rightarrow> (cpu \<Rightarrow> cpu) \<Rightarrow> 'l machine \<Rightarrow> 'l machine" where
  "upd_cpu c f s \<equiv> s\<lparr>cpus := (cpus s)(c := f (cpus s c))\<rparr>"

abbreviation upd_lk :: "'l \<Rightarrow> (spinlock \<Rightarrow> spinlock) \<Rightarrow> 'l machine \<Rightarrow> 'l machine" where
  "upd_lk l f s \<equiv> s\<lparr>lks := (lks s)(l := f (lks s l))\<rparr>"

section \<open>Operations\<close>

definition initlock :: "spinlock" where
  "initlock = \<lparr>locked = False, lkcpu = None, pcs = replicate 10 0\<rparr>"

text \<open>\<^verbatim>\<open>getcallerpcs\<close> follows the saved \<open>%ebp\<close> chain through the word-load function \<open>ld\<close>.\<close>

fun getcallerpcs_loop :: "(u32 \<Rightarrow> u32) \<Rightarrow> u32 \<Rightarrow> nat \<Rightarrow> u32 list" where
  "getcallerpcs_loop ld ebp 0 = []"
| "getcallerpcs_loop ld ebp (Suc i) =
     (if ebp = 0 \<or> ebp < 0x80000000 \<or> ebp = 0xffffffff then replicate (Suc i) 0
      else ld (ebp + 4) # getcallerpcs_loop ld (ld ebp) i)"

definition getcallerpcs :: "(u32 \<Rightarrow> u32) \<Rightarrow> u32 \<Rightarrow> u32 list" where
  "getcallerpcs ld v = getcallerpcs_loop ld (v - 8) 10"

definition pushcli :: "cpu \<Rightarrow> cpu" where
  "pushcli k =
     (let eflags = fl_if k;
          k = k\<lparr>fl_if := False\<rparr>;
          k = (if ncli k = 0 then k\<lparr>intena := eflags\<rparr> else k)
      in k\<lparr>ncli := ncli k + 1\<rparr>)"

definition popcli :: "cpu \<Rightarrow> cpu res" where
  "popcli k =
     (if fl_if k then panic ''popcli - interruptible''
      else let k = k\<lparr>ncli := ncli k - 1\<rparr>
           in if ncli k < 0 then panic ''popcli''
              else if ncli k = 0 \<and> intena k then ret (k\<lparr>fl_if := True\<rparr>)
              else ret k)"

text \<open>The test \<^verbatim>\<open>holding\<close> evaluates, and the routine, which brackets it with the interrupt counters.\<close>

definition holds :: "'l machine \<Rightarrow> nat \<Rightarrow> 'l \<Rightarrow> bool" where
  "holds s c l \<longleftrightarrow> locked (lks s l) \<and> lkcpu (lks s l) = Some c"

definition holding :: "'l machine \<Rightarrow> nat \<Rightarrow> 'l \<Rightarrow> (bool \<times> 'l machine) res" where
  "holding s c l =
     (let s = upd_cpu c pushcli s; r = holds s c l
      in andthen (popcli (cpus s c)) (\<lambda>k. ret (r, s\<lparr>cpus := (cpus s)(c := k)\<rparr>)))"

text \<open>
  \<^verbatim>\<open>acquire\<close> without interference: the panic on a lock this CPU holds, and the endless loop, reported
  as a sleep, on a lock another CPU holds. \<open>st\<close> is the call stack \<^verbatim>\<open>getcallerpcs\<close> records.
\<close>

definition acquire :: "'l machine \<Rightarrow> nat \<Rightarrow> 'l \<Rightarrow> u32 list \<Rightarrow> 'l machine res" where
  "acquire s c l st =
     andthen (holding (upd_cpu c pushcli s) c l) (\<lambda>(r, s).
       if r then panic ''acquire''
       else if locked (lks s l) then Inl (Sleep ''spin'')
       else ret (upd_lk l (\<lambda>k. k\<lparr>locked := True, lkcpu := Some c, pcs := st\<rparr>) s))"

definition release :: "'l machine \<Rightarrow> nat \<Rightarrow> 'l \<Rightarrow> 'l machine res" where
  "release s c l =
     andthen (holding s c l) (\<lambda>(r, s).
       if \<not> r then panic ''release''
       else let s = upd_lk l (\<lambda>k. k\<lparr>locked := False, lkcpu := None, pcs := (pcs k)[0 := 0]\<rparr>) s
            in andthen (popcli (cpus s c)) (\<lambda>k. ret (s\<lparr>cpus := (cpus s)(c := k)\<rparr>)))"

section \<open>Interleaved execution\<close>

text \<open>
  One rule per atomic action on shared state: the entry of \<^verbatim>\<open>acquire\<close> up to its loop, one turn of the
  \<^verbatim>\<open>xchg\<close> loop that fails or succeeds, the note of the holder, the two halves of \<^verbatim>\<open>release\<close>, and, with
  no lock held, the processor changing its interrupt flag.
\<close>

inductive lock_step :: "'l machine \<Rightarrow> 'l machine \<Rightarrow> bool" where
  enter: "phase s c = Running \<Longrightarrow> \<not> holds s c l \<Longrightarrow>
    lock_step s (upd_cpu c pushcli s\<lparr>phase := (phase s)(c := Spinning l)\<rparr>)"
| spin: "phase s c = Spinning l \<Longrightarrow> locked (lks s l) \<Longrightarrow>
    lock_step s (upd_lk l (\<lambda>k. k\<lparr>locked := True\<rparr>) s)"
| win: "phase s c = Spinning l \<Longrightarrow> \<not> locked (lks s l) \<Longrightarrow>
    lock_step s (upd_lk l (\<lambda>k. k\<lparr>locked := True\<rparr>) s\<lparr>phase := (phase s)(c := Got l)\<rparr>)"
| note_holder: "phase s c = Got l \<Longrightarrow>
    lock_step s (upd_lk l (\<lambda>k. k\<lparr>lkcpu := Some c, pcs := st\<rparr>) s
      \<lparr>phase := (phase s)(c := Running), owned := (owned s)(c := insert l (owned s c))\<rparr>)"
| unnote: "phase s c = Running \<Longrightarrow> holds s c l \<Longrightarrow>
    lock_step s (upd_lk l (\<lambda>k. k\<lparr>lkcpu := None, pcs := (pcs k)[0 := 0]\<rparr>) s
      \<lparr>phase := (phase s)(c := Releasing l), owned := (owned s)(c := owned s c - {l})\<rparr>)"
| unlock: "phase s c = Releasing l \<Longrightarrow> popcli (cpus s c) = Inr k \<Longrightarrow>
    lock_step s (upd_lk l (\<lambda>k. k\<lparr>locked := False\<rparr>) s
      \<lparr>cpus := (cpus s)(c := k), phase := (phase s)(c := Running)\<rparr>)"
| interrupts: "phase s c = Running \<Longrightarrow> ncli (cpus s c) = 0 \<Longrightarrow>
    lock_step s (upd_cpu c (\<lambda>k. k\<lparr>fl_if := b\<rparr>) s)"

definition boot_machine :: "'l machine" where
  "boot_machine = \<lparr>cpus = (\<lambda>_. \<lparr>ncli = 0, intena = False, fl_if = False\<rparr>), lks = (\<lambda>_. initlock),
     phase = (\<lambda>_. Running), owned = (\<lambda>_. {})\<rparr>"

inductive lock_reachable :: "'l machine \<Rightarrow> bool" where
  boot: "lock_reachable boot_machine"
| step: "lock_reachable s \<Longrightarrow> lock_step s t \<Longrightarrow> lock_reachable t"

text \<open>A CPU is inside the section of a lock from its winning \<^verbatim>\<open>xchg\<close> to its unlocking store.\<close>

definition in_section :: "'l machine \<Rightarrow> nat \<Rightarrow> 'l \<Rightarrow> bool" where
  "in_section s c l \<longleftrightarrow> l \<in> owned s c \<or> phase s c = Got l \<or> phase s c = Releasing l"

section \<open>Facts on interrupt nesting\<close>

definition cli_ok :: "cpu \<Rightarrow> bool" where
  "cli_ok k \<longleftrightarrow> 0 \<le> ncli k \<and> (0 < ncli k \<longrightarrow> \<not> fl_if k)"

lemma pushcli_fields [simp]:
  "ncli (pushcli k) = ncli k + 1" "fl_if (pushcli k) = False"
  "intena (pushcli k) = (if ncli k = 0 then fl_if k else intena k)"
  by (simp_all add: pushcli_def Let_def)

lemma cli_ok_pushcli: "cli_ok k \<Longrightarrow> cli_ok (pushcli k)"
  by (simp add: cli_ok_def)

lemma popcli_ok: "0 < ncli k \<Longrightarrow> cli_ok k \<Longrightarrow> \<exists>k'. popcli k = Inr k' \<and> cli_ok k' \<and> ncli k' = ncli k - 1"
  by (auto simp: popcli_def cli_ok_def Let_def)

lemma popcli_Inr: "popcli k = Inr k' \<Longrightarrow> ncli k' = ncli k - 1 \<and> 0 \<le> ncli k' \<and> (0 < ncli k' \<longrightarrow> \<not> fl_if k')"
  by (auto simp: popcli_def Let_def split: if_splits)

lemma getcallerpcs_loop_length: "length (getcallerpcs_loop ld ebp i) = i"
  by (induction ld ebp i rule: getcallerpcs_loop.induct) auto

lemma popcli_pushcli_inner: "0 < ncli k \<Longrightarrow> \<not> fl_if k \<Longrightarrow> popcli (pushcli k) = Inr k"
  by (simp add: popcli_def pushcli_def Let_def)

lemma holding_inner:
  "0 < ncli (cpus s c) \<Longrightarrow> \<not> fl_if (cpus s c) \<Longrightarrow> holding s c l = Inr (holds s c l, s)"
  by (simp add: holding_def Let_def popcli_pushcli_inner holds_def)

section \<open>The locking invariant\<close>

definition sect_inv :: "'l machine \<Rightarrow> bool" where
  "sect_inv s \<longleftrightarrow>
     (\<forall>l. locked (lks s l) \<longleftrightarrow> (\<exists>c. in_section s c l)) \<and>
     (\<forall>c d l. in_section s c l \<longrightarrow> in_section s d l \<longrightarrow> c = d) \<and>
     (\<forall>c l. lkcpu (lks s l) = Some c \<longleftrightarrow> l \<in> owned s c) \<and>
     (\<forall>c l. phase s c = Got l \<or> phase s c = Releasing l \<longrightarrow> l \<notin> owned s c)"

definition cli_inv :: "'l machine \<Rightarrow> bool" where
  "cli_inv s \<longleftrightarrow>
     (\<forall>c. finite (owned s c) \<and> cli_ok (cpus s c) \<and>
        ncli (cpus s c) = int (card (owned s c)) + (if phase s c = Running then 0 else 1))"

lemma sect_inv_boot: "sect_inv boot_machine"
  by (simp add: sect_inv_def boot_machine_def in_section_def initlock_def)

lemma cli_inv_boot: "cli_inv boot_machine"
  by (simp add: cli_inv_def boot_machine_def cli_ok_def)

text \<open>
  A step changes neither who is inside a section nor a lock word, or lets one CPU into a section
  nobody is in, setting the lock word, or takes one CPU out, clearing it.
\<close>

abbreviation lock_word :: "'l machine \<Rightarrow> 'l \<Rightarrow> bool" where
  "lock_word s \<equiv> \<lambda>l. locked (lks s l)"

lemma lock_step_section:
  assumes "lock_step s t" and "sect_inv s"
  shows "(in_section t = in_section s \<and> lock_word t = lock_word s) \<or>
    (\<exists>c l. \<not> lock_word s l \<and> in_section t = (\<lambda>d m. in_section s d m \<or> d = c \<and> m = l) \<and>
       lock_word t = (lock_word s)(l := True)) \<or>
    (\<exists>c l. in_section s c l \<and> in_section t = (\<lambda>d m. in_section s d m \<and> \<not> (d = c \<and> m = l)) \<and>
       lock_word t = (lock_word s)(l := False))"
  using assms
proof (induction rule: lock_step.induct)
  case (enter s c l)
  then show ?case by (intro disjI1) (auto simp: in_section_def fun_eq_iff)
next
  case (win s c l)
  then show ?case
    by (intro disjI2 disjI1 exI [of _ c] exI [of _ l] conjI) (auto simp: in_section_def fun_eq_iff)
next
  case (note_holder s c l st)
  then show ?case by (intro disjI1) (auto simp: in_section_def fun_eq_iff)
next
  case (unnote s c l)
  then have "l \<in> owned s c" by (auto simp: sect_inv_def holds_def)
  with unnote show ?case by (intro disjI1) (auto simp: in_section_def fun_eq_iff)
next
  case (unlock s c l k)
  then have "l \<notin> owned s c" by (auto simp: sect_inv_def)
  with unlock show ?case
    by (intro disjI2 exI [of _ c] exI [of _ l] conjI) (auto simp: in_section_def fun_eq_iff)
qed (auto simp: in_section_def fun_eq_iff)

lemma lock_step_exclusive:
  assumes "lock_step s t" and "sect_inv s"
  shows "(\<forall>l. lock_word t l \<longleftrightarrow> (\<exists>c. in_section t c l)) \<and>
    (\<forall>c d l. in_section t c l \<longrightarrow> in_section t d l \<longrightarrow> c = d)"
proof -
  have w: "\<And>l. lock_word s l \<longleftrightarrow> (\<exists>c. in_section s c l)"
    and x: "\<And>c d l. in_section s c l \<Longrightarrow> in_section s d l \<Longrightarrow> c = d"
    using assms(2) unfolding sect_inv_def by blast+
  show ?thesis
    using lock_step_section [OF assms]
  proof (elim disjE exE conjE)
    assume "in_section t = in_section s" "lock_word t = lock_word s"
    then show ?thesis using w x by metis
  next
    fix c l assume "\<not> lock_word s l" "in_section t = (\<lambda>d m. in_section s d m \<or> d = c \<and> m = l)"
      "lock_word t = (lock_word s)(l := True)"
    then show ?thesis using w x by (auto simp: fun_eq_iff)
  next
    fix c l assume "in_section s c l" "in_section t = (\<lambda>d m. in_section s d m \<and> \<not> (d = c \<and> m = l))"
      "lock_word t = (lock_word s)(l := False)"
    then show ?thesis using w x by (auto simp: fun_eq_iff)
  qed
qed

lemma lock_step_sect_inv:
  assumes "lock_step s t" and "sect_inv s"
  shows "sect_inv t"
proof -
  have "lkcpu (lks t l) = Some c \<longleftrightarrow> l \<in> owned t c" for c l
    using assms by (induction rule: lock_step.induct) (auto simp: sect_inv_def holds_def in_section_def)
  moreover have "phase t c = Got l \<or> phase t c = Releasing l \<longrightarrow> l \<notin> owned t c" for c l
    using assms by (induction rule: lock_step.induct) (auto simp: sect_inv_def holds_def in_section_def)
  ultimately show ?thesis
    unfolding sect_inv_def using lock_step_exclusive [OF assms] by blast
qed

lemma lock_step_cli_inv: "lock_step s t \<Longrightarrow> sect_inv s \<Longrightarrow> cli_inv s \<Longrightarrow> cli_inv t"
proof (induction rule: lock_step.induct)
  case (unnote s c l)
  then have "l \<in> owned s c" "finite (owned s c)" by (auto simp: sect_inv_def holds_def cli_inv_def)
  then have "int (card (owned s c - {l})) = int (card (owned s c)) - 1"
    by (metis card_Suc_Diff1 of_nat_Suc add_diff_cancel_left')
  with unnote show ?case by (simp add: cli_inv_def)
next
  case (unlock s c l k)
  then show ?case using popcli_Inr [of "cpus s c" k] by (auto simp: cli_inv_def cli_ok_def)
next
  case (note_holder s c l st)
  then show ?case by (auto simp: cli_inv_def sect_inv_def)
qed (auto simp: cli_inv_def cli_ok_def)

lemma reachable_invs: "lock_reachable s \<Longrightarrow> sect_inv s \<and> cli_inv s"
  by (induction rule: lock_reachable.induct)
    (auto simp: sect_inv_boot cli_inv_boot intro: lock_step_sect_inv lock_step_cli_inv)

lemma acquire_cases:
  assumes "cli_ok (cpus s c)"
  shows "acquire s c l st =
    (if holds s c l then panic ''acquire''
     else if locked (lks s l) then Inl (Sleep ''spin'')
     else Inr (upd_lk l (\<lambda>k. k\<lparr>locked := True, lkcpu := Some c, pcs := st\<rparr>) (upd_cpu c pushcli s)))"
  using assms by (simp add: acquire_def holding_inner cli_ok_def) (simp add: holds_def)

lemma release_cases:
  assumes "cli_ok (cpus s c)" and "0 < ncli (cpus s c)" and "holds s c l"
  shows "\<exists>t. release s c l = Inr t \<and> \<not> locked (lks t l) \<and> lkcpu (lks t l) = None"
proof -
  obtain k where "popcli (cpus s c) = Inr k" using popcli_ok [OF assms(2,1)] by blast
  with assms show ?thesis by (auto simp: release_def holding_inner cli_ok_def Let_def)
qed

text \<open>A reachable state in which one CPU is inside a section and another is waiting for it.\<close>

definition contended :: "nat machine" where
  "contended = upd_cpu 1 pushcli (upd_lk 7 (\<lambda>k. k\<lparr>locked := True\<rparr>) (upd_cpu 0 pushcli boot_machine))
     \<lparr>phase := (\<lambda>_. Running)(0 := Got 7, 1 := Spinning 7)\<rparr>"

lemma contended_reachable: "lock_reachable contended"
proof -
  let ?a = "upd_cpu 0 pushcli boot_machine\<lparr>phase := (phase boot_machine)(0 := Spinning (7 :: nat))\<rparr>"
  let ?b = "upd_lk 7 (\<lambda>k. k\<lparr>locked := True\<rparr>) ?a\<lparr>phase := (phase ?a)(0 := Got 7)\<rparr>"
  let ?c = "upd_cpu 1 pushcli ?b\<lparr>phase := (phase ?b)(1 := Spinning 7)\<rparr>"
  have "lock_step boot_machine ?a"
    by (rule lock_step.enter) (auto simp: boot_machine_def holds_def initlock_def)
  moreover have "lock_step ?a ?b"
    by (rule lock_step.win) (auto simp: boot_machine_def initlock_def)
  moreover have "lock_step ?b ?c"
    by (rule lock_step.enter) (auto simp: boot_machine_def holds_def initlock_def)
  ultimately have "lock_reachable ?c"
    by (blast intro: lock_reachable.intros)
  moreover have "?c = contended"
    by (auto simp: contended_def boot_machine_def fun_eq_iff)
  ultimately show ?thesis by simp
qed

lemma contended_section: "in_section contended 0 7"
  by (simp add: contended_def in_section_def)

section \<open>Properties\<close>

text \<open>
  C20. Mutual exclusion. However the CPUs interleave the atomic accesses of \<^verbatim>\<open>acquire\<close> and
  \<^verbatim>\<open>release\<close>, no two CPUs are ever between the winning \<^verbatim>\<open>xchg\<close> and the unlocking store of one lock.
\<close>

theorem spinlock_mutual_exclusion:
  assumes "lock_reachable s" and "in_section s c l" and "in_section s d l"
  shows "c = d"
  using reachable_invs [OF assms(1)] assms(2,3) unfolding sect_inv_def by blast

theorem spinlock_mutual_exclusion_witness:
  "lock_reachable contended \<and> in_section contended 0 7 \<and> \<not> in_section contended 1 7"
  using spinlock_mutual_exclusion [OF contended_reachable contended_section, of 1]
    contended_reachable contended_section by auto

text \<open>
  In every reachable state, a CPU inside a section has interrupts off, the interrupt nesting
  depth counts exactly the locks it holds or is taking, and the \<^verbatim>\<open>holding\<close> test is true for exactly
  the CPU that owns the lock, even in the window between taking the lock word and noting the holder.
\<close>

theorem spinlock_holder_accurate:
  assumes "lock_reachable s"
  shows "(in_section s c l \<longrightarrow> \<not> fl_if (cpus s c) \<and> 0 < ncli (cpus s c)) \<and> (holds s c l \<longleftrightarrow> l \<in> owned s c)"
proof -
  have inv: "sect_inv s" "cli_inv s" using reachable_invs [OF assms] by auto
  have "0 < ncli (cpus s c)" if "in_section s c l"
  proof -
    have fin: "finite (owned s c)"
      and n: "ncli (cpus s c) = int (card (owned s c)) + (if phase s c = Running then 0 else 1)"
      using inv(2) by (auto simp: cli_inv_def)
    show ?thesis
    proof (cases "l \<in> owned s c")
      case True
      with fin have "0 < card (owned s c)" by (auto simp: card_gt_0_iff)
      then show ?thesis using n by simp
    next
      case False
      then show ?thesis using that n by (auto simp: in_section_def)
    qed
  qed
  moreover have "\<not> fl_if (cpus s c)" if "0 < ncli (cpus s c)"
    using inv(2) that by (simp add: cli_inv_def cli_ok_def)
  moreover have "holds s c l \<longleftrightarrow> l \<in> owned s c"
    using inv(1) by (auto simp: sect_inv_def holds_def in_section_def)
  ultimately show ?thesis by blast
qed

theorem spinlock_holder_accurate_witness:
  "lock_reachable contended \<and> in_section contended 0 7 \<and> \<not> fl_if (cpus contended 0) \<and> \<not> holds contended 0 7"
  using spinlock_holder_accurate [OF contended_reachable, of 0 7] contended_reachable contended_section
  by (auto simp: contended_def boot_machine_def)

text \<open>
  \<^verbatim>\<open>acquire\<close> panics exactly on a lock the calling CPU already holds, spins exactly on a lock somebody
  else holds, and otherwise returns holding the lock; \<^verbatim>\<open>release\<close> by the holder then returns with the
  lock free, so the pair never ends in a panic of the interrupt counters.
\<close>

theorem acquire_release_outcome:
  assumes "cli_ok (cpus s c)"
  shows "(acquire s c l st = panic ''acquire'' \<longleftrightarrow> holds s c l) \<and>
    (acquire s c l st = Inl (Sleep ''spin'') \<longleftrightarrow> locked (lks s l) \<and> \<not> holds s c l) \<and>
    (\<not> locked (lks s l) \<longrightarrow>
      (\<exists>t u. acquire s c l st = Inr t \<and> holds t c l \<and> release t c l = Inr u \<and> \<not> locked (lks u l)))"
proof -
  let ?t = "upd_lk l (\<lambda>k. k\<lparr>locked := True, lkcpu := Some c, pcs := st\<rparr>) (upd_cpu c pushcli s)"
  have "cli_ok (cpus ?t c)" "0 < ncli (cpus ?t c)" "holds ?t c l"
    using assms by (auto simp: cli_ok_def holds_def)
  then obtain u where "release ?t c l = Inr u" "\<not> locked (lks u l)"
    using release_cases [of ?t c l] by blast
  with assms show ?thesis
    by (auto simp: acquire_cases holds_def)
qed

theorem acquire_release_outcome_witness:
  "cli_ok (cpus (boot_machine :: nat machine) 0) \<and>
   (\<exists>t u. acquire (boot_machine :: nat machine) 0 7 [] = Inr t \<and> holds t 0 7 \<and> release t 0 7 = Inr u \<and> \<not> locked (lks u 7))"
proof -
  have ok: "cli_ok (cpus (boot_machine :: nat machine) 0)" "\<not> locked (lks (boot_machine :: nat machine) 7)"
    by (simp_all add: boot_machine_def cli_ok_def initlock_def)
  show ?thesis using acquire_release_outcome [OF ok(1), of 7 "[]"] ok by simp
qed

end
