(* ===== verification/Kalloc.thy ===== *)
theory Kalloc
  imports CString
begin

text \<open>
  The physical page allocator, \<^verbatim>\<open>kalloc.c\<close>. Free pages form a singly linked list whose links are
  stored in the first word of each free page, so the state is the list head together with the whole
  address space. The routines run under \<^verbatim>\<open>kmem.lock\<close> once it is in use and are modelled as one step.
  The linker symbol \<^verbatim>\<open>end\<close> is a parameter \<open>kend\<close>.
\<close>

section \<open>Memory words and page arithmetic\<close>

definition load32 :: "mem \<Rightarrow> u32 \<Rightarrow> u32" where
  "load32 m a = ucast (m a) OR push_bit 8 (ucast (m (a + 1))) OR
     push_bit 16 (ucast (m (a + 2))) OR push_bit 24 (ucast (m (a + 3)))"

definition PGSIZE :: u32 where [layout_consts]: "PGSIZE = 4096"
definition KERNBASE :: u32 where [layout_consts]: "KERNBASE = 0x80000000"
definition PHYSTOP :: u32 where [layout_consts]: "PHYSTOP = 0xE000000"

definition V2P :: "u32 \<Rightarrow> u32" where "V2P a = a - KERNBASE"
definition P2V :: "u32 \<Rightarrow> u32" where "P2V a = a + KERNBASE"

definition PGROUNDUP :: "u32 \<Rightarrow> u32" where
  "PGROUNDUP sz = (sz + PGSIZE - 1) AND NOT (PGSIZE - 1)"

definition PGROUNDDOWN :: "u32 \<Rightarrow> u32" where
  "PGROUNDDOWN a = a AND NOT (PGSIZE - 1)"

section \<open>State and operations\<close>

record kmem =
  use_lock :: bool
  freelist :: u32
  ram :: mem

definition bad_page :: "u32 \<Rightarrow> u32 \<Rightarrow> bool" where
  "bad_page kend v \<longleftrightarrow> v mod PGSIZE \<noteq> 0 \<or> v < kend \<or> V2P v \<ge> PHYSTOP"

definition kfree :: "u32 \<Rightarrow> kmem \<Rightarrow> u32 \<Rightarrow> kmem res" where
  "kfree kend s v =
     (if bad_page kend v then panic ''kfree''
      else let m = memset (ram s) v 1 PGSIZE
           in ret (s\<lparr>ram := store32 m v (freelist s), freelist := v\<rparr>))"

definition kalloc :: "kmem \<Rightarrow> u32 \<times> kmem" where
  "kalloc s =
     (let r = freelist s
      in (r, if r \<noteq> 0 then s\<lparr>freelist := load32 (ram s) r\<rparr> else s))"

partial_function (option) freerange_loop :: "u32 \<Rightarrow> kmem \<Rightarrow> u32 \<Rightarrow> u32 \<Rightarrow> kmem res option" where
  "freerange_loop kend s p vend =
     (if p + PGSIZE \<le> vend
      then (case kfree kend s p of
              Inl e \<Rightarrow> Some (Inl e)
            | Inr s' \<Rightarrow> freerange_loop kend s' (p + PGSIZE) vend)
      else Some (Inr s))"

definition freerange :: "u32 \<Rightarrow> kmem \<Rightarrow> u32 \<Rightarrow> u32 \<Rightarrow> kmem res option" where
  "freerange kend s vstart vend = freerange_loop kend s (PGROUNDUP vstart) vend"

definition kinit1 :: "u32 \<Rightarrow> kmem \<Rightarrow> u32 \<Rightarrow> u32 \<Rightarrow> kmem res option" where
  "kinit1 kend s vstart vend = freerange kend (s\<lparr>use_lock := False\<rparr>) vstart vend"

definition kinit2 :: "u32 \<Rightarrow> kmem \<Rightarrow> u32 \<Rightarrow> u32 \<Rightarrow> kmem res option" where
  "kinit2 kend s vstart vend =
     map_option (map_sum id (\<lambda>s. s\<lparr>use_lock := True\<rparr>)) (freerange kend s vstart vend)"

section \<open>The free list as a list of pages\<close>

fun chain :: "mem \<Rightarrow> u32 \<Rightarrow> u32 list \<Rightarrow> bool" where
  "chain m p [] \<longleftrightarrow> p = 0"
| "chain m p (x # xs) \<longleftrightarrow> p = x \<and> x \<noteq> 0 \<and> chain m (load32 m x) xs"

definition free_pages :: "u32 \<Rightarrow> kmem \<Rightarrow> u32 list \<Rightarrow> bool" where
  "free_pages kend s xs \<longleftrightarrow>
     chain (ram s) (freelist s) xs \<and> distinct xs \<and> (\<forall>x \<in> set xs. \<not> bad_page kend x)"

lemma load32_store32: "load32 (store32 m a w) a = w"
proof (rule bit_word_eqI)
  fix n assume "n < LENGTH(32)"
  then consider "n < 8" | "8 \<le> n" "n < 16" | "16 \<le> n" "n < 24" | "24 \<le> n" "n < 32" by fastforce
  then show "bit (load32 (store32 m a w) a) n \<longleftrightarrow> bit w n"
    by cases (auto simp: load32_def store32_def bit_simps)
qed

lemma load32_cong: "m a = m' a \<Longrightarrow> m (a + 1) = m' (a + 1) \<Longrightarrow> m (a + 2) = m' (a + 2) \<Longrightarrow>
    m (a + 3) = m' (a + 3) \<Longrightarrow> load32 m a = load32 m' a"
  by (simp add: load32_def)

text \<open>Two different pages do not meet, so what is stored in one leaves the words of the other alone.\<close>

lemma page_aligned: "v mod PGSIZE = 0 \<longleftrightarrow> 4096 dvd unat v"
  by (simp add: PGSIZE_def word_unat_eq_iff unat_mod mod_eq_0_iff_dvd)

lemma other_page:
  assumes "x mod PGSIZE = 0" "v mod PGSIZE = 0" "x \<noteq> v" "i < 4096"
  shows "4096 \<le> unat (x + of_nat i - v)"
proof -
  have d: "4096 dvd unat (x - v)"
    using assms(1,2) by (auto simp: page_aligned unat_diff_u32 word_le_nat_alt)
  have "unat (x - v) \<noteq> 0" using assms(3) by (simp add: unat_eq_0)
  with d have ge: "4096 \<le> unat (x - v)" by (meson dvd_imp_le neq0_conv)
  have "unat (x - v) < 4294967296" by simp
  with d have "unat (x - v) + 4096 \<le> 4294967296" by (elim dvdE) simp
  then have "unat (x - v + of_nat i) = unat (x - v) + i"
    using assms(4) by (subst unat_add_small) auto
  moreover have e: "x + of_nat i - v = x - v + of_nat i" by (simp add: algebra_simps)
  ultimately show ?thesis using ge by (simp only: e)
qed

definition same_outside :: "u32 \<Rightarrow> mem \<Rightarrow> mem \<Rightarrow> bool" where
  "same_outside v m m' \<longleftrightarrow> (\<forall>a. 4096 \<le> unat (a - v) \<longrightarrow> m' a = m a)"

lemma load32_other_page:
  assumes "x mod PGSIZE = 0" "v mod PGSIZE = 0" "x \<noteq> v" "same_outside v m m'"
  shows "load32 m' x = load32 m x"
proof -
  have "m' (x + of_nat i) = m (x + of_nat i)" if "i < 4096" for i
    using assms other_page [OF assms(1-3) that] by (simp add: same_outside_def)
  from this [of 0] this [of 1] this [of 2] this [of 3] show ?thesis
    by (intro load32_cong) auto
qed

lemma same_outside_store32: "same_outside v m (store32 m v w)"
  by (auto simp: same_outside_def store32_def)

lemma same_outside_memset: "same_outside v m (memset m v c PGSIZE)"
  by (simp add: same_outside_def memset_filled filled_def PGSIZE_def)

lemma same_outside_trans: "same_outside v m m' \<Longrightarrow> same_outside v m' m'' \<Longrightarrow> same_outside v m m''"
  by (simp add: same_outside_def)

lemma same_outside_kfree: "same_outside v (ram s) (store32 (memset (ram s) v 1 PGSIZE) v w)"
  by (rule same_outside_trans [OF same_outside_memset same_outside_store32])

lemma bad_page_aligned: "\<not> bad_page kend v \<Longrightarrow> v mod PGSIZE = 0"
  by (simp add: bad_page_def)

lemma chain_same_outside:
  "chain m p xs \<Longrightarrow> \<forall>x \<in> set xs. x mod PGSIZE = 0 \<and> x \<noteq> v \<Longrightarrow> v mod PGSIZE = 0 \<Longrightarrow>
   same_outside v m m' \<Longrightarrow> chain m' p xs"
proof (induction xs arbitrary: p)
  case (Cons x xs)
  then have "load32 m' x = load32 m x" by (intro load32_other_page) auto
  with Cons show ?case by simp
qed simp

lemma kfree_free_pages:
  assumes "free_pages kend s xs" "\<not> bad_page kend v" "v \<notin> set xs" "v \<noteq> 0"
  shows "\<exists>s'. kfree kend s v = Inr s' \<and> free_pages kend s' (v # xs) \<and> same_outside v (ram s) (ram s')"
proof -
  let ?m = "store32 (memset (ram s) v 1 PGSIZE) v (freelist s)"
  have pages: "\<forall>x \<in> set xs. \<not> bad_page kend x" and ch: "chain (ram s) (freelist s) xs" and d: "distinct xs"
    using assms(1) by (auto simp: free_pages_def)
  have "\<forall>x \<in> set xs. x mod PGSIZE = 0 \<and> x \<noteq> v"
    using pages assms(3) bad_page_aligned by blast
  from chain_same_outside [OF ch this bad_page_aligned [OF assms(2)] same_outside_kfree]
  have "chain ?m (freelist s) xs" .
  then have "free_pages kend (s\<lparr>ram := ?m, freelist := v\<rparr>) (v # xs)"
    using pages d assms(2-4) by (simp add: free_pages_def load32_store32)
  moreover have "kfree kend s v = Inr (s\<lparr>ram := ?m, freelist := v\<rparr>)"
    using assms(2) by (simp only: kfree_def Let_def if_False)
  moreover have "same_outside v (ram s) (ram (s\<lparr>ram := ?m, freelist := v\<rparr>))"
    using same_outside_kfree by simp
  ultimately show ?thesis by blast
qed

lemma kalloc_Cons:
  assumes "free_pages kend s (x # xs)"
  shows "\<exists>s'. kalloc s = (x, s') \<and> x \<noteq> 0 \<and> free_pages kend s' xs \<and> ram s' = ram s"
  using assms by (auto simp: free_pages_def kalloc_def Let_def)

lemma kalloc_Nil: "free_pages kend s [] \<Longrightarrow> kalloc s = (0, s)"
  by (simp add: free_pages_def kalloc_def Let_def)

section \<open>The allocator interface\<close>

text \<open>Clients that free only pages they own; \<open>live\<close> is what they own.\<close>

inductive client_run :: "('s \<Rightarrow> u32 \<Rightarrow> 's res) \<Rightarrow> ('s \<Rightarrow> u32 \<times> 's) \<Rightarrow> 's \<Rightarrow> 's \<Rightarrow> u32 set \<Rightarrow> bool"
  for free alloc s0 where
  start: "client_run free alloc s0 s0 {}"
| take_page: "client_run free alloc s0 s live \<Longrightarrow> alloc s = (v, s') \<Longrightarrow> v \<noteq> 0 \<Longrightarrow>
    client_run free alloc s0 s' (insert v live)"
| give_page: "client_run free alloc s0 s live \<Longrightarrow> v \<in> live \<Longrightarrow> free s v = Inr s' \<Longrightarrow>
    client_run free alloc s0 s' (live - {v})"

text \<open>
  What the rest of the kernel relies on: an allocator whose state represents a list of free pages,
  \<open>alloc\<close> takes one page out or reports 0 when there is none, and \<open>free\<close> puts back a page that is not
  free. From these laws alone no page is ever handed out while a client still owns it.
\<close>

locale page_allocator =
  fixes free :: "'s \<Rightarrow> u32 \<Rightarrow> 's res"
    and alloc :: "'s \<Rightarrow> u32 \<times> 's"
    and rep :: "'s \<Rightarrow> u32 list \<Rightarrow> bool"
    and page :: "u32 \<Rightarrow> bool"
  assumes rep_page: "rep s xs \<Longrightarrow> distinct xs \<and> (\<forall>x \<in> set xs. page x)"
    and page_nonzero: "page x \<Longrightarrow> x \<noteq> 0"
    and alloc_some: "rep s (x # xs) \<Longrightarrow> \<exists>s'. alloc s = (x, s') \<and> rep s' xs"
    and alloc_none: "rep s [] \<Longrightarrow> alloc s = (0, s)"
    and free_page: "rep s xs \<Longrightarrow> page v \<Longrightarrow> v \<notin> set xs \<Longrightarrow> \<exists>s'. free s v = Inr s' \<and> rep s' (v # xs)"
begin

lemma client_run_rep:
  assumes "client_run free alloc s0 s live" and "rep s0 xs0"
  shows "\<exists>xs. rep s xs \<and> set xs \<union> live = set xs0 \<and> set xs \<inter> live = {}"
  using assms
proof (induction rule: client_run.induct)
  case start
  then show ?case by auto
next
  case (take_page s live v s')
  then obtain xs where xs: "rep s xs" "set xs \<union> live = set xs0" "set xs \<inter> live = {}" by blast
  then obtain ys where ys: "xs = v # ys" "rep s' ys"
    using take_page.hyps alloc_none alloc_some by (cases xs) fastforce+
  with xs rep_page [OF xs(1)] show ?case by (intro exI [of _ ys]) auto
next
  case (give_page s live v s')
  then obtain xs where xs: "rep s xs" "set xs \<union> live = set xs0" "set xs \<inter> live = {}" by blast
  then have v: "page v" "v \<notin> set xs"
    using give_page rep_page [OF give_page.prems] by auto
  with free_page [OF xs(1) v] give_page.hyps have "rep s' (v # xs)" by auto
  with xs give_page.hyps show ?case by (intro exI [of _ "v # xs"]) auto
qed

lemma no_double_alloc:
  assumes "client_run free alloc s0 s live" and "rep s0 xs0" and "alloc s = (v, s')" and "v \<noteq> 0"
  shows "v \<notin> live \<and> v \<in> set xs0"
proof -
  obtain xs where xs: "rep s xs" "set xs \<union> live = set xs0" "set xs \<inter> live = {}"
    using client_run_rep [OF assms(1,2)] by blast
  then have "v \<in> set xs"
    using assms(3,4) alloc_none alloc_some by (cases xs) fastforce+
  with xs show ?thesis by blast
qed

lemma free_never_faults:
  assumes "client_run free alloc s0 s live" and "rep s0 xs0" and "v \<in> live"
  shows "\<exists>s'. free s v = Inr s'"
proof -
  obtain xs where xs: "rep s xs" "set xs \<union> live = set xs0" "set xs \<inter> live = {}"
    using client_run_rep [OF assms(1,2)] by blast
  then show ?thesis using free_page [OF xs(1)] rep_page [OF assms(2)] assms(3) by blast
qed

end

interpretation kmem: page_allocator "kfree kend" kalloc "free_pages kend" "\<lambda>v. \<not> bad_page kend v \<and> v \<noteq> 0"
  for kend
proof unfold_locales
  have "0 \<notin> set xs" if "chain m p xs" for m p xs
    using that by (induction xs arbitrary: p) auto
  then show "\<And>s xs. free_pages kend s xs \<Longrightarrow> distinct xs \<and> (\<forall>x \<in> set xs. \<not> bad_page kend x \<and> x \<noteq> 0)"
    unfolding free_pages_def by metis
  show "\<And>s x xs. free_pages kend s (x # xs) \<Longrightarrow> \<exists>s'. kalloc s = (x, s') \<and> free_pages kend s' xs"
    using kalloc_Cons by blast
  show "\<And>s. free_pages kend s [] \<Longrightarrow> kalloc s = (0, s)" by (rule kalloc_Nil)
  show "\<And>s xs v. free_pages kend s xs \<Longrightarrow> \<not> bad_page kend v \<and> v \<noteq> 0 \<Longrightarrow> v \<notin> set xs \<Longrightarrow>
      \<exists>s'. kfree kend s v = Inr s' \<and> free_pages kend s' (v # xs)"
    using kfree_free_pages by blast
qed simp

section \<open>Initialisation\<close>

definition page_run :: "u32 \<Rightarrow> nat \<Rightarrow> u32 list" where
  "page_run p k = map (\<lambda>i. p + of_nat (4096 * i)) [0..<k]"

lemma page_run_Suc: "page_run p (Suc k) = p # page_run (p + PGSIZE) k"
  by (simp add: page_run_def upt_conv_Cons map_Suc_upt [symmetric] PGSIZE_def algebra_simps comp_def del: upt_Suc)

lemma freerange_loop_run:
  assumes "free_pages kend s xs" and "unat vend < unat p + 4096 * k + 4096"
    and "unat p + 4096 * k \<le> unat vend" and "unat vend < 4294963200"
    and "\<forall>v \<in> set (page_run p k). \<not> bad_page kend v \<and> v \<noteq> 0 \<and> v \<notin> set xs"
  shows "\<exists>s'. freerange_loop kend s p vend = Some (Inr s') \<and> free_pages kend s' (rev (page_run p k) @ xs)"
  using assms
proof (induction k arbitrary: s p xs)
  case 0
  then have "unat (p + PGSIZE) = unat p + 4096" by (simp add: PGSIZE_def unat_add_small)
  with 0 have "\<not> p + PGSIZE \<le> vend" by (simp add: word_le_nat_alt)
  with 0 show ?case by (subst freerange_loop.simps) (simp add: page_run_def)
next
  case (Suc k)
  have up: "unat (p + PGSIZE) = unat p + 4096"
    using Suc.prems by (simp add: PGSIZE_def unat_add_small)
  then have go: "p + PGSIZE \<le> vend" using Suc.prems by (simp add: word_le_nat_alt)
  have "\<not> bad_page kend p" "p \<noteq> 0" "p \<notin> set xs" using Suc.prems(5) by (auto simp: page_run_Suc)
  then obtain s1 where s1: "kfree kend s p = Inr s1" "free_pages kend s1 (p # xs)"
    using kmem.free_page [OF Suc.prems(1)] by blast
  have "p \<notin> set (page_run (p + PGSIZE) k)"
  proof
    assume "p \<in> set (page_run (p + PGSIZE) k)"
    then obtain i where i: "i < k" "p = p + (PGSIZE + of_nat (4096 * i))"
      by (auto simp: page_run_def algebra_simps)
    then have "unat (of_nat (4096 * Suc i) :: u32) = 0" by (simp add: PGSIZE_def algebra_simps)
    moreover have "4096 * Suc i < 4294967296" using i(1) Suc.prems(3,4) by simp
    ultimately show False by (simp add: unat_of_nat_u32 del: mult_Suc_right of_nat_mult)
  qed
  then have "\<exists>s'. freerange_loop kend s1 (p + PGSIZE) vend = Some (Inr s') \<and>
      free_pages kend s' (rev (page_run (p + PGSIZE) k) @ p # xs)"
    using Suc.prems up by (intro Suc.IH s1) (auto simp: page_run_Suc)
  then show ?case using go s1 by (subst freerange_loop.simps) (simp add: page_run_Suc)
qed

lemma page_mask: "PGSIZE - 1 = mask 12"
  by (simp add: PGSIZE_def mask_eq_exp_minus_1)

lemma and_not_page_mask: "unat (x AND NOT (PGSIZE - 1)) = unat x div 4096 * 4096"
proof -
  have "x AND NOT (PGSIZE - 1) = push_bit 12 (drop_bit 12 x)"
    unfolding page_mask by (rule bit_word_eqI) (auto simp: bit_simps)
  also have "\<dots> = x div 4096 * 4096" by (simp add: push_bit_eq_mult drop_bit_eq_div)
  finally have e: "x AND NOT (PGSIZE - 1) = x div 4096 * 4096" .
  have "unat x div 4096 * 4096 \<le> unat x" by (rule div_times_less_eq_dividend)
  also have "unat x < 4294967296" by simp
  finally show ?thesis unfolding e by (simp add: unat_word_ariths unat_div)
qed

lemma unat_PGROUNDUP:
  "unat sz < 4294963201 \<Longrightarrow> unat (PGROUNDUP sz) = (unat sz + 4095) div 4096 * 4096"
  unfolding PGROUNDUP_def and_not_page_mask
  by (simp add: PGSIZE_def unat_add_small flip: add_diff_eq)

lemma unat_PGROUNDDOWN: "unat (PGROUNDDOWN a) = unat a div 4096 * 4096"
  unfolding PGROUNDDOWN_def by (rule and_not_page_mask)

section \<open>Properties\<close>

text \<open>
  C8. Starting from any allocator state that represents a set of free pages, and as long as the
  clients free only pages they own, \<^verbatim>\<open>kalloc\<close> never returns a page that a client still owns, and
  whatever it returns is one of the pages the allocator started with.
\<close>

theorem kalloc_no_double_allocation:
  assumes "client_run (kfree kend) kalloc s0 s live" and "free_pages kend s0 xs0"
    and "kalloc s = (v, s')" and "v \<noteq> 0"
  shows "v \<notin> live \<and> v \<in> set xs0"
  using assms by (rule kmem.no_double_alloc)

definition kmem_empty :: kmem where
  "kmem_empty = \<lparr>use_lock = False, freelist = 0, ram = (\<lambda>_. 0)\<rparr>"

lemma kmem_empty_free: "free_pages kend kmem_empty []"
  by (simp add: free_pages_def kmem_empty_def)

theorem kalloc_no_double_allocation_witness:
  "\<exists>s0 s1. kfree 0x80100000 kmem_empty 0x80200000 = Inr s0 \<and> kalloc s0 = (0x80200000, s1) \<and> 0x80200000 \<notin> ({} :: u32 set)"
proof -
  have "\<not> bad_page 0x80100000 0x80200000 \<and> (0x80200000 :: u32) \<noteq> 0"
    by (simp add: bad_page_def PGSIZE_def V2P_def PHYSTOP_def KERNBASE_def)
  then obtain s0 where s0: "kfree 0x80100000 kmem_empty 0x80200000 = Inr s0" "free_pages 0x80100000 s0 [0x80200000]"
    using kmem.free_page [OF kmem_empty_free] by (metis empty_iff list.set(1))
  obtain s1 where s1: "kalloc s0 = (0x80200000, s1)" using kalloc_Cons [OF s0(2)] by blast
  show ?thesis
    using s0 s1 kalloc_no_double_allocation [OF client_run.start s0(2) s1] by auto
qed

text \<open>
  \<^verbatim>\<open>freerange\<close> over a range between the end of the kernel image and the top of physical memory
  returns without a panic, and the free list then holds exactly the whole pages of the range, the
  highest first.
\<close>

theorem freerange_exact:
  assumes "free_pages kend s []" and "kend \<le> vstart" and "KERNBASE \<le> vstart"
    and "vstart \<le> vend" and "PGROUNDUP vstart \<le> vend" and "vend \<le> KERNBASE + PHYSTOP"
  shows "\<exists>s'. freerange kend s vstart vend = Some (Inr s') \<and>
    free_pages kend s' (rev (page_run (PGROUNDUP vstart) ((unat vend - unat (PGROUNDUP vstart)) div 4096)))"
proof -
  let ?p = "PGROUNDUP vstart" and ?k = "(unat vend - unat (PGROUNDUP vstart)) div 4096"
  have vend: "unat vend \<le> 2382364672"
    using assms(6) by (simp add: word_le_nat_alt KERNBASE_def PHYSTOP_def)
  have vs: "2147483648 \<le> unat vstart"
    using assms(3) by (simp add: word_le_nat_alt KERNBASE_def)
  have pv: "unat ?p \<le> unat vend" using assms(5) by (simp add: word_le_nat_alt)
  have up: "unat vstart \<le> unat ?p" "4096 dvd unat ?p"
  proof -
    show dv: "4096 dvd unat ?p" by (simp add: PGROUNDUP_def and_not_page_mask)
    have "unat vstart < 4294963201" using assms(4) vend by (simp add: word_le_nat_alt)
    then show "unat vstart \<le> unat ?p" by (simp add: unat_PGROUNDUP)
  qed
  have "\<not> bad_page kend v \<and> v \<noteq> 0" if v: "v \<in> set (page_run ?p ?k)" for v
  proof -
    obtain i where i: "i < ?k" "v = ?p + of_nat (4096 * i)" using v by (auto simp: page_run_def)
    have b: "4096 * i + 4096 \<le> unat vend - unat ?p" using i(1) by linarith
    then have u: "unat v = unat ?p + 4096 * i"
      using vend pv by (simp add: i(2) unat_add_small del: of_nat_mult)
    have "4096 dvd unat v" using u up by simp
    moreover have "kend \<le> v" using u up assms(2) by (simp add: word_le_nat_alt)
    moreover have "unat (V2P v) < unat PHYSTOP"
      using u up vs b vend pv by (simp add: V2P_def unat_diff_u32 KERNBASE_def PHYSTOP_def word_le_nat_alt)
    ultimately show ?thesis
      using u up vs by (auto simp: bad_page_def page_aligned word_le_nat_alt word_less_nat_alt)
  qed
  then show ?thesis
    unfolding freerange_def
    using freerange_loop_run [OF assms(1), of vend ?p ?k] vend pv by (auto simp: algebra_simps)
qed

theorem freerange_exact_witness:
  "\<exists>s'. freerange 0x80100000 kmem_empty 0x80200000 0x80202000 = Some (Inr s') \<and>
    free_pages 0x80100000 s' [0x80201000, 0x80200000]"
proof -
  have up: "PGROUNDUP 0x80200000 = 0x80200000" by (simp add: PGROUNDUP_def PGSIZE_def)
  have "page_run 0x80200000 2 = [0x80200000, 0x80201000]" by (simp add: page_run_def upt_rec)
  then show ?thesis
    using freerange_exact [of "0x80100000" kmem_empty "0x80200000" "0x80202000"] kmem_empty_free
    by (simp add: up KERNBASE_def PHYSTOP_def)
qed

end
