(* ===== verification/Sleeplock.thy ===== *)
theory Sleeplock
  imports Prelude
begin

text \<open>
  Sleep locks, \<^verbatim>\<open>sleeplock.c\<close>. The lock's own spin lock makes each routine one atomic step; a process
  that finds the lock taken sleeps, which is the \<open>Sleep\<close> outcome. \<open>pid\<close> is the process that runs the
  routine.
\<close>

record sleeplock =
  slocked :: bool
  spid :: int

definition initsleeplock :: sleeplock where
  "initsleeplock = \<lparr>slocked = False, spid = 0\<rparr>"

definition acquiresleep :: "int \<Rightarrow> sleeplock \<Rightarrow> sleeplock res" where
  "acquiresleep pid lk =
     (if slocked lk then Inl (Sleep ''sleeplock'') else ret (lk\<lparr>slocked := True, spid := pid\<rparr>))"

definition releasesleep :: "sleeplock \<Rightarrow> sleeplock" where
  "releasesleep lk = lk\<lparr>slocked := False, spid := 0\<rparr>"

definition holdingsleep :: "int \<Rightarrow> sleeplock \<Rightarrow> bool" where
  "holdingsleep pid lk \<longleftrightarrow> slocked lk \<and> spid lk = pid"

lemma acquiresleep_holding: "acquiresleep pid lk = Inr lk' \<Longrightarrow> holdingsleep pid lk' \<and> \<not> slocked lk"
  by (auto simp: acquiresleep_def holdingsleep_def split: if_splits)

lemma releasesleep_free [simp]: "\<not> slocked (releasesleep lk)" "\<not> holdingsleep pid (releasesleep lk)"
  by (simp_all add: releasesleep_def holdingsleep_def)

lemma acquiresleep_free [simp]: "\<not> slocked lk \<Longrightarrow> acquiresleep pid lk = Inr (lk\<lparr>slocked := True, spid := pid\<rparr>)"
  by (simp add: acquiresleep_def)

lemma acquire_release_sleep: "acquiresleep pid lk = Inr lk' \<Longrightarrow> acquiresleep pid' (releasesleep lk') \<noteq> Inl e"
  by (simp add: acquiresleep_def releasesleep_def)

end
