(* ===== verification/Ide.thy ===== *)
theory Ide
  imports Sleeplock
begin

text \<open>
  The disk driver. \<^verbatim>\<open>ide.c\<close> queues requests and serves one per interrupt; \<^verbatim>\<open>memide.c\<close> copies at once.
  The queue is shown to have the effect of serving the requests at once in the order they were made,
  which is what the layers above use. A buffer is named by its index in the buffer table. The two
  flag bits are two fields. What the drive does with the commands of \<^verbatim>\<open>idestart\<close> is that of an ATA
  disk: a write stores the block it is sent, a read makes the block available until the interrupt.
\<close>

section \<open>State\<close>

definition BSIZE :: nat where [layout_consts]: "BSIZE = 512"
definition FSSIZE :: u32 where [layout_consts]: "FSSIZE = 1000"

type_synonym block = "byte list"
type_synonym drives = "u32 \<Rightarrow> u32 \<Rightarrow> block"

record buf =
  bvalid :: bool
  bdirty :: bool
  bdev :: u32
  bblockno :: u32
  block :: sleeplock
  brefcnt :: nat
  bdata :: block

datatype ide_cmd = CmdRead u32 u32 | CmdWrite

record ide =
  dbufs :: "buf list"
  idequeue :: "nat list"
  havedisk1 :: bool
  drv :: drives
  cmd :: "ide_cmd option"

abbreviation drive_of :: "buf \<Rightarrow> u32" where
  "drive_of b \<equiv> bdev b AND 1"

section \<open>The queueing driver\<close>

definition idestart :: "ide \<Rightarrow> nat \<Rightarrow> ide res" where
  "idestart s i =
     (let b = dbufs s ! i
      in if bblockno b \<ge> FSSIZE then panic ''incorrect blockno''
         else if bdirty b
         then ret (s\<lparr>drv := (drv s)(drive_of b := (drv s (drive_of b))(bblockno b := bdata b)), cmd := Some CmdWrite\<rparr>)
         else ret (s\<lparr>cmd := Some (CmdRead (drive_of b) (bblockno b))\<rparr>))"

text \<open>\<open>good\<close> is the result of \<^verbatim>\<open>idewait(1)\<close>: a failed read leaves the data but still marks it valid.\<close>

definition ideintr :: "ide \<Rightarrow> bool \<Rightarrow> ide res" where
  "ideintr s good =
     (case idequeue s of
        [] \<Rightarrow> ret s
      | i # q \<Rightarrow>
          let b = dbufs s ! i;
              b = (if \<not> bdirty b \<and> good
                   then (case cmd s of Some (CmdRead d k) \<Rightarrow> b\<lparr>bdata := drv s d k\<rparr> | _ \<Rightarrow> b) else b);
              s = s\<lparr>dbufs := (dbufs s)[i := b\<lparr>bvalid := True, bdirty := False\<rparr>], idequeue := q, cmd := None\<rparr>
          in if q \<noteq> [] then idestart s (hd q) else ret s)"

definition iderw_guard :: "bool \<Rightarrow> int \<Rightarrow> buf \<Rightarrow> unit res" where
  "iderw_guard disk1 pid b =
     (if \<not> holdingsleep pid (block b) then panic ''iderw: buf not locked''
      else if bvalid b \<and> \<not> bdirty b then panic ''iderw: nothing to do''
      else if bdev b \<noteq> 0 \<and> \<not> disk1 then panic ''iderw: ide disk 1 not present''
      else ret ())"

text \<open>\<^verbatim>\<open>iderw\<close> up to its waiting loop, which ends when the buffer is valid and clean.\<close>

definition iderw_submit :: "ide \<Rightarrow> int \<Rightarrow> nat \<Rightarrow> ide res" where
  "iderw_submit s pid i =
     andthen (iderw_guard (havedisk1 s) pid (dbufs s ! i)) (\<lambda>_.
       let q = idequeue s; s = s\<lparr>idequeue := q @ [i]\<rparr>
       in if q = [] then idestart s i else ret s)"

definition iderw_done :: "ide \<Rightarrow> nat \<Rightarrow> bool" where
  "iderw_done s i \<longleftrightarrow> bvalid (dbufs s ! i) \<and> \<not> bdirty (dbufs s ! i)"

section \<open>The synchronous transfer\<close>

text \<open>The copy at the end of \<^verbatim>\<open>memide.c\<close>'s \<^verbatim>\<open>iderw\<close>, on a buffer and the drives.\<close>

definition transfer :: "buf \<Rightarrow> drives \<Rightarrow> buf \<times> drives" where
  "transfer b d =
     (if bdirty b
      then (b\<lparr>bdirty := False, bvalid := True\<rparr>, d(drive_of b := (d (drive_of b))(bblockno b := bdata b)))
      else (b\<lparr>bdata := d (drive_of b) (bblockno b), bvalid := True\<rparr>, d))"

definition mem_iderw :: "nat \<Rightarrow> int \<Rightarrow> buf \<Rightarrow> drives \<Rightarrow> (buf \<times> drives) res" where
  "mem_iderw disksize pid b d =
     (if \<not> holdingsleep pid (block b) then panic ''iderw: buf not locked''
      else if bvalid b \<and> \<not> bdirty b then panic ''iderw: nothing to do''
      else if bdev b \<noteq> 1 then panic ''iderw: request not for disk 1''
      else if unat (bblockno b) \<ge> disksize then panic ''iderw: block out of range''
      else ret (transfer b d))"

section \<open>Serving the queue\<close>

definition serve :: "nat \<Rightarrow> buf list \<times> drives \<Rightarrow> buf list \<times> drives" where
  "serve i = (\<lambda>(bs, d). let (b, d') = transfer (bs ! i) d in (bs[i := b], d'))"

text \<open>The driver's invariant: no buffer is queued twice, all requests are in range, and the command the
  drive has been given is that of the first request.\<close>

definition ide_ok :: "ide \<Rightarrow> bool" where
  "ide_ok s \<longleftrightarrow> distinct (idequeue s) \<and>
     (\<forall>i \<in> set (idequeue s). i < length (dbufs s) \<and> bblockno (dbufs s ! i) < FSSIZE) \<and>
     (case idequeue s of
        [] \<Rightarrow> True
      | i # q \<Rightarrow> let b = dbufs s ! i in
          if bdirty b then cmd s = Some CmdWrite \<and> drv s (drive_of b) (bblockno b) = bdata b
          else cmd s = Some (CmdRead (drive_of b) (bblockno b)))"

fun intr_run :: "nat \<Rightarrow> ide \<Rightarrow> ide res" where
  "intr_run 0 s = ret s"
| "intr_run (Suc n) s = andthen (ideintr s True) (intr_run n)"

lemma idestart_ok:
  assumes "bblockno (dbufs s ! i) < FSSIZE" and "i < length (dbufs s)" and "idequeue s = i # q" and "distinct (i # q)"
    and "\<forall>j \<in> set q. j < length (dbufs s) \<and> bblockno (dbufs s ! j) < FSSIZE"
  shows "\<exists>s'. idestart s i = Inr s' \<and> ide_ok s' \<and> dbufs s' = dbufs s \<and> idequeue s' = idequeue s \<and>
    drv s' = (if bdirty (dbufs s ! i) then snd (transfer (dbufs s ! i) (drv s)) else drv s)"
  using assms by (auto simp: idestart_def ide_ok_def transfer_def Let_def not_le)

lemma transfer_again: "bdirty b \<Longrightarrow> transfer b (snd (transfer b d)) = transfer b d"
  by (simp add: transfer_def)

lemma serve_started: "serve i (bs, if bdirty (bs ! i) then snd (transfer (bs ! i) d) else d) = serve i (bs, d)"
  by (simp add: serve_def transfer_again)

lemma ideintr_serves:
  assumes "ide_ok s" and "idequeue s = i # q"
  shows "\<exists>s'. ideintr s True = Inr s' \<and> ide_ok s' \<and> idequeue s' = q \<and>
    dbufs s' = fst (serve i (dbufs s, drv s)) \<and>
    (\<forall>j js. q = j # js \<longrightarrow> serve j (dbufs s', drv s') = serve j (serve i (dbufs s, drv s))) \<and>
    (q = [] \<longrightarrow> drv s' = snd (serve i (dbufs s, drv s)))"
proof -
  let ?b = "dbufs s ! i"
  let ?b' = "fst (transfer ?b (drv s))"
  let ?t = "s\<lparr>dbufs := (dbufs s)[i := ?b'], idequeue := q, cmd := None\<rparr>"
  have d: "snd (transfer ?b (drv s)) = drv s"
    using assms by (auto simp: ide_ok_def transfer_def Let_def fun_eq_iff split: if_splits)
  have b': "(let b = (if \<not> bdirty ?b \<and> True
        then (case cmd s of Some (CmdRead d k) \<Rightarrow> ?b\<lparr>bdata := drv s d k\<rparr> | _ \<Rightarrow> ?b) else ?b)
      in b\<lparr>bvalid := True, bdirty := False\<rparr>) = ?b'"
    using assms by (auto simp: ide_ok_def transfer_def Let_def split: if_splits)
  have intr: "ideintr s True = (if q \<noteq> [] then idestart ?t (hd q) else Inr ?t)"
    using b' by (simp add: ideintr_def assms(2) Let_def)
  have sv: "serve i (dbufs s, drv s) = (dbufs ?t, drv s)" using d by (cases "transfer ?b (drv s)") (simp add: serve_def)
  show ?thesis
  proof (cases q)
    case Nil
    then show ?thesis using intr sv by (simp add: ide_ok_def)
  next
    case (Cons j js)
    have q: "distinct (i # j # js)" "\<forall>k \<in> set (i # j # js). k < length (dbufs s) \<and> bblockno (dbufs s ! k) < FSSIZE"
      using assms Cons by (auto simp: ide_ok_def)
    then have "\<exists>s'. idestart ?t j = Inr s' \<and> ide_ok s' \<and> dbufs s' = dbufs ?t \<and> idequeue s' = idequeue ?t \<and>
        drv s' = (if bdirty (dbufs ?t ! j) then snd (transfer (dbufs ?t ! j) (drv ?t)) else drv ?t)"
      using Cons by (intro idestart_ok [where q = js]) (auto simp: nth_list_update)
    then show ?thesis
      using intr sv Cons serve_started [of j "dbufs ?t" "drv s"] by auto
  qed
qed

lemma intr_run_serves:
  "ide_ok s \<Longrightarrow> idequeue s = q \<Longrightarrow> q \<noteq> [] \<Longrightarrow>
   \<exists>s'. intr_run (length q) s = Inr s' \<and> idequeue s' = [] \<and> (dbufs s', drv s') = fold serve q (dbufs s, drv s)"
proof (induction q arbitrary: s)
  case (Cons i q)
  obtain s1 where s1: "ideintr s True = Inr s1" "ide_ok s1" "idequeue s1 = q"
      "dbufs s1 = fst (serve i (dbufs s, drv s))"
      "\<forall>j js. q = j # js \<longrightarrow> serve j (dbufs s1, drv s1) = serve j (serve i (dbufs s, drv s))"
      "q = [] \<longrightarrow> drv s1 = snd (serve i (dbufs s, drv s))"
    using ideintr_serves [OF Cons.prems(1,2)] by blast
  show ?case
  proof (cases q)
    case Nil
    then show ?thesis using s1 by simp
  next
    case (Cons j js)
    then obtain s' where "intr_run (length q) s1 = Inr s'" "idequeue s' = []" 
        "(dbufs s', drv s') = fold serve q (dbufs s1, drv s1)"
      using Cons.IH [OF s1(2,3)] by auto
    with Cons s1 show ?thesis by simp
  qed
qed simp

lemma fold_serve_length [simp]: "length (fst (fold serve q x)) = length (fst x)"
  by (induction q arbitrary: x) (auto simp: serve_def split: prod.splits)

lemma fold_serve_other: "i \<notin> set q \<Longrightarrow> fst (fold serve q x) ! i = fst x ! i"
  by (induction q arbitrary: x) (auto simp: serve_def split: prod.splits)

lemma transfer_done: "bvalid (fst (transfer b d)) \<and> \<not> bdirty (fst (transfer b d))"
  by (simp add: transfer_def)

lemma fold_serve_done:
  "distinct q \<Longrightarrow> i \<in> set q \<Longrightarrow> i < length (fst x) \<Longrightarrow>
   bvalid (fst (fold serve q x) ! i) \<and> \<not> bdirty (fst (fold serve q x) ! i)"
proof (induction q arbitrary: x)
  case (Cons j q)
  have "length (fst (serve j x)) = length (fst x)" using fold_serve_length [of "[j]" x] by simp
  moreover have "bvalid (fst (serve j x) ! j) \<and> \<not> bdirty (fst (serve j x) ! j)" if "j < length (fst x)"
    using that transfer_done [of "fst x ! j" "snd x"] by (auto simp: serve_def split: prod.splits)
  ultimately show ?case using Cons by (cases "i = j") (auto simp: fold_serve_other)
qed simp

lemma iderw_submit_ok:
  assumes "ide_ok s" and "iderw_submit s pid i = Inr s'" and "i < length (dbufs s)"
    and "i \<notin> set (idequeue s)" and "bblockno (dbufs s ! i) < FSSIZE"
  shows "ide_ok s' \<and> idequeue s' = idequeue s @ [i] \<and> dbufs s' = dbufs s \<and>
    fold serve (idequeue s') (dbufs s', drv s') = serve i (fold serve (idequeue s) (dbufs s, drv s))"
proof (cases "idequeue s")
  case Nil
  let ?s = "s\<lparr>idequeue := [i]\<rparr>"
  have "idestart ?s i = Inr s'" using assms(2) Nil by (auto simp: iderw_submit_def res_simps)
  with idestart_ok [of ?s i "[]"] assms(3,5) show ?thesis
    using Nil serve_started [of i "dbufs s" "drv s"] by auto
next
  case (Cons j q)
  then have "s' = s\<lparr>idequeue := idequeue s @ [i]\<rparr>" using assms(2) by (auto simp: iderw_submit_def res_simps)
  then show ?thesis using assms(1,3-5) Cons by (auto simp: ide_ok_def Let_def)
qed

section \<open>Properties\<close>

text \<open>
  C29. The interrupt-driven disk driver implements the synchronous one: once as many interrupts have
  arrived as requests are queued, and none reports an error, the queue is empty, every requested
  buffer is valid and clean, and buffers and disk are exactly what the requests give when they are
  carried out one after the other in the order they were made.
\<close>

theorem ide_queue_refines:
  assumes "ide_ok s" and "idequeue s \<noteq> []"
  shows "\<exists>s'. intr_run (length (idequeue s)) s = Inr s' \<and> idequeue s' = [] \<and>
    (dbufs s', drv s') = fold serve (idequeue s) (dbufs s, drv s) \<and> (\<forall>i. i \<in> set (idequeue s) \<longrightarrow> iderw_done s' i)"
proof -
  obtain s' where s': "intr_run (length (idequeue s)) s = Inr s'" "idequeue s' = []"
      "(dbufs s', drv s') = fold serve (idequeue s) (dbufs s, drv s)"
    using intr_run_serves [OF assms(1) refl assms(2)] by blast
  have "iderw_done s' i" if "i \<in> set (idequeue s)" for i
    using fold_serve_done [of "idequeue s" i "(dbufs s, drv s)"] that assms(1) s'(3) [symmetric]
    by (simp add: ide_ok_def iderw_done_def)
  with s' show ?thesis by blast
qed

definition ide_demo :: ide where
  "ide_demo = \<lparr>dbufs = [\<lparr>bvalid = True, bdirty = True, bdev = 1, bblockno = 5, block = initsleeplock, brefcnt = 1, bdata = [7]\<rparr>],
     idequeue = [0], havedisk1 = True, drv = (\<lambda>_ k. if k = 5 then [7] else []), cmd = Some CmdWrite\<rparr>"

theorem ide_queue_refines_witness:
  "\<exists>s'. intr_run 1 ide_demo = Inr s' \<and> idequeue s' = [] \<and> bdirty (dbufs s' ! 0) = False"
proof -
  have "ide_ok ide_demo" by (simp add: ide_ok_def ide_demo_def FSSIZE_def)
  then obtain s' where "intr_run 1 ide_demo = Inr s'" "idequeue s' = []"
      "(dbufs s', drv s') = fold serve [0] (dbufs ide_demo, drv ide_demo)"
    using ide_queue_refines [of ide_demo] by (auto simp: ide_demo_def)
  then show ?thesis by (auto simp: serve_def transfer_def ide_demo_def)
qed

end
