(* ===== verification/Bio.thy ===== *)
theory Bio
  imports Ide
begin

text \<open>
  The buffer cache, \<^verbatim>\<open>bio.c\<close>. The doubly linked list through \<^verbatim>\<open>prev\<close> and \<^verbatim>\<open>next\<close> is the list of buffer
  indices from \<^verbatim>\<open>head.next\<close>, the most recently used, to \<^verbatim>\<open>head.prev\<close>. \<^verbatim>\<open>iderw\<close> is the transfer the
  driver carries out. The ghost field \<open>dwrites\<close> records the block writes in the order they reach the
  disk, for the crash arguments of the log. \<open>pid\<close> is the process that runs a routine.
\<close>

section \<open>State and operations\<close>

definition NBUF :: nat where [layout_consts]: "NBUF = 30"
definition ROOTDEV :: u32 where [layout_consts]: "ROOTDEV = 1"

record bcache =
  bbufs :: "buf list"
  lru :: "nat list"
  drvs :: drives
  bdisk1 :: bool
  dwrites :: "(u32 \<times> block) list"

abbreviation bufn :: "bcache \<Rightarrow> nat \<Rightarrow> buf" where
  "bufn s i \<equiv> bbufs s ! i"

definition upd_buf :: "nat \<Rightarrow> (buf \<Rightarrow> buf) \<Rightarrow> bcache \<Rightarrow> bcache" where
  "upd_buf i f s = s\<lparr>bbufs := (bbufs s)[i := f (bufn s i)]\<rparr>"

definition zero_buf :: buf where
  "zero_buf = \<lparr>bvalid = False, bdirty = False, bdev = 0, bblockno = 0, block = initsleeplock, brefcnt = 0,
     bdata = replicate BSIZE 0\<rparr>"

definition binit :: "drives \<Rightarrow> bool \<Rightarrow> bcache" where
  "binit d disk1 = \<lparr>bbufs = replicate NBUF zero_buf, lru = rev [0..<NBUF], drvs = d, bdisk1 = disk1, dwrites = []\<rparr>"

text \<open>The part of \<^verbatim>\<open>bget\<close> under \<^verbatim>\<open>bcache.lock\<close>, which pins the buffer, and the whole routine.\<close>

definition bget_pin :: "bcache \<Rightarrow> u32 \<Rightarrow> u32 \<Rightarrow> (nat \<times> bcache) res" where
  "bget_pin s dev blockno =
     (case find (\<lambda>i. bdev (bufn s i) = dev \<and> bblockno (bufn s i) = blockno) (lru s) of
        Some i \<Rightarrow> ret (i, upd_buf i (\<lambda>b. b\<lparr>brefcnt := brefcnt b + 1\<rparr>) s)
      | None \<Rightarrow>
          (case find (\<lambda>i. brefcnt (bufn s i) = 0 \<and> \<not> bdirty (bufn s i)) (rev (lru s)) of
             Some i \<Rightarrow> ret (i, upd_buf i (\<lambda>b. b\<lparr>bdev := dev, bblockno := blockno, bvalid := False,
                               bdirty := False, brefcnt := 1\<rparr>) s)
           | None \<Rightarrow> panic ''bget: no buffers''))"

definition block_lock :: "bcache \<Rightarrow> int \<Rightarrow> nat \<Rightarrow> bcache res" where
  "block_lock s pid i =
     andthen (acquiresleep pid (block (bufn s i))) (\<lambda>lk. ret (upd_buf i (\<lambda>b. b\<lparr>block := lk\<rparr>) s))"

definition bget :: "bcache \<Rightarrow> int \<Rightarrow> u32 \<Rightarrow> u32 \<Rightarrow> (nat \<times> bcache) res" where
  "bget s pid dev blockno =
     andthen (bget_pin s dev blockno) (\<lambda>(i, s). andthen (block_lock s pid i) (\<lambda>s. ret (i, s)))"

definition iderw :: "bcache \<Rightarrow> int \<Rightarrow> nat \<Rightarrow> bcache res" where
  "iderw s pid i =
     andthen (iderw_guard (bdisk1 s) pid (bufn s i)) (\<lambda>_.
       let b = bufn s i
       in if bblockno b \<ge> FSSIZE then panic ''incorrect blockno''
          else let (b', d) = transfer b (drvs s)
               in ret (s\<lparr>bbufs := (bbufs s)[i := b'], drvs := d,
                        dwrites := dwrites s @ (if bdirty b then [(bblockno b, bdata b)] else [])\<rparr>))"

definition bread :: "bcache \<Rightarrow> int \<Rightarrow> u32 \<Rightarrow> u32 \<Rightarrow> (nat \<times> bcache) res" where
  "bread s pid dev blockno =
     andthen (bget s pid dev blockno) (\<lambda>(i, s).
       if \<not> bvalid (bufn s i) then andthen (iderw s pid i) (\<lambda>s. ret (i, s)) else ret (i, s))"

definition bwrite :: "bcache \<Rightarrow> int \<Rightarrow> nat \<Rightarrow> bcache res" where
  "bwrite s pid i =
     (if \<not> holdingsleep pid (block (bufn s i)) then panic ''bwrite''
      else iderw (upd_buf i (\<lambda>b. b\<lparr>bdirty := True\<rparr>) s) pid i)"

definition brelse :: "bcache \<Rightarrow> int \<Rightarrow> nat \<Rightarrow> bcache res" where
  "brelse s pid i =
     (if \<not> holdingsleep pid (block (bufn s i)) then panic ''brelse''
      else let s = upd_buf i (\<lambda>b. b\<lparr>block := releasesleep (block b), brefcnt := brefcnt b - 1\<rparr>) s
           in ret (if brefcnt (bufn s i) = 0 then s\<lparr>lru := i # remove1 i (lru s)\<rparr> else s))"

text \<open>What a client does to the data of a buffer it holds.\<close>

definition bmodify :: "bcache \<Rightarrow> nat \<Rightarrow> (block \<Rightarrow> block) \<Rightarrow> bcache" where
  "bmodify s i f = upd_buf i (\<lambda>b. b\<lparr>bdata := f (bdata b)\<rparr>) s"

section \<open>Well-formedness and the logical content of a block\<close>

definition buf_ok :: "(u32 \<Rightarrow> block) \<Rightarrow> buf \<Rightarrow> bool" where
  "buf_ok d b \<longleftrightarrow> (bdev b = 1 \<or> bdev b = 0 \<and> \<not> bvalid b \<and> \<not> bdirty b \<and> brefcnt b = 0) \<and>
     (bdirty b \<longrightarrow> bvalid b) \<and> (bvalid b \<and> \<not> bdirty b \<and> \<not> slocked (block b) \<longrightarrow> bdata b = d (bblockno b))"

definition lock_count :: "buf \<Rightarrow> nat" where
  "lock_count b = (if slocked (block b) then 1 else 0)"

text \<open>\<open>w\<close> lists the buffers pinned by processes that have not got their lock yet, once per process.\<close>

definition bio_ok :: "bcache \<Rightarrow> nat list \<Rightarrow> bool" where
  "bio_ok s w \<longleftrightarrow> length (bbufs s) = NBUF \<and> distinct (lru s) \<and> set (lru s) = {..<NBUF} \<and> bdisk1 s \<and>
     (\<forall>i < NBUF. buf_ok (drvs s 1) (bufn s i) \<and> brefcnt (bufn s i) = count_list w i + lock_count (bufn s i)) \<and>
     (\<forall>i < NBUF. \<forall>j < NBUF. bdev (bufn s i) = 1 \<longrightarrow> bdev (bufn s j) = 1 \<longrightarrow>
        bblockno (bufn s i) = bblockno (bufn s j) \<longrightarrow> i = j)"

abbreviation caches :: "buf \<Rightarrow> u32 \<Rightarrow> bool" where
  "caches b k \<equiv> bdev b = 1 \<and> bblockno b = k"

definition view :: "bcache \<Rightarrow> u32 \<Rightarrow> block" where
  "view s k = (case find_index (\<lambda>b. caches b k \<and> bvalid b) (bbufs s) of
                 Some i \<Rightarrow> bdata (bufn s i) | None \<Rightarrow> drvs s 1 k)"

lemma bio_okD:
  assumes "bio_ok s w"
  shows "length (bbufs s) = NBUF" "distinct (lru s)" "set (lru s) = {..<NBUF}" "bdisk1 s"
    and "i < NBUF \<Longrightarrow> buf_ok (drvs s 1) (bufn s i)"
    and "i < NBUF \<Longrightarrow> brefcnt (bufn s i) = count_list w i + lock_count (bufn s i)"
    and "i < NBUF \<Longrightarrow> j < NBUF \<Longrightarrow> caches (bufn s i) k \<Longrightarrow> caches (bufn s j) k \<Longrightarrow> i = j"
  using assms unfolding bio_ok_def by blast+

lemma view_cached:
  assumes "bio_ok s w" and "i < NBUF" and "caches (bufn s i) k" and "bvalid (bufn s i)"
  shows "view s k = bdata (bufn s i)"
proof -
  have "find_index (\<lambda>b. caches b k \<and> bvalid b) (bbufs s) \<noteq> None"
    using assms(2-4) bio_okD(1) [OF assms(1)] unfolding find_index_None by (metis nth_mem)
  then obtain j where j: "find_index (\<lambda>b. caches b k \<and> bvalid b) (bbufs s) = Some j" by blast
  then have "j < NBUF" "caches (bufn s j) k"
    using find_index_less [OF j] find_index_hit [OF j] bio_okD(1) [OF assms(1)] by auto
  then have "j = i" using bio_okD(7) [OF assms(1) \<open>j < NBUF\<close> assms(2)] assms(3) by blast
  with j show ?thesis by (simp only: view_def option.case)
qed

lemma view_uncached:
  assumes "bio_ok s w" and "\<And>i. i < NBUF \<Longrightarrow> caches (bufn s i) k \<Longrightarrow> \<not> bvalid (bufn s i)"
  shows "view s k = drvs s 1 k"
proof -
  have "find_index (\<lambda>b. caches b k \<and> bvalid b) (bbufs s) = None"
    using assms(2) bio_okD(1) [OF assms(1)] by (auto simp: in_set_conv_nth)
  then show ?thesis by (simp only: view_def option.case)
qed

text \<open>Every operation replaces one buffer, so one lemma carries the invariant and the view for all.\<close>

lemma upd_buf_fields [simp]:
  "lru (upd_buf i f s) = lru s" "drvs (upd_buf i f s) = drvs s" "bdisk1 (upd_buf i f s) = bdisk1 s"
  "dwrites (upd_buf i f s) = dwrites s" "length (bbufs (upd_buf i f s)) = length (bbufs s)"
  by (simp_all add: upd_buf_def)

lemma upd_buf_nth [simp]: "i < length (bbufs s) \<Longrightarrow> bufn (upd_buf i f s) j = (if j = i then f (bufn s i) else bufn s j)"
  by (simp add: upd_buf_def)

lemma bio_replace:
  assumes ok: "bio_ok s w" and i: "i < NBUF"
    and s': "bbufs s' = (bbufs s)[i := b]" "distinct (lru s')" "set (lru s') = {..<NBUF}" "bdisk1 s'"
    and d: "\<And>k. k \<noteq> bblockno b \<Longrightarrow> drvs s' 1 k = drvs s 1 k"
    and b: "buf_ok (drvs s' 1) b" "brefcnt b = count_list w' i + lock_count b"
    and w: "\<And>j. j \<noteq> i \<Longrightarrow> count_list w' j = count_list w j"
    and fresh: "bdev b = 1" "\<And>j. j < NBUF \<Longrightarrow> j \<noteq> i \<Longrightarrow> \<not> caches (bufn s j) (bblockno b)"
  shows "bio_ok s' w'"
  unfolding bio_ok_def
proof (intro conjI allI impI)
  note D = bio_okD [OF ok]
  show "length (bbufs s') = NBUF" using s' D(1) by simp
  fix j assume j: "j < NBUF"
  have nth: "bufn s' j = (if j = i then b else bufn s j)" if "j < NBUF" for j
    using that s' D(1) by simp
  show "buf_ok (drvs s' 1) (bufn s' j)"
  proof (cases "j = i")
    case False
    then have "\<not> caches (bufn s j) (bblockno b)" using fresh j by blast
    then show ?thesis using False D(5) [OF j] d [of "bblockno (bufn s j)"] nth [OF j] by (auto simp: buf_ok_def)
  qed (use b nth j in simp)
  show "brefcnt (bufn s' j) = count_list w' j + lock_count (bufn s' j)"
    using b(2) D(6) [OF j] nth [OF j] w by auto
  fix k assume k: "k < NBUF" and "bdev (bufn s' j) = 1" "bdev (bufn s' k) = 1" "bblockno (bufn s' j) = bblockno (bufn s' k)"
  then show "j = k"
    using D(7) [OF j k] fresh(2) [OF j] fresh(2) [OF k] nth [OF j] nth [OF k] by (auto split: if_splits)
qed (use s' in auto)

lemma view_replace:
  assumes "bio_ok s w" and "bio_ok s' w'" and "i < NBUF" and "bbufs s' = (bbufs s)[i := b]"
    and "\<not> caches (bufn s i) k" and "\<not> caches b k" and "drvs s' 1 k = drvs s 1 k"
  shows "view s' k = view s k"
proof -
  have nth: "bufn s' j = (if j = i then b else bufn s j)" if "j < NBUF" for j
    using that assms(4) bio_okD(1) [OF assms(1)] by simp
  show ?thesis
  proof (cases "\<exists>j < NBUF. caches (bufn s j) k \<and> bvalid (bufn s j)")
    case True
    then obtain j where j: "j < NBUF" "caches (bufn s j) k" "bvalid (bufn s j)" by blast
    then have "j \<noteq> i" using assms(5) by blast
    then show ?thesis using view_cached [OF assms(1) j] view_cached [OF assms(2), of j k] j nth by simp
  next
    case False
    then have "view s k = drvs s 1 k" using view_uncached [OF assms(1)] by blast
    moreover have "view s' k = drvs s' 1 k"
      using False nth assms(6) by (intro view_uncached [OF assms(2)]) (metis)
    ultimately show ?thesis using assms(7) by simp
  qed
qed

text \<open>A change of a buffer that stays on its block.\<close>

lemma bio_touch:
  assumes ok: "bio_ok s w" and i: "i < NBUF" "bdev (bufn s i) = 1"
    and s': "bbufs s' = (bbufs s)[i := b]" "distinct (lru s')" "set (lru s') = {..<NBUF}" "bdisk1 s'"
    and d: "\<And>k. k \<noteq> bblockno b \<Longrightarrow> drvs s' 1 k = drvs s 1 k"
    and b: "buf_ok (drvs s' 1) b" "brefcnt b = count_list w' i + lock_count b"
    and w: "\<And>j. j \<noteq> i \<Longrightarrow> count_list w' j = count_list w j"
    and same: "bdev b = 1" "bblockno b = bblockno (bufn s i)"
    and v: "bvalid b \<Longrightarrow> bdata b = x" "\<not> bvalid b \<Longrightarrow> drvs s' 1 (bblockno b) = x"
  shows "bio_ok s' w' \<and> view s' = (view s)(bblockno b := x)"
proof -
  have ok': "bio_ok s' w'"
    using bio_okD(7) [OF ok _ i(1)] i same by (intro bio_replace [OF ok i(1) s' d b w]) auto
  have bi: "bufn s' i = b" using s'(1) i bio_okD(1) [OF ok] by simp
  have "view s' k = ((view s)(bblockno b := x)) k" for k
  proof (cases "k = bblockno b")
    case True
    show ?thesis
    proof (cases "bvalid b")
      case valid: True
      then have "view s' k = bdata b"
        using view_cached [OF ok' i(1), of k] bi same True by simp
      then show ?thesis using v(1) [OF valid] True by simp
    next
      case invalid: False
      have "j = i" if "j < NBUF" "caches (bufn s' j) k" for j
        using bio_okD(7) [OF ok' that(1) i(1)] that bi same True by auto
      then have "view s' k = drvs s' 1 k" using bi invalid by (intro view_uncached [OF ok']) auto
      then show ?thesis using v(2) [OF invalid] True by simp
    qed
  next
    case False
    then show ?thesis
      using view_replace [OF ok ok' i(1) s'(1), of k] same d by simp
  qed
  then show ?thesis using ok' by blast
qed

text \<open>A change that leaves the content and the validity of the buffer alone.\<close>

lemma bio_meta:
  assumes ok: "bio_ok s w" and i: "i < NBUF" "bdev (bufn s i) = 1"
    and s': "bbufs s' = (bbufs s)[i := b]" "distinct (lru s')" "set (lru s') = {..<NBUF}" "bdisk1 s'" "drvs s' = drvs s"
    and b: "buf_ok (drvs s 1) b" "brefcnt b = count_list w' i + lock_count b"
    and w: "\<And>j. j \<noteq> i \<Longrightarrow> count_list w' j = count_list w j"
    and same: "bdev b = 1" "bblockno b = bblockno (bufn s i)" "bvalid b = bvalid (bufn s i)" "bdata b = bdata (bufn s i)"
  shows "bio_ok s' w' \<and> view s' = view s"
proof -
  have only: "j = i" if "j < NBUF" "caches (bufn s j) (bblockno b)" for j
    using bio_okD(7) [OF ok that(1) i(1) that(2)] i(2) same(2) by simp
  have "bio_ok s' w' \<and> view s' = (view s)(bblockno b := view s (bblockno b))"
  proof (rule bio_touch [OF ok i s'(1-4) _ _ b(2) w same(1,2)])
    show "bdata b = view s (bblockno b)" if "bvalid b"
      using view_cached [OF ok i(1), of "bblockno b"] that i(2) same by simp
    show "drvs s' 1 (bblockno b) = view s (bblockno b)" if "\<not> bvalid b"
      using that only same(3) s'(5) by (subst view_uncached [OF ok]) auto
  qed (use s'(5) b(1) in simp_all)
  then show ?thesis by simp
qed

lemma count_remove1_same: "i \<in> set w \<Longrightarrow> count_list w i = count_list (remove1 i w) i + 1"
  by (induction w) auto

lemma count_remove1_other: "j \<noteq> i \<Longrightarrow> count_list (remove1 i w) j = count_list w j"
  by (induction w) auto

lemma find_lru:
  assumes "bio_ok s w" and "find P (lru s) = Some i \<or> find P (rev (lru s)) = Some i"
  shows "i < NBUF \<and> P i"
proof -
  have hit: "x \<in> set xs \<and> P x" if "find P xs = Some x" for xs x
    using that by (auto simp: find_Some_iff)
  then have "i \<in> set (lru s) \<and> P i" using assms(2) hit [of "rev (lru s)" i] hit [of "lru s" i] by auto
  then show ?thesis using bio_okD(3) [OF assms(1)] by simp
qed

lemma find_lru_None:
  assumes "bio_ok s w" and "find P (lru s) = None" and "j < NBUF"
  shows "\<not> P j"
  using assms bio_okD(3) [OF assms(1)] by (simp add: find_None_iff)

lemma bio_recycle:
  assumes ok: "bio_ok s w" and i: "i < NBUF" "brefcnt (bufn s i) = 0" "\<not> bdirty (bufn s i)"
    and fresh: "\<And>j. j < NBUF \<Longrightarrow> \<not> caches (bufn s j) k"
  defines "b \<equiv> (bufn s i)\<lparr>bdev := 1, bblockno := k, bvalid := False, bdirty := False, brefcnt := 1\<rparr>"
  defines "t \<equiv> s\<lparr>bbufs := (bbufs s)[i := b]\<rparr>"
  shows "bio_ok t (i # w) \<and> view t = view s"
proof -
  note D = bio_okD [OF ok]
  have unlocked: "\<not> slocked (block (bufn s i))" "count_list w i = 0"
    using i D(6) [OF i(1)] by (auto simp: lock_count_def split: if_splits)
  have ok': "bio_ok t (i # w)"
    using D(2-4) unlocked fresh
    by (intro bio_replace [OF ok i(1), where b = b]) (simp_all add: t_def b_def buf_ok_def lock_count_def)
  have bi: "bufn t j = (if j = i then b else bufn s j)" if "j < NBUF" for j using that D(1) by (simp add: t_def)
  have "view t k' = view s k'" for k'
  proof -
    consider "k' = k" | "k' \<noteq> k" "caches (bufn s i) k'" | "k' \<noteq> k" "\<not> caches (bufn s i) k'" by blast
    then show ?thesis
    proof cases
      case 1
      then have "view s k' = drvs s 1 k'" using fresh by (intro view_uncached [OF ok]) auto
      moreover have "view t k' = drvs t 1 k'"
        using fresh bi 1 by (intro view_uncached [OF ok']) (auto simp: b_def split: if_splits)
      ultimately show ?thesis by (simp add: t_def)
    next
      case 2
      have only: "j = i" if "j < NBUF" "caches (bufn s j) k'" for j
        using D(7) [OF that(1) i(1) that(2) 2(2)] .
      have "view s k' = drvs s 1 k'"
      proof (cases "bvalid (bufn s i)")
        case True
        then show ?thesis
          using view_cached [OF ok i(1) 2(2)] D(5) [OF i(1)] unlocked i(3) 2(2) by (simp add: buf_ok_def)
      next
        case False
        then show ?thesis using only by (intro view_uncached [OF ok]) blast
      qed
      moreover have "view t k' = drvs t 1 k'"
        using only bi 2(1) by (intro view_uncached [OF ok']) (metis buf.select_convs(4) buf.surjective buf.update_convs(1-7) b_def)
      ultimately show ?thesis by (simp add: t_def)
    next
      case 3
      then show ?thesis
        using view_replace [OF ok ok' i(1), of b k'] by (auto simp: t_def b_def)
    qed
  qed
  then show ?thesis using ok' by blast
qed

lemma upd_buf_eq: "upd_buf i f s = s\<lparr>bbufs := (bbufs s)[i := f (bufn s i)]\<rparr>"
  by (simp add: upd_buf_def)

lemma bget_pin_ok:
  assumes ok: "bio_ok s w" and pin: "bget_pin s 1 k = Inr (i, s')"
  shows "bio_ok s' (i # w) \<and> view s' = view s \<and> i < NBUF \<and> caches (bufn s' i) k"
proof -
  note D = bio_okD [OF ok]
  let ?P = "\<lambda>i. bdev (bufn s i) = 1 \<and> bblockno (bufn s i) = k"
  let ?Q = "\<lambda>i. brefcnt (bufn s i) = 0 \<and> \<not> bdirty (bufn s i)"
  show ?thesis
  proof (cases "find ?P (lru s)")
    case (Some j)
    then have j: "j = i" "s' = s\<lparr>bbufs := (bbufs s)[i := (bufn s i)\<lparr>brefcnt := brefcnt (bufn s i) + 1\<rparr>]\<rparr>"
      using pin by (auto simp: bget_pin_def upd_buf_eq)
    have i: "i < NBUF" "caches (bufn s i) k" using find_lru [OF ok, of ?P i] Some j by auto
    have "bio_ok s' (i # w) \<and> view s' = view s"
      using i D(2-4) D(5,6) [OF i(1)] j
      by (intro bio_meta [OF ok i(1), where b = "(bufn s i)\<lparr>brefcnt := brefcnt (bufn s i) + 1\<rparr>"])
        (simp_all add: buf_ok_def lock_count_def)
    then show ?thesis using i j D(1) by auto
  next
    case None
    then obtain j where f: "find ?Q (rev (lru s)) = Some j" using pin by (auto simp: bget_pin_def split: option.splits)
    then have j: "j = i" "s' = s\<lparr>bbufs := (bbufs s)[i := (bufn s i)\<lparr>bdev := 1, bblockno := k, bvalid := False,
        bdirty := False, brefcnt := 1\<rparr>]\<rparr>"
      using pin None by (auto simp: bget_pin_def upd_buf_eq)
    have i: "i < NBUF" "?Q i" using find_lru [OF ok, of ?Q i] f j by auto
    have "\<not> caches (bufn s j) k" if "j < NBUF" for j using find_lru_None [OF ok None that] by blast
    then show ?thesis using bio_recycle [OF ok i(1)] i j D(1) by simp
  qed
qed

lemma upd_buf_bufs: "bbufs (upd_buf i f s) = (bbufs s)[i := f (bufn s i)]"
  by (simp add: upd_buf_def)

lemma block_lock_eq:
  "block_lock s pid i = (if slocked (block (bufn s i)) then Inl (Sleep ''sleeplock'')
     else Inr (upd_buf i (\<lambda>b. b\<lparr>block := (block (bufn s i))\<lparr>slocked := True, spid := pid\<rparr>\<rparr>) s))"
  by (simp add: block_lock_def acquiresleep_def)

lemma block_lock_ok:
  assumes ok: "bio_ok s w" and i: "i < NBUF" "bdev (bufn s i) = 1" "i \<in> set w" and st: "block_lock s pid i = Inr s'"
  shows "bio_ok s' (remove1 i w) \<and> view s' = view s \<and> holdingsleep pid (block (bufn s' i))"
proof -
  note D = bio_okD [OF ok]
  let ?b = "(bufn s i)\<lparr>block := (block (bufn s i))\<lparr>slocked := True, spid := pid\<rparr>\<rparr>"
  have free: "\<not> slocked (block (bufn s i))" using st by (simp add: block_lock_eq split: if_splits)
  have t: "s' = upd_buf i (\<lambda>b. b\<lparr>block := (block (bufn s i))\<lparr>slocked := True, spid := pid\<rparr>\<rparr>) s"
    using st by (simp add: block_lock_eq free)
  have fields: "bbufs s' = (bbufs s)[i := ?b]" "lru s' = lru s" "drvs s' = drvs s" "bdisk1 s' = bdisk1 s"
    unfolding t by (simp_all add: upd_buf_bufs)
  have "bio_ok s' (remove1 i w) \<and> view s' = view s"
  proof (rule bio_meta [OF ok i(1,2) fields(1) _ _ _ fields(3)])
    show "buf_ok (drvs s 1) ?b" using D(5) [OF i(1)] by (simp add: buf_ok_def)
    show "brefcnt ?b = count_list (remove1 i w) i + lock_count ?b"
    proof -
      have "lock_count ?b = 1" "lock_count (bufn s i) = 0" "brefcnt ?b = brefcnt (bufn s i)"
        using free by (simp_all add: lock_count_def)
      then show ?thesis using D(6) [OF i(1)] count_remove1_same [OF i(3)] by linarith
    qed
    show "count_list (remove1 i w) j = count_list w j" if "j \<noteq> i" for j
      using that by (rule count_remove1_other)
  qed (simp_all add: fields D(2-4) i)
  moreover have "holdingsleep pid (block (bufn s' i))" unfolding t using i D(1) by (simp add: holdingsleep_def)
  ultimately show ?thesis by blast
qed

lemma iderw_ok:
  assumes ok: "bio_ok s w" and i: "i < NBUF" "bdev (bufn s i) = 1" and h: "slocked (block (bufn s i))"
    and st: "iderw (upd_buf i (\<lambda>b. b\<lparr>bdirty := dirty\<rparr>) s) pid i = Inr s'"
    and v: "dirty \<longrightarrow> bvalid (bufn s i)"
  shows "bio_ok s' w \<and> view s' = view s \<and> bvalid (bufn s' i) \<and> \<not> bdirty (bufn s' i) \<and>
    bblockno (bufn s' i) = bblockno (bufn s i) \<and> bdev (bufn s' i) = 1 \<and> block (bufn s' i) = block (bufn s i) \<and>
    drvs s' 1 (bblockno (bufn s i)) = bdata (bufn s' i)"
proof -
  note D = bio_okD [OF ok]
  let ?k = "bblockno (bufn s i)"
  let ?b = "(bufn s i)\<lparr>bdirty := False, bvalid := True, bdata := if dirty then bdata (bufn s i) else drvs s 1 ?k\<rparr>"
  have s': "bbufs s' = (bbufs s)[i := ?b]" "lru s' = lru s" "bdisk1 s' = bdisk1 s"
      "drvs s' = (if dirty then (drvs s)(1 := (drvs s 1)(?k := bdata (bufn s i))) else drvs s)"
      "\<not> dirty \<Longrightarrow> \<not> bvalid (bufn s i)"
    using st i D(1)
    by (auto simp: iderw_def iderw_guard_def res_simps transfer_def upd_buf_eq Let_def
        intro!: arg_cong [where f = "list_update (bbufs s) i"] buf.equality split: if_splits)
  have only: "j = i" if "j < NBUF" "caches (bufn s j) ?k" for j
    using D(7) [OF that(1) i(1) that(2)] i(2) by simp
  have x: "view s ?k = bdata ?b"
  proof (cases dirty)
    case True
    then show ?thesis using v view_cached [OF ok i(1), of ?k] i(2) by simp
  next
    case False
    then show ?thesis using s'(5) only by (subst view_uncached [OF ok]) auto
  qed
  have "bio_ok s' w \<and> view s' = (view s)(bblockno ?b := bdata ?b)"
    using i D(2-4) D(5,6) [OF i(1)] s' h
    by (intro bio_touch [OF ok i, where b = ?b]) (simp_all add: buf_ok_def lock_count_def)
  then have "bio_ok s' w \<and> view s' = view s" using x by auto
  then show ?thesis using s' i D(1) by simp
qed

lemma upd_buf_id: "i < length (bbufs s) \<Longrightarrow> (\<And>b. f b = b \<or> b \<noteq> bufn s i) \<Longrightarrow> upd_buf i f s = s"
  by (metis bcache.surjective bcache.update_convs(1) list_update_id upd_buf_eq)

lemma fill_ok:
  assumes ok: "bio_ok s w" and i: "i < NBUF" "bdev (bufn s i) = 1" and h: "slocked (block (bufn s i))"
    and st: "iderw s pid i = Inr s'" and v: "\<not> bvalid (bufn s i)"
  shows "bio_ok s' w \<and> view s' = view s \<and> bvalid (bufn s' i) \<and> \<not> bdirty (bufn s' i) \<and>
    bblockno (bufn s' i) = bblockno (bufn s i) \<and> bdev (bufn s' i) = 1 \<and> block (bufn s' i) = block (bufn s i)"
proof -
  have "\<not> bdirty (bufn s i)" using bio_okD(5) [OF ok i(1)] v by (auto simp: buf_ok_def)
  then have "upd_buf i (\<lambda>b. b\<lparr>bdirty := False\<rparr>) s = s"
    using bio_okD(1) [OF ok] i by (intro upd_buf_id) auto
  then show ?thesis using iderw_ok [OF ok i h, of False pid s'] st v by simp
qed

lemma bwrite_ok:
  assumes ok: "bio_ok s w" and i: "i < NBUF" "bdev (bufn s i) = 1" and st: "bwrite s pid i = Inr s'"
    and v: "bvalid (bufn s i)"
  shows "bio_ok s' w \<and> view s' = view s \<and> bvalid (bufn s' i) \<and> \<not> bdirty (bufn s' i) \<and>
    bblockno (bufn s' i) = bblockno (bufn s i) \<and> bdev (bufn s' i) = 1 \<and> block (bufn s' i) = block (bufn s i) \<and>
    drvs s' 1 (bblockno (bufn s i)) = bdata (bufn s' i)"
  using iderw_ok [OF ok i, of True pid s'] st v by (auto simp: bwrite_def holdingsleep_def split: if_splits)

lemma bmodify_ok:
  assumes ok: "bio_ok s w" and i: "i < NBUF" "bdev (bufn s i) = 1" "slocked (block (bufn s i))" "bvalid (bufn s i)"
  shows "bio_ok (bmodify s i f) w \<and> view (bmodify s i f) = (view s)(bblockno (bufn s i) := f (bdata (bufn s i)))"
proof -
  let ?b = "(bufn s i)\<lparr>bdata := f (bdata (bufn s i))\<rparr>"
  have "bio_ok (bmodify s i f) w \<and> view (bmodify s i f) = (view s)(bblockno ?b := f (bdata (bufn s i)))"
    using bio_okD(2-4) [OF ok] bio_okD(5,6) [OF ok i(1)] i
    by (intro bio_touch [OF ok i(1,2), where b = ?b]) (simp_all add: bmodify_def upd_buf_eq buf_ok_def lock_count_def)
  then show ?thesis by simp
qed

lemma mark_dirty_ok:
  assumes ok: "bio_ok s w" and i: "i < NBUF" "bdev (bufn s i) = 1" "bvalid (bufn s i)"
  shows "bio_ok (upd_buf i (\<lambda>b. b\<lparr>bdirty := True\<rparr>) s) w \<and> view (upd_buf i (\<lambda>b. b\<lparr>bdirty := True\<rparr>) s) = view s"
  using bio_okD(2-4) [OF ok] bio_okD(5,6) [OF ok i(1)] i
  by (intro bio_meta [OF ok i(1,2), where b = "(bufn s i)\<lparr>bdirty := True\<rparr>"])
    (simp_all add: upd_buf_eq buf_ok_def lock_count_def)

lemma brelse_cases:
  assumes "brelse s pid i = Inr s'"
  defines "t \<equiv> upd_buf i (\<lambda>b. b\<lparr>block := releasesleep (block b), brefcnt := brefcnt b - 1\<rparr>) s"
  shows "slocked (block (bufn s i)) \<and> (s' = t \<or> s' = t\<lparr>lru := i # remove1 i (lru t)\<rparr>)"
  using assms by (auto simp: brelse_def holdingsleep_def Let_def split: if_splits)

lemma brelse_ok:
  assumes ok: "bio_ok s w" and i: "i < NBUF" "bdev (bufn s i) = 1" and st: "brelse s pid i = Inr s'"
    and clean: "bvalid (bufn s i) \<longrightarrow> bdirty (bufn s i) \<or> bdata (bufn s i) = drvs s 1 (bblockno (bufn s i))"
  shows "bio_ok s' w \<and> view s' = view s"
proof -
  note D = bio_okD [OF ok]
  let ?b = "(bufn s i)\<lparr>block := releasesleep (block (bufn s i)), brefcnt := brefcnt (bufn s i) - 1\<rparr>"
  have s': "bbufs s' = (bbufs s)[i := ?b]" "drvs s' = drvs s" "bdisk1 s' = bdisk1 s"
      "lru s' = lru s \<or> lru s' = i # remove1 i (lru s)" and h: "slocked (block (bufn s i))"
    using brelse_cases [OF st] by (auto simp: upd_buf_bufs)
  have lru: "distinct (lru s')" "set (lru s') = {..<NBUF}"
    using s'(4) by (elim disjE; simp add: D(2,3) i(1) insert_absorb)+
  show ?thesis
  proof (rule bio_meta [OF ok i s'(1) lru _ s'(2)])
    show "buf_ok (drvs s 1) ?b" using D(5) [OF i(1)] i(2) clean by (auto simp: buf_ok_def)
    show "brefcnt ?b = count_list w i + lock_count ?b" using D(6) [OF i(1)] h by (simp add: lock_count_def)
  qed (use D(4) i s'(3) in simp_all)
qed

section \<open>Interleaved use\<close>

text \<open>
  Any number of processes use the cache: a process pins a block, waits for the lock of its buffer,
  fills it if it is not valid, changes the data it holds, writes it through (\<^verbatim>\<open>bwrite\<close>) or marks it
  dirty (\<^verbatim>\<open>log_write\<close>), and releases it, having written or marked what it changed. \<open>latest\<close> is the
  last content a process stored for each block.
\<close>

inductive bio_run :: "bcache \<Rightarrow> nat list \<Rightarrow> (u32 \<Rightarrow> block) \<Rightarrow> bool" where
  start: "bio_run (binit d True) [] (d 1)"
| pin: "bio_run s w latest \<Longrightarrow> bget_pin s ROOTDEV k = Inr (i, s') \<Longrightarrow> bio_run s' (i # w) latest"
| lock: "bio_run s w latest \<Longrightarrow> i \<in> set w \<Longrightarrow> block_lock s pid i = Inr s' \<Longrightarrow> bio_run s' (remove1 i w) latest"
| fill: "bio_run s w latest \<Longrightarrow> i < NBUF \<Longrightarrow> holdingsleep pid (block (bufn s i)) \<Longrightarrow> \<not> bvalid (bufn s i) \<Longrightarrow>
    iderw s pid i = Inr s' \<Longrightarrow> bio_run s' w latest"
| modify: "bio_run s w latest \<Longrightarrow> i < NBUF \<Longrightarrow> holdingsleep pid (block (bufn s i)) \<Longrightarrow> bvalid (bufn s i) \<Longrightarrow>
    bio_run (bmodify s i f) w (latest(bblockno (bufn s i) := f (bdata (bufn s i))))"
| writeback: "bio_run s w latest \<Longrightarrow> i < NBUF \<Longrightarrow> bvalid (bufn s i) \<Longrightarrow> bwrite s pid i = Inr s' \<Longrightarrow> bio_run s' w latest"
| mark: "bio_run s w latest \<Longrightarrow> i < NBUF \<Longrightarrow> holdingsleep pid (block (bufn s i)) \<Longrightarrow> bvalid (bufn s i) \<Longrightarrow>
    bio_run (upd_buf i (\<lambda>b. b\<lparr>bdirty := True\<rparr>) s) w latest"
| release: "bio_run s w latest \<Longrightarrow> i < NBUF \<Longrightarrow> brelse s pid i = Inr s' \<Longrightarrow>
    bdirty (bufn s i) \<or> bdata (bufn s i) = drvs s 1 (bblockno (bufn s i)) \<Longrightarrow> bio_run s' w latest"

lemma locked_on_root:
  assumes "bio_ok s w" and "i < NBUF" and "slocked (block (bufn s i))"
  shows "bdev (bufn s i) = 1"
  using bio_okD(5,6) [OF assms(1,2)] assms(3) by (auto simp: buf_ok_def lock_count_def)

lemma waiter_on_root:
  assumes "bio_ok s w" and "i \<in> set w" and "i < NBUF"
  shows "bdev (bufn s i) = 1"
proof -
  have "count_list w i \<noteq> 0" using assms(2) by (simp add: count_list_0_iff)
  then show ?thesis using bio_okD(5,6) [OF assms(1,3)] by (auto simp: buf_ok_def)
qed

lemma binit_ok: "bio_ok (binit d True) []"
  by (simp add: bio_ok_def binit_def zero_buf_def buf_ok_def lock_count_def initsleeplock_def) auto

lemma binit_view: "view (binit d True) = d 1"
proof
  fix k
  have "view (binit d True) k = drvs (binit d True) 1 k"
    by (rule view_uncached [OF binit_ok]) (simp add: binit_def zero_buf_def)
  then show "view (binit d True) k = d 1 k" by (simp add: binit_def)
qed

lemma bio_run_inv: "bio_run s w latest \<Longrightarrow> bio_ok s w \<and> set w \<subseteq> {..<NBUF} \<and> latest = view s"
proof (induction rule: bio_run.induct)
  case (start d)
  then show ?case using binit_ok binit_view by simp
next
  case (pin s w latest k i s')
  then show ?case using bget_pin_ok [of s w k i s'] by (simp add: ROOTDEV_def)
next
  case (lock s w latest i pid s')
  moreover have "i < NBUF" using lock by auto
  ultimately show ?case
    using block_lock_ok [of s w i pid s'] waiter_on_root [of s w i] set_remove1_subset [of i w] by auto
next
  case (fill s w latest i pid s')
  then show ?case using fill_ok [of s w i pid s'] locked_on_root [of s w i] by (simp add: holdingsleep_def)
next
  case (modify s w latest i pid f)
  then show ?case using bmodify_ok [of s w i f] locked_on_root [of s w i] by (simp add: holdingsleep_def)
next
  case (writeback s w latest i pid s')
  then have "slocked (block (bufn s i))" by (auto simp: bwrite_def holdingsleep_def split: if_splits)
  with writeback show ?case using bwrite_ok [of s w i pid s'] locked_on_root [of s w i] by simp
next
  case (mark s w latest i pid)
  then show ?case using mark_dirty_ok [of s w i] locked_on_root [of s w i] by (simp add: holdingsleep_def)
next
  case (release s w latest i pid s')
  then have "slocked (block (bufn s i))" using brelse_cases by blast
  with release show ?case using brelse_ok [of s w i pid s'] locked_on_root [of s w i] by simp
qed

section \<open>Properties\<close>

text \<open>
  C5. The buffer cache is coherent under any interleaving of its users and through any number of
  evictions: no block is ever in two buffers, a process that holds a valid buffer sees the content
  last stored for its block by any process, and a block with no valid buffer has that content on disk.
\<close>

theorem bcache_coherent:
  assumes "bio_run s w latest"
  shows "(\<forall>i j. i < NBUF \<and> j < NBUF \<and> bdev (bufn s i) = ROOTDEV \<and> bdev (bufn s j) = ROOTDEV \<and>
            bblockno (bufn s i) = bblockno (bufn s j) \<longrightarrow> i = j) \<and>
    (\<forall>i. i < NBUF \<and> bdev (bufn s i) = ROOTDEV \<and> bvalid (bufn s i) \<longrightarrow>
       bdata (bufn s i) = latest (bblockno (bufn s i))) \<and>
    (\<forall>k. (\<forall>i < NBUF. caches (bufn s i) k \<longrightarrow> \<not> bvalid (bufn s i)) \<longrightarrow> drvs s 1 k = latest k)"
proof -
  have ok: "bio_ok s w" and l: "latest = view s" using bio_run_inv [OF assms] by auto
  then show ?thesis
    using bio_okD(7) [OF ok] view_cached [OF ok] view_uncached [OF ok] unfolding ROOTDEV_def l by (metis (no_types))
qed

lemma bio_demo: "bio_run (snd (projr (bget_pin (binit (\<lambda>_ _. [5]) True) ROOTDEV 7))) [0] (\<lambda>_. [5])"
proof -
  let ?s = "binit (\<lambda>_ _. [5]) True"
  have l: "lru ?s = rev [0..<NBUF]" "rev (lru ?s) = 0 # [1..<NBUF]"
    by (simp_all add: binit_def NBUF_def upt_conv_Cons)
  have "bufn ?s i = zero_buf" if "i < NBUF" for i using that by (simp add: binit_def)
  then have "find (\<lambda>i. bdev (bufn ?s i) = ROOTDEV \<and> bblockno (bufn ?s i) = 7) (lru ?s) = None"
    and "brefcnt (bufn ?s 0) = 0" "\<not> bdirty (bufn ?s 0)"
    by (auto simp: find_None_iff l zero_buf_def ROOTDEV_def) (simp_all add: NBUF_def)
  then obtain s' where "bget_pin ?s ROOTDEV 7 = Inr (0, s')" unfolding bget_pin_def l(2) by simp
  then show ?thesis using bio_run.pin [OF bio_run.start] by (metis projr_def snd_conv sum.sel(2))
qed

theorem bcache_coherent_witness:
  "\<exists>s. bio_run s [0] (\<lambda>_. [5]) \<and> (\<forall>i. i < NBUF \<and> bdev (bufn s i) = ROOTDEV \<and> bvalid (bufn s i) \<longrightarrow> bdata (bufn s i) = [5])"
  using bcache_coherent [OF bio_demo] bio_demo by metis

end
