(* ===== verification/Bioseq.thy ===== *)
theory Bioseq
  imports Bio
begin

text \<open>
  The buffer cache as one process uses it while no other holds a buffer: when each routine succeeds,
  and what it does to the logical content of the blocks, the disk, the recorded disk writes and the
  set of blocks that are pinned because they are dirty.
\<close>

definition dirty_blocks :: "bcache \<Rightarrow> u32 set" where
  "dirty_blocks s = {k. \<exists>i < NBUF. caches (bufn s i) k \<and> bdirty (bufn s i)}"

definition free_buf :: "bcache \<Rightarrow> nat \<Rightarrow> bool" where
  "free_buf s i \<longleftrightarrow> i < NBUF \<and> \<not> bdirty (bufn s i) \<and> \<not> slocked (block (bufn s i))"

definition idle :: "bcache \<Rightarrow> bool" where
  "idle s \<longleftrightarrow> bio_ok s [] \<and> (\<forall>i < NBUF. \<not> slocked (block (bufn s i)))"

text \<open>What a successful \<^verbatim>\<open>bread\<close> of block \<open>k\<close> into buffer \<open>i\<close> gives.\<close>

definition got :: "bcache \<Rightarrow> int \<Rightarrow> u32 \<Rightarrow> nat \<Rightarrow> bcache \<Rightarrow> bool" where
  "got s pid k i s' \<longleftrightarrow> bio_ok s' [] \<and> view s' = view s \<and> drvs s' = drvs s \<and> dwrites s' = dwrites s \<and>
     i < NBUF \<and> caches (bufn s' i) k \<and> bvalid (bufn s' i) \<and> holdingsleep pid (block (bufn s' i)) \<and>
     bdata (bufn s' i) = view s k \<and> \<not> slocked (block (bufn s i)) \<and>
     (bdirty (bufn s' i) \<or> bdata (bufn s' i) = drvs s' 1 k) \<and>
     (\<forall>j < NBUF. j \<noteq> i \<longrightarrow> bufn s' j = bufn s j) \<and> dirty_blocks s' = dirty_blocks s \<and>
     (bdirty (bufn s' i) \<longleftrightarrow> bdirty (bufn s i)) \<and> (bdirty (bufn s i) \<longrightarrow> caches (bufn s i) k)"

lemma iderw_runs:
  assumes "bio_ok s w" and "i < NBUF" and "holdingsleep pid (block (bufn s i))" and "bblockno (bufn s i) < FSSIZE"
    and "\<not> bvalid (bufn s i) \<or> bdirty (bufn s i)"
  shows "iderw s pid i = Inr (s\<lparr>bbufs := (bbufs s)[i := fst (transfer (bufn s i) (drvs s))],
     drvs := snd (transfer (bufn s i) (drvs s)),
     dwrites := dwrites s @ (if bdirty (bufn s i) then [(bblockno (bufn s i), bdata (bufn s i))] else [])\<rparr>)"
  using assms bio_okD(4) [OF assms(1)]
  by (simp add: iderw_def iderw_guard_def not_le [symmetric] Let_def split_beta)

lemma find_hit_ex: "x \<in> set xs \<Longrightarrow> P x \<Longrightarrow> \<exists>y. find P xs = Some y \<and> y \<in> set xs \<and> P y"
  by (induction xs) auto

lemma bget_pin_runs:
  assumes ok: "bio_ok s []"
    and room: "(\<exists>i < NBUF. caches (bufn s i) k) \<or> (\<exists>i. free_buf s i)"
  shows "\<exists>i s'. bget_pin s 1 k = Inr (i, s') \<and> i < NBUF \<and>
    ((caches (bufn s i) k \<and> s' = upd_buf i (\<lambda>b. b\<lparr>brefcnt := brefcnt b + 1\<rparr>) s) \<or>
     (\<not> (\<exists>j < NBUF. caches (bufn s j) k) \<and> free_buf s i \<and>
      s' = upd_buf i (\<lambda>b. b\<lparr>bdev := 1, bblockno := k, bvalid := False, bdirty := False, brefcnt := 1\<rparr>) s))"
proof (cases "\<exists>i < NBUF. caches (bufn s i) k")
  case True
  then obtain i where i: "i \<in> set (lru s)" "caches (bufn s i) k" using bio_okD(3) [OF ok] by auto
  from find_hit_ex [where P = "\<lambda>i. caches (bufn s i) k", OF this] obtain j where "find (\<lambda>i. caches (bufn s i) k) (lru s) = Some j"
      "j \<in> set (lru s)" "caches (bufn s j) k" by blast
  then show ?thesis using bio_okD(3) [OF ok] by (auto simp: bget_pin_def)
next
  case False
  then have miss: "find (\<lambda>i. caches (bufn s i) k) (lru s) = None"
    using bio_okD(3) [OF ok] by (auto simp: find_None_iff)
  from False room obtain i where i: "free_buf s i" by blast
  then have "i \<in> set (rev (lru s))" "brefcnt (bufn s i) = 0 \<and> \<not> bdirty (bufn s i)"
    using bio_okD(3) [OF ok] bio_okD(6) [OF ok, of i] by (auto simp: free_buf_def lock_count_def)
  from find_hit_ex [where P = "\<lambda>i. brefcnt (bufn s i) = 0 \<and> \<not> bdirty (bufn s i)", OF this] obtain j where
    j: "find (\<lambda>i. brefcnt (bufn s i) = 0 \<and> \<not> bdirty (bufn s i)) (rev (lru s)) = Some j"
      "j < NBUF" "brefcnt (bufn s j) = 0" "\<not> bdirty (bufn s j)"
    using bio_okD(3) [OF ok] by auto
  then have "free_buf s j" using bio_okD(6) [OF ok, of j] by (auto simp: free_buf_def lock_count_def split: if_splits)
  then show ?thesis using j miss False by (auto simp: bget_pin_def)
qed

lemma dirty_blocks_cong:
  assumes "\<And>j. j < NBUF \<Longrightarrow> caches (bufn s' j) k \<and> bdirty (bufn s' j) \<longleftrightarrow> caches (bufn s j) k \<and> bdirty (bufn s j)"
  shows "k \<in> dirty_blocks s' \<longleftrightarrow> k \<in> dirty_blocks s"
  using assms by (auto simp: dirty_blocks_def)

text \<open>The buffer after \<^verbatim>\<open>bget\<close>, before it is filled.\<close>

lemma bget_runs:
  assumes ok: "bio_ok s []" and room: "(\<exists>i < NBUF. caches (bufn s i) k) \<or> (\<exists>i. free_buf s i)"
    and unlocked: "\<And>i. i < NBUF \<Longrightarrow> caches (bufn s i) k \<Longrightarrow> \<not> slocked (block (bufn s i))"
  shows "\<exists>i s'. bget s pid 1 k = Inr (i, s') \<and> bio_ok s' [] \<and> view s' = view s \<and> drvs s' = drvs s \<and>
    dwrites s' = dwrites s \<and> i < NBUF \<and> caches (bufn s' i) k \<and> holdingsleep pid (block (bufn s' i)) \<and>
    \<not> slocked (block (bufn s i)) \<and> (\<forall>j < NBUF. j \<noteq> i \<longrightarrow> bufn s' j = bufn s j) \<and>
    (bdirty (bufn s' i) \<longleftrightarrow> bdirty (bufn s i)) \<and> (bdirty (bufn s i) \<longrightarrow> caches (bufn s i) k) \<and>
    (bvalid (bufn s' i) \<longrightarrow> caches (bufn s i) k \<and> bvalid (bufn s i) \<and> bdata (bufn s' i) = bdata (bufn s i))"
proof -
  note D = bio_okD [OF ok]
  obtain i s1 where pin: "bget_pin s 1 k = Inr (i, s1)" and i: "i < NBUF" and
    c: "(caches (bufn s i) k \<and> s1 = upd_buf i (\<lambda>b. b\<lparr>brefcnt := brefcnt b + 1\<rparr>) s) \<or>
     (\<not> (\<exists>j < NBUF. caches (bufn s j) k) \<and> free_buf s i \<and>
      s1 = upd_buf i (\<lambda>b. b\<lparr>bdev := 1, bblockno := k, bvalid := False, bdirty := False, brefcnt := 1\<rparr>) s)"
    using bget_pin_runs [OF ok room] by blast
  have ok1: "bio_ok s1 [i]" "view s1 = view s" "caches (bufn s1 i) k" using bget_pin_ok [OF ok pin] by auto
  have u: "\<not> slocked (block (bufn s i))" using c unlocked [OF i] by (auto simp: free_buf_def)
  have b1: "block (bufn s1 i) = block (bufn s i)" "drvs s1 = drvs s" "dwrites s1 = dwrites s"
      "\<And>j. j \<noteq> i \<Longrightarrow> bufn s1 j = bufn s j"
    using c i D(1) by auto
  define s2 where "s2 = upd_buf i (\<lambda>b. b\<lparr>block := (block (bufn s1 i))\<lparr>slocked := True, spid := pid\<rparr>\<rparr>) s1"
  have lock: "block_lock s1 pid i = Inr s2" using u b1 by (simp add: block_lock_eq s2_def)
  have ok2: "bio_ok s2 []" "view s2 = view s1" "holdingsleep pid (block (bufn s2 i))"
    using block_lock_ok [OF ok1(1) i _ _ lock] ok1(3) by auto
  have b2: "bufn s2 i = (bufn s1 i)\<lparr>block := (block (bufn s1 i))\<lparr>slocked := True, spid := pid\<rparr>\<rparr>"
      "\<And>j. j \<noteq> i \<Longrightarrow> bufn s2 j = bufn s1 j" "drvs s2 = drvs s" "dwrites s2 = dwrites s"
    using i bio_okD(1) [OF ok1(1)] b1 by (auto simp: s2_def)
  have "bget s pid 1 k = Inr (i, s2)" using pin lock by (simp add: bget_def)
  moreover have "bdirty (bufn s1 i) \<longleftrightarrow> bdirty (bufn s i)" "bdirty (bufn s i) \<longrightarrow> caches (bufn s i) k"
      "bvalid (bufn s1 i) \<longrightarrow> caches (bufn s i) k \<and> bvalid (bufn s i) \<and> bdata (bufn s1 i) = bdata (bufn s i)"
    using c i D(1) by (auto simp: free_buf_def)
  ultimately show ?thesis using ok1 ok2 b1 b2 u i by (intro exI [of _ i] exI [of _ s2]) simp
qed

lemma bread_runs:
  assumes ok: "bio_ok s []" and k: "k < FSSIZE"
    and room: "(\<exists>i < NBUF. caches (bufn s i) k) \<or> (\<exists>i. free_buf s i)"
    and unlocked: "\<And>i. i < NBUF \<Longrightarrow> caches (bufn s i) k \<Longrightarrow> \<not> slocked (block (bufn s i))"
  shows "\<exists>i s'. bread s pid 1 k = Inr (i, s') \<and> got s pid k i s'"
proof -
  obtain i s2 where g: "bget s pid 1 k = Inr (i, s2)" "bio_ok s2 []" "view s2 = view s" "drvs s2 = drvs s"
      "dwrites s2 = dwrites s" "i < NBUF" "caches (bufn s2 i) k" "holdingsleep pid (block (bufn s2 i))"
      "\<not> slocked (block (bufn s i))" "\<forall>j < NBUF. j \<noteq> i \<longrightarrow> bufn s2 j = bufn s j"
      "bdirty (bufn s2 i) \<longleftrightarrow> bdirty (bufn s i)" "bdirty (bufn s i) \<longrightarrow> caches (bufn s i) k"
      "bvalid (bufn s2 i) \<longrightarrow> caches (bufn s i) k \<and> bvalid (bufn s i) \<and> bdata (bufn s2 i) = bdata (bufn s i)"
    using bget_runs [OF ok room unlocked] by blast
  have dirty: "dirty_blocks t = dirty_blocks s" if t: "\<forall>j < NBUF. j \<noteq> i \<longrightarrow> bufn t j = bufn s j"
      "caches (bufn t i) k" "bdirty (bufn t i) \<longleftrightarrow> bdirty (bufn s i)" for t
  proof (rule set_eqI, rule dirty_blocks_cong)
    fix k' j assume "j < NBUF"
    then show "caches (bufn t j) k' \<and> bdirty (bufn t j) \<longleftrightarrow> caches (bufn s j) k' \<and> bdirty (bufn s j)"
      using t g(12) by (cases "j = i") auto
  qed
  show ?thesis
  proof (cases "bvalid (bufn s2 i)")
    case True
    have "bdata (bufn s2 i) = view s k" using view_cached [OF g(2,6,7) True] g(3) by simp
    moreover have "bdirty (bufn s i) \<or> bdata (bufn s2 i) = drvs s 1 k"
      using bio_okD(5) [OF ok g(6)] g(9,13) True by (auto simp: buf_ok_def)
    moreover have "bread s pid 1 k = Inr (i, s2)" using g(1) True by (simp add: bread_def)
    ultimately show ?thesis using g(2-12) True dirty [OF g(10,7,11)]
      by (intro exI [of _ i] exI [of _ s2]) (simp add: got_def)
  next
    case False
    have h: "slocked (block (bufn s2 i))" using g(8) by (simp add: holdingsleep_def)
    have clean: "\<not> bdirty (bufn s2 i)" using bio_okD(5) [OF g(2,6)] False by (auto simp: buf_ok_def)
    let ?s3 = "s2\<lparr>bbufs := (bbufs s2)[i := (bufn s2 i)\<lparr>bdata := drvs s2 1 k, bvalid := True\<rparr>]\<rparr>"
    have rw: "iderw s2 pid i = Inr ?s3"
      using iderw_runs [OF g(2,6,8)] g(7) k False clean by (simp add: transfer_def)
    have f: "bio_ok ?s3 []" "view ?s3 = view s2" using fill_ok [OF g(2,6) _ h rw False] g(7) by auto
    have n: "bufn ?s3 i = (bufn s2 i)\<lparr>bdata := drvs s2 1 k, bvalid := True\<rparr>" "\<And>j. j \<noteq> i \<Longrightarrow> bufn ?s3 j = bufn s2 j"
      using bio_okD(1) [OF g(2)] g(6) by auto
    have "bread s pid 1 k = Inr (i, ?s3)" using g(1) False rw by (simp add: bread_def)
    moreover have "bdata (bufn ?s3 i) = view s k"
      using view_cached [OF f(1) g(6), of k] f(2) g(3,7) n by simp
    moreover have "dirty_blocks ?s3 = dirty_blocks s" using n g(7,10,11) by (intro dirty) simp_all
    ultimately show ?thesis using g(2-12) f n clean by (intro exI [of _ i] exI [of _ ?s3]) (simp add: got_def)
  qed
qed

text \<open>A buffer in the hands of \<open>pid\<close>, on block \<open>k\<close>, that may be released as it is.\<close>

definition held :: "bcache \<Rightarrow> int \<Rightarrow> u32 \<Rightarrow> nat \<Rightarrow> bool" where
  "held s pid k i \<longleftrightarrow> i < NBUF \<and> caches (bufn s i) k \<and> bvalid (bufn s i) \<and> holdingsleep pid (block (bufn s i)) \<and>
     (bdirty (bufn s i) \<or> bdata (bufn s i) = drvs s 1 k)"

lemma got_held: "got s pid k i s' \<Longrightarrow> held s' pid k i"
  unfolding got_def held_def by blast

lemma store_runs:
  assumes ok: "bio_ok s []" and h: "held s pid k j" and k: "k < FSSIZE"
  shows "\<exists>s'. bwrite (bmodify s j (\<lambda>_. x)) pid j = Inr s' \<and> bio_ok s' [] \<and> view s' = (view s)(k := x) \<and>
    drvs s' 1 = (drvs s 1)(k := x) \<and> dwrites s' = dwrites s @ [(k, x)] \<and> held s' pid k j \<and> \<not> bdirty (bufn s' j) \<and>
    (\<forall>i < NBUF. i \<noteq> j \<longrightarrow> bufn s' i = bufn s i)"
proof -
  let ?m = "bmodify s j (\<lambda>_. x)"
  have j: "j < NBUF" "caches (bufn s j) k" "bvalid (bufn s j)" "holdingsleep pid (block (bufn s j))"
    using h by (simp_all add: held_def)
  have m: "bio_ok ?m []" "view ?m = (view s)(k := x)"
    using bmodify_ok [OF ok j(1) _ _ j(3), of "\<lambda>_. x"] j by (simp_all add: holdingsleep_def)
  have mn: "bufn ?m i = (if i = j then (bufn s j)\<lparr>bdata := x\<rparr> else bufn s i)" if "i < NBUF" for i
    using that j(1) bio_okD(1) [OF ok] by (simp add: bmodify_def)
  let ?d = "upd_buf j (\<lambda>b. b\<lparr>bdirty := True\<rparr>) ?m"
  have dn: "bufn ?d i = (if i = j then (bufn s j)\<lparr>bdata := x, bdirty := True\<rparr> else bufn s i)" if "i < NBUF" for i
    using that mn j(1) bio_okD(1) [OF m(1)] by simp
  have dok: "bio_ok ?d []" using mark_dirty_ok [OF m(1) j(1)] mn j by simp
  define s' where "s' = ?d\<lparr>bbufs := (bbufs ?d)[j := fst (transfer (bufn ?d j) (drvs ?d))], drvs := snd (transfer (bufn ?d j) (drvs ?d)),
     dwrites := dwrites ?d @ (if bdirty (bufn ?d j) then [(bblockno (bufn ?d j), bdata (bufn ?d j))] else [])\<rparr>"
  have "iderw ?d pid j = Inr s'"
    unfolding s'_def using dn [OF j(1)] j k by (intro iderw_runs [OF dok j(1)]) auto
  then have w: "bwrite ?m pid j = Inr s'" using mn [OF j(1)] j(4) by (simp add: bwrite_def)
  have f: "drvs s' 1 = (drvs s 1)(k := x)" "dwrites s' = dwrites s @ [(k, x)]"
    using dn [OF j(1)] j by (simp_all add: s'_def transfer_def bmodify_def)
  have n: "bufn s' i = (if i = j then (bufn s j)\<lparr>bdata := x, bdirty := False, bvalid := True\<rparr> else bufn s i)" if "i < NBUF" for i
  proof -
    have "bufn s' i = (if i = j then fst (transfer (bufn ?d j) (drvs ?d)) else bufn ?d i)"
      using that bio_okD(1) [OF dok] j(1) by (simp add: s'_def del: upd_buf_nth)
    then show ?thesis unfolding dn [OF that] dn [OF j(1)] by (auto simp: transfer_def intro!: buf.equality)
  qed
  have "bio_ok s' [] \<and> view s' = view ?m"
    using bwrite_ok [OF m(1) j(1) _ w] mn [OF j(1)] j by simp
  moreover have "held s' pid k j" using n [OF j(1)] j f by (simp add: held_def)
  ultimately show ?thesis using w f n m(2) j(1) by (intro exI [of _ s']) simp
qed

lemma brelse_runs:
  assumes ok: "bio_ok s []" and h: "held s pid k i"
  shows "\<exists>s'. brelse s pid i = Inr s' \<and> bio_ok s' [] \<and> view s' = view s \<and> drvs s' = drvs s \<and> dwrites s' = dwrites s \<and>
    \<not> slocked (block (bufn s' i)) \<and> caches (bufn s' i) k \<and> bdirty (bufn s' i) = bdirty (bufn s i) \<and>
    (\<forall>j < NBUF. j \<noteq> i \<longrightarrow> bufn s' j = bufn s j)"
proof -
  have i: "i < NBUF" "caches (bufn s i) k" "holdingsleep pid (block (bufn s i))" using h by (simp_all add: held_def)
  define t where "t = upd_buf i (\<lambda>b. b\<lparr>block := releasesleep (block b), brefcnt := brefcnt b - 1\<rparr>) s"
  obtain s' where s': "brelse s pid i = Inr s'" using i(3) by (auto simp: brelse_def Let_def)
  have c: "s' = t \<or> s' = t\<lparr>lru := i # remove1 i (lru t)\<rparr>" using brelse_cases [OF s'] by (simp add: t_def)
  then have n: "bbufs s' = bbufs t" "drvs s' = drvs s" "dwrites s' = dwrites s" by (auto simp: t_def)
  have "bufn t j = (if j = i then (bufn s i)\<lparr>block := releasesleep (block (bufn s i)), brefcnt := brefcnt (bufn s i) - 1\<rparr>
      else bufn s j)" for j
    using i(1) bio_okD(1) [OF ok] by (simp add: t_def)
  moreover have "bio_ok s' [] \<and> view s' = view s"
    using brelse_ok [OF ok i(1) _ s'] h i(2) by (auto simp: held_def)
  ultimately show ?thesis using s' n i(2) by (intro exI [of _ s']) simp
qed

text \<open>Two reads in a row; enough that two buffers are free, or one if the second block is pinned.\<close>

definition room2 :: "bcache \<Rightarrow> u32 \<Rightarrow> bool" where
  "room2 s k \<longleftrightarrow> (\<exists>x. free_buf s x) \<and> (k \<in> dirty_blocks s \<or> (\<exists>x y. x \<noteq> y \<and> free_buf s x \<and> free_buf s y))"

lemma two_reads:
  assumes idle: "idle s" and ne: "k1 \<noteq> k2" and k: "k1 < FSSIZE" "k2 < FSSIZE" and room: "room2 s k2"
  shows "\<exists>i s1 j s2. bread s pid 1 k1 = Inr (i, s1) \<and> bread s1 pid 1 k2 = Inr (j, s2) \<and> i \<noteq> j \<and>
    bio_ok s2 [] \<and> view s2 = view s \<and> drvs s2 = drvs s \<and> dwrites s2 = dwrites s \<and> dirty_blocks s2 = dirty_blocks s \<and>
    held s2 pid k1 i \<and> held s2 pid k2 j \<and> (\<forall>l < NBUF. l \<noteq> i \<longrightarrow> l \<noteq> j \<longrightarrow> \<not> slocked (block (bufn s2 l))) \<and>
    (\<forall>l < NBUF. bdirty (bufn s2 l) \<longleftrightarrow> bdirty (bufn s l))"
proof -
  have ok: "bio_ok s []" and unl: "\<And>l. l < NBUF \<Longrightarrow> \<not> slocked (block (bufn s l))" using idle by (auto simp: idle_def)
  obtain i s1 where r1: "bread s pid 1 k1 = Inr (i, s1)" and g1: "got s pid k1 i s1"
    using bread_runs [OF ok k(1)] room unl unfolding room2_def by blast
  have ok1: "bio_ok s1 []" and n1: "\<And>l. l < NBUF \<Longrightarrow> l \<noteq> i \<Longrightarrow> bufn s1 l = bufn s l" and d1: "dirty_blocks s1 = dirty_blocks s"
    and i: "i < NBUF" "caches (bufn s1 i) k1" using g1 by (auto simp: got_def)
  have room1: "(\<exists>l < NBUF. caches (bufn s1 l) k2) \<or> (\<exists>l. free_buf s1 l)"
  proof (cases "k2 \<in> dirty_blocks s")
    case True
    then show ?thesis using d1 by (auto simp: dirty_blocks_def)
  next
    case False
    then obtain l where l: "l \<noteq> i" "free_buf s l" using room by (metis room2_def)
    then have "free_buf s1 l" using n1 [of l] by (auto simp: free_buf_def)
    then show ?thesis by blast
  qed
  have unl1: "\<not> slocked (block (bufn s1 l))" if "l < NBUF" "caches (bufn s1 l) k2" for l
    using that i(2) ne n1 [of l] unl [of l] by (cases "l = i") auto
  obtain j s2 where r2: "bread s1 pid 1 k2 = Inr (j, s2)" and g2: "got s1 pid k2 j s2"
    using bread_runs [OF ok1 k(2) room1 unl1] by blast
  have ij: "i \<noteq> j" using g1 g2 by (auto simp: got_def holdingsleep_def)
  have n2: "\<And>l. l < NBUF \<Longrightarrow> l \<noteq> j \<Longrightarrow> bufn s2 l = bufn s1 l" and j: "j < NBUF" "drvs s2 = drvs s1" using g2 by (auto simp: got_def)
  have "held s2 pid k1 i" using got_held [OF g1] n2 [OF i(1) ij] j(2) by (simp add: held_def)
  moreover have "\<not> slocked (block (bufn s2 l))" if "l < NBUF" "l \<noteq> i" "l \<noteq> j" for l using that n1 n2 unl by simp
  moreover have "bdirty (bufn s2 l) \<longleftrightarrow> bdirty (bufn s l)" if "l < NBUF" for l
  proof -
    have "bdirty (bufn s2 l) \<longleftrightarrow> bdirty (bufn s1 l)" using g2 n2 [OF that] by (cases "l = j") (auto simp: got_def)
    also have "\<dots> \<longleftrightarrow> bdirty (bufn s l)" using g1 n1 [OF that] by (cases "l = i") (auto simp: got_def)
    finally show ?thesis .
  qed
  ultimately show ?thesis
    using r1 r2 g1 g2 ij got_held [OF g2] unfolding got_def by (intro exI [of _ i] exI [of _ s1] exI [of _ j] exI [of _ s2]) simp
qed

text \<open>The copy of block \<open>a\<close> to block \<open>b\<close> that both loops of the log make, from two held buffers.\<close>

lemma finish_copy:
  assumes ok: "bio_ok s []" and h: "held s pid a i" "held s pid b j" "i \<noteq> j" and k: "b < FSSIZE"
    and rest: "\<forall>l < NBUF. l \<noteq> i \<longrightarrow> l \<noteq> j \<longrightarrow> \<not> slocked (block (bufn s l))"
  shows "\<exists>s3 s4 s5. bwrite (bmodify s j (\<lambda>_. bdata (bufn s i))) pid j = Inr s3 \<and> brelse s3 pid i = Inr s4 \<and>
    brelse s4 pid j = Inr s5 \<and> idle s5 \<and> view s5 = (view s)(b := view s a) \<and> drvs s5 1 = (drvs s 1)(b := view s a) \<and>
    dwrites s5 = dwrites s @ [(b, view s a)] \<and> dirty_blocks s5 = dirty_blocks s - {b} \<and>
    (\<forall>l < NBUF. \<not> bdirty (bufn s l) \<longrightarrow> \<not> bdirty (bufn s5 l))"
proof -
  have x: "bdata (bufn s i) = view s a" using view_cached [OF ok, of i a] h(1) by (simp add: held_def)
  have ij: "i < NBUF" "j < NBUF" "caches (bufn s i) a" "caches (bufn s j) b" using h by (auto simp: held_def)
  then have ab: "a \<noteq> b" using bio_okD(7) [OF ok, of i j a] h(3) by blast
  obtain s3 where s3: "bwrite (bmodify s j (\<lambda>_. view s a)) pid j = Inr s3" "bio_ok s3 []" "view s3 = (view s)(b := view s a)"
      "drvs s3 1 = (drvs s 1)(b := view s a)" "dwrites s3 = dwrites s @ [(b, view s a)]" "held s3 pid b j" "\<not> bdirty (bufn s3 j)"
      and n3: "\<And>l. l < NBUF \<Longrightarrow> l \<noteq> j \<Longrightarrow> bufn s3 l = bufn s l"
    using store_runs [OF ok h(2) k, of "view s a"] by blast
  have "held s3 pid a i" using h(1) n3 [OF ij(1) h(3)] s3(4) ab by (simp add: held_def)
  then obtain s4 where s4: "brelse s3 pid i = Inr s4" "bio_ok s4 []" "view s4 = view s3" "drvs s4 = drvs s3" "dwrites s4 = dwrites s3"
      "\<not> slocked (block (bufn s4 i))" "caches (bufn s4 i) a" "bdirty (bufn s4 i) = bdirty (bufn s3 i)"
      and n4: "\<And>l. l < NBUF \<Longrightarrow> l \<noteq> i \<Longrightarrow> bufn s4 l = bufn s3 l"
    using brelse_runs [OF s3(2)] by blast
  have "held s4 pid b j" using s3(6) n4 [OF ij(2)] h(3) s4(4) by (simp add: held_def)
  then obtain s5 where s5: "brelse s4 pid j = Inr s5" "bio_ok s5 []" "view s5 = view s4" "drvs s5 = drvs s4" "dwrites s5 = dwrites s4"
      "\<not> slocked (block (bufn s5 j))" "caches (bufn s5 j) b" "bdirty (bufn s5 j) = bdirty (bufn s4 j)"
      and n5: "\<And>l. l < NBUF \<Longrightarrow> l \<noteq> j \<Longrightarrow> bufn s5 l = bufn s4 l"
    using brelse_runs [OF s4(2)] by blast
  have other: "bufn s5 l = bufn s l" if "l < NBUF" "l \<noteq> i" "l \<noteq> j" for l using that n3 n4 n5 by simp
  have at_i: "\<not> slocked (block (bufn s5 i))" "caches (bufn s5 i) a" "bdirty (bufn s5 i) = bdirty (bufn s i)"
    using n5 [OF ij(1) h(3)] s4(6-8) n3 [OF ij(1) h(3)] by simp_all
  have at_j: "\<not> slocked (block (bufn s5 j))" "caches (bufn s5 j) b" "\<not> bdirty (bufn s5 j)"
    using s5(6-8) n4 [OF ij(2)] h(3) s3(7) by auto
  have "idle s5" using s5(2) rest other at_i at_j unfolding idle_def by metis
  moreover have "dirty_blocks s5 = dirty_blocks s - {b}"
  proof (rule set_eqI)
    fix k
    have "caches (bufn s5 l) k \<and> bdirty (bufn s5 l) \<longleftrightarrow> caches (bufn s l) k \<and> bdirty (bufn s l) \<and> k \<noteq> b" if l: "l < NBUF" for l
      using other [OF l] at_i at_j ij ab bio_okD(7) [OF ok l ij(2), of b] by (cases "l = i"; cases "l = j") auto
    then show "k \<in> dirty_blocks s5 \<longleftrightarrow> k \<in> dirty_blocks s - {b}" by (auto simp: dirty_blocks_def)
  qed
  moreover have "\<not> bdirty (bufn s5 l)" if "l < NBUF" "\<not> bdirty (bufn s l)" for l
    using that other at_i at_j by (cases "l = i"; cases "l = j") auto
  ultimately show ?thesis using s3 s4 s5 x by simp
qed

lemma idle_free: "idle s \<Longrightarrow> free_buf s i \<longleftrightarrow> i < NBUF \<and> \<not> bdirty (bufn s i)"
  by (auto simp: idle_def free_buf_def)

text \<open>The effect of a whole copy on an idle cache.\<close>

definition copied :: "bcache \<Rightarrow> u32 \<Rightarrow> u32 \<Rightarrow> bcache \<Rightarrow> bool" where
  "copied s a b s' \<longleftrightarrow> idle s' \<and> view s' = (view s)(b := view s a) \<and> drvs s' 1 = (drvs s 1)(b := view s a) \<and>
     dwrites s' = dwrites s @ [(b, view s a)] \<and> dirty_blocks s' = dirty_blocks s - {b} \<and>
     (\<forall>l. free_buf s l \<longrightarrow> free_buf s' l)"

lemma copy_runs:
  assumes "idle s" and "k1 \<noteq> k2" and "k1 < FSSIZE" "k2 < FSSIZE" and "room2 s k2"
  shows "\<exists>i s1 j s2 s3 s4 s5. bread s pid 1 k1 = Inr (i, s1) \<and> bread s1 pid 1 k2 = Inr (j, s2) \<and>
      bwrite (bmodify s2 j (\<lambda>_. bdata (bufn s2 i))) pid j = Inr s3 \<and> brelse s3 pid i = Inr s4 \<and>
      brelse s4 pid j = Inr s5 \<and> copied s k1 k2 s5"
    and "\<exists>i s1 j s2 s3 s4 s5. bread s pid 1 k1 = Inr (i, s1) \<and> bread s1 pid 1 k2 = Inr (j, s2) \<and>
      bwrite (bmodify s2 i (\<lambda>_. bdata (bufn s2 j))) pid i = Inr s3 \<and> brelse s3 pid j = Inr s4 \<and>
      brelse s4 pid i = Inr s5 \<and> copied s k2 k1 s5"
proof -
  obtain i s1 j s2 where r: "bread s pid 1 k1 = Inr (i, s1)" "bread s1 pid 1 k2 = Inr (j, s2)" "i \<noteq> j"
      "bio_ok s2 []" and same: "view s2 = view s" "drvs s2 = drvs s" "dwrites s2 = dwrites s" "dirty_blocks s2 = dirty_blocks s"
      and h: "held s2 pid k1 i" "held s2 pid k2 j"
      and rest: "\<forall>l < NBUF. l \<noteq> i \<longrightarrow> l \<noteq> j \<longrightarrow> \<not> slocked (block (bufn s2 l))"
      and d: "\<And>l. l < NBUF \<Longrightarrow> bdirty (bufn s2 l) \<longleftrightarrow> bdirty (bufn s l)"
    using two_reads [OF assms, of pid] by blast
  have c: "copied s a b s5" if "idle s5" "view s5 = (view s2)(b := view s2 a)" "drvs s5 1 = (drvs s2 1)(b := view s2 a)"
      "dwrites s5 = dwrites s2 @ [(b, view s2 a)]" "dirty_blocks s5 = dirty_blocks s2 - {b}"
      "\<forall>l < NBUF. \<not> bdirty (bufn s2 l) \<longrightarrow> \<not> bdirty (bufn s5 l)" for a b s5
    using that same d idle_free [OF that(1)] idle_free [OF assms(1)] by (simp add: copied_def)
  obtain s3 s4 s5 where f: "bwrite (bmodify s2 j (\<lambda>_. bdata (bufn s2 i))) pid j = Inr s3" "brelse s3 pid i = Inr s4"
      "brelse s4 pid j = Inr s5" "copied s k1 k2 s5"
    using finish_copy [OF r(4) h r(3) assms(4) rest] c [of _ k2 k1] by metis
  from r f show "\<exists>i s1 j s2 s3 s4 s5. bread s pid 1 k1 = Inr (i, s1) \<and> bread s1 pid 1 k2 = Inr (j, s2) \<and>
      bwrite (bmodify s2 j (\<lambda>_. bdata (bufn s2 i))) pid j = Inr s3 \<and> brelse s3 pid i = Inr s4 \<and>
      brelse s4 pid j = Inr s5 \<and> copied s k1 k2 s5" by blast
  have rest': "\<forall>l < NBUF. l \<noteq> j \<longrightarrow> l \<noteq> i \<longrightarrow> \<not> slocked (block (bufn s2 l))" using rest by blast
  obtain s3 s4 s5 where "bwrite (bmodify s2 i (\<lambda>_. bdata (bufn s2 j))) pid i = Inr s3" "brelse s3 pid j = Inr s4"
      "brelse s4 pid i = Inr s5" "copied s k2 k1 s5"
    using finish_copy [OF r(4) h(2,1) r(3) [symmetric] assms(3) rest'] c [of _ k1 k2] by metis
  with r show "\<exists>i s1 j s2 s3 s4 s5. bread s pid 1 k1 = Inr (i, s1) \<and> bread s1 pid 1 k2 = Inr (j, s2) \<and>
      bwrite (bmodify s2 i (\<lambda>_. bdata (bufn s2 j))) pid i = Inr s3 \<and> brelse s3 pid j = Inr s4 \<and>
      brelse s4 pid i = Inr s5 \<and> copied s k2 k1 s5" by blast
qed

end
