(* ===== verification/Bytes.thy ===== *)
theory Bytes
  imports Prelude
begin

text \<open>
  Little-endian halfwords and words inside a block of bytes: what a C access to a field of a
  structure laid over \<^verbatim>\<open>b->data\<close> reads and writes. Out-of-range stores are dropped; the users stay in
  range.
\<close>

definition get16 :: "byte list \<Rightarrow> nat \<Rightarrow> u16" where
  "get16 bs off = ucast (bs ! off) OR push_bit 8 (ucast (bs ! (off + 1)))"

definition put16 :: "byte list \<Rightarrow> nat \<Rightarrow> u16 \<Rightarrow> byte list" where
  "put16 bs off w = bs[off := ucast w, off + 1 := ucast (drop_bit 8 w)]"

definition get32 :: "byte list \<Rightarrow> nat \<Rightarrow> u32" where
  "get32 bs off = ucast (bs ! off) OR push_bit 8 (ucast (bs ! (off + 1))) OR
     push_bit 16 (ucast (bs ! (off + 2))) OR push_bit 24 (ucast (bs ! (off + 3)))"

definition put32 :: "byte list \<Rightarrow> nat \<Rightarrow> u32 \<Rightarrow> byte list" where
  "put32 bs off w = bs[off := ucast w, off + 1 := ucast (drop_bit 8 w),
     off + 2 := ucast (drop_bit 16 w), off + 3 := ucast (drop_bit 24 w)]"

text \<open>An array of words from an offset on, written word by word in ascending order.\<close>

fun put_words :: "byte list \<Rightarrow> nat \<Rightarrow> u32 list \<Rightarrow> byte list" where
  "put_words bs off [] = bs"
| "put_words bs off (w # ws) = put_words (put32 bs off w) (off + 4) ws"

definition get_words :: "byte list \<Rightarrow> nat \<Rightarrow> nat \<Rightarrow> u32 list" where
  "get_words bs off n = map (\<lambda>i. get32 bs (off + 4 * i)) [0..<n]"

lemma put_length [simp]:
  "length (put16 bs off w) = length bs" "length (put32 bs off v) = length bs" "length (put_words bs off ws) = length bs"
  by (simp_all add: put16_def put32_def) (induction ws arbitrary: bs off; simp add: put32_def)

lemma get16_put16 [simp]:
  assumes "off + 1 < length bs"
  shows "get16 (put16 bs off w) off = w"
proof (rule bit_word_eqI)
  fix n assume "n < LENGTH(16)"
  then consider "n < 8" | "8 \<le> n" "n < 16" by fastforce
  then show "bit (get16 (put16 bs off w) off) n \<longleftrightarrow> bit w n"
    using assms by cases (auto simp: get16_def put16_def bit_simps)
qed

lemma get32_put32 [simp]:
  assumes "off + 3 < length bs"
  shows "get32 (put32 bs off w) off = w"
proof (rule bit_word_eqI)
  fix n assume "n < LENGTH(32)"
  then consider "n < 8" | "8 \<le> n" "n < 16" | "16 \<le> n" "n < 24" | "24 \<le> n" "n < 32" by fastforce
  then show "bit (get32 (put32 bs off w) off) n \<longleftrightarrow> bit w n"
    using assms by cases (auto simp: get32_def put32_def bit_simps)
qed

lemma put32_nth: "i < off \<or> off + 4 \<le> i \<Longrightarrow> put32 bs off w ! i = bs ! i"
  by (auto simp: put32_def)

lemma put16_nth: "i < off \<or> off + 2 \<le> i \<Longrightarrow> put16 bs off w ! i = bs ! i"
  by (auto simp: put16_def)

lemma get32_put32_other [simp]: "off' + 4 \<le> off \<or> off + 4 \<le> off' \<Longrightarrow> get32 (put32 bs off w) off' = get32 bs off'"
  by (auto simp: get32_def put32_nth)

lemma get32_put16_other [simp]: "off' + 4 \<le> off \<or> off + 2 \<le> off' \<Longrightarrow> get32 (put16 bs off w) off' = get32 bs off'"
  by (auto simp: get32_def put16_nth)

lemma get16_put32_other [simp]: "off' + 2 \<le> off \<or> off + 4 \<le> off' \<Longrightarrow> get16 (put32 bs off w) off' = get16 bs off'"
  by (auto simp: get16_def put32_nth)

lemma get16_put16_other [simp]: "off' + 2 \<le> off \<or> off + 2 \<le> off' \<Longrightarrow> get16 (put16 bs off w) off' = get16 bs off'"
  by (auto simp: get16_def put16_nth)

lemma put_words_nth: "i < off \<or> off + 4 * length ws \<le> i \<Longrightarrow> put_words bs off ws ! i = bs ! i"
  by (induction ws arbitrary: bs off) (auto simp: put32_nth)

lemma get32_put_words_other:
  "off' + 4 \<le> off \<or> off + 4 * length ws \<le> off' \<Longrightarrow> get32 (put_words bs off ws) off' = get32 bs off'"
  by (auto simp: get32_def put_words_nth)

lemma get16_put_words_other:
  "off' + 2 \<le> off \<or> off + 4 * length ws \<le> off' \<Longrightarrow> get16 (put_words bs off ws) off' = get16 bs off'"
  by (auto simp: get16_def put_words_nth)

lemma get32_put_words:
  "i < length ws \<Longrightarrow> off + 4 * length ws \<le> length bs \<Longrightarrow> get32 (put_words bs off ws) (off + 4 * i) = ws ! i"
proof (induction ws arbitrary: bs off i)
  case (Cons w ws)
  show ?case
  proof (cases i)
    case 0
    then show ?thesis using Cons.prems by (simp add: get32_put_words_other)
  next
    case (Suc j)
    then show ?thesis using Cons.IH [of j "off + 4" "put32 bs off w"] Cons.prems by (simp add: algebra_simps)
  qed
qed simp

lemma get_words_put_words:
  "off + 4 * length ws \<le> length bs \<Longrightarrow> get_words (put_words bs off ws) off (length ws) = ws"
  by (rule nth_equalityI) (simp_all add: get_words_def get32_put_words)

lemma get_words_length [simp]: "length (get_words bs off n) = n"
  by (simp add: get_words_def)

end
