(* ===== verification/Log.thy ===== *)
theory Log
  imports Bioseq Bytes "HOL-Library.Sublist"
begin

text \<open>
  The redo log, \<^verbatim>\<open>log.c\<close>. The in-memory header is the list of the block numbers it holds, whose
  length is \<^verbatim>\<open>lh.n\<close>. The routines are composed from the buffer cache as the code composes them. A
  crash keeps the disk and loses everything else; block writes are atomic. The main theorem states
  that a crash at any point of \<^verbatim>\<open>commit\<close> followed by recovery leaves either all or none of the
  transaction on the disk.
\<close>

section \<open>State and operations\<close>

definition MAXOPBLOCKS :: nat where [layout_consts]: "MAXOPBLOCKS = 10"
definition LOGSIZE :: nat where [layout_consts]: "LOGSIZE = 30"

record log =
  bc :: bcache
  lstart :: u32
  lsize :: int
  outstanding :: int
  committing :: bool
  lh :: "u32 list"

text \<open>The copy both loops of the log make: bytes of buffer \<open>i\<close> to buffer \<open>j\<close>.\<close>

definition copy_data :: "bcache \<Rightarrow> nat \<Rightarrow> nat \<Rightarrow> bcache" where
  "copy_data c i j = bmodify c j (\<lambda>_. bdata (bufn c i))"

fun install_trans_from :: "bcache \<Rightarrow> int \<Rightarrow> u32 \<Rightarrow> nat \<Rightarrow> u32 list \<Rightarrow> bcache res" where
  "install_trans_from c pid start tail [] = ret c"
| "install_trans_from c pid start tail (k # ks) =
     andthen (bread c pid ROOTDEV (start + of_nat tail + 1)) (\<lambda>(lbuf, c).
     andthen (bread c pid ROOTDEV k) (\<lambda>(dbuf, c).
     andthen (bwrite (copy_data c lbuf dbuf) pid dbuf) (\<lambda>c.
     andthen (brelse c pid lbuf) (\<lambda>c.
     andthen (brelse c pid dbuf) (\<lambda>c.
     install_trans_from c pid start (Suc tail) ks)))))"

definition install_trans :: "log \<Rightarrow> int \<Rightarrow> log res" where
  "install_trans s pid = andthen (install_trans_from (bc s) pid (lstart s) 0 (lh s)) (\<lambda>c. ret (s\<lparr>bc := c\<rparr>))"

fun write_log_from :: "bcache \<Rightarrow> int \<Rightarrow> u32 \<Rightarrow> nat \<Rightarrow> u32 list \<Rightarrow> bcache res" where
  "write_log_from c pid start tail [] = ret c"
| "write_log_from c pid start tail (k # ks) =
     andthen (bread c pid ROOTDEV (start + of_nat tail + 1)) (\<lambda>(to, c).
     andthen (bread c pid ROOTDEV k) (\<lambda>(from, c).
     andthen (bwrite (copy_data c from to) pid to) (\<lambda>c.
     andthen (brelse c pid from) (\<lambda>c.
     andthen (brelse c pid to) (\<lambda>c.
     write_log_from c pid start (Suc tail) ks)))))"

definition write_log :: "log \<Rightarrow> int \<Rightarrow> log res" where
  "write_log s pid = andthen (write_log_from (bc s) pid (lstart s) 0 (lh s)) (\<lambda>c. ret (s\<lparr>bc := c\<rparr>))"

text \<open>The header block: a count and that many block numbers.\<close>

definition put_head :: "block \<Rightarrow> u32 list \<Rightarrow> block" where
  "put_head bs ks = put_words (put32 bs 0 (of_nat (length ks))) 4 ks"

definition get_head :: "block \<Rightarrow> u32 list" where
  "get_head bs = get_words bs 4 (nat (sint (get32 bs 0)))"

definition read_head :: "log \<Rightarrow> int \<Rightarrow> log res" where
  "read_head s pid =
     andthen (bread (bc s) pid ROOTDEV (lstart s)) (\<lambda>(buf, c).
       let ks = get_head (bdata (bufn c buf))
       in andthen (brelse c pid buf) (\<lambda>c. ret (s\<lparr>bc := c, lh := ks\<rparr>)))"

definition write_head :: "log \<Rightarrow> int \<Rightarrow> log res" where
  "write_head s pid =
     andthen (bread (bc s) pid ROOTDEV (lstart s)) (\<lambda>(buf, c).
     andthen (bwrite (bmodify c buf (\<lambda>bs. put_head bs (lh s))) pid buf) (\<lambda>c.
     andthen (brelse c pid buf) (\<lambda>c. ret (s\<lparr>bc := c\<rparr>))))"

definition recover_from_log :: "log \<Rightarrow> int \<Rightarrow> log res" where
  "recover_from_log s pid =
     andthen (read_head s pid) (\<lambda>s.
     andthen (install_trans s pid) (\<lambda>s.
     write_head (s\<lparr>lh := []\<rparr>) pid))"

definition commit :: "log \<Rightarrow> int \<Rightarrow> log res" where
  "commit s pid =
     (if lh s \<noteq> [] then
        andthen (write_log s pid) (\<lambda>s.
        andthen (write_head s pid) (\<lambda>s.
        andthen (install_trans s pid) (\<lambda>s.
        write_head (s\<lparr>lh := []\<rparr>) pid)))
      else ret s)"

definition begin_op :: "log \<Rightarrow> log res" where
  "begin_op s =
     (if committing s then Inl (Sleep ''log'')
      else if int (length (lh s)) + (outstanding s + 1) * int MAXOPBLOCKS > int LOGSIZE then Inl (Sleep ''log'')
      else ret (s\<lparr>outstanding := outstanding s + 1\<rparr>))"

definition end_op :: "log \<Rightarrow> int \<Rightarrow> log res" where
  "end_op s pid =
     (let s = s\<lparr>outstanding := outstanding s - 1\<rparr>
      in if committing s then panic ''log.committing''
         else if outstanding s = 0 then
           andthen (commit (s\<lparr>committing := True\<rparr>) pid) (\<lambda>s. ret (s\<lparr>committing := False\<rparr>))
         else ret s)"

definition log_write :: "log \<Rightarrow> nat \<Rightarrow> log res" where
  "log_write s i =
     (if length (lh s) \<ge> LOGSIZE \<or> int (length (lh s)) \<ge> lsize s - 1 then panic ''too big a transaction''
      else if outstanding s < 1 then panic ''log_write outside of trans''
      else let k = bblockno (bufn (bc s) i)
           in ret (s\<lparr>lh := if k \<in> set (lh s) then lh s else lh s @ [k],
                     bc := upd_buf i (\<lambda>b. b\<lparr>bdirty := True\<rparr>) (bc s)\<rparr>))"

section \<open>The disk writes of each routine\<close>

definition apply_writes :: "(u32 \<times> block) list \<Rightarrow> (u32 \<Rightarrow> block) \<Rightarrow> u32 \<Rightarrow> block" where
  "apply_writes ws d = fold (\<lambda>(k, x) d. d(k := x)) ws d"

fun install_writes :: "(u32 \<Rightarrow> block) \<Rightarrow> u32 \<Rightarrow> nat \<Rightarrow> u32 list \<Rightarrow> (u32 \<times> block) list" where
  "install_writes v start tail [] = []"
| "install_writes v start tail (k # ks) = (k, v (start + of_nat tail + 1)) # install_writes v start (Suc tail) ks"

fun log_writes :: "(u32 \<Rightarrow> block) \<Rightarrow> u32 \<Rightarrow> nat \<Rightarrow> u32 list \<Rightarrow> (u32 \<times> block) list" where
  "log_writes v start tail [] = []"
| "log_writes v start tail (k # ks) = (start + of_nat tail + 1, v k) # log_writes v start (Suc tail) ks"

text \<open>The header and the 30 blocks after it.\<close>

definition in_log :: "u32 \<Rightarrow> u32 \<Rightarrow> bool" where
  "in_log start k \<longleftrightarrow> unat (k - start) \<le> LOGSIZE"

text \<open>A cache change that amounts to a sequence of block writes.\<close>

definition wrote :: "bcache \<Rightarrow> (u32 \<times> block) list \<Rightarrow> bcache \<Rightarrow> bool" where
  "wrote c ws c' \<longleftrightarrow> idle c' \<and> view c' = apply_writes ws (view c) \<and> drvs c' 1 = apply_writes ws (drvs c 1) \<and>
     dwrites c' = dwrites c @ ws \<and> dirty_blocks c' = dirty_blocks c - fst ` set ws \<and>
     (\<forall>l. free_buf c l \<longrightarrow> free_buf c' l)"

lemma apply_writes_simps [simp]:
  "apply_writes [] d = d" "apply_writes ((k, x) # ws) d = apply_writes ws (d(k := x))"
  "apply_writes (ws @ ws') d = apply_writes ws' (apply_writes ws d)"
  by (simp_all add: apply_writes_def)

lemma apply_writes_other: "k \<notin> fst ` set ws \<Longrightarrow> apply_writes ws d k = d k"
  by (induction ws arbitrary: d) auto

lemma wrote_refl: "idle c \<Longrightarrow> wrote c [] c"
  by (simp add: wrote_def)

lemma wrote_trans: "wrote c ws c' \<Longrightarrow> wrote c' ws' c'' \<Longrightarrow> wrote c (ws @ ws') c''"
  unfolding wrote_def by auto

lemma copied_wrote: "copied c a b c' \<Longrightarrow> wrote c [(b, view c a)] c'"
  by (simp add: copied_def wrote_def)

lemma log_block_in:
  assumes "t < LOGSIZE"
  shows "in_log start (start + of_nat t + 1)" "start + of_nat t + 1 \<noteq> start"
proof -
  have u: "unat (of_nat (Suc t) :: u32) = Suc t" using assms by (intro unat_of_nat_u32) (simp add: LOGSIZE_def)
  then show "in_log start (start + of_nat t + 1)"
    using assms by (simp add: in_log_def add.commute add.left_commute)
  have "of_nat (Suc t) \<noteq> (0 :: u32)" using u by (metis nat.distinct(1) unat_0)
  then show "start + of_nat t + 1 \<noteq> start" by (simp add: add.assoc add.commute)
qed

lemma log_block_range:
  assumes "unat start + LOGSIZE < unat FSSIZE" and "t < LOGSIZE"
  shows "start + of_nat t + 1 < FSSIZE"
proof -
  have "unat (of_nat (Suc t) :: u32) = Suc t" using assms(2) by (intro unat_of_nat_u32) (simp add: LOGSIZE_def)
  then have "unat (start + of_nat (Suc t)) = unat start + Suc t"
    using assms by (subst unat_add_small) (auto simp: FSSIZE_def)
  moreover have "start + of_nat t + 1 = start + of_nat (Suc t)" by simp
  ultimately show ?thesis using assms by (simp only: word_less_nat_alt)
qed

lemma install_writes_cong:
  "\<forall>k \<in> set ks. \<not> in_log start k \<Longrightarrow> \<not> in_log start k \<Longrightarrow> tail + length ks \<le> LOGSIZE \<Longrightarrow>
   install_writes (v(k := x)) start tail ks = install_writes v start tail ks"
proof (induction ks arbitrary: tail)
  case (Cons a ks)
  have "in_log start (start + of_nat tail + 1)" using Cons.prems by (intro log_block_in) simp
  with Cons show ?case by auto
qed simp

lemma log_writes_cong:
  "\<forall>k \<in> set ks. \<not> in_log start k \<Longrightarrow> in_log start k \<Longrightarrow> log_writes (v(k := x)) start tail ks = log_writes v start tail ks"
  by (induction ks arbitrary: tail) auto

lemma install_writes_fst: "map fst (install_writes v start tail ks) = ks"
  by (induction ks arbitrary: tail) auto

lemma log_writes_fst:
  "tail + length ks \<le> LOGSIZE \<Longrightarrow> (k, x) \<in> set (log_writes v start tail ks) \<Longrightarrow> in_log start k \<and> k \<noteq> start"
proof (induction ks arbitrary: tail)
  case (Cons a ks)
  have "in_log start (start + of_nat tail + 1)" "start + of_nat tail + 1 \<noteq> start"
    using log_block_in [of tail start] Cons.prems by auto
  with Cons.IH [of "Suc tail"] Cons.prems show ?case by auto
qed simp

text \<open>What the loops need: a valid log area, homes outside it, and buffers to work with.\<close>

definition homes :: "u32 \<Rightarrow> nat \<Rightarrow> u32 list \<Rightarrow> bool" where
  "homes start tail ks \<longleftrightarrow> unat start + LOGSIZE < unat FSSIZE \<and> distinct ks \<and> tail + length ks \<le> LOGSIZE \<and>
     (\<forall>k \<in> set ks. k < FSSIZE \<and> \<not> in_log start k)"

lemma homes_Cons:
  "homes start tail (k # ks) \<Longrightarrow> homes start (Suc tail) ks \<and> k < FSSIZE \<and> \<not> in_log start k \<and> k \<notin> set ks \<and>
     start + of_nat tail + 1 < FSSIZE \<and> start + of_nat tail + 1 \<noteq> k \<and> in_log start (start + of_nat tail + 1)"
  using log_block_range [of start tail] log_block_in [of tail start] by (auto simp: homes_def)

lemma install_trans_from_runs:
  assumes "idle c" and "homes start tail ks" and "\<exists>x. free_buf c x"
    and "set ks \<subseteq> dirty_blocks c \<or> (\<exists>x y. x \<noteq> y \<and> free_buf c x \<and> free_buf c y)"
  shows "\<exists>c'. install_trans_from c pid start tail ks = Inr c' \<and> wrote c (install_writes (view c) start tail ks) c'"
  using assms
proof (induction ks arbitrary: c tail)
  case Nil
  then show ?case by (simp add: wrote_refl)
next
  case (Cons k ks)
  note h = homes_Cons [OF Cons.prems(2)]
  have "room2 c k" using Cons.prems(3,4) by (auto simp: room2_def)
  then obtain i s1 j s2 s3 s4 c1 where r: "bread c pid 1 (start + of_nat tail + 1) = Inr (i, s1)" "bread s1 pid 1 k = Inr (j, s2)"
      "bwrite (bmodify s2 j (\<lambda>_. bdata (bufn s2 i))) pid j = Inr s3" "brelse s3 pid i = Inr s4" "brelse s4 pid j = Inr c1"
      and cp: "copied c (start + of_nat tail + 1) k c1"
    using copy_runs(1) [OF Cons.prems(1), of "start + of_nat tail + 1" k pid] h by blast
  have w1: "wrote c [(k, view c (start + of_nat tail + 1))] c1" by (rule copied_wrote [OF cp])
  have fr: "\<And>l. free_buf c l \<Longrightarrow> free_buf c1 l" and d1: "dirty_blocks c1 = dirty_blocks c - {k}" and "idle c1"
    and v1: "view c1 = (view c)(k := view c (start + of_nat tail + 1))" using cp by (auto simp: copied_def)
  have prem: "\<exists>x. free_buf c1 x" using Cons.prems(3) fr by blast
  have prem2: "set ks \<subseteq> dirty_blocks c1 \<or> (\<exists>x y. x \<noteq> y \<and> free_buf c1 x \<and> free_buf c1 y)"
  proof (cases "set (k # ks) \<subseteq> dirty_blocks c")
    case True
    then show ?thesis using d1 h by auto
  next
    case False
    then show ?thesis using Cons.prems(4) fr by blast
  qed
  from \<open>idle c1\<close> obtain c' where c': "install_trans_from c1 pid start (Suc tail) ks = Inr c'"
      "wrote c1 (install_writes (view c1) start (Suc tail) ks) c'"
    using Cons.IH [of c1 "Suc tail"] prem prem2 h by blast
  have "install_writes (view c1) start (Suc tail) ks = install_writes (view c) start (Suc tail) ks"
    using h unfolding v1 by (intro install_writes_cong) (auto simp: homes_def)
  then have "wrote c (install_writes (view c) start tail (k # ks)) c'" using wrote_trans [OF w1] c'(2) by simp
  then show ?case using r c'(1) by (simp add: ROOTDEV_def copy_data_def)
qed

lemma write_log_from_runs:
  assumes "idle c" and "homes start tail ks" and "\<exists>x. free_buf c x" and "set ks \<subseteq> dirty_blocks c"
    and "dirty_blocks c \<inter> {k. in_log start k} = {}"
  shows "\<exists>c'. write_log_from c pid start tail ks = Inr c' \<and> wrote c (log_writes (view c) start tail ks) c'"
  using assms
proof (induction ks arbitrary: c tail)
  case Nil
  then show ?case by (simp add: wrote_refl)
next
  case (Cons k ks)
  note h = homes_Cons [OF Cons.prems(2)]
  let ?b = "start + of_nat tail + 1"
  have "room2 c k" using Cons.prems(3,4) by (auto simp: room2_def)
  then obtain i s1 j s2 s3 s4 c1 where r: "bread c pid 1 ?b = Inr (i, s1)" "bread s1 pid 1 k = Inr (j, s2)"
      "bwrite (bmodify s2 i (\<lambda>_. bdata (bufn s2 j))) pid i = Inr s3" "brelse s3 pid j = Inr s4" "brelse s4 pid i = Inr c1"
      and cp: "copied c k ?b c1"
    using copy_runs(2) [OF Cons.prems(1), of ?b k pid] h by blast
  have w1: "wrote c [(?b, view c k)] c1" by (rule copied_wrote [OF cp])
  have fr: "\<And>l. free_buf c l \<Longrightarrow> free_buf c1 l" and d1: "dirty_blocks c1 = dirty_blocks c - {?b}" and "idle c1"
    and v1: "view c1 = (view c)(?b := view c k)" using cp by (auto simp: copied_def)
  have "dirty_blocks c1 = dirty_blocks c" using d1 Cons.prems(5) h by auto
  then have prem: "\<exists>x. free_buf c1 x" "set ks \<subseteq> dirty_blocks c1" "dirty_blocks c1 \<inter> {k. in_log start k} = {}"
    using Cons.prems(3-5) fr by auto
  from \<open>idle c1\<close> obtain c' where c': "write_log_from c1 pid start (Suc tail) ks = Inr c'"
      "wrote c1 (log_writes (view c1) start (Suc tail) ks) c'"
    using Cons.IH [of c1 "Suc tail"] prem h by blast
  have "log_writes (view c1) start (Suc tail) ks = log_writes (view c) start (Suc tail) ks"
    using h unfolding v1 by (intro log_writes_cong) (auto simp: homes_def)
  then have "wrote c (log_writes (view c) start tail (k # ks)) c'" using wrote_trans [OF w1] c'(2) by simp
  then show ?case using r c'(1) by (simp add: ROOTDEV_def copy_data_def)
qed

text \<open>Releasing the only buffer held brings the cache back to rest.\<close>

lemma settle:
  assumes idle: "idle c" and g: "got c pid k i c1"
    and t: "bio_ok t []" "\<not> slocked (block (bufn t i))" "caches (bufn t i) k" "bdirty (bufn t i) \<Longrightarrow> bdirty (bufn c1 i)"
      "\<And>j. j < NBUF \<Longrightarrow> j \<noteq> i \<Longrightarrow> bufn t j = bufn c1 j"
  shows "idle t \<and> dirty_blocks t = dirty_blocks c - (if bdirty (bufn t i) then {} else {k}) \<and>
    (\<forall>l. free_buf c l \<longrightarrow> free_buf t l)"
proof (intro conjI)
  have g': "bio_ok c1 []" "i < NBUF" "caches (bufn c1 i) k" "dirty_blocks c1 = dirty_blocks c"
      "bdirty (bufn c1 i) \<longleftrightarrow> bdirty (bufn c i)" "\<And>j. j < NBUF \<Longrightarrow> j \<noteq> i \<Longrightarrow> bufn c1 j = bufn c j"
    using g by (auto simp: got_def)
  show it: "idle t" using t g'(6) idle unfolding idle_def by metis
  show "\<forall>l. free_buf c l \<longrightarrow> free_buf t l" unfolding idle_free [OF idle] idle_free [OF it] using t(4,5) g'(5,6) by metis
  have "caches (bufn t l) k' \<and> bdirty (bufn t l) \<longleftrightarrow> caches (bufn c1 l) k' \<and> bdirty (bufn c1 l) \<and> (k' = k \<longrightarrow> bdirty (bufn t i))"
    if "l < NBUF" for l k'
    using t(3-5) g'(3) that bio_okD(7) [OF g'(1) that g'(2), of k] by (cases "l = i") auto
  then have "k' \<in> dirty_blocks t \<longleftrightarrow> k' \<in> dirty_blocks c1 \<and> (k' = k \<longrightarrow> bdirty (bufn t i))" for k'
    by (auto simp: dirty_blocks_def)
  then show "dirty_blocks t = dirty_blocks c - (if bdirty (bufn t i) then {} else {k})" using g'(4) by auto
qed

lemma bread_idle:
  assumes "idle c" and "k < FSSIZE" and "\<exists>x. free_buf c x"
  shows "\<exists>i c1. bread c pid 1 k = Inr (i, c1) \<and> got c pid k i c1"
  using assms bread_runs [of c k pid] by (auto simp: idle_def)

text \<open>Reading and rewriting one block, and only reading it.\<close>

lemma rewrite_runs:
  assumes idle: "idle c" and k: "k < FSSIZE" and fr: "\<exists>x. free_buf c x"
  shows "\<exists>i c1 c2 c3. bread c pid 1 k = Inr (i, c1) \<and> bdata (bufn c1 i) = view c k \<and>
    bwrite (bmodify c1 i f) pid i = Inr c2 \<and> brelse c2 pid i = Inr c3 \<and> wrote c [(k, f (view c k))] c3"
proof -
  obtain i c1 where r: "bread c pid 1 k = Inr (i, c1)" and g: "got c pid k i c1" using bread_idle [OF assms] by blast
  have g': "bio_ok c1 []" "view c1 = view c" "drvs c1 = drvs c" "dwrites c1 = dwrites c" "bdata (bufn c1 i) = view c k"
    using g by (auto simp: got_def)
  obtain c2 where w: "bwrite (bmodify c1 i (\<lambda>_. f (view c k))) pid i = Inr c2" "bio_ok c2 []" "view c2 = (view c1)(k := f (view c k))"
      "drvs c2 1 = (drvs c1 1)(k := f (view c k))" "dwrites c2 = dwrites c1 @ [(k, f (view c k))]" "held c2 pid k i" "\<not> bdirty (bufn c2 i)"
      and n2: "\<And>j. j < NBUF \<Longrightarrow> j \<noteq> i \<Longrightarrow> bufn c2 j = bufn c1 j"
    using store_runs [OF g'(1) got_held [OF g] k, of "f (view c k)"] by blast
  have m: "bmodify c1 i f = bmodify c1 i (\<lambda>_. f (view c k))" using g'(5) by (simp add: bmodify_def upd_buf_def)
  obtain c3 where l: "brelse c2 pid i = Inr c3" "bio_ok c3 []" "view c3 = view c2" "drvs c3 = drvs c2" "dwrites c3 = dwrites c2"
      "\<not> slocked (block (bufn c3 i))" "caches (bufn c3 i) k" "bdirty (bufn c3 i) = bdirty (bufn c2 i)"
      and n3: "\<And>j. j < NBUF \<Longrightarrow> j \<noteq> i \<Longrightarrow> bufn c3 j = bufn c2 j"
    using brelse_runs [OF w(2,6)] by blast
  have "idle c3 \<and> dirty_blocks c3 = dirty_blocks c - {k} \<and> (\<forall>l. free_buf c l \<longrightarrow> free_buf c3 l)"
    using settle [OF idle g, of c3] l w(7) n3 n2 by simp
  then have "wrote c [(k, f (view c k))] c3" using l w g' by (simp add: wrote_def)
  then show ?thesis using r w(1) l(1) m g'(5) by metis
qed

lemma reread_runs:
  assumes idle: "idle c" and k: "k < FSSIZE" and fr: "\<exists>x. free_buf c x"
  shows "\<exists>i c1 c2. bread c pid 1 k = Inr (i, c1) \<and> bdata (bufn c1 i) = view c k \<and> brelse c1 pid i = Inr c2 \<and> wrote c [] c2"
proof -
  obtain i c1 where r: "bread c pid 1 k = Inr (i, c1)" and g: "got c pid k i c1" using bread_idle [OF assms] by blast
  have g': "bio_ok c1 []" "view c1 = view c" "drvs c1 = drvs c" "dwrites c1 = dwrites c" "bdata (bufn c1 i) = view c k"
      "i < NBUF" "caches (bufn c1 i) k" "dirty_blocks c1 = dirty_blocks c"
    using g unfolding got_def by blast+
  obtain c4 where q: "brelse c1 pid i = Inr c4" "bio_ok c4 []" "view c4 = view c1" "drvs c4 = drvs c1" "dwrites c4 = dwrites c1"
      "\<not> slocked (block (bufn c4 i))" "caches (bufn c4 i) k" "bdirty (bufn c4 i) = bdirty (bufn c1 i)"
      and n4: "\<And>j. j < NBUF \<Longrightarrow> j \<noteq> i \<Longrightarrow> bufn c4 j = bufn c1 j"
    using brelse_runs [OF g'(1) got_held [OF g]] by blast
  have s: "idle c4 \<and> dirty_blocks c4 = dirty_blocks c - (if bdirty (bufn c4 i) then {} else {k}) \<and> (\<forall>l. free_buf c l \<longrightarrow> free_buf c4 l)"
    by (rule settle [OF idle g q(2,6,7) _ n4]) (simp_all add: q(8))
  have d: "bdirty (bufn c1 i)" if "k \<in> dirty_blocks c"
  proof -
    have "k \<in> dirty_blocks c1" using that g'(8) by simp
    then obtain j where j: "j < NBUF" "caches (bufn c1 j) k" "bdirty (bufn c1 j)" by (auto simp: dirty_blocks_def)
    have "j = i" by (rule bio_okD(7) [OF g'(1) j(1) g'(6) j(2) g'(7)])
    with j(3) show ?thesis by simp
  qed
  have "dirty_blocks c4 = dirty_blocks c"
  proof (cases "bdirty (bufn c1 i)")
    case True
    then show ?thesis using s unfolding q(8) by simp
  next
    case False
    then have "k \<notin> dirty_blocks c" using d by blast
    then show ?thesis using s False unfolding q(8) by simp
  qed
  moreover have "idle c4" "\<forall>l. free_buf c l \<longrightarrow> free_buf c4 l" using s by blast+
  ultimately have "wrote c [] c4" using q(3-5) g'(2-4) by (simp add: wrote_def)
  then show ?thesis by (intro exI conjI) (rule r g'(5) q(1) | assumption)+
qed

section \<open>The header block\<close>

lemma put_head_length [simp]: "length (put_head bs ks) = length bs"
  by (simp add: put_head_def)

lemma get_head_put_head:
  assumes "length bs = BSIZE" and "length ks \<le> LOGSIZE"
  shows "get_head (put_head bs ks) = ks"
proof -
  have n: "sint (of_nat (length ks) :: u32) = int (length ks)"
    using assms(2) by (intro sint_of_nat_u32) (simp add: LOGSIZE_def)
  have "get32 (put_head bs ks) 0 = of_nat (length ks)"
    using assms by (simp add: put_head_def get32_put_words_other BSIZE_def)
  then show ?thesis
    using assms n get_words_put_words [of 4 ks "put32 bs 0 (of_nat (length ks))"]
    by (simp add: get_head_def put_head_def BSIZE_def LOGSIZE_def)
qed

section \<open>Commit and recovery\<close>

definition log_wf :: "log \<Rightarrow> bool" where
  "log_wf s \<longleftrightarrow> idle (bc s) \<and> homes (lstart s) 0 (lh s) \<and> length (lh s) < NBUF \<and>
     dirty_blocks (bc s) = set (lh s) \<and> length (view (bc s) (lstart s)) = BSIZE"

lemma some_buffer_free:
  assumes "idle c" and "dirty_blocks c = set ks" and "length ks < NBUF"
  shows "\<exists>x. free_buf c x"
proof (rule ccontr)
  assume "\<nexists>x. free_buf c x"
  then have d: "bdirty (bufn c i)" if "i < NBUF" for i using that idle_free [OF assms(1)] by blast
  have ok: "bio_ok c []" using assms(1) by (simp add: idle_def)
  have dev: "bdev (bufn c i) = 1" if "i < NBUF" for i using bio_okD(5) [OF ok that] d [OF that] by (auto simp: buf_ok_def)
  have "inj_on (\<lambda>i. bblockno (bufn c i)) {..<NBUF}"
    using bio_okD(7) [OF ok] dev by (auto intro!: inj_onI)
  then have "card ((\<lambda>i. bblockno (bufn c i)) ` {..<NBUF}) = NBUF" by (simp add: card_image)
  moreover have "(\<lambda>i. bblockno (bufn c i)) ` {..<NBUF} \<subseteq> set ks"
    unfolding assms(2) [symmetric] using d dev by (auto simp: dirty_blocks_def)
  ultimately have "NBUF \<le> card (set ks)" by (metis List.finite_set card_mono)
  with assms(3) card_length [of ks] show False by linarith
qed

lemma lstart_in_log: "in_log start start"
  by (simp add: in_log_def)

lemma homes_start: "homes start 0 ks \<Longrightarrow> start < FSSIZE"
  by (simp add: homes_def word_less_nat_alt)

lemma write_head_runs:
  assumes "idle (bc s)" and "lstart s < FSSIZE" and "\<exists>x. free_buf (bc s) x"
  shows "\<exists>c. write_head s pid = Inr (s\<lparr>bc := c\<rparr>) \<and>
    wrote (bc s) [(lstart s, put_head (view (bc s) (lstart s)) (lh s))] c"
  using rewrite_runs [OF assms, of pid "\<lambda>bs. put_head bs (lh s)"] by (auto simp: write_head_def ROOTDEV_def)

lemma read_head_runs:
  assumes "idle (bc s)" and "lstart s < FSSIZE" and "\<exists>x. free_buf (bc s) x"
  shows "\<exists>c. read_head s pid = Inr (s\<lparr>bc := c, lh := get_head (view (bc s) (lstart s))\<rparr>) \<and> wrote (bc s) [] c"
  using reread_runs [OF assms, of pid] by (auto simp: read_head_def ROOTDEV_def)

text \<open>The four phases of the writes of a commit.\<close>

definition commit_writes :: "(u32 \<Rightarrow> block) \<Rightarrow> u32 \<Rightarrow> u32 list \<Rightarrow> (u32 \<times> block) list" where
  "commit_writes v start ks =
     log_writes v start 0 ks @ [(start, put_head (v start) ks)] @ map (\<lambda>k. (k, v k)) ks @
     [(start, put_head (put_head (v start) ks) [])]"

lemma log_writes_place:
  "(k', x) \<in> set (log_writes v start u ks) \<Longrightarrow> \<exists>j < length ks. k' = start + of_nat (u + j) + 1"
proof (induction ks arbitrary: u)
  case (Cons k ks)
  show ?case
  proof (cases "(k', x) = (start + of_nat u + 1, v k)")
    case False
    then have "(k', x) \<in> set (log_writes v start (Suc u) ks)" using Cons.prems by auto
    from Cons.IH [OF this] obtain j where "j < length ks" "k' = start + of_nat (Suc u + j) + 1" by blast
    then show ?thesis by (intro exI [of _ "Suc j"]) simp
  qed (auto intro: exI [of _ 0])
qed simp

lemma log_writes_apply:
  "homes start tail ks \<Longrightarrow> i < length ks \<Longrightarrow>
   apply_writes (log_writes v start tail ks) d (start + of_nat (tail + i) + 1) = v (ks ! i)"
proof (induction ks arbitrary: tail i d)
  case (Cons k ks)
  note h = homes_Cons [OF Cons.prems(1)]
  show ?case
  proof (cases i)
    case 0
    have "(start + of_nat tail + 1) \<notin> fst ` set (log_writes v start (Suc tail) ks)"
    proof
      assume "(start + of_nat tail + 1) \<in> fst ` set (log_writes v start (Suc tail) ks)"
      then obtain x where "(start + of_nat tail + 1, x) \<in> set (log_writes v start (Suc tail) ks)" by auto
      from log_writes_place [OF this] obtain j where
        j: "j < length ks" "start + of_nat tail + 1 = start + of_nat (Suc tail + j) + 1" by blast
      then have "of_nat (Suc j) = (0 :: u32)" by (simp add: algebra_simps)
      moreover have "unat (of_nat (Suc j) :: u32) = Suc j"
        using j(1) Cons.prems(1) by (intro unat_of_nat_u32) (auto simp: homes_def LOGSIZE_def)
      ultimately show False by simp
    qed
    then show ?thesis using 0 by (simp add: apply_writes_other)
  next
    case (Suc j)
    then show ?thesis using Cons.IH [of "Suc tail" j] h Cons.prems(2) by simp
  qed
qed simp

lemma install_writes_map:
  "homes start tail ks \<Longrightarrow> (\<And>i. i < length ks \<Longrightarrow> v (start + of_nat (tail + i) + 1) = x (ks ! i)) \<Longrightarrow>
   install_writes v start tail ks = map (\<lambda>k. (k, x k)) ks"
proof (induction ks arbitrary: tail)
  case (Cons k ks)
  have "v (start + of_nat tail + 1) = x k" using Cons.prems(2) [of 0] by simp
  moreover have "install_writes v start (Suc tail) ks = map (\<lambda>k. (k, x k)) ks"
    using Cons.prems(2) [of "Suc _"] homes_Cons [OF Cons.prems(1)] by (intro Cons.IH) auto
  ultimately show ?case by simp
qed simp

lemma log_writes_keep: "homes start 0 ks \<Longrightarrow> \<not> in_log start k \<or> k = start \<Longrightarrow> k \<notin> fst ` set (log_writes v start 0 ks)"
  using log_writes_fst [of 0 ks k _ v start] by (auto simp: homes_def)

lemma homes_clear: "homes start 0 ks \<Longrightarrow> start \<notin> set ks"
  using lstart_in_log by (auto simp: homes_def)

lemma wroteD:
  assumes "wrote c ws c'"
  shows "idle c'" "view c' = apply_writes ws (view c)" "dirty_blocks c' = dirty_blocks c - fst ` set ws"
    "\<exists>x. free_buf c x \<Longrightarrow> \<exists>x. free_buf c' x"
  using assms by (auto simp: wrote_def)

lemma commit_runs:
  assumes wf: "log_wf s" and ne: "lh s \<noteq> []"
  shows "\<exists>c. commit s pid = Inr (s\<lparr>lh := [], bc := c\<rparr>) \<and>
    wrote (bc s) (commit_writes (view (bc s)) (lstart s) (lh s)) c"
proof -
  let ?v = "view (bc s)" and ?st = "lstart s" and ?ks = "lh s"
  have idle: "idle (bc s)" and h: "homes ?st 0 ?ks" and d: "dirty_blocks (bc s) = set ?ks" and n: "length ?ks < NBUF"
    using wf by (auto simp: log_wf_def)
  have fr: "\<exists>x. free_buf (bc s) x" by (rule some_buffer_free [OF idle d n])
  have st: "?st < FSSIZE" by (rule homes_start [OF h])
  have out: "\<forall>k \<in> set ?ks. \<not> in_log ?st k" using h by (auto simp: homes_def)
  obtain c1 where c1: "write_log_from (bc s) pid ?st 0 ?ks = Inr c1" and w1: "wrote (bc s) (log_writes ?v ?st 0 ?ks) c1"
    using write_log_from_runs [OF idle h fr] d out by blast
  have v1: "view c1 ?st = ?v ?st" using wroteD(2) [OF w1] log_writes_keep [OF h] by (simp add: apply_writes_other)
  obtain c2 where c2: "write_head (s\<lparr>bc := c1\<rparr>) pid = Inr (s\<lparr>bc := c2\<rparr>)" and w2: "wrote c1 [(?st, put_head (?v ?st) ?ks)] c2"
    using write_head_runs [of "s\<lparr>bc := c1\<rparr>" pid] wroteD(1,4) [OF w1] fr st v1 by auto
  have disj: "set ?ks \<inter> fst ` set (log_writes ?v ?st 0 ?ks) = {}" using log_writes_keep [OF h] out by blast
  have d2: "dirty_blocks c2 = set ?ks"
    using wroteD(3) [OF w1] wroteD(3) [OF w2] d disj homes_clear [OF h] by (simp add: Diff_triv)
  have "view c2 (?st + of_nat (0 + i) + 1) = ?v (?ks ! i)" if "i < length ?ks" for i
    using wroteD(2) [OF w1] wroteD(2) [OF w2] log_writes_apply [OF h that] log_block_in(2) [of i ?st] that h
    by (simp add: homes_def)
  then have iw: "install_writes (view c2) ?st 0 ?ks = map (\<lambda>k. (k, ?v k)) ?ks" by (rule install_writes_map [OF h])
  have fr2: "\<exists>x. free_buf c2 x" using wroteD(4) [OF w1] wroteD(4) [OF w2] fr by blast
  obtain c3 where c3: "install_trans_from c2 pid ?st 0 ?ks = Inr c3" and w3: "wrote c2 (map (\<lambda>k. (k, ?v k)) ?ks) c3"
    using install_trans_from_runs [OF wroteD(1) [OF w2] h fr2, of pid] d2 iw by auto
  have "?st \<notin> fst ` set (map (\<lambda>k. (k, ?v k)) ?ks)" using homes_clear [OF h] by auto
  then have v3: "view c3 ?st = put_head (?v ?st) ?ks"
    using wroteD(2) [OF w2] wroteD(2) [OF w3] by (simp add: apply_writes_other)
  obtain c4 where c4: "write_head (s\<lparr>bc := c3, lh := []\<rparr>) pid = Inr (s\<lparr>lh := [], bc := c4\<rparr>)"
      and w4: "wrote c3 [(?st, put_head (put_head (?v ?st) ?ks) [])] c4"
    using write_head_runs [of "s\<lparr>bc := c3, lh := []\<rparr>" pid] wroteD(1,4) [OF w3] fr2 st v3 by auto
  have "commit s pid = Inr (s\<lparr>lh := [], bc := c4\<rparr>)"
    using ne c1 c2 c3 c4 by (simp add: commit_def write_log_def install_trans_def)
  moreover have "wrote (bc s) (commit_writes ?v ?st ?ks) c4"
    using wrote_trans [OF w1 wrote_trans [OF w2 wrote_trans [OF w3 w4]]] by (simp add: commit_writes_def)
  ultimately show ?thesis by blast
qed

text \<open>A machine that starts on disk content \<open>d\<close>, as \<^verbatim>\<open>initlog\<close> finds it.\<close>

definition mount :: "u32 \<Rightarrow> int \<Rightarrow> (u32 \<Rightarrow> block) \<Rightarrow> log" where
  "mount start nlog d = \<lparr>bc = binit (\<lambda>_. d) True, lstart = start, lsize = nlog, outstanding = 0, committing = False, lh = []\<rparr>"

lemma binit_idle: "idle (binit (\<lambda>_. d) True)" "free_buf (binit (\<lambda>_. d) True) i \<longleftrightarrow> i < NBUF"
  "view (binit (\<lambda>_. d) True) = d" "drvs (binit (\<lambda>_. d) True) 1 = d"
  using binit_ok [of "\<lambda>_. d"] binit_view [of "\<lambda>_. d"]
  by (auto simp: idle_def free_buf_def binit_def zero_buf_def initsleeplock_def)

lemma recover_runs:
  assumes h: "homes start 0 (get_head (d start))"
  shows "\<exists>r. recover_from_log (mount start nlog d) pid = Inr r \<and> lh r = [] \<and>
    (\<forall>k. k \<noteq> start \<longrightarrow> drvs (bc r) 1 k = apply_writes (install_writes d start 0 (get_head (d start))) d k)"
proof -
  let ?m = "mount start nlog d" and ?ks = "get_head (d start)"
  have two: "free_buf (bc ?m) 0" "free_buf (bc ?m) 1" and i: "idle (bc ?m)" and v: "view (bc ?m) = d" and dk: "drvs (bc ?m) 1 = d"
    using binit_idle by (simp_all add: mount_def NBUF_def)
  have ls: "lstart ?m = start" by (simp add: mount_def)
  have st: "start < FSSIZE" by (rule homes_start [OF h])
  obtain c1 where c1: "read_head ?m pid = Inr (?m\<lparr>bc := c1, lh := ?ks\<rparr>)" and w1: "wrote (bc ?m) [] c1"
    using read_head_runs [OF i, of pid] two st v ls by auto
  have f1: "\<exists>x y. x \<noteq> y \<and> free_buf c1 x \<and> free_buf c1 y" "\<exists>x. free_buf c1 x"
    using two w1 unfolding wrote_def by (metis zero_neq_one)+
  have v1: "view c1 = d" "drvs c1 1 = d" using w1 v dk by (simp_all add: wrote_def)
  obtain c2 where c2: "install_trans_from c1 pid start 0 ?ks = Inr c2" and w2: "wrote c1 (install_writes d start 0 ?ks) c2"
    using install_trans_from_runs [OF wroteD(1) [OF w1] h f1(2), of pid] f1(1) v1 by auto
  obtain c3 where c3: "write_head (?m\<lparr>bc := c2, lh := []\<rparr>) pid = Inr (?m\<lparr>lh := [], bc := c3\<rparr>)"
      and w3: "wrote c2 [(start, put_head (view c2 start) [])] c3"
    using write_head_runs [of "?m\<lparr>bc := c2, lh := []\<rparr>" pid] wroteD(1,4) [OF w2] f1(2) st ls by auto
  have "recover_from_log ?m pid = Inr (?m\<lparr>lh := [], bc := c3\<rparr>)"
    using c1 c2 c3 ls by (simp add: recover_from_log_def install_trans_def)
  moreover have "drvs c3 1 k = apply_writes (install_writes d start 0 ?ks) d k" if "k \<noteq> start" for k
    using that w2 w3 v1 by (simp add: wrote_def)
  ultimately show ?thesis by (intro exI [of _ "?m\<lparr>lh := [], bc := c3\<rparr>"]) simp
qed

section \<open>Crashes\<close>

lemma view_clean:
  assumes "idle c" and "k \<notin> dirty_blocks c"
  shows "view c k = drvs c 1 k"
proof -
  have ok: "bio_ok c []" using assms(1) by (simp add: idle_def)
  show ?thesis
  proof (cases "\<exists>i < NBUF. caches (bufn c i) k \<and> bvalid (bufn c i)")
    case True
    then obtain i where i: "i < NBUF" "caches (bufn c i) k" "bvalid (bufn c i)" by blast
    then have "\<not> bdirty (bufn c i)" "\<not> slocked (block (bufn c i))" using assms by (auto simp: dirty_blocks_def idle_def)
    then show ?thesis using view_cached [OF ok i] bio_okD(5) [OF ok i(1)] i by (auto simp: buf_ok_def)
  next
    case False
    then show ?thesis by (intro view_uncached [OF ok]) blast
  qed
qed

lemma apply_map: "apply_writes (map (\<lambda>k. (k, v k)) ks) d k = (if k \<in> set ks then v k else d k)"
  by (induction ks arbitrary: d) auto

text \<open>What recovery makes of a disk that a crash left behind.\<close>

definition recovered :: "u32 \<Rightarrow> (u32 \<Rightarrow> block) \<Rightarrow> u32 \<Rightarrow> block" where
  "recovered start d = apply_writes (install_writes d start 0 (get_head (d start))) d"

text \<open>The disk \<open>d\<close> a commit of the blocks \<open>ks\<close> with contents \<open>v\<close> starts from.\<close>

definition ready_to_commit :: "u32 \<Rightarrow> u32 list \<Rightarrow> (u32 \<Rightarrow> block) \<Rightarrow> (u32 \<Rightarrow> block) \<Rightarrow> bool" where
  "ready_to_commit start ks v d \<longleftrightarrow> homes start 0 ks \<and> get_head (d start) = [] \<and> length (v start) = BSIZE \<and>
     (\<forall>k. k \<notin> set ks \<longrightarrow> v k = d k)"

lemma crash_before_head:
  assumes ready: "ready_to_commit start ks v d" and "prefix ws (log_writes v start 0 ks)"
  shows "homes start 0 (get_head (apply_writes ws d start))"
    and "\<not> in_log start k \<Longrightarrow> recovered start (apply_writes ws d) k = d k"
proof -
  have h: "homes start 0 ks" and empty: "get_head (d start) = []" and len: "length (v start) = BSIZE"
    and clean: "\<And>k. k \<notin> set ks \<Longrightarrow> v k = d k" using ready by (auto simp: ready_to_commit_def)
  have sub: "fst ` set ws \<subseteq> fst ` set (log_writes v start 0 ks)" using set_mono_prefix [OF assms(2)] by (rule image_mono)
  have st: "apply_writes ws d start = d start"
    using log_writes_keep [OF h, of start v] sub by (intro apply_writes_other) blast
  then show "homes start 0 (get_head (apply_writes ws d start))" using h empty by (simp add: homes_def)
  assume k: "\<not> in_log start k"
  then show "recovered start (apply_writes ws d) k = d k"
    using log_writes_keep [OF h, of k v] sub st empty by (auto simp: recovered_def intro!: apply_writes_other)
qed

lemma crash_after_head:
  assumes ready: "ready_to_commit start ks v d" and "prefix us (map (\<lambda>k. (k, v k)) ks)"
  defines "d' \<equiv> apply_writes (log_writes v start 0 ks @ (start, put_head (v start) ks) # us) d"
  shows "homes start 0 (get_head (d' start))"
    and "\<not> in_log start k \<Longrightarrow> recovered start d' k = v k"
proof -
  have h: "homes start 0 ks" and empty: "get_head (d start) = []" and len: "length (v start) = BSIZE"
    and clean: "\<And>k. k \<notin> set ks \<Longrightarrow> v k = d k" using ready by (auto simp: ready_to_commit_def)
  obtain ks' zs where us: "us = map (\<lambda>k. (k, v k)) ks'" "ks = ks' @ zs"
    using assms(2) by (auto simp: prefix_def map_eq_append_conv)
  have out: "\<not> in_log start k" if "k \<in> set ks" for k using h that by (auto simp: homes_def)
  have d': "d' = (\<lambda>k. if k \<in> set ks' then v k else ((apply_writes (log_writes v start 0 ks) d)(start := put_head (v start) ks)) k)"
    by (simp add: d'_def us(1) apply_map fun_eq_iff)
  have "start \<notin> set ks'" using homes_clear [OF h] us(2) by simp
  then have st: "get_head (d' start) = ks"
    using get_head_put_head [OF len, of ks] h by (simp add: d' homes_def)
  then show "homes start 0 (get_head (d' start))" using h by simp
  have lb: "d' (start + of_nat (0 + i) + 1) = v (ks ! i)" if "i < length ks" for i
  proof -
    have "in_log start (start + of_nat i + 1)" "start + of_nat i + 1 \<noteq> start"
      using that h log_block_in [of i start] by (simp_all add: homes_def)
    moreover from this have "start + of_nat i + 1 \<notin> set ks'" using out us(2) by auto
    ultimately show ?thesis using log_writes_apply [OF h that, of v d] by (simp add: d')
  qed
  have iw: "install_writes d' start 0 ks = map (\<lambda>k. (k, v k)) ks" using lb by (intro install_writes_map [OF h]) simp
  assume k: "\<not> in_log start k"
  then have "k \<noteq> start" using lstart_in_log by blast
  moreover have "apply_writes (log_writes v start 0 ks) d k = d k"
    using log_writes_keep [OF h] k by (intro apply_writes_other) blast
  ultimately have "k \<notin> set ks \<Longrightarrow> d' k = v k" using us(2) clean by (simp add: d')
  then show "recovered start d' k = v k" unfolding recovered_def st iw apply_map by simp
qed

lemma crash_after_commit:
  assumes ready: "ready_to_commit start ks v d"
  defines "d' \<equiv> apply_writes (commit_writes v start ks) d"
  shows "homes start 0 (get_head (d' start))"
    and "\<not> in_log start k \<Longrightarrow> recovered start d' k = v k"
proof -
  have h: "homes start 0 ks" and empty: "get_head (d start) = []" and len: "length (v start) = BSIZE"
    and clean: "\<And>k. k \<notin> set ks \<Longrightarrow> v k = d k" using ready by (auto simp: ready_to_commit_def)
  have "d' start = put_head (put_head (v start) ks) []" by (simp add: d'_def commit_writes_def)
  then have st: "get_head (d' start) = []" using get_head_put_head [of "put_head (v start) ks" "[]"] len by simp
  then show "homes start 0 (get_head (d' start))" using h by (simp add: homes_def)
  assume k: "\<not> in_log start k"
  then have "k \<noteq> start" using lstart_in_log by blast
  moreover have "apply_writes (log_writes v start 0 ks) d k = d k"
    using log_writes_keep [OF h] k by (intro apply_writes_other) blast
  ultimately have "d' k = v k" using clean by (simp add: d'_def commit_writes_def apply_map)
  then show "recovered start d' k = v k" using st by (simp add: recovered_def)
qed

lemma crash_anywhere:
  assumes ready: "ready_to_commit start ks v d" and "prefix ws (commit_writes v start ks)"
  shows "homes start 0 (get_head (apply_writes ws d start)) \<and>
    ((\<forall>k. \<not> in_log start k \<longrightarrow> recovered start (apply_writes ws d) k = d k) \<or>
     (\<forall>k. \<not> in_log start k \<longrightarrow> recovered start (apply_writes ws d) k = v k))"
proof -
  let ?L = "log_writes v start 0 ks" and ?H = "(start, put_head (v start) ks)" and ?I = "map (\<lambda>k. (k, v k)) ks"
  consider "prefix ws ?L" | us where "ws = ?L @ ?H # us" "prefix us ?I" | "ws = commit_writes v start ks"
    using assms(2) by (auto simp: commit_writes_def prefix_append prefix_Cons)
  then show ?thesis
  proof cases
    case 1
    then show ?thesis using crash_before_head [OF ready] by blast
  next
    case 2
    then show ?thesis using crash_after_head [OF ready 2(2)] by blast
  next
    case 3
    then show ?thesis using crash_after_commit [OF ready] by blast
  qed
qed

section \<open>Updates inside a transaction\<close>

text \<open>
  The pattern in which \<^verbatim>\<open>fs.c\<close> changes a block, \<^verbatim>\<open>bp = bread(dev, b); modify bp->data; log_write(bp);
  brelse(bp)\<close>, and the pattern in which it reads one.
\<close>

definition log_update :: "int \<Rightarrow> log \<Rightarrow> u32 \<Rightarrow> (block \<Rightarrow> block) \<Rightarrow> log res" where
  "log_update pid s k f =
     andthen (bread (bc s) pid ROOTDEV k) (\<lambda>(i, c).
     andthen (log_write (s\<lparr>bc := bmodify c i f\<rparr>) i) (\<lambda>s.
     andthen (brelse (bc s) pid i) (\<lambda>c. ret (s\<lparr>bc := c\<rparr>))))"

definition log_read :: "int \<Rightarrow> log \<Rightarrow> u32 \<Rightarrow> (block \<times> log) res" where
  "log_read pid s k =
     andthen (bread (bc s) pid ROOTDEV k) (\<lambda>(i, c).
       let d = bdata (bufn c i) in andthen (brelse c pid i) (\<lambda>c. ret (d, s\<lparr>bc := c\<rparr>)))"

text \<open>The state inside a transaction: everything \<open>log_wf\<close> asks, at least one call in progress, and room.\<close>

definition in_trans :: "log \<Rightarrow> bool" where
  "in_trans s \<longleftrightarrow> idle (bc s) \<and> homes (lstart s) 0 (lh s) \<and> dirty_blocks (bc s) = set (lh s) \<and>
     1 \<le> outstanding s \<and> lsize s = int LOGSIZE \<and> length (lh s) \<le> LOGSIZE - 1"

definition home_block :: "log \<Rightarrow> u32 \<Rightarrow> bool" where
  "home_block s k \<longleftrightarrow> k < FSSIZE \<and> \<not> in_log (lstart s) k"

lemma in_trans_free: "in_trans s \<Longrightarrow> \<exists>x. free_buf (bc s) x"
  by (rule some_buffer_free [of _ "lh s"]) (auto simp: in_trans_def NBUF_def LOGSIZE_def)

lemma log_update_runs:
  assumes t: "in_trans s" and k: "home_block s k" and room: "length (lh s) < LOGSIZE - 1"
  shows "\<exists>s'. log_update pid s k f = Inr s' \<and> in_trans s' \<and> lstart s' = lstart s \<and>
    view (bc s') = (view (bc s))(k := f (view (bc s) k)) \<and> drvs (bc s') = drvs (bc s) \<and>
    lh s' = (if k \<in> set (lh s) then lh s else lh s @ [k])"
proof -
  have idle: "idle (bc s)" and kf: "k < FSSIZE" using t k by (auto simp: in_trans_def home_block_def)
  obtain i c1 where r: "bread (bc s) pid 1 k = Inr (i, c1)" and g: "got (bc s) pid k i c1"
    using bread_idle [OF idle kf in_trans_free [OF t]] by blast
  have g': "bio_ok c1 []" "view c1 = view (bc s)" "drvs c1 = drvs (bc s)" "i < NBUF" "caches (bufn c1 i) k" "bvalid (bufn c1 i)"
      "holdingsleep pid (block (bufn c1 i))" "bdata (bufn c1 i) = view (bc s) k" "dirty_blocks c1 = dirty_blocks (bc s)"
    using g unfolding got_def by blast+
  let ?c2 = "bmodify c1 i f" and ?c3 = "upd_buf i (\<lambda>b. b\<lparr>bdirty := True\<rparr>) (bmodify c1 i f)"
  have n2: "bufn ?c2 j = (if j = i then (bufn c1 i)\<lparr>bdata := f (view (bc s) k)\<rparr> else bufn c1 j)" for j
    using g'(4,8) bio_okD(1) [OF g'(1)] by (simp add: bmodify_def)
  have m: "bio_ok ?c2 []" "view ?c2 = (view (bc s))(k := f (view (bc s) k))"
    using bmodify_ok [OF g'(1,4) _ _ g'(6), of f] g' by (simp_all add: holdingsleep_def)
  have n3: "bufn ?c3 j = (if j = i then (bufn c1 i)\<lparr>bdata := f (view (bc s) k), bdirty := True\<rparr> else bufn c1 j)" for j
    using n2 g'(4) bio_okD(1) [OF m(1)] by simp
  have d3: "bio_ok ?c3 []" "view ?c3 = view ?c2" using mark_dirty_ok [OF m(1) g'(4)] n2 g' by simp_all
  have h3: "held ?c3 pid k i" using g' n3 by (simp add: held_def)
  obtain c4 where q: "brelse ?c3 pid i = Inr c4" "bio_ok c4 []" "view c4 = view ?c3" "drvs c4 = drvs ?c3"
      "\<not> slocked (block (bufn c4 i))" "caches (bufn c4 i) k" "bdirty (bufn c4 i) = bdirty (bufn ?c3 i)"
      and n4: "\<And>j. j < NBUF \<Longrightarrow> j \<noteq> i \<Longrightarrow> bufn c4 j = bufn ?c3 j"
    using brelse_runs [OF d3(1) h3] by blast
  have o4: "bufn c4 j = bufn c1 j" if "j < NBUF" "j \<noteq> i" for j using n4 [OF that] n3 that by simp
  have unl: "\<not> slocked (block (bufn c4 j))" if "j < NBUF" for j
  proof (cases "j = i")
    case False
    then have "bufn c4 j = bufn (bc s) j" using o4 that g unfolding got_def by simp
    then show ?thesis using idle that by (simp add: idle_def)
  qed (use q(5) in simp)
  have dirty: "dirty_blocks c4 = insert k (set (lh s))"
  proof -
    have iff: "caches (bufn c4 j) k' \<and> bdirty (bufn c4 j) \<longleftrightarrow> (if j = i then k' = k else caches (bufn c1 j) k' \<and> bdirty (bufn c1 j))"
      if "j < NBUF" for j k' using o4 [OF that] q(6,7) n3 [of i] by (cases "j = i") auto
    have "k' \<in> dirty_blocks c4 \<longleftrightarrow> k' = k \<or> k' \<in> dirty_blocks c1" for k'
      unfolding dirty_blocks_def mem_Collect_eq using iff g'(4,5) by metis
    then have "dirty_blocks c4 = insert k (dirty_blocks c1)" by auto
    then show ?thesis using g'(9) t by (simp add: in_trans_def)
  qed
  let ?lh = "if k \<in> set (lh s) then lh s else lh s @ [k]"
  let ?s = "s\<lparr>bc := c4, lh := ?lh\<rparr>"
  have blk: "bblockno (bufn ?c2 i) = k" using n2 g'(5) by simp
  have "log_write (s\<lparr>bc := ?c2\<rparr>) i = Inr (s\<lparr>bc := ?c3, lh := ?lh\<rparr>)"
    using room t by (simp add: log_write_def blk Let_def in_trans_def LOGSIZE_def)
  then have "log_update pid s k f = Inr ?s" using r q(1) by (simp add: log_update_def ROOTDEV_def)
  moreover have "in_trans ?s"
    using t room k q(2) unl dirty by (auto simp: in_trans_def homes_def home_block_def idle_def)
  ultimately show ?thesis using m(2) d3(2) q(3,4) g'(3) by (simp add: bmodify_def)
qed

lemma log_read_runs:
  assumes t: "in_trans s" and k: "k < FSSIZE"
  shows "\<exists>s'. log_read pid s k = Inr (view (bc s) k, s') \<and> in_trans s' \<and> lstart s' = lstart s \<and>
    view (bc s') = view (bc s) \<and> drvs (bc s') 1 = drvs (bc s) 1 \<and> lh s' = lh s"
proof -
  obtain i c1 c2 where "bread (bc s) pid 1 k = Inr (i, c1)" "bdata (bufn c1 i) = view (bc s) k" "brelse c1 pid i = Inr c2"
      "wrote (bc s) [] c2"
    using reread_runs [OF _ k in_trans_free [OF t], of pid] t by (auto simp: in_trans_def)
  moreover from this have "in_trans (s\<lparr>bc := c2\<rparr>)" using t by (simp add: in_trans_def wrote_def)
  ultimately show ?thesis by (simp add: log_read_def ROOTDEV_def wrote_def)
qed

section \<open>The block store the file system sees\<close>

text \<open>
  What the layers above rely on: a state with a logical content for every block, updates and reads of
  single blocks that succeed as long as the blocks changed since the transaction began are few enough,
  and nothing else. Any sequence of updates then acts on the logical content as if there were no
  cache, no log and no disk underneath.
\<close>

fun update_run :: "('s \<Rightarrow> u32 \<Rightarrow> (block \<Rightarrow> block) \<Rightarrow> 's res) \<Rightarrow> 's \<Rightarrow> (u32 \<times> (block \<Rightarrow> block)) list \<Rightarrow> 's res" where
  "update_run upd s [] = ret s"
| "update_run upd s ((k, f) # us) = andthen (upd s k f) (\<lambda>s. update_run upd s us)"

definition logical_run :: "(u32 \<times> (block \<Rightarrow> block)) list \<Rightarrow> (u32 \<Rightarrow> block) \<Rightarrow> u32 \<Rightarrow> block" where
  "logical_run us d = fold (\<lambda>(k, f) d. d(k := f (d k))) us d"

locale block_store =
  fixes upd :: "'s \<Rightarrow> u32 \<Rightarrow> (block \<Rightarrow> block) \<Rightarrow> 's res"
    and rd :: "'s \<Rightarrow> u32 \<Rightarrow> (block \<times> 's) res"
    and content :: "'s \<Rightarrow> u32 \<Rightarrow> block"
    and changed :: "'s \<Rightarrow> u32 set"
    and open_trans :: "'s \<Rightarrow> bool"
    and home :: "'s \<Rightarrow> u32 \<Rightarrow> bool"
    and cap :: nat
  assumes upd_ok: "open_trans s \<Longrightarrow> home s k \<Longrightarrow> card (changed s) < cap \<Longrightarrow>
      \<exists>s'. upd s k f = Inr s' \<and> open_trans s' \<and> home s' = home s \<and> content s' = (content s)(k := f (content s k)) \<and>
        changed s' = insert k (changed s)"
    and rd_ok: "open_trans s \<Longrightarrow> home s k \<Longrightarrow>
      \<exists>s'. rd s k = Inr (content s k, s') \<and> open_trans s' \<and> home s' = home s \<and> content s' = content s \<and> changed s' = changed s"
    and changed_finite: "finite (changed s)"
begin

lemma update_run_content:
  assumes "open_trans s" and "\<forall>k \<in> fst ` set us. home s k" and "card (changed s) + length us \<le> cap"
  shows "\<exists>s'. update_run upd s us = Inr s' \<and> open_trans s' \<and> content s' = logical_run us (content s) \<and>
    changed s' = changed s \<union> fst ` set us"
  using assms
proof (induction us arbitrary: s)
  case Nil
  then show ?case by (simp add: logical_run_def)
next
  case (Cons u us)
  obtain k f where u: "u = (k, f)" by fastforce
  obtain s1 where s1: "upd s k f = Inr s1" "open_trans s1" "home s1 = home s" "content s1 = (content s)(k := f (content s k))"
      "changed s1 = insert k (changed s)"
    using upd_ok [of s k f] Cons.prems u by auto
  have "card (changed s1) \<le> Suc (card (changed s))" using s1(5) changed_finite by (simp add: card_insert_if)
  then have "\<forall>k \<in> fst ` set us. home s1 k" "card (changed s1) + length us \<le> cap" using Cons.prems(2,3) s1(3) by auto
  from Cons.IH [OF s1(2) this] obtain s' where "update_run upd s1 us = Inr s'" "open_trans s'"
      "content s' = logical_run us (content s1)" "changed s' = changed s1 \<union> fst ` set us" by blast
  then show ?case using s1 u by (auto simp: logical_run_def)
qed

lemma read_after_updates:
  assumes "open_trans s" and "\<forall>k \<in> fst ` set us. home s k" and "card (changed s) + length us \<le> cap"
    and "update_run upd s us = Inr s'" and "home s' k"
  shows "\<exists>s''. rd s' k = Inr (logical_run us (content s) k, s'')"
  using update_run_content [OF assms(1-3)] assms(4,5) rd_ok [of s' k] by auto

end

interpretation log: block_store "log_update pid" "log_read pid" "\<lambda>s. view (bc s)" "\<lambda>s. set (lh s)" in_trans home_block "LOGSIZE - 1"
  for pid
proof unfold_locales
  fix s k f
  assume "in_trans s" "home_block s k" "card (set (lh s)) < LOGSIZE - 1"
  moreover from this have "length (lh s) < LOGSIZE - 1" by (auto simp: in_trans_def homes_def distinct_card)
  ultimately obtain s' where s': "log_update pid s k f = Inr s'" "in_trans s'" "lstart s' = lstart s"
      "view (bc s') = (view (bc s))(k := f (view (bc s) k))" "lh s' = (if k \<in> set (lh s) then lh s else lh s @ [k])"
    using log_update_runs [of s k pid f] by blast
  then show "\<exists>s'. log_update pid s k f = Inr s' \<and> in_trans s' \<and> home_block s' = home_block s \<and>
      view (bc s') = (view (bc s))(k := f (view (bc s) k)) \<and> set (lh s') = insert k (set (lh s))"
    by (intro exI [of _ s']) (auto simp: home_block_def fun_eq_iff)
next
  fix s k
  assume "in_trans s" "home_block s k"
  then obtain s' where "log_read pid s k = Inr (view (bc s) k, s')" "in_trans s'" "lstart s' = lstart s"
      "view (bc s') = view (bc s)" "lh s' = lh s"
    using log_read_runs [of s k pid] by (auto simp: home_block_def)
  then show "\<exists>s'. log_read pid s k = Inr (view (bc s) k, s') \<and> in_trans s' \<and> home_block s' = home_block s \<and>
      view (bc s') = view (bc s) \<and> set (lh s') = set (lh s)"
    by (intro exI [of _ s']) (auto simp: home_block_def fun_eq_iff)
qed simp

section \<open>Log space\<close>

text \<open>
  Calls enter with \<^verbatim>\<open>begin_op\<close>, log blocks and leave with \<^verbatim>\<open>end_op\<close> in any order; \<open>ops\<close> holds the set
  of blocks each call in progress has logged so far. The cache changes in between as it likes.
\<close>

inductive log_run :: "log \<Rightarrow> u32 set list \<Rightarrow> bool" where
  fresh: "lh s = [] \<Longrightarrow> outstanding s = 0 \<Longrightarrow> \<not> committing s \<Longrightarrow> log_run s []"
| cache: "log_run s ops \<Longrightarrow> log_run (s\<lparr>bc := c\<rparr>) ops"
| enter: "log_run s ops \<Longrightarrow> begin_op s = Inr s' \<Longrightarrow> log_run s' (ops @ [{}])"
| record_block: "log_run s ops \<Longrightarrow> j < length ops \<Longrightarrow> card (ops ! j) < MAXOPBLOCKS \<Longrightarrow> log_write s i = Inr s' \<Longrightarrow>
    log_run s' (ops[j := insert (bblockno (bufn (bc s) i)) (ops ! j)])"
| leave: "log_run s (xs @ b # ys) \<Longrightarrow> xs @ ys \<noteq> [] \<Longrightarrow> end_op s pid = Inr s' \<Longrightarrow> log_run s' (xs @ ys)"
| leave_last: "log_run s [b] \<Longrightarrow> end_op s pid = Inr s' \<Longrightarrow> log_run s' []"

definition slack :: "u32 set list \<Rightarrow> nat" where
  "slack ops = sum_list (map (\<lambda>b. MAXOPBLOCKS - card b) ops)"

definition space_ok :: "log \<Rightarrow> u32 set list \<Rightarrow> bool" where
  "space_ok s ops \<longleftrightarrow> outstanding s = int (length ops) \<and> \<not> committing s \<and>
     (\<forall>b \<in> set ops. b \<subseteq> set (lh s) \<and> card b \<le> MAXOPBLOCKS) \<and> length (lh s) + slack ops \<le> LOGSIZE"

lemma slack_bound: "slack ops \<le> MAXOPBLOCKS * length ops"
  by (induction ops) (auto simp: slack_def)

lemma slack_nth: "j < length ops \<Longrightarrow> MAXOPBLOCKS - card (ops ! j) \<le> slack ops"
  using elem_le_sum_list [of j "map (\<lambda>b. MAXOPBLOCKS - card b) ops"] by (simp add: slack_def)

lemma slack_update:
  assumes "j < length ops"
  shows "slack (ops[j := b]) + (MAXOPBLOCKS - card (ops ! j)) = slack ops + (MAXOPBLOCKS - card b)"
  using assms
proof (induction ops arbitrary: j)
  case (Cons a ops)
  then show ?case by (cases j) (auto simp: slack_def)
qed simp

lemma commit_clears:
  assumes "commit s pid = Inr s'"
  shows "lh s' = [] \<and> outstanding s' = outstanding s \<and> committing s' = committing s \<and> lsize s' = lsize s"
  using assms
  by (auto simp: commit_def write_log_def write_head_def install_trans_def res_simps split: if_splits)

lemma log_write_cases:
  assumes "log_write s i = Inr s'"
  defines "k \<equiv> bblockno (bufn (bc s) i)"
  shows "lh s' = (if k \<in> set (lh s) then lh s else lh s @ [k]) \<and> outstanding s' = outstanding s \<and>
    committing s' = committing s \<and> lsize s' = lsize s"
  using assms by (auto simp: log_write_def Let_def split: if_splits)

lemma space_record:
  assumes ok: "space_ok s ops" and j: "j < length ops" "card (ops ! j) < MAXOPBLOCKS" and w: "log_write s i = Inr s'"
  shows "space_ok s' (ops[j := insert (bblockno (bufn (bc s) i)) (ops ! j)])"
proof -
  let ?k = "bblockno (bufn (bc s) i)" and ?b = "insert (bblockno (bufn (bc s) i)) (ops ! j)"
  note c = log_write_cases [OF w]
  have sub: "ops ! j \<subseteq> set (lh s)" using ok j(1) by (auto simp: space_ok_def)
  then have fin: "finite (ops ! j)" by (rule finite_subset) simp
  have card: "card ?b = (if ?k \<in> ops ! j then card (ops ! j) else Suc (card (ops ! j)))"
    using fin by (simp add: card_insert_if)
  have "length (lh s') + slack (ops[j := ?b]) \<le> length (lh s) + slack ops"
    using slack_update [OF j(1), of ?b] c sub card j(2) by (auto split: if_splits)
  moreover have "b \<subseteq> set (lh s') \<and> card b \<le> MAXOPBLOCKS" if "b \<in> set (ops[j := ?b])" for b
  proof -
    have "b = ?b \<or> b \<in> set ops" using that set_update_subset_insert by fastforce
    then show ?thesis using ok c card j sub by (auto simp: space_ok_def split: if_splits)
  qed
  ultimately show ?thesis using ok c by (simp add: space_ok_def)
qed

lemma end_op_cases:
  assumes "end_op s pid = Inr s'" and "\<not> committing s"
  shows "\<not> committing s' \<and> outstanding s' = outstanding s - 1 \<and> lsize s' = lsize s \<and>
    lh s' = (if outstanding s = 1 then [] else lh s)"
  using assms commit_clears [of "s\<lparr>outstanding := outstanding s - 1, committing := True\<rparr>" pid]
  by (auto simp: end_op_def Let_def res_simps split: if_splits)

lemma log_run_space: "log_run s ops \<Longrightarrow> space_ok s ops"
proof (induction rule: log_run.induct)
  case (fresh s)
  then show ?case by (simp add: space_ok_def slack_def)
next
  case (cache s ops c)
  then show ?case by (simp add: space_ok_def)
next
  case (enter s ops s')
  then have "s' = s\<lparr>outstanding := outstanding s + 1\<rparr>"
      "int (length (lh s)) + (outstanding s + 1) * int MAXOPBLOCKS \<le> int LOGSIZE"
    by (auto simp: begin_op_def split: if_splits)
  moreover have "slack (ops @ [{}]) \<le> MAXOPBLOCKS * (length ops + 1)" using slack_bound [of "ops @ [{}]"] by simp
  ultimately show ?case using enter.IH
    by (auto simp: space_ok_def MAXOPBLOCKS_def LOGSIZE_def)
next
  case (record_block s ops j i s')
  then show ?case by (intro space_record) auto
next
  case (leave s xs b ys pid s')
  have "0 < length (xs @ ys)" using leave.hyps(2) by (simp only: length_greater_0_conv) simp
  then have "1 < length (xs @ b # ys)" by simp
  moreover have "outstanding s = int (length (xs @ b # ys))" using leave.IH by (simp only: space_ok_def)
  ultimately have "outstanding s \<noteq> 1" by linarith
  with leave end_op_cases [of s pid s'] show ?case
    by (auto simp: space_ok_def slack_def)
next
  case (leave_last s b pid s')
  with end_op_cases [of s pid s'] show ?case by (auto simp: space_ok_def slack_def)
qed

text \<open>Three calls that log the blocks \<open>0, 1, ...\<close> in turn, ten each, used to show where the space ends.\<close>

definition turn :: "nat \<Rightarrow> nat \<Rightarrow> u32 set" where
  "turn j m = of_nat ` {x. x < m \<and> x div 10 = j}"

definition poke :: "nat \<Rightarrow> bcache" where
  "poke m = (binit (\<lambda>_ _. []) True)\<lparr>bbufs := [zero_buf\<lparr>bblockno := of_nat m\<rparr>]\<rparr>"

lemma turn_Suc: "turn (m div 10) (Suc m) = insert (of_nat m) (turn (m div 10) m)" "j \<noteq> m div 10 \<Longrightarrow> turn j (Suc m) = turn j m"
  by (auto simp: turn_def less_Suc_eq)

lemma turn_card: "card (turn (m div 10) m) < 10"
proof -
  have "{x. x < m \<and> x div 10 = m div 10} \<subseteq> {m div 10 * 10..<m}" by auto
  then have "card {x. x < m \<and> x div 10 = m div 10} \<le> m - m div 10 * 10"
    using card_mono [of "{m div 10 * 10..<m}"] by fastforce
  moreover have "m - m div 10 * 10 < 10" by (simp add: minus_div_mult_eq_mod)
  moreover have "card (turn (m div 10) m) \<le> card {x. x < m \<and> x div 10 = m div 10}"
    unfolding turn_def by (rule card_image_le) (simp add: finite_subset [of _ "{..<m}"] subset_eq)
  ultimately show ?thesis by linarith
qed

lemma three_calls:
  assumes "m \<le> 29"
  shows "\<exists>s. log_run s [turn 0 m, turn 1 m, turn 2 m] \<and> lh s = map of_nat [0..<m] \<and> lsize s = int LOGSIZE \<and> outstanding s = 3"
  using assms
proof (induction m)
  case 0
  let ?s0 = "mount 2 (int LOGSIZE) (\<lambda>_. [])"
  define at where "at = (\<lambda>n. ?s0\<lparr>outstanding := n\<rparr>)"
  have "log_run ?s0 []" by (rule log_run.fresh) (simp_all add: mount_def)
  moreover have "begin_op ?s0 = Inr (at 1)" "begin_op (at 1) = Inr (at 2)" "begin_op (at 2) = Inr (at 3)"
    by (simp_all add: at_def begin_op_def mount_def MAXOPBLOCKS_def LOGSIZE_def)
  ultimately have "log_run (at 3) ((([] @ [{}]) @ [{}]) @ [{}])" by (blast intro: log_run.enter)
  then show ?case by (intro exI [of _ "at 3"]) (simp add: at_def turn_def mount_def)
next
  case (Suc m)
  then obtain s where s: "log_run s [turn 0 m, turn 1 m, turn 2 m]" "lh s = map of_nat [0..<m]" "lsize s = int LOGSIZE" "outstanding s = 3"
    by auto
  let ?t = "s\<lparr>bc := poke m\<rparr>" and ?ops = "[turn 0 m, turn 1 m, turn 2 m]"
  have k: "bblockno (bufn (bc ?t) 0) = of_nat m" by (simp add: poke_def)
  define q where "q = m div 10"
  have q: "q = 0 \<or> q = 1 \<or> q = 2" using Suc.prems unfolding q_def by linarith
  then have j: "q < length ?ops" "?ops ! q = turn q m" by auto
  have nxt: "insert (of_nat m) (turn q m) = turn q (Suc m)" "\<And>j. j \<noteq> q \<Longrightarrow> turn j m = turn j (Suc m)" "card (turn q m) < 10"
    using turn_Suc(1) [of m] turn_Suc(2) [of _ m] turn_card [of m] by (simp_all add: q_def)
  have new: "of_nat m \<notin> set (lh s)"
  proof
    assume "of_nat m \<in> set (lh s)"
    then obtain x where x: "x < m" "(of_nat m :: u32) = of_nat x" using s(2) by auto
    then have "unat (of_nat m :: u32) = unat (of_nat x :: u32)" by simp
    then show False using x(1) Suc.prems by (subst (asm) (1 2) unat_of_nat_u32) auto
  qed
  define u where "u = ?t\<lparr>lh := lh s @ [of_nat m], bc := upd_buf 0 (\<lambda>b. b\<lparr>bdirty := True\<rparr>) (poke m)\<rparr>"
  have w: "log_write ?t 0 = Inr u"
    using s(2-4) Suc.prems new k by (simp add: log_write_def LOGSIZE_def u_def Let_def)
  have "log_run u (?ops[q := insert (of_nat m) (?ops ! q)])"
    using log_run.record_block [OF log_run.cache [OF s(1), of "poke m"] j(1) _ w] nxt(3)
    unfolding k j(2) by (simp only: MAXOPBLOCKS_def)
  moreover have "?ops[q := insert (of_nat m) (?ops ! q)] = [turn 0 (Suc m), turn 1 (Suc m), turn 2 (Suc m)]"
    unfolding j(2) nxt(1) using q nxt(2) [of 0] nxt(2) [of 1] nxt(2) [of 2] by auto
  ultimately show ?case using s by (intro exI [of _ u]) (simp add: u_def)
qed

section \<open>Properties\<close>

text \<open>
  C1. A crash during a commit is atomic. From an empty on-disk log, stop the machine after any number
  of the block writes \<^verbatim>\<open>commit\<close> makes and run recovery on what the disk then holds: recovery succeeds,
  and outside the log area the disk holds either exactly what it held before the commit or exactly the
  contents the transaction gave its blocks, never a mixture.
\<close>

theorem commit_crash_atomic:
  assumes "log_wf s" and "get_head (drvs (bc s) 1 (lstart s)) = []" and "commit s pid = Inr s'"
    and "dwrites (bc s') = dwrites (bc s) @ all" and "prefix ws all"
  shows "\<exists>r. recover_from_log (mount (lstart s) (lsize s) (apply_writes ws (drvs (bc s) 1))) pid' = Inr r \<and>
    ((\<forall>k. \<not> in_log (lstart s) k \<longrightarrow> drvs (bc r) 1 k = drvs (bc s) 1 k) \<or>
     (\<forall>k. \<not> in_log (lstart s) k \<longrightarrow> drvs (bc r) 1 k = view (bc s) k))"
proof -
  let ?st = "lstart s" and ?v = "view (bc s)" and ?d = "drvs (bc s) 1"
  have wf: "idle (bc s)" "homes ?st 0 (lh s)" "dirty_blocks (bc s) = set (lh s)" "length (?v ?st) = BSIZE"
    using assms(1) by (auto simp: log_wf_def)
  have ready: "ready_to_commit ?st (lh s) ?v ?d"
    using wf assms(2) view_clean [OF wf(1)] by (auto simp: ready_to_commit_def)
  have "prefix ws (commit_writes ?v ?st (lh s))"
  proof (cases "lh s = []")
    case True
    then have "s' = s" using assms(3) by (simp add: commit_def)
    with assms(4,5) show ?thesis by simp
  next
    case False
    then show ?thesis using commit_runs [OF assms(1) False, of pid] assms(3-5) by (auto simp: wrote_def)
  qed
  note c = crash_anywhere [OF ready this]
  obtain r where r: "recover_from_log (mount ?st (lsize s) (apply_writes ws ?d)) pid' = Inr r"
      "\<forall>k. k \<noteq> ?st \<longrightarrow> drvs (bc r) 1 k = recovered ?st (apply_writes ws ?d) k"
    using recover_runs [where start = ?st and d = "apply_writes ws ?d", OF conjunct1 [OF c]]
    unfolding recovered_def by blast
  have "k \<noteq> ?st" if "\<not> in_log ?st k" for k using that lstart_in_log by blast
  with c r show ?thesis by (intro exI [of _ r]) auto
qed

text \<open>
  A commit that is not interrupted succeeds, whatever up to 29 blocks the transaction changed,
  although they occupy all but one of the 30 buffers: it never runs out of buffers, and afterwards the
  log is empty, no buffer is pinned, and the disk holds the logical content of every block outside the
  log area.
\<close>

theorem commit_installs:
  assumes "log_wf s"
  shows "\<exists>s'. commit s pid = Inr s' \<and> lh s' = [] \<and> dirty_blocks (bc s') = {} \<and>
    (\<forall>k. \<not> in_log (lstart s) k \<longrightarrow> drvs (bc s') 1 k = view (bc s) k \<and> view (bc s') k = view (bc s) k)"
proof (cases "lh s = []")
  case True
  then have "commit s pid = Inr s" "dirty_blocks (bc s) = {}" using assms by (auto simp: commit_def log_wf_def)
  then show ?thesis using True view_clean [of "bc s"] assms by (auto simp: log_wf_def)
next
  case False
  let ?st = "lstart s" and ?v = "view (bc s)" and ?d = "drvs (bc s) 1"
  have wf: "idle (bc s)" "homes ?st 0 (lh s)" "dirty_blocks (bc s) = set (lh s)" using assms by (auto simp: log_wf_def)
  obtain c where c: "commit s pid = Inr (s\<lparr>lh := [], bc := c\<rparr>)" "wrote (bc s) (commit_writes ?v ?st (lh s)) c"
    using commit_runs [OF assms False] by blast
  have "apply_writes (commit_writes ?v ?st (lh s)) x k = (if k \<in> set (lh s) then ?v k else x k)"
    if "\<not> in_log ?st k" for x k
  proof -
    have "k \<noteq> ?st" using that lstart_in_log by blast
    then show ?thesis using log_writes_keep [OF wf(2), of k ?v] that
      by (simp add: commit_writes_def apply_map apply_writes_other)
  qed
  then have "\<forall>k. \<not> in_log ?st k \<longrightarrow> drvs c 1 k = ?v k \<and> view c k = ?v k"
    using c(2) view_clean [OF wf(1)] wf(3) by (auto simp: wrote_def)
  moreover have "set (lh s) \<subseteq> fst ` set (commit_writes ?v ?st (lh s))"
    by (auto simp: commit_writes_def image_Un image_image)
  then have "dirty_blocks c = {}" using c(2) wf(3) unfolding wrote_def by blast
  ultimately show ?thesis using c(1) by simp
qed

text \<open>A transaction that changed block 100 of a disk whose log starts at block 2.\<close>

definition disk_demo :: "u32 \<Rightarrow> block" where
  "disk_demo = (\<lambda>_. replicate BSIZE 0)"

definition trans_demo :: log where
  "trans_demo = projr (log_update 1 ((mount 2 (int LOGSIZE) disk_demo)\<lparr>outstanding := 1\<rparr>) 100 (\<lambda>_. replicate BSIZE 9))"

lemma in_trans_demo: "in_trans ((mount 2 (int LOGSIZE) disk_demo)\<lparr>outstanding := 1\<rparr>)"
  using binit_idle [of disk_demo] by (auto simp: in_trans_def mount_def homes_def dirty_blocks_def LOGSIZE_def FSSIZE_def binit_def zero_buf_def)

lemma trans_demo_facts:
  "in_trans trans_demo \<and> lstart trans_demo = 2 \<and> view (bc trans_demo) = disk_demo(100 := replicate BSIZE 9) \<and>
   drvs (bc trans_demo) 1 = disk_demo \<and> lh trans_demo = [100]"
proof -
  let ?m = "(mount 2 (int LOGSIZE) disk_demo)\<lparr>outstanding := 1\<rparr>"
  have "home_block ?m 100" by (simp add: home_block_def FSSIZE_def in_log_def mount_def LOGSIZE_def)
  then obtain s' where s': "log_update 1 ?m 100 (\<lambda>_. replicate BSIZE 9) = Inr s'" "in_trans s'" "lstart s' = lstart ?m"
      "view (bc s') = (view (bc ?m))(100 := replicate BSIZE 9)" "drvs (bc s') = drvs (bc ?m)" "lh s' = [100]"
    using log_update_runs [OF in_trans_demo, of 100 1 "\<lambda>_. replicate BSIZE 9"] by (auto simp: mount_def LOGSIZE_def)
  then have "trans_demo = s'" by (simp add: trans_demo_def)
  then show ?thesis using s' binit_idle(3,4) [of disk_demo] by (simp add: mount_def)
qed

lemma trans_demo_wf: "log_wf trans_demo"
  using trans_demo_facts by (auto simp: log_wf_def in_trans_def NBUF_def disk_demo_def)

lemma demo_head: "get_head (replicate BSIZE 0) = []"
  by (simp add: get_head_def get32_def BSIZE_def get_words_def)

theorem commit_crash_atomic_witness:
  "\<exists>r. recover_from_log (mount 2 (lsize trans_demo) (apply_writes [] (drvs (bc trans_demo) 1))) 1 = Inr r \<and>
    (drvs (bc r) 1 100 = replicate BSIZE 0 \<or> drvs (bc r) 1 100 = replicate BSIZE 9)"
proof -
  obtain c where c: "commit trans_demo 1 = Inr (trans_demo\<lparr>lh := [], bc := c\<rparr>)"
      "wrote (bc trans_demo) (commit_writes (view (bc trans_demo)) (lstart trans_demo) (lh trans_demo)) c"
    using commit_runs [OF trans_demo_wf] trans_demo_facts by auto
  have out: "\<not> in_log 2 100" by (simp add: in_log_def LOGSIZE_def)
  have "get_head (drvs (bc trans_demo) 1 (lstart trans_demo)) = []"
    using trans_demo_facts demo_head by (simp add: disk_demo_def)
  from commit_crash_atomic [OF trans_demo_wf this c(1), where ws = "[]" and pid' = 1] c(2) trans_demo_facts out
  show ?thesis by (auto simp: wrote_def disk_demo_def)
qed

theorem commit_installs_witness:
  "\<exists>s'. commit trans_demo 1 = Inr s' \<and> lh s' = [] \<and> drvs (bc s') 1 100 = replicate BSIZE 9"
proof -
  have out: "\<not> in_log 2 100" by (simp add: in_log_def LOGSIZE_def)
  from commit_installs [OF trans_demo_wf, of 1] trans_demo_facts out show ?thesis by auto
qed

text \<open>
  C23. The file system sees the blocks as if there were no cache, no log and no disk underneath. Inside
  a transaction any sequence of block updates in the style of \<^verbatim>\<open>fs.c\<close> (read, modify, \<^verbatim>\<open>log_write\<close>,
  release) that with what the transaction has logged already stays within the log succeeds, and
  changes the logical contents exactly as the same updates applied one after the other to plain
  storage.
\<close>

theorem logged_updates:
  assumes "in_trans s" and "\<forall>k \<in> fst ` set us. home_block s k" and "card (set (lh s)) + length us \<le> LOGSIZE - 1"
  shows "\<exists>s'. update_run (log_update pid) s us = Inr s' \<and> in_trans s' \<and> view (bc s') = logical_run us (view (bc s)) \<and>
    set (lh s') = set (lh s) \<union> fst ` set us"
  using assms by (rule log.update_run_content)

theorem logged_updates_witness:
  "\<exists>s'. update_run (log_update 1) trans_demo [(200, \<lambda>_. [1]), (200, \<lambda>b. b @ [2])] = Inr s' \<and> view (bc s') 200 = [1, 2]"
proof -
  have h: "\<forall>k \<in> fst ` set [(200 :: u32, \<lambda>_. [1]), (200, \<lambda>b. b @ [2 :: byte])]. home_block trans_demo k"
    using trans_demo_facts by (auto simp: home_block_def FSSIZE_def in_log_def LOGSIZE_def)
  have n: "card (set (lh trans_demo)) + length [(200 :: u32, \<lambda>_ :: block. [1 :: byte]), (200, \<lambda>b. b @ [2])] \<le> LOGSIZE - 1"
    using trans_demo_facts by (simp add: LOGSIZE_def)
  from logged_updates [OF conjunct1 [OF trans_demo_facts] h n, of 1] show ?thesis by (auto simp: logical_run_def)
qed



text \<open>
  C35. With the log \<^verbatim>\<open>mkfs\<close> makes, whose 30 blocks include the header, the same rule admits too much:
  three calls that each keep to their ten blocks reach the panic \<^verbatim>\<open>too big a transaction\<close>.
\<close>

theorem log_space_off_by_one:
  "\<exists>s ops. log_run s ops \<and> lsize s = int LOGSIZE \<and> length ops = 3 \<and>
     (\<exists>j < 3. card (ops ! j) < MAXOPBLOCKS) \<and> log_write s 0 = Inl (Panic ''too big a transaction'')"
proof -
  obtain s where s: "log_run s [turn 0 29, turn 1 29, turn 2 29]" "lh s = map of_nat [0..<29]" "lsize s = int LOGSIZE"
    using three_calls [of 29] by auto
  have "card (turn 2 29) < 10" using turn_card [of 29] by simp
  then show ?thesis using s by (intro exI [of _ s] exI [of _ "[turn 0 29, turn 1 29, turn 2 29]"])
    (auto simp: log_write_def LOGSIZE_def MAXOPBLOCKS_def intro!: exI [of _ 2])
qed

end
