(* ===== verification/Vm.thy ===== *)
theory Vm
  imports Kalloc
begin

text \<open>
  Page tables and user address spaces, \<^verbatim>\<open>vm.c\<close> of part 1, with its shared memory pages. Page tables
  live in the modelled memory, so walking, mapping and freeing read and write the very bytes the
  hardware walks. Loops that follow addresses are partial functions into \<open>option\<close>, where \<open>None\<close> would
  be a loop that does not end. The linker symbols \<^verbatim>\<open>end\<close> and \<^verbatim>\<open>data\<close> are the parameters \<open>kend\<close> and
  \<open>kdata\<close>; console messages are left out.
\<close>

section \<open>Entries\<close>

definition PTE_P :: u32 where [layout_consts]: "PTE_P = 1"
definition PTE_W :: u32 where [layout_consts]: "PTE_W = 2"
definition PTE_U :: u32 where [layout_consts]: "PTE_U = 4"

definition PDX :: "u32 \<Rightarrow> u32" where "PDX va = drop_bit 22 va AND 0x3FF"
definition PTX :: "u32 \<Rightarrow> u32" where "PTX va = drop_bit 12 va AND 0x3FF"
definition PTE_ADDR :: "u32 \<Rightarrow> u32" where "PTE_ADDR pte = pte AND NOT 0xFFF"
definition PTE_FLAGS :: "u32 \<Rightarrow> u32" where "PTE_FLAGS pte = pte AND 0xFFF"

definition PGADDR :: "u32 \<Rightarrow> u32 \<Rightarrow> u32 \<Rightarrow> u32" where
  "PGADDR d t off = push_bit 22 d OR push_bit 12 t OR off"

definition EXTMEM :: u32 where [layout_consts]: "EXTMEM = 0x100000"
definition DEVSPACE :: u32 where [layout_consts]: "DEVSPACE = 0xFE000000"
definition KERNLINK :: u32 where [layout_consts]: "KERNLINK = KERNBASE + EXTMEM"
definition NSHAREPAGE :: nat where [layout_consts]: "NSHAREPAGE = 4"

abbreviation present :: "u32 \<Rightarrow> bool" where
  "present e \<equiv> e AND PTE_P \<noteq> 0"

section \<open>Operations on page tables\<close>

definition walkpgdir :: "kmem \<Rightarrow> u32 \<Rightarrow> u32 \<Rightarrow> bool \<Rightarrow> u32 \<times> kmem" where
  "walkpgdir s pgdir va alloc =
     (let pde = pgdir + 4 * PDX va; e = load32 (ram s) pde
      in if present e then (P2V (PTE_ADDR e) + 4 * PTX va, s)
         else if \<not> alloc then (0, s)
         else let (pgtab, s) = kalloc s
              in if pgtab = 0 then (0, s)
                 else let m = memset (ram s) pgtab 0 PGSIZE;
                          m = store32 m pde (V2P pgtab OR PTE_P OR PTE_W OR PTE_U)
                      in (pgtab + 4 * PTX va, s\<lparr>ram := m\<rparr>))"

partial_function (option) mappages_loop :: "kmem \<Rightarrow> u32 \<Rightarrow> u32 \<Rightarrow> u32 \<Rightarrow> u32 \<Rightarrow> u32 \<Rightarrow> (int \<times> kmem) res option" where
  "mappages_loop s pgdir a lastp pa perm =
     (let (pte, s) = walkpgdir s pgdir a True
      in if pte = 0 then oret (-1, s)
         else if present (load32 (ram s) pte) then Some (panic ''remap'')
         else let s = s\<lparr>ram := store32 (ram s) pte (pa OR perm OR PTE_P)\<rparr>
              in if a = lastp then oret (0, s)
                 else mappages_loop s pgdir (a + PGSIZE) lastp (pa + PGSIZE) perm)"

definition mappages :: "kmem \<Rightarrow> u32 \<Rightarrow> u32 \<Rightarrow> u32 \<Rightarrow> u32 \<Rightarrow> u32 \<Rightarrow> (int \<times> kmem) res option" where
  "mappages s pgdir va sz pa perm =
     mappages_loop s pgdir (PGROUNDDOWN va) (PGROUNDDOWN (va + sz - 1)) pa perm"

partial_function (option) deallocuvm_loop :: "u32 \<Rightarrow> kmem \<Rightarrow> u32 \<Rightarrow> u32 \<Rightarrow> u32 \<Rightarrow> kmem res option" where
  "deallocuvm_loop kend s pgdir a oldsz =
     (if a < oldsz then
        let (pte, s) = walkpgdir s pgdir a False
        in if pte = 0 then deallocuvm_loop kend s pgdir (PGADDR (PDX a + 1) 0 0 - PGSIZE + PGSIZE) oldsz
           else if present (load32 (ram s) pte) then
             let pa = PTE_ADDR (load32 (ram s) pte)
             in if pa = 0 then Some (panic ''kfree'')
                else obind (Some (kfree kend s (P2V pa))) (\<lambda>s.
                  deallocuvm_loop kend (s\<lparr>ram := store32 (ram s) pte 0\<rparr>) pgdir (a + PGSIZE) oldsz)
           else deallocuvm_loop kend s pgdir (a + PGSIZE) oldsz
      else oret s)"

definition deallocuvm :: "u32 \<Rightarrow> kmem \<Rightarrow> u32 \<Rightarrow> u32 \<Rightarrow> u32 \<Rightarrow> (u32 \<times> kmem) res option" where
  "deallocuvm kend s pgdir oldsz newsz =
     (if newsz \<ge> oldsz then oret (oldsz, s)
      else obind (deallocuvm_loop kend s pgdir (PGROUNDUP newsz) oldsz) (\<lambda>s. oret (newsz, s)))"

partial_function (option) freevm_tables :: "u32 \<Rightarrow> kmem \<Rightarrow> u32 \<Rightarrow> nat \<Rightarrow> kmem res option" where
  "freevm_tables kend s pgdir i =
     (if i < 1024 then
        let e = load32 (ram s) (pgdir + 4 * of_nat i)
        in if present e
           then obind (Some (kfree kend s (P2V (PTE_ADDR e)))) (\<lambda>s. freevm_tables kend s pgdir (Suc i))
           else freevm_tables kend s pgdir (Suc i)
      else oret s)"

definition freevm :: "u32 \<Rightarrow> kmem \<Rightarrow> u32 \<Rightarrow> kmem res option" where
  "freevm kend s pgdir =
     (if pgdir = 0 then Some (panic ''freevm: no pgdir'')
      else obind (deallocuvm kend s pgdir (KERNBASE - of_nat NSHAREPAGE * PGSIZE) 0) (\<lambda>(_, s).
           obind (freevm_tables kend s pgdir 0) (\<lambda>s. Some (kfree kend s pgdir))))"

definition kmap :: "u32 \<Rightarrow> (u32 \<times> u32 \<times> u32 \<times> u32) list" where
  "kmap kdata = [(KERNBASE, 0, EXTMEM, PTE_W), (KERNLINK, V2P KERNLINK, V2P kdata, 0),
     (kdata, V2P kdata, PHYSTOP, PTE_W), (DEVSPACE, DEVSPACE, 0, PTE_W)]"

fun setupkvm_maps :: "u32 \<Rightarrow> kmem \<Rightarrow> u32 \<Rightarrow> (u32 \<times> u32 \<times> u32 \<times> u32) list \<Rightarrow> (u32 \<times> kmem) res option" where
  "setupkvm_maps kend s pgdir [] = oret (pgdir, s)"
| "setupkvm_maps kend s pgdir ((virt, phys_start, phys_end, perm) # ks) =
     obind (mappages s pgdir virt (phys_end - phys_start) phys_start perm) (\<lambda>(r, s).
       if r < 0 then obind (freevm kend s pgdir) (\<lambda>s. oret (0, s))
       else setupkvm_maps kend s pgdir ks)"

definition setupkvm :: "u32 \<Rightarrow> u32 \<Rightarrow> kmem \<Rightarrow> (u32 \<times> kmem) res option" where
  "setupkvm kend kdata s =
     (let (pgdir, s) = kalloc s
      in if pgdir = 0 then oret (0, s)
         else let s = s\<lparr>ram := memset (ram s) pgdir 0 PGSIZE\<rparr>
              in if P2V PHYSTOP > DEVSPACE then Some (panic ''PHYSTOP too high'')
                 else setupkvm_maps kend s pgdir (kmap kdata))"

partial_function (option) allocuvm_loop :: "u32 \<Rightarrow> kmem \<Rightarrow> u32 \<Rightarrow> u32 \<Rightarrow> u32 \<Rightarrow> u32 \<Rightarrow> (u32 \<times> kmem) res option" where
  "allocuvm_loop kend s pgdir oldsz newsz a =
     (if a < newsz then
        let (mem, s) = kalloc s
        in if mem = 0 then obind (deallocuvm kend s pgdir newsz oldsz) (\<lambda>(_, s). oret (0, s))
           else obind (mappages (s\<lparr>ram := memset (ram s) mem 0 PGSIZE\<rparr>) pgdir a PGSIZE (V2P mem) (PTE_W OR PTE_U)) (\<lambda>(r, s).
             if r < 0 then obind (deallocuvm kend s pgdir newsz oldsz) (\<lambda>(_, s).
                           obind (Some (kfree kend s mem)) (\<lambda>s. oret (0, s)))
             else allocuvm_loop kend s pgdir oldsz newsz (a + PGSIZE))
      else oret (newsz, s))"

definition allocuvm :: "u32 \<Rightarrow> kmem \<Rightarrow> u32 \<Rightarrow> u32 \<Rightarrow> u32 \<Rightarrow> (u32 \<times> kmem) res option" where
  "allocuvm kend s pgdir oldsz newsz =
     (if newsz \<ge> KERNBASE then oret (0, s)
      else if newsz < oldsz then oret (oldsz, s)
      else allocuvm_loop kend s pgdir oldsz newsz (PGROUNDUP oldsz))"

definition inituvm :: "kmem \<Rightarrow> u32 \<Rightarrow> u32 \<Rightarrow> u32 \<Rightarrow> kmem res option" where
  "inituvm s pgdir init sz =
     (if sz \<ge> PGSIZE then Some (panic ''inituvm: more than a page'')
      else let (mem, s) = kalloc s; s = s\<lparr>ram := memset (ram s) mem 0 PGSIZE\<rparr>
           in obind (mappages s pgdir 0 PGSIZE (V2P mem) (PTE_W OR PTE_U)) (\<lambda>(_, s).
              oret (s\<lparr>ram := memmove (ram s) mem init sz\<rparr>)))"

definition clearpteu :: "kmem \<Rightarrow> u32 \<Rightarrow> u32 \<Rightarrow> kmem res" where
  "clearpteu s pgdir uva =
     (let (pte, s) = walkpgdir s pgdir uva False
      in if pte = 0 then panic ''clearpteu''
         else ret (s\<lparr>ram := store32 (ram s) pte (load32 (ram s) pte AND NOT PTE_U)\<rparr>))"

text \<open>\<^verbatim>\<open>uva2ka\<close> dereferences the pointer \<^verbatim>\<open>walkpgdir\<close> returns even when it is null.\<close>

definition uva2ka :: "kmem \<Rightarrow> u32 \<Rightarrow> u32 \<Rightarrow> u32" where
  "uva2ka s pgdir uva =
     (let e = load32 (ram s) (fst (walkpgdir s pgdir uva False))
      in if \<not> present e then 0 else if e AND PTE_U = 0 then 0 else P2V (PTE_ADDR e))"

partial_function (option) copyout :: "kmem \<Rightarrow> u32 \<Rightarrow> u32 \<Rightarrow> u32 \<Rightarrow> u32 \<Rightarrow> (int \<times> kmem) res option" where
  "copyout s pgdir va buf len =
     (if len > 0 then
        let va0 = PGROUNDDOWN va; pa0 = uva2ka s pgdir va0
        in if pa0 = 0 then oret (-1, s)
           else let n = PGSIZE - (va - va0); n = (if n > len then len else n)
                in copyout (s\<lparr>ram := memmove (ram s) (pa0 + (va - va0)) buf n\<rparr>) pgdir (va0 + PGSIZE) (buf + n) (len - n)
      else oret (0, s))"

section \<open>Copying an address space; shared memory pages\<close>

text \<open>The globals \<^verbatim>\<open>sm_counts\<close> and \<^verbatim>\<open>sm_addr\<close>, and the fields of \<^verbatim>\<open>struct proc\<close> these routines use.\<close>

record shm =
  sm_counts :: "int list"
  sm_addr :: "u32 list"

record vmproc =
  vsz :: u32
  vpgdir :: u32
  shared_page :: "u32 list"

partial_function (option) copy_pages :: "u32 \<Rightarrow> kmem \<Rightarrow> u32 \<Rightarrow> u32 \<Rightarrow> u32 \<Rightarrow> u32 \<Rightarrow> (bool \<times> kmem) res option" where
  "copy_pages kend s pgdir d i sz =
     (if i < sz then
        let (pte, s) = walkpgdir s pgdir i False
        in if pte = 0 then Some (panic ''copyuvm: pte should exist'')
           else if \<not> present (load32 (ram s) pte) then Some (panic ''copyuvm: page not present'')
           else let pa = PTE_ADDR (load32 (ram s) pte); flags = PTE_FLAGS (load32 (ram s) pte);
                    (mem, s) = kalloc s
                in if mem = 0 then oret (False, s)
                   else let s = s\<lparr>ram := memmove (ram s) mem (P2V pa) PGSIZE\<rparr>
                        in obind (mappages s d i PGSIZE (V2P mem) flags) (\<lambda>(r, s).
                             if r < 0 then obind (Some (kfree kend s mem)) (\<lambda>s. oret (False, s))
                             else copy_pages kend s pgdir d (i + PGSIZE) sz)
      else oret (True, s))"

text \<open>The loop over the shared pages: a page the parent uses is mapped in the child and counted.\<close>

fun copy_shared :: "kmem \<Rightarrow> shm \<Rightarrow> u32 \<Rightarrow> u32 list \<Rightarrow> u32 list \<Rightarrow> nat \<Rightarrow> nat \<Rightarrow> (bool \<times> u32 list \<times> shm \<times> kmem) res option" where
  "copy_shared s g d parent child i 0 = oret (True, child, g, s)"
| "copy_shared s g d parent child i (Suc n) =
     (if parent ! i \<noteq> 0 then
        let child = child[i := parent ! i]
        in obind (mappages s d (child ! i) PGSIZE (V2P (sm_addr g ! i)) (PTE_W OR PTE_U)) (\<lambda>(r, s).
             if r < 0 then oret (False, child, g, s)
             else copy_shared s (g\<lparr>sm_counts := (sm_counts g)[i := sm_counts g ! i + 1]\<rparr>) d parent child (Suc i) n)
      else copy_shared s g d parent child (Suc i) n)"

text \<open>\<^verbatim>\<open>copyuvm\<close>: the new page directory or 0, and the shared pages of the child.\<close>

definition copyuvm :: "u32 \<Rightarrow> u32 \<Rightarrow> kmem \<Rightarrow> shm \<Rightarrow> u32 \<Rightarrow> u32 \<Rightarrow> u32 list \<Rightarrow> u32 list \<Rightarrow>
    (u32 \<times> u32 list \<times> shm \<times> kmem) res option" where
  "copyuvm kend kdata s g pgdir sz child parent =
     obind (setupkvm kend kdata s) (\<lambda>(d, s).
       if d = 0 then oret (0, child, g, s)
       else obind (copy_pages kend s pgdir d PGSIZE sz) (\<lambda>(good, s).
         if \<not> good then obind (freevm kend s d) (\<lambda>s. oret (0, child, g, s))
         else obind (copy_shared s g d parent child 0 NSHAREPAGE) (\<lambda>(good, child, g, s).
           if \<not> good then obind (freevm kend s d) (\<lambda>s. oret (0, child, g, s))
           else oret (d, child, g, s))))"

fun shmem_init_loop :: "kmem \<Rightarrow> shm \<Rightarrow> nat \<Rightarrow> nat \<Rightarrow> (shm \<times> kmem) res" where
  "shmem_init_loop s g i 0 = ret (g, s)"
| "shmem_init_loop s g i (Suc n) =
     (let g = g\<lparr>sm_counts := (sm_counts g)[i := 0]\<rparr>; (mem, s) = kalloc s
      in if mem = 0 then panic ''shared memory init failed''
         else shmem_init_loop (s\<lparr>ram := memset (ram s) mem 0 PGSIZE\<rparr>) (g\<lparr>sm_addr := (sm_addr g)[i := mem]\<rparr>) (Suc i) n)"

definition shmem_init :: "kmem \<Rightarrow> shm \<Rightarrow> (shm \<times> kmem) res" where
  "shmem_init s g = shmem_init_loop s g 0 NSHAREPAGE"

definition shmem_va :: "nat \<Rightarrow> u32" where
  "shmem_va i = KERNBASE - of_nat (i + 1) * PGSIZE"

text \<open>\<^verbatim>\<open>shmem_access\<close>; \<open>None\<close> is the error value \<^verbatim>\<open>(void*)-1\<close>.\<close>

definition shmem_access :: "kmem \<Rightarrow> shm \<Rightarrow> vmproc \<Rightarrow> int \<Rightarrow> (u32 option \<times> vmproc \<times> shm \<times> kmem) res option" where
  "shmem_access s g p page_number =
     (if page_number < 0 \<or> page_number \<ge> int NSHAREPAGE then oret (None, p, g, s)
      else let i = nat page_number
           in if shared_page p ! i \<noteq> 0 then oret (Some (shared_page p ! i), p, g, s)
              else if vsz p > V2P (shmem_va i) then oret (None, p, g, s)
              else obind (mappages s (vpgdir p) (shmem_va i) PGSIZE (V2P (sm_addr g ! i)) (PTE_W OR PTE_U)) (\<lambda>(r, s).
                if r < 0 then Some (panic ''mappages is fail in the shmem_access'')
                else oret (Some (shmem_va i), p\<lparr>shared_page := (shared_page p)[i := shmem_va i]\<rparr>,
                       g\<lparr>sm_counts := (sm_counts g)[i := sm_counts g ! i + 1]\<rparr>, s)))"

text \<open>
  \<^verbatim>\<open>shmem_count\<close>; its bound check lets \<^verbatim>\<open>NSHAREPAGE\<close> through, and \<open>beyond\<close> is then the word after the
  array \<^verbatim>\<open>sm_counts\<close>.
\<close>

definition shmem_count :: "shm \<Rightarrow> int \<Rightarrow> int \<Rightarrow> int" where
  "shmem_count g beyond page_number =
     (if page_number < 0 \<or> page_number > int NSHAREPAGE then -1
      else if nat page_number < length (sm_counts g) then sm_counts g ! nat page_number else beyond)"

section \<open>Words inside pages\<close>

definition slot :: "u32 \<Rightarrow> nat \<Rightarrow> u32" where
  "slot p i = p + 4 * of_nat i"

definition aligned :: "u32 \<Rightarrow> bool" where
  "aligned p \<longleftrightarrow> 4096 dvd unat p"

lemma aligned_bound: "aligned p \<Longrightarrow> i < 4096 \<Longrightarrow> unat (p + of_nat i) = unat p + i"
proof -
  assume a: "aligned p" and i: "i < 4096"
  have "unat p < 4294967296" by simp
  with a have "unat p + 4096 \<le> 4294967296" unfolding aligned_def by (elim dvdE) simp
  then show ?thesis using i by (subst unat_add_small) auto
qed

lemma slot_byte: "aligned p \<Longrightarrow> i < 1024 \<Longrightarrow> b < 4 \<Longrightarrow> unat (slot p i + of_nat b) = unat p + 4 * i + b"
  using aligned_bound [of p "4 * i + b"] by (simp add: slot_def add.assoc)

lemma slot_bytes_differ:
  assumes "aligned p" "aligned q" "i < 1024" "j < 1024" "(p, i) \<noteq> (q, j)" "b < 4" "c < 4"
  shows "slot p i + of_nat b \<noteq> slot q j + of_nat c"
proof
  assume "slot p i + of_nat b = slot q j + of_nat c"
  then have "unat (slot p i + of_nat b) = unat (slot q j + of_nat c)" by simp
  then have e: "unat p + (4 * i + b) = unat q + (4 * j + c)"
    using slot_byte [OF assms(1,3,6)] slot_byte [OF assms(2,4,7)] by simp
  obtain P Q where PQ: "unat p = 4096 * P" "unat q = 4096 * Q" using assms(1,2) unfolding aligned_def by (elim dvdE)
  have "P = Q"
    using arg_cong [OF e, of "\<lambda>x. x div 4096"] assms(3,4,6,7) unfolding PQ by simp
  then have "unat p = unat q" using PQ by simp
  moreover from this have "i = j" using e assms(6,7) by linarith
  ultimately show False using assms(5) by (simp add: word_unat_eq_iff)
qed

lemma slot_bytes: "slot p i = slot p i + of_nat 0" "slot p i + 1 = slot p i + of_nat 1"
  "slot p i + 2 = slot p i + of_nat 2" "slot p i + 3 = slot p i + of_nat 3"
  by simp_all

lemma load32_store32_slot:
  assumes "aligned p" "aligned q" "i < 1024" "j < 1024"
  shows "load32 (store32 m (slot p i) w) (slot q j) = (if (p, i) = (q, j) then w else load32 m (slot q j))"
proof (cases "(p, i) = (q, j)")
  case True
  then show ?thesis by (simp add: load32_store32)
next
  case False
  note d = slot_bytes_differ [OF assms(2,1,4,3) False [symmetric]]
  have "store32 m (slot p i) w (slot q j + of_nat b) = m (slot q j + of_nat b)" if "b < 4" for b
    using d [OF that, of 0] d [OF that, of 1] d [OF that, of 2] d [OF that, of 3] by (simp add: store32_def)
  from this [of 0] this [of 1] this [of 2] this [of 3] False show ?thesis
    by (auto simp: load32_def)
qed

lemma same_outside_slot:
  assumes "aligned p" "i < 1024"
  shows "same_outside p m (store32 m (slot p i) w)"
proof -
  have "unat (slot p i + of_nat b - p) < 4096" if "b < 4" for b
  proof -
    have "slot p i + of_nat b - p = of_nat (4 * i + b)" by (simp add: slot_def)
    then show ?thesis using assms(2) that by (simp del: of_nat_add of_nat_mult)
  qed
  from this [of 0] this [of 1] this [of 2] this [of 3] show ?thesis
    by (auto simp: same_outside_def store32_def)
qed

lemma aligned_mod: "aligned p \<longleftrightarrow> p mod PGSIZE = 0"
  by (simp add: aligned_def page_aligned)

lemma load32_outside_slot:
  assumes "aligned q" "aligned v" "q \<noteq> v" "j < 1024" "same_outside v m m'"
  shows "load32 m' (slot q j) = load32 m (slot q j)"
proof -
  have "m' (slot q j + of_nat b) = m (slot q j + of_nat b)" if "b < 4" for b
  proof -
    have "4096 \<le> unat (q + of_nat (4 * j + b) - v)"
      using assms(1-4) that by (intro other_page) (auto simp: aligned_mod)
    moreover have "q + of_nat (4 * j + b) = slot q j + of_nat b" by (simp add: slot_def)
    ultimately show ?thesis using assms(5) by (simp only: same_outside_def)
  qed
  from this [of 0] this [of 1] this [of 2] this [of 3] show ?thesis by (simp add: load32_def)
qed

lemma load32_zero_page:
  assumes "aligned v" "j < 1024"
  shows "load32 (memset m v 0 PGSIZE) (slot v j) = 0"
proof -
  have "memset m v 0 PGSIZE (slot v j + of_nat b) = 0" if "b < 4" for b
  proof -
    have "slot v j + of_nat b - v = of_nat (4 * j + b)" by (simp add: slot_def)
    then have "unat (slot v j + of_nat b - v) < 4096" using assms(2) that by (simp del: of_nat_add of_nat_mult)
    then show ?thesis by (simp add: memset_filled filled_def PGSIZE_def)
  qed
  from this [of 0] this [of 1] this [of 2] this [of 3] show ?thesis by (simp add: load32_def)
qed

section \<open>Indices and entries\<close>

lemma ten_bits: "(x :: u32) AND 0x3FF = take_bit 10 x" "(x :: u32) AND 0xFFF = take_bit 12 x"
  by (simp_all add: take_bit_eq_mask mask_eq_exp_minus_1)

lemma PDX_nat: "unat (PDX va) = unat va div 4194304"
proof -
  have "unat (PDX va) = unat va div 4194304 mod 1024"
    by (simp add: PDX_def ten_bits drop_bit_eq_div take_bit_eq_mod unat_mod unat_div)
  moreover have "unat va div 4194304 < 1024" using unat_lt_2p32 [of va] by (simp add: less_mult_imp_div_less)
  ultimately show ?thesis by simp
qed

lemma PTX_nat: "unat (PTX va) = unat va div 4096 mod 1024"
  by (simp add: PTX_def ten_bits drop_bit_eq_div take_bit_eq_mod unat_mod unat_div)

lemma PDX_less: "unat (PDX va) < 1024" and PTX_less: "unat (PTX va) < 1024"
  using unat_lt_2p32 [of va] by (simp_all add: PDX_nat PTX_nat less_mult_imp_div_less)

lemma same_page_iff: "PDX va = PDX vb \<and> PTX va = PTX vb \<longleftrightarrow> unat va div 4096 = unat vb div 4096"
proof -
  have d: "x div 4194304 = x div 4096 div 1024" for x :: nat by (simp add: div_mult2_eq [symmetric])
  have "PDX va = PDX vb \<longleftrightarrow> unat va div 4096 div 1024 = unat vb div 4096 div 1024"
    by (metis PDX_nat d word_unat_eq_iff)
  moreover have "PTX va = PTX vb \<longleftrightarrow> unat va div 4096 mod 1024 = unat vb div 4096 mod 1024"
    by (metis PTX_nat word_unat_eq_iff)
  ultimately show ?thesis by (metis div_mult_mod_eq)
qed

lemma table_entry:
  assumes "aligned t"
  shows "PTE_ADDR (V2P t OR PTE_P OR PTE_W OR PTE_U) = V2P t" "present (V2P t OR PTE_P OR PTE_W OR PTE_U)" "P2V (V2P t) = t"
proof -
  have low: "\<not> bit (V2P t) n" if "n < 12" for n
  proof -
    have "4096 dvd unat (V2P t)"
      using assms by (auto simp: aligned_def V2P_def KERNBASE_def unat_diff_u32 word_le_nat_alt)
    then have "V2P t mod 4096 = 0" by (simp add: word_unat_eq_iff unat_mod)
    then have "take_bit 12 (V2P t) = 0" by (simp add: take_bit_eq_mod)
    then have "\<not> bit (take_bit 12 (V2P t)) n" by simp
    then show ?thesis using that by (simp add: bit_take_bit_iff)
  qed
  have m: "(0xFFF :: u32) = mask 12" "PTE_P = mask 1" by (simp_all add: mask_eq_exp_minus_1 PTE_P_def)
  have f: "PTE_P OR PTE_W OR PTE_U = 7" by (simp add: PTE_P_def PTE_W_def PTE_U_def)
  have f7: "(7 :: u32) = mask 3" by (simp add: mask_eq_exp_minus_1)
  show "PTE_ADDR (V2P t OR PTE_P OR PTE_W OR PTE_U) = V2P t"
    unfolding PTE_ADDR_def f f7 m(1) by (rule bit_word_eqI) (auto simp: bit_simps low)
  have "bit ((V2P t OR PTE_P OR PTE_W OR PTE_U) AND PTE_P) 0"
    unfolding f f7 m(2) by (simp add: bit_simps)
  then show "present (V2P t OR PTE_P OR PTE_W OR PTE_U)" by auto
  show "P2V (V2P t) = t" by (simp add: P2V_def V2P_def)
qed

section \<open>The mapping a page directory stands for\<close>

definition has_table :: "mem \<Rightarrow> u32 \<Rightarrow> nat \<Rightarrow> bool" where
  "has_table m pgdir i \<longleftrightarrow> present (load32 m (slot pgdir i))"

definition table_at :: "mem \<Rightarrow> u32 \<Rightarrow> nat \<Rightarrow> u32" where
  "table_at m pgdir i = P2V (PTE_ADDR (load32 m (slot pgdir i)))"

text \<open>The entry the hardware finds for a virtual address; 0, which is not present, if there is none.\<close>

definition pte_of :: "mem \<Rightarrow> u32 \<Rightarrow> u32 \<Rightarrow> u32" where
  "pte_of m pgdir va =
     (if has_table m pgdir (unat (PDX va)) then load32 m (slot (table_at m pgdir (unat (PDX va))) (unat (PTX va))) else 0)"

text \<open>A page directory whose tables are pages of their own, apart from the free list \<open>xs\<close>.\<close>

definition pt_ok :: "u32 \<Rightarrow> kmem \<Rightarrow> u32 list \<Rightarrow> u32 \<Rightarrow> bool" where
  "pt_ok kend s xs pgdir \<longleftrightarrow> free_pages kend s xs \<and> \<not> bad_page kend pgdir \<and> pgdir \<notin> set xs \<and>
     (\<forall>i < 1024. has_table (ram s) pgdir i \<longrightarrow>
        \<not> bad_page kend (table_at (ram s) pgdir i) \<and> table_at (ram s) pgdir i \<notin> set xs \<and> table_at (ram s) pgdir i \<noteq> pgdir) \<and>
     (\<forall>i < 1024. \<forall>j < 1024. has_table (ram s) pgdir i \<longrightarrow> has_table (ram s) pgdir j \<longrightarrow>
        table_at (ram s) pgdir i = table_at (ram s) pgdir j \<longrightarrow> i = j)"

lemma pt_okD:
  assumes "pt_ok kend s xs pgdir"
  shows "free_pages kend s xs" "\<not> bad_page kend pgdir" "pgdir \<notin> set xs"
    and "i < 1024 \<Longrightarrow> has_table (ram s) pgdir i \<Longrightarrow> \<not> bad_page kend (table_at (ram s) pgdir i)"
    and "i < 1024 \<Longrightarrow> has_table (ram s) pgdir i \<Longrightarrow> table_at (ram s) pgdir i \<notin> set xs"
    and "i < 1024 \<Longrightarrow> has_table (ram s) pgdir i \<Longrightarrow> table_at (ram s) pgdir i \<noteq> pgdir"
    and "i < 1024 \<Longrightarrow> j < 1024 \<Longrightarrow> has_table (ram s) pgdir i \<Longrightarrow> has_table (ram s) pgdir j \<Longrightarrow>
      table_at (ram s) pgdir i = table_at (ram s) pgdir j \<Longrightarrow> i = j"
  using assms unfolding pt_ok_def by blast+

lemma page_facts:
  assumes "\<not> bad_page kend v"
  shows "aligned v" "2147483648 \<le> unat v"
proof -
  show "aligned v" using assms by (simp add: aligned_mod bad_page_def)
  have "unat (V2P v) < 234881024" using assms by (simp add: bad_page_def PHYSTOP_def word_le_nat_alt not_le)
  then show "2147483648 \<le> unat v"
    by (simp add: V2P_def KERNBASE_def unat_diff_u32 word_le_nat_alt split: if_splits)
qed

lemma slot_nonzero:
  assumes "\<not> bad_page kend v" and "i < 1024"
  shows "slot v i \<noteq> 0"
proof
  assume "slot v i = 0"
  then have "unat (slot v i + of_nat 0) = 0" by simp
  then show False using slot_byte [of v i 0] page_facts [OF assms(1)] assms(2) by simp
qed

lemma free_pages_change:
  assumes "free_pages kend s xs" and "\<not> bad_page kend v" and "v \<notin> set xs" and "same_outside v (ram s) m"
  shows "free_pages kend (s\<lparr>ram := m\<rparr>) xs"
proof -
  have "\<forall>x \<in> set xs. x mod PGSIZE = 0 \<and> x \<noteq> v"
    using assms(1,3) by (auto simp: free_pages_def bad_page_def)
  with assms show ?thesis
    using chain_same_outside [of "ram s" "freelist s" xs v m] by (simp add: free_pages_def bad_page_def)
qed

text \<open>Storing an entry into one of the tables.\<close>

lemma set_pte:
  fixes w :: u32
  assumes ok: "pt_ok kend s xs pgdir" and h: "has_table (ram s) pgdir (unat (PDX va))"
  defines "s' \<equiv> s\<lparr>ram := store32 (ram s) (slot (table_at (ram s) pgdir (unat (PDX va))) (unat (PTX va))) w\<rparr>"
  shows "pt_ok kend s' xs pgdir"
    and "pte_of (ram s') pgdir va' = (if unat va' div 4096 = unat va div 4096 then w else pte_of (ram s) pgdir va')"
    and "i < 1024 \<Longrightarrow> has_table (ram s') pgdir i = has_table (ram s) pgdir i"
    and "i < 1024 \<Longrightarrow> table_at (ram s') pgdir i = table_at (ram s) pgdir i"
proof -
  let ?d = "unat (PDX va)" and ?t = "table_at (ram s) pgdir (unat (PDX va))"
  note D = pt_okD [OF ok] and d = PDX_less [of va]
  have t: "\<not> bad_page kend ?t" "?t \<notin> set xs" "?t \<noteq> pgdir" using D(4-6) [OF d h] by auto
  have al: "aligned pgdir" "aligned ?t" using page_facts D(2) t(1) by blast+
  have so: "same_outside ?t (ram s) (ram s')" unfolding s'_def using al PTX_less by (simp add: same_outside_slot)
  have pde: "load32 (ram s') (slot pgdir i) = load32 (ram s) (slot pgdir i)" if "i < 1024" for i
    using load32_outside_slot [OF al(1,2) t(3) [symmetric] that so] .
  have same: "has_table (ram s') pgdir i = has_table (ram s) pgdir i" "table_at (ram s') pgdir i = table_at (ram s) pgdir i" if "i < 1024" for i
    using pde [OF that] by (simp_all add: has_table_def table_at_def)
  have fp: "free_pages kend s' xs" unfolding s'_def
    using al PTX_less by (intro free_pages_change [OF D(1) t(1,2)]) (simp add: same_outside_slot)
  show "pt_ok kend s' xs pgdir" using ok fp same by (simp add: pt_ok_def)
  show "i < 1024 \<Longrightarrow> has_table (ram s') pgdir i = has_table (ram s) pgdir i"
    "i < 1024 \<Longrightarrow> table_at (ram s') pgdir i = table_at (ram s) pgdir i" using same by auto
  let ?e = "unat (PDX va')"
  show "pte_of (ram s') pgdir va' = (if unat va' div 4096 = unat va div 4096 then w else pte_of (ram s) pgdir va')"
  proof (cases "has_table (ram s) pgdir ?e")
    case False
    then have "PDX va' \<noteq> PDX va" using h by auto
    then show ?thesis using False same_page_iff [of va' va] same [OF PDX_less] by (simp add: pte_of_def)
  next
    case True
    have al': "aligned (table_at (ram s) pgdir ?e)" using D(4) [OF PDX_less True] page_facts by blast
    have "load32 (ram s') (slot (table_at (ram s) pgdir ?e) (unat (PTX va'))) =
        (if (?t, unat (PTX va)) = (table_at (ram s) pgdir ?e, unat (PTX va')) then w
         else load32 (ram s) (slot (table_at (ram s) pgdir ?e) (unat (PTX va'))))"
      unfolding s'_def using load32_store32_slot [OF al(2) al' PTX_less PTX_less] by simp
    moreover have "(?t, unat (PTX va)) = (table_at (ram s) pgdir ?e, unat (PTX va')) \<longleftrightarrow> unat va' div 4096 = unat va div 4096"
      using D(7) [OF d PDX_less h True] same_page_iff [of va' va] by (auto simp: word_unat_eq_iff)
    ultimately show ?thesis using True same [OF PDX_less, of va'] by (simp add: pte_of_def)
  qed
qed

lemma walk_present:
  assumes "has_table (ram s) pgdir (unat (PDX va))"
  shows "walkpgdir s pgdir va alloc = (slot (table_at (ram s) pgdir (unat (PDX va))) (unat (PTX va)), s)"
  using assms by (simp add: walkpgdir_def has_table_def table_at_def slot_def Let_def)

text \<open>A walk that has to add a table: it takes the first free page.\<close>

lemma walk_alloc:
  assumes ok: "pt_ok kend s (x # xs) pgdir" and h: "\<not> has_table (ram s) pgdir (unat (PDX va))"
  shows "\<exists>s'. walkpgdir s pgdir va True = (slot x (unat (PTX va)), s') \<and> pt_ok kend s' xs pgdir \<and>
    has_table (ram s') pgdir (unat (PDX va)) \<and> table_at (ram s') pgdir (unat (PDX va)) = x \<and>
    (\<forall>va'. pte_of (ram s') pgdir va' = pte_of (ram s) pgdir va') \<and>
    (\<forall>i < 1024. has_table (ram s') pgdir i = (i = unat (PDX va) \<or> has_table (ram s) pgdir i) \<and>
       (i \<noteq> unat (PDX va) \<longrightarrow> table_at (ram s') pgdir i = table_at (ram s) pgdir i))"
proof -
  let ?d = "unat (PDX va)" and ?e = "V2P x OR PTE_P OR PTE_W OR PTE_U"
  note D = pt_okD [OF ok] and d = PDX_less [of va]
  obtain s1 where s1: "kalloc s = (x, s1)" "x \<noteq> 0" "free_pages kend s1 xs" "ram s1 = ram s" using kalloc_Cons [OF D(1)] by blast
  have x: "\<not> bad_page kend x" "x \<notin> set xs" using D(1) by (auto simp: free_pages_def)
  have xp: "x \<noteq> pgdir" using D(3) by auto
  have al: "aligned pgdir" "aligned x" using page_facts D(2) x(1) by blast+
  let ?m1 = "memset (ram s) x 0 PGSIZE" and ?m2 = "store32 (memset (ram s) x 0 PGSIZE) (slot pgdir ?d) ?e"
  let ?s = "s1\<lparr>ram := ?m2\<rparr>"
  have so1: "same_outside x (ram s) ?m1" by (rule same_outside_memset)
  have so2: "same_outside pgdir ?m1 ?m2" by (rule same_outside_slot [OF al(1) d])
  have "free_pages kend (s1\<lparr>ram := ?m1\<rparr>) xs" using free_pages_change [OF s1(3) x, of ?m1] so1 s1(4) by simp
  then have fp: "free_pages kend ?s xs" using free_pages_change [OF _ D(2), of "s1\<lparr>ram := ?m1\<rparr>" xs ?m2] so2 D(3) by simp
  have pde: "load32 ?m2 (slot pgdir i) = (if i = ?d then ?e else load32 (ram s) (slot pgdir i))" if "i < 1024" for i
    using load32_store32_slot [OF al(1,1) d that, of ?m1 ?e] load32_outside_slot [OF al xp [symmetric] that so1] by auto
  have tb: "has_table ?m2 pgdir i = (i = ?d \<or> has_table (ram s) pgdir i)"
      "table_at ?m2 pgdir i = (if i = ?d then x else table_at (ram s) pgdir i)" if "i < 1024" for i
    using pde [OF that] table_entry [OF al(2)] by (simp_all add: has_table_def table_at_def)
  have other: "table_at (ram s) pgdir i \<noteq> x" if "i < 1024" "has_table (ram s) pgdir i" for i using D(5) [OF that] by auto
  have "pt_ok kend ?s xs pgdir"
    unfolding pt_ok_def
  proof (intro conjI allI impI)
    fix i assume i: "i < 1024" "has_table (ram ?s) pgdir i"
    show "\<not> bad_page kend (table_at (ram ?s) pgdir i)" "table_at (ram ?s) pgdir i \<notin> set xs" "table_at (ram ?s) pgdir i \<noteq> pgdir"
      using i tb [OF i(1)] x xp D(4-6) [OF i(1)] by (auto split: if_splits)
    fix j assume j: "j < 1024" "has_table (ram ?s) pgdir j" "table_at (ram ?s) pgdir i = table_at (ram ?s) pgdir j"
    then show "i = j" using i tb [OF i(1)] tb [OF j(1)] D(7) [OF i(1) j(1)] other [OF i(1)] other [OF j(1)]
      by (auto split: if_splits)
  qed (use fp D in auto)
  moreover have "pte_of ?m2 pgdir va' = pte_of (ram s) pgdir va'" for va'
  proof (cases "PDX va' = PDX va")
    case True
    have "load32 ?m2 (slot x (unat (PTX va'))) = 0"
      using load32_outside_slot [OF al(2,1) xp PTX_less so2] load32_zero_page [OF al(2) PTX_less] by simp
    then show ?thesis using True h tb [OF PDX_less, of va'] by (simp add: pte_of_def)
  next
    case False
    then have ne: "unat (PDX va') \<noteq> ?d" by (simp add: word_unat_eq_iff)
    show ?thesis
    proof (cases "has_table (ram s) pgdir (unat (PDX va'))")
      case True
      let ?t = "table_at (ram s) pgdir (unat (PDX va'))"
      have "aligned ?t" "?t \<noteq> pgdir" "?t \<noteq> x" using page_facts D(4,6) other True PDX_less by blast+
      then have "load32 ?m2 (slot ?t (unat (PTX va'))) = load32 (ram s) (slot ?t (unat (PTX va')))"
        using load32_outside_slot [OF _ al(1) _ PTX_less so2] load32_outside_slot [OF _ al(2) _ PTX_less so1] by simp
      then show ?thesis using True ne tb [OF PDX_less, of va'] by (simp add: pte_of_def)
    qed (use ne tb [OF PDX_less, of va'] in \<open>simp add: pte_of_def\<close>)
  qed
  moreover have "walkpgdir s pgdir va True = (slot x (unat (PTX va)), ?s)"
    using h s1 by (simp add: walkpgdir_def has_table_def slot_def Let_def)
  ultimately show ?thesis using tb [OF d] tb by (intro exI [of _ ?s]) simp
qed

lemma walk_cases:
  assumes ok: "pt_ok kend s xs pgdir"
  obtains (full) "walkpgdir s pgdir va True = (0, s)" "xs = []"
  | (entry) s' xs' where "walkpgdir s pgdir va True = (slot (table_at (ram s') pgdir (unat (PDX va))) (unat (PTX va)), s')"
      "pt_ok kend s' xs' pgdir" "has_table (ram s') pgdir (unat (PDX va))" "\<And>va'. pte_of (ram s') pgdir va' = pte_of (ram s) pgdir va'"
      "slot (table_at (ram s') pgdir (unat (PDX va))) (unat (PTX va)) \<noteq> 0"
proof (cases "has_table (ram s) pgdir (unat (PDX va))")
  case True
  have "slot (table_at (ram s) pgdir (unat (PDX va))) (unat (PTX va)) \<noteq> 0"
    using slot_nonzero [OF pt_okD(4) [OF ok PDX_less True] PTX_less] .
  then show thesis using entry [of s xs] walk_present [OF True] ok True by simp
next
  case False
  show thesis
  proof (cases xs)
    case Nil
    then have "kalloc s = (0, s)" using pt_okD(1) [OF ok] kalloc_Nil by simp
    then have "walkpgdir s pgdir va True = (0, s)" using False by (simp add: walkpgdir_def has_table_def slot_def Let_def)
    then show thesis using full Nil by blast
  next
    case (Cons x ys)
    obtain s' where s': "walkpgdir s pgdir va True = (slot x (unat (PTX va)), s')" "pt_ok kend s' ys pgdir"
        "has_table (ram s') pgdir (unat (PDX va))" "table_at (ram s') pgdir (unat (PDX va)) = x"
        "\<forall>va'. pte_of (ram s') pgdir va' = pte_of (ram s) pgdir va'"
      using walk_alloc [OF ok [unfolded Cons] False] by blast
    have "slot x (unat (PTX va)) \<noteq> 0" using slot_nonzero [OF pt_okD(4) [OF s'(2) PDX_less s'(3)] PTX_less] s'(4) by simp
    then show thesis using entry [of s' ys] s' by simp
  qed
qed

lemma pte_at_slot: "has_table m pgdir (unat (PDX va)) \<Longrightarrow>
    load32 m (slot (table_at m pgdir (unat (PDX va))) (unat (PTX va))) = pte_of m pgdir va"
  by (simp add: pte_of_def)

text \<open>The \<open>k\<close>-th page from \<open>a\<close> on, and which addresses a run of pages covers.\<close>

abbreviation page_k :: "u32 \<Rightarrow> nat \<Rightarrow> u32" where
  "page_k a k \<equiv> a + of_nat (4096 * k)"

definition covers :: "u32 \<Rightarrow> nat \<Rightarrow> u32 \<Rightarrow> bool" where
  "covers a n va \<longleftrightarrow> (\<exists>k \<le> n. unat va div 4096 = unat (page_k a k) div 4096)"

lemma page_k_Suc: "page_k a (Suc k) = page_k (a + PGSIZE) k"
  by (simp add: PGSIZE_def algebra_simps)

lemma ex_le_Suc: "(\<exists>k \<le> Suc n. P k) \<longleftrightarrow> P 0 \<or> (\<exists>k \<le> n. P (Suc k))"
proof
  assume "\<exists>k \<le> Suc n. P k"
  then obtain k where "k \<le> Suc n" "P k" by blast
  then show "P 0 \<or> (\<exists>k \<le> n. P (Suc k))" by (cases k) auto
qed auto

lemma covers_Suc: "covers a (Suc n) va \<longleftrightarrow> unat va div 4096 = unat a div 4096 \<or> covers (a + PGSIZE) n va"
  unfolding covers_def ex_le_Suc page_k_Suc by simp

text \<open>What a run of \<^verbatim>\<open>mappages\<close> over the pages \<open>a, ..., a + 4096 n\<close> may end in.\<close>

definition mapped_run :: "u32 \<Rightarrow> kmem \<Rightarrow> u32 \<Rightarrow> u32 \<Rightarrow> nat \<Rightarrow> u32 \<Rightarrow> u32 \<Rightarrow> (int \<times> kmem) res \<Rightarrow> bool" where
  "mapped_run kend s pgdir a n pa perm r \<longleftrightarrow>
     (case r of
        Inl e \<Rightarrow> e = Panic ''remap'' \<and> (\<exists>k \<le> n. present (pte_of (ram s) pgdir (page_k a k)))
      | Inr (c, s') \<Rightarrow> (\<exists>xs'. pt_ok kend s' xs' pgdir \<and> (c = -1 \<longrightarrow> xs' = [])) \<and> (c = 0 \<or> c = -1) \<and>
          (\<forall>va. \<not> covers a n va \<longrightarrow> pte_of (ram s') pgdir va = pte_of (ram s) pgdir va) \<and>
          (c = 0 \<longrightarrow> (\<forall>k \<le> n. pte_of (ram s') pgdir (page_k a k) = page_k pa k OR perm OR PTE_P \<and>
                            \<not> present (pte_of (ram s) pgdir (page_k a k)))))"

lemma covers_later:
  assumes "aligned a" and "unat a + 4096 * Suc n < 4294967296"
  shows "\<not> covers (a + PGSIZE) n a" "k \<le> n \<Longrightarrow> unat (page_k (a + PGSIZE) k) div 4096 \<noteq> unat a div 4096"
proof -
  have d: "unat (page_k (a + PGSIZE) k) div 4096 \<noteq> unat a div 4096" if "k \<le> n" for k
  proof -
    have u: "unat (of_nat (4096 * Suc k) :: u32) = 4096 * Suc k" using that assms(2) by (intro unat_of_nat_u32) simp
    have "unat a + unat (of_nat (4096 * Suc k) :: u32) < 4294967296" unfolding u
      using mult_le_mono2 [of "Suc k" "Suc n" 4096] that assms(2) by simp
    from unat_add_small [OF this] have "unat (page_k a (Suc k)) = unat a + 4096 * Suc k" unfolding u .
    then show ?thesis unfolding page_k_Suc by simp
  qed
  then show "\<not> covers (a + PGSIZE) n a" "k \<le> n \<Longrightarrow> unat (page_k (a + PGSIZE) k) div 4096 \<noteq> unat a div 4096"
    unfolding covers_def by metis+
qed

lemma all_le_Suc: "(\<forall>k \<le> Suc n. P k) \<longleftrightarrow> P 0 \<and> (\<forall>k \<le> n. P (Suc k))"
  using ex_le_Suc [of n "\<lambda>k. \<not> P k"] by blast

lemma mapped_run_step:
  assumes run: "mapped_run kend s2 pgdir (a + PGSIZE) n (pa + PGSIZE) perm r"
    and al: "aligned a" "unat a + 4096 * Suc n < 4294967296"
    and np: "\<not> present (pte_of (ram s) pgdir a)"
    and s2: "\<And>va. pte_of (ram s2) pgdir va = (if unat va div 4096 = unat a div 4096 then pa OR perm OR PTE_P else pte_of (ram s) pgdir va)"
  shows "mapped_run kend s pgdir a (Suc n) pa perm r"
proof -
  have later: "pte_of (ram s2) pgdir (page_k (a + PGSIZE) k) = pte_of (ram s) pgdir (page_k (a + PGSIZE) k)" if "k \<le> n" for k
    using s2 covers_later(2) [OF al that] by simp
  show ?thesis
  proof (cases r)
    case (Inl e)
    then have "e = Panic ''remap''" "\<exists>k \<le> n. present (pte_of (ram s2) pgdir (page_k (a + PGSIZE) k))" using run by (simp_all add: mapped_run_def)
    then have "e = Panic ''remap''" "\<exists>k \<le> n. present (pte_of (ram s) pgdir (page_k a (Suc k)))"
      unfolding page_k_Suc using later by auto
    then show ?thesis using Inl by (simp add: mapped_run_def ex_le_Suc del: of_nat_mult)
  next
    case (Inr p)
    obtain c s' where p: "p = (c, s')" by fastforce
    have R: "\<exists>xs'. pt_ok kend s' xs' pgdir \<and> (c = -1 \<longrightarrow> xs' = [])" "c = 0 \<or> c = -1"
        "\<And>va. \<not> covers (a + PGSIZE) n va \<Longrightarrow> pte_of (ram s') pgdir va = pte_of (ram s2) pgdir va"
        "c = 0 \<Longrightarrow> k \<le> n \<Longrightarrow> pte_of (ram s') pgdir (page_k (a + PGSIZE) k) = page_k (pa + PGSIZE) k OR perm OR PTE_P \<and>
            \<not> present (pte_of (ram s2) pgdir (page_k (a + PGSIZE) k))" for k
      using run unfolding Inr p mapped_run_def by simp_all
    have first: "pte_of (ram s') pgdir a = pa OR perm OR PTE_P" using R(3) [of a] covers_later(1) [OF al] s2 by simp
    have "pte_of (ram s') pgdir (page_k a (Suc k)) = page_k pa (Suc k) OR perm OR PTE_P \<and> \<not> present (pte_of (ram s) pgdir (page_k a (Suc k)))"
      if "c = 0" "k \<le> n" for k
      using R(4) [OF that] later [OF that(2)] unfolding page_k_Suc by simp
    then have "c = 0 \<longrightarrow> (\<forall>k \<le> Suc n. pte_of (ram s') pgdir (page_k a k) = page_k pa k OR perm OR PTE_P \<and> \<not> present (pte_of (ram s) pgdir (page_k a k)))"
      unfolding all_le_Suc using first np by simp
    moreover have "\<forall>va. \<not> covers a (Suc n) va \<longrightarrow> pte_of (ram s') pgdir va = pte_of (ram s) pgdir va"
      using R(3) s2 by (simp add: covers_Suc)
    ultimately show ?thesis using R(1,2) unfolding Inr p mapped_run_def by simp
  qed
qed

lemma mappages_loop_runs:
  assumes "pt_ok kend s xs pgdir" and "aligned a" and "unat a + 4096 * n < 4294967296"
  shows "\<exists>r. mappages_loop s pgdir a (page_k a n) pa perm = Some r \<and> mapped_run kend s pgdir a n pa perm r"
  using assms
proof (induction n arbitrary: s xs a pa)
  case 0
  show ?case
  proof (rule walk_cases [OF "0.prems"(1), of a])
    assume "walkpgdir s pgdir a True = (0, s)" "xs = []"
    then show ?case using "0.prems" by (subst mappages_loop.simps) (auto simp: mapped_run_def)
  next
    fix s1 :: kmem and xs1 let ?p = "slot (table_at (ram s1) pgdir (unat (PDX a))) (unat (PTX a))"
    assume w: "walkpgdir s pgdir a True = (?p, s1)" "pt_ok kend s1 xs1 pgdir" "has_table (ram s1) pgdir (unat (PDX a))"
      "\<And>va'. pte_of (ram s1) pgdir va' = pte_of (ram s) pgdir va'" "?p \<noteq> 0"
    note st = set_pte(1,2) [OF w(2,3), where w = "pa OR perm OR PTE_P"]
    have e: "load32 (ram s1) ?p = pte_of (ram s) pgdir a" using pte_at_slot [OF w(3)] w(4) by simp
    show ?case
    proof (cases "present (pte_of (ram s) pgdir a)")
      case True
      then show ?thesis using w e by (subst mappages_loop.simps) (simp add: mapped_run_def)
    next
      case False
      then show ?thesis using w e st by (subst mappages_loop.simps) (auto simp: mapped_run_def covers_def)
    qed
  qed
next
  case (Suc n)
  have ne: "a \<noteq> page_k a (Suc n)" using covers_later(2) [OF Suc.prems(2,3), of n] by (metis order_refl page_k_Suc)
  have al: "aligned (a + PGSIZE)"
  proof -
    have "unat (a + PGSIZE) = unat a + 4096" using Suc.prems(3) by (subst unat_add_small) (simp_all add: PGSIZE_def)
    then show ?thesis using Suc.prems(2) by (simp add: aligned_def)
  qed
  have bd: "unat (a + PGSIZE) + 4096 * n < 4294967296" using Suc.prems(3) by (subst unat_add_small) (simp_all add: PGSIZE_def)
  show ?case
  proof (rule walk_cases [OF Suc.prems(1), of a])
    assume "walkpgdir s pgdir a True = (0, s)" "xs = []"
    then show ?case using Suc.prems by (subst mappages_loop.simps) (auto simp: mapped_run_def)
  next
    fix s1 :: kmem and xs1 let ?p = "slot (table_at (ram s1) pgdir (unat (PDX a))) (unat (PTX a))"
    let ?s2 = "s1\<lparr>ram := store32 (ram s1) ?p (pa OR perm OR PTE_P)\<rparr>"
    assume w: "walkpgdir s pgdir a True = (?p, s1)" "pt_ok kend s1 xs1 pgdir" "has_table (ram s1) pgdir (unat (PDX a))"
      "\<And>va'. pte_of (ram s1) pgdir va' = pte_of (ram s) pgdir va'" "?p \<noteq> 0"
    note st = set_pte(1,2) [OF w(2,3), where w = "pa OR perm OR PTE_P"]
    have e: "load32 (ram s1) ?p = pte_of (ram s) pgdir a" using pte_at_slot [OF w(3)] w(4) by simp
    show ?case
    proof (cases "present (pte_of (ram s) pgdir a)")
      case True
      then show ?thesis using w e by (subst mappages_loop.simps) (auto simp: mapped_run_def intro!: exI [of _ 0])
    next
      case False
      obtain r where r: "mappages_loop ?s2 pgdir (a + PGSIZE) (page_k (a + PGSIZE) n) (pa + PGSIZE) perm = Some r"
          "mapped_run kend ?s2 pgdir (a + PGSIZE) n (pa + PGSIZE) perm r"
        using Suc.IH [OF st(1) al bd] by blast
      have "mapped_run kend s pgdir a (Suc n) pa perm r"
        using st(2) w(4) by (intro mapped_run_step [OF r(2) Suc.prems(2,3) False]) simp
      moreover have "mappages_loop s pgdir a (page_k a (Suc n)) pa perm = Some r"
        using w e False ne r(1) unfolding page_k_Suc by (subst mappages_loop.simps) (simp add: Let_def)
      ultimately show ?thesis by blast
    qed
  qed
qed

lemma page_bounds:
  fixes a b :: u32
  assumes "unat a \<le> unat b"
  defines "n \<equiv> unat b div 4096 - unat a div 4096"
  shows "aligned (PGROUNDDOWN a)" "unat (PGROUNDDOWN a) + 4096 * n < 4294967296" "page_k (PGROUNDDOWN a) n = PGROUNDDOWN b"
proof -
  have le: "unat a div 4096 \<le> unat b div 4096" using assms(1) by (rule div_le_mono)
  have eq: "unat (PGROUNDDOWN a) + 4096 * n = unat (PGROUNDDOWN b)"
    using le unfolding unat_PGROUNDDOWN n_def by (simp add: diff_mult_distrib2 mult.commute)
  show "aligned (PGROUNDDOWN a)" by (simp add: aligned_def unat_PGROUNDDOWN)
  show lt: "unat (PGROUNDDOWN a) + 4096 * n < 4294967296" unfolding eq by simp
  then have "4096 * n < 4294967296" by simp
  then have "unat (of_nat (4096 * n) :: u32) = 4096 * n" by (rule unat_of_nat_u32)
  then have "unat (page_k (PGROUNDDOWN a) n) = unat (PGROUNDDOWN b)" using unat_add_small lt eq by metis
  then show "page_k (PGROUNDDOWN a) n = PGROUNDDOWN b" by (simp only: word_unat_eq_iff)
qed

lemma mappages_runs:
  assumes "pt_ok kend s xs pgdir" and "0 < sz" and "unat va + unat sz \<le> 4294967296"
  shows "\<exists>r. mappages s pgdir va sz pa perm = Some r \<and>
    mapped_run kend s pgdir (PGROUNDDOWN va) ((unat va + unat sz - 1) div 4096 - unat va div 4096) pa perm r"
proof -
  have pos: "0 < unat sz" using assms(2) by (simp add: word_less_nat_alt)
  have "unat (va + (sz - 1)) = unat va + unat (sz - 1)"
    using assms(2,3) pos by (subst unat_add_small) (auto simp: unat_minus_one)
  then have fin: "unat (va + sz - 1) = unat va + unat sz - 1"
    using assms(2) pos by (simp add: unat_minus_one add_diff_eq)
  note b = page_bounds [of va "va + sz - 1"]
  have le: "unat va \<le> unat (va + sz - 1)" using fin pos by simp
  show ?thesis
    using mappages_loop_runs [OF assms(1) b(1,2) [OF le], of pa perm] b(3) [OF le] fin by (simp add: mappages_def)
qed

section \<open>Properties of the page tables\<close>

text \<open>
  C19. \<^verbatim>\<open>mappages\<close> always returns or panics with \<^verbatim>\<open>remap\<close>, and the panic occurs only if some page of the
  range was mapped already. When it returns 0, the hardware finds for every page of the range the
  physical page that belongs to it with the requested permissions; whether it succeeds or runs out of
  memory, the translation of every address outside the range is unchanged, and the page tables and the
  free list stay well formed.
\<close>

theorem mappages_correct:
  assumes "pt_ok kend s xs pgdir" and "0 < sz" and "unat va + unat sz \<le> 4294967296"
  shows "\<exists>r. mappages s pgdir va sz pa perm = Some r \<and>
    mapped_run kend s pgdir (PGROUNDDOWN va) ((unat va + unat sz - 1) div 4096 - unat va div 4096) pa perm r"
  using assms by (rule mappages_runs)

text \<open>A fresh page directory, as \<^verbatim>\<open>setupkvm\<close> has it before it maps anything.\<close>

lemma fresh_pgdir:
  assumes "free_pages kend s (x # xs)"
  shows "\<exists>s'. kalloc s = (x, s') \<and> pt_ok kend (s'\<lparr>ram := memset (ram s') x 0 PGSIZE\<rparr>) xs x \<and>
    (\<forall>va. pte_of (memset (ram s') x 0 PGSIZE) x va = 0)"
proof -
  obtain s' where s': "kalloc s = (x, s')" "free_pages kend s' xs" using kalloc_Cons [OF assms] by blast
  have x: "\<not> bad_page kend x" "x \<notin> set xs" using assms by (auto simp: free_pages_def)
  let ?m = "memset (ram s') x 0 PGSIZE"
  have none: "\<not> has_table ?m x i" if "i < 1024" for i
    using load32_zero_page [OF page_facts(1) [OF x(1)] that] by (simp add: has_table_def)
  have "free_pages kend (s'\<lparr>ram := ?m\<rparr>) xs" by (rule free_pages_change [OF s'(2) x same_outside_memset])
  then have "pt_ok kend (s'\<lparr>ram := ?m\<rparr>) xs x" using x none by (simp add: pt_ok_def)
  then show ?thesis using s'(1) none [OF PDX_less] by (simp add: pte_of_def)
qed

lemma two_free_pages: "\<exists>s. free_pages 0x80100000 s [0x80201000, 0x80200000]"
proof -
  have ok: "\<not> bad_page 0x80100000 0x80200000 \<and> (0x80200000 :: u32) \<noteq> 0" "\<not> bad_page 0x80100000 0x80201000 \<and> (0x80201000 :: u32) \<noteq> 0"
    by (simp_all add: bad_page_def PGSIZE_def V2P_def PHYSTOP_def KERNBASE_def)
  obtain s0 where "free_pages 0x80100000 s0 [0x80200000]"
    using kmem.free_page [OF kmem_empty_free ok(1)] by auto
  then show ?thesis using kmem.free_page [of "0x80100000" s0 "[0x80200000]" "0x80201000"] ok(2) by auto
qed

lemma two_pages_demo:
  "\<exists>s. pt_ok 0x80100000 s [0x80200000] 0x80201000 \<and> (\<forall>va. pte_of (ram s) 0x80201000 va = 0)"
proof -
  obtain s where "free_pages 0x80100000 s [0x80201000, 0x80200000]" using two_free_pages by blast
  from fresh_pgdir [OF this] obtain s' where "pt_ok 0x80100000 (s'\<lparr>ram := memset (ram s') 0x80201000 0 PGSIZE\<rparr>) [0x80200000] 0x80201000"
      "\<forall>va. pte_of (memset (ram s') 0x80201000 0 PGSIZE) 0x80201000 va = 0" by blast
  then show ?thesis by (intro exI [of _ "s'\<lparr>ram := memset (ram s') 0x80201000 0 PGSIZE\<rparr>"]) simp
qed

theorem mappages_correct_witness:
  "\<exists>s r. pt_ok 0x80100000 s [0x80200000] 0x80201000 \<and>
    mappages s 0x80201000 0x1000 0x1000 0x300000 (PTE_W OR PTE_U) = Some r \<and>
    mapped_run 0x80100000 s 0x80201000 (PGROUNDDOWN 0x1000) 0 0x300000 (PTE_W OR PTE_U) r"
proof -
  obtain s where s: "pt_ok 0x80100000 s [0x80200000] 0x80201000" using two_pages_demo by blast
  show ?thesis
    using mappages_correct [OF s, of "0x1000" "0x1000" "0x300000" "PTE_W OR PTE_U"] s by auto
qed

lemma shmem_va_facts:
  assumes "i < NSHAREPAGE"
  shows "unat (shmem_va i) = 2147483648 - (i + 1) * 4096" "PGROUNDDOWN (shmem_va i) = shmem_va i"
proof -
  have "i = 0 \<or> i = 1 \<or> i = 2 \<or> i = 3" using assms by (auto simp: NSHAREPAGE_def)
  then show u: "unat (shmem_va i) = 2147483648 - (i + 1) * 4096"
    by (elim disjE) (simp_all add: shmem_va_def KERNBASE_def PGSIZE_def)
  have "unat (PGROUNDDOWN (shmem_va i)) = unat (shmem_va i)"
    unfolding unat_PGROUNDDOWN u using \<open>i = 0 \<or> i = 1 \<or> i = 2 \<or> i = 3\<close> by auto
  then show "PGROUNDDOWN (shmem_va i) = shmem_va i" by (simp only: word_unat_eq_iff)
qed

lemma map_one_page:
  assumes "pt_ok kend s xs pgdir" and "i < NSHAREPAGE" and "\<not> present (pte_of (ram s) pgdir (shmem_va i))"
  shows "\<exists>c s'. mappages s pgdir (shmem_va i) PGSIZE pa perm = Some (Inr (c, s')) \<and> (c = 0 \<or> c = -1) \<and>
    (c = 0 \<longrightarrow> pte_of (ram s') pgdir (shmem_va i) = pa OR perm OR PTE_P) \<and>
    (\<exists>xs'. pt_ok kend s' xs' pgdir \<and> (c = -1 \<longrightarrow> xs' = [])) \<and>
    (\<forall>va. unat va div 4096 \<noteq> unat (shmem_va i) div 4096 \<longrightarrow> pte_of (ram s') pgdir va = pte_of (ram s) pgdir va)"
proof -
  note u = shmem_va_facts [OF assms(2)]
  have i: "i < 4" using assms(2) by (simp add: NSHAREPAGE_def)
  have "unat (shmem_va i) + unat PGSIZE \<le> 4294967296" using u i by (simp add: PGSIZE_def)
  then obtain r where r: "mappages s pgdir (shmem_va i) PGSIZE pa perm = Some r"
      "mapped_run kend s pgdir (shmem_va i) ((unat (shmem_va i) + unat PGSIZE - 1) div 4096 - unat (shmem_va i) div 4096) pa perm r"
    using mappages_runs [OF assms(1), of PGSIZE "shmem_va i" pa perm] u(2) by (auto simp: PGSIZE_def)
  have "4096 dvd unat (shmem_va i)" unfolding u(1) using i by (intro dvd_diff_nat) simp_all
  then obtain m where "unat (shmem_va i) = 4096 * m" by (elim dvdE)
  then have n: "(unat (shmem_va i) + unat PGSIZE - 1) div 4096 - unat (shmem_va i) div 4096 = 0" by (simp add: PGSIZE_def)
  show ?thesis
    using r(2) assms(3) unfolding n r(1) by (auto simp: mapped_run_def covers_def split: sum.splits)
qed

text \<open>
  \<^verbatim>\<open>shmem_access\<close> on a valid page number that the process does not use yet either panics because
  the mapping cannot be made, or returns the virtual address reserved for the page; the hardware then
  translates that address to the one physical page all processes share, writable from user mode, the
  user count of the page is one higher, and no other address of the process changes its translation.
\<close>

theorem shmem_access_maps:
  assumes "pt_ok kend s xs (vpgdir p)" and "0 \<le> n" and "n < int NSHAREPAGE" and "shared_page p ! nat n = 0"
    and "\<not> present (pte_of (ram s) (vpgdir p) (shmem_va (nat n)))" and "vsz p \<le> V2P (shmem_va (nat n))"
  shows "shmem_access s g p n = Some (Inl (Panic ''mappages is fail in the shmem_access'')) \<or>
    (\<exists>s'. shmem_access s g p n = Some (Inr (Some (shmem_va (nat n)), p\<lparr>shared_page := (shared_page p)[nat n := shmem_va (nat n)]\<rparr>,
            g\<lparr>sm_counts := (sm_counts g)[nat n := sm_counts g ! nat n + 1]\<rparr>, s')) \<and>
       pte_of (ram s') (vpgdir p) (shmem_va (nat n)) = V2P (sm_addr g ! nat n) OR (PTE_W OR PTE_U) OR PTE_P \<and>
       (\<forall>va. unat va div 4096 \<noteq> unat (shmem_va (nat n)) div 4096 \<longrightarrow>
          pte_of (ram s') (vpgdir p) va = pte_of (ram s) (vpgdir p) va))"
proof -
  have i: "nat n < NSHAREPAGE" using assms(2,3) by simp
  obtain c s' where m: "mappages s (vpgdir p) (shmem_va (nat n)) PGSIZE (V2P (sm_addr g ! nat n)) (PTE_W OR PTE_U) = Some (Inr (c, s'))"
      "c = 0 \<or> c = -1" "c = 0 \<longrightarrow> pte_of (ram s') (vpgdir p) (shmem_va (nat n)) = V2P (sm_addr g ! nat n) OR (PTE_W OR PTE_U) OR PTE_P"
      "\<forall>va. unat va div 4096 \<noteq> unat (shmem_va (nat n)) div 4096 \<longrightarrow> pte_of (ram s') (vpgdir p) va = pte_of (ram s) (vpgdir p) va"
    using map_one_page [OF assms(1) i assms(5)] by blast
  have "shmem_access s g p n = obind (Some (Inr (c, s'))) (\<lambda>(r, s).
      if r < 0 then Some (panic ''mappages is fail in the shmem_access'')
      else oret (Some (shmem_va (nat n)), p\<lparr>shared_page := (shared_page p)[nat n := shmem_va (nat n)]\<rparr>,
             g\<lparr>sm_counts := (sm_counts g)[nat n := sm_counts g ! nat n + 1]\<rparr>, s))"
    using assms(2-4,6) m(1) by (simp add: shmem_access_def Let_def)
  then show ?thesis using m(2-4) by auto
qed

theorem shmem_access_maps_witness:
  "\<exists>s p g. pt_ok 0x80100000 s [0x80200000] (vpgdir p) \<and>
    (shmem_access s g p 2 = Some (Inl (Panic ''mappages is fail in the shmem_access'')) \<or>
     (\<exists>r. shmem_access s g p 2 = Some (Inr (Some (shmem_va 2), r))))"
proof -
  obtain s where s: "pt_ok 0x80100000 s [0x80200000] 0x80201000" "\<forall>va. pte_of (ram s) 0x80201000 va = 0"
    using two_pages_demo by blast
  let ?p = "\<lparr>vsz = 0x2000, vpgdir = 0x80201000, shared_page = [0, 0, 0, 0]\<rparr>"
  have "vsz ?p \<le> V2P (shmem_va 2)" by (simp add: V2P_def shmem_va_def KERNBASE_def PGSIZE_def)
  then show ?thesis
    using shmem_access_maps [of "0x80100000" s "[0x80200000]" ?p 2 "\<lparr>sm_counts = [0, 0, 0, 0], sm_addr = []\<rparr>"] s
    by (intro exI [of _ s] exI [of _ ?p] exI [of _ "\<lparr>sm_counts = [0, 0, 0, 0], sm_addr = []\<rparr>"])
      (auto simp: NSHAREPAGE_def)
qed

end
