(* ===== verification/Shm.thy ===== *)
theory Shm
  imports Vm
begin

text \<open>
  The user counts of the shared memory pages of part 1 across processes: \<^verbatim>\<open>shmem_access\<close> and \<^verbatim>\<open>fork\<close>
  raise them, \<^verbatim>\<open>wait\<close> lowers them when it reaps a child, and \<^verbatim>\<open>exec\<close> forgets the pages of the process
  without lowering them. A process is represented by its array \<^verbatim>\<open>shared_page\<close>.
\<close>

text \<open>The loop \<^verbatim>\<open>wait\<close> runs over the pages of the child it reaps.\<close>

fun reap_shared :: "int list \<Rightarrow> u32 list \<Rightarrow> nat \<Rightarrow> nat \<Rightarrow> int list \<times> u32 list" where
  "reap_shared counts pages i 0 = (counts, pages)"
| "reap_shared counts pages i (Suc n) =
     (if pages ! i \<noteq> 0
      then reap_shared (counts[i := counts ! i - 1]) (pages[i := 0]) (Suc i) n
      else reap_shared counts pages (Suc i) n)"

text \<open>What \<^verbatim>\<open>exec\<close> does to the pages of the process when it commits to the new image.\<close>

definition exec_shared :: "u32 list \<Rightarrow> u32 list" where
  "exec_shared pages = replicate NSHAREPAGE 0"

section \<open>Effects on the counts\<close>

definition used :: "u32 list \<Rightarrow> nat \<Rightarrow> int" where
  "used pages i = (if pages ! i \<noteq> 0 then 1 else 0)"

definition users :: "u32 list list \<Rightarrow> nat \<Rightarrow> int" where
  "users ps i = sum_list (map (\<lambda>p. used p i) ps)"

lemma users_update: "j < length ps \<Longrightarrow> users (ps[j := q]) i = users ps i - used (ps ! j) i + used q i"
proof (induction ps arbitrary: j)
  case (Cons p ps)
  then show ?case by (cases j) (auto simp: users_def)
qed simp

lemma copy_shared_counts:
  "copy_shared s g d parent child i n = Some (Inr (True, child', g', s')) \<Longrightarrow>
   i + n \<le> length (sm_counts g) \<Longrightarrow> length (sm_counts g) = length child \<Longrightarrow>
   length (sm_counts g') = length (sm_counts g) \<and> length child' = length child \<and> sm_addr g' = sm_addr g \<and>
   (\<forall>k < length child. sm_counts g' ! k = sm_counts g ! k + (if i \<le> k \<and> k < i + n then used parent k else 0)) \<and>
   (\<forall>k < length child. child' ! k = (if i \<le> k \<and> k < i + n \<and> parent ! k \<noteq> 0 then parent ! k else child ! k))"
proof (induction s g d parent child i n rule: copy_shared.induct)
  case (1 s g d parent child i)
  then show ?case by auto
next
  case (2 s g d parent child i n)
  show ?case
  proof (cases "parent ! i \<noteq> 0")
    case False
    with 2 show ?thesis by (auto simp: used_def le_Suc_eq less_Suc_eq_le not_less_eq_eq)
  next
    case True
    let ?c = "child[i := parent ! i]" and ?g = "g\<lparr>sm_counts := (sm_counts g)[i := sm_counts g ! i + 1]\<rparr>"
    obtain r s1 where m: "mappages s d (?c ! i) PGSIZE (V2P (sm_addr g ! i)) (PTE_W OR PTE_U) = Some (Inr (r, s1))" "\<not> r < 0"
        "copy_shared s1 ?g d parent ?c (Suc i) n = Some (Inr (True, child', g', s'))"
      using "2.prems"(1) True
      by (auto simp: Let_def res_simps split: if_splits)
    have IH: "length (sm_counts g') = length (sm_counts ?g) \<and> length child' = length ?c \<and> sm_addr g' = sm_addr ?g \<and>
        (\<forall>k < length ?c. sm_counts g' ! k = sm_counts ?g ! k + (if Suc i \<le> k \<and> k < Suc i + n then used parent k else 0)) \<and>
        (\<forall>k < length ?c. child' ! k = (if Suc i \<le> k \<and> k < Suc i + n \<and> parent ! k \<noteq> 0 then parent ! k else ?c ! k))"
      using "2.IH"(1) [OF True refl m(2,3)] "2.prems"(2,3) by simp
    have "i < length child" using "2.prems" by simp
    with IH True "2.prems"(3) show ?thesis
      by (auto simp: used_def nth_list_update less_Suc_eq_le Suc_le_eq)
  qed
qed

lemma reap_shared_counts:
  "reap_shared counts pages i n = (counts', pages') \<Longrightarrow> i + n \<le> length pages \<Longrightarrow> length counts = length pages \<Longrightarrow>
   length counts' = length counts \<and> length pages' = length pages \<and>
   (\<forall>k < length pages. counts' ! k = counts ! k - (if i \<le> k \<and> k < i + n then used pages k else 0) \<and>
      pages' ! k = (if i \<le> k \<and> k < i + n then 0 else pages ! k))"
proof (induction counts pages i n rule: reap_shared.induct)
  case (1 counts pages i)
  then show ?case by auto
next
  case (2 counts pages i n)
  have i: "i < length pages" using "2.prems" by simp
  have split: "i \<le> k \<and> k < i + Suc n \<longleftrightarrow> k = i \<or> Suc i \<le> k \<and> k < Suc i + n" for k by auto
  show ?case
  proof (cases "pages ! i \<noteq> 0")
    case True
    have u: "used pages i = 1" "\<And>k. k \<noteq> i \<Longrightarrow> used (pages[i := 0]) k = used pages k" using True by (auto simp: used_def)
    show ?thesis using "2.IH"(1) [OF True] "2.prems" True i u unfolding split by (auto simp: nth_list_update)
  next
    case False
    then have "used pages i = 0" by (simp add: used_def)
    then show ?thesis using "2.IH"(2) [OF False] "2.prems" False i unfolding split by auto
  qed
qed

section \<open>Processes that share pages\<close>

text \<open>
  \<open>ps\<close> holds the arrays of all slots of the process table; slots that are not in use have no page.
  Processes access pages, fork into a slot without pages, and are reaped, in any order; the memory
  state may be anything at each step.
\<close>

inductive shm_run :: "shm \<Rightarrow> u32 list list \<Rightarrow> bool" where
  boot: "sm_counts g = replicate NSHAREPAGE 0 \<Longrightarrow> shm_run g (replicate n (replicate NSHAREPAGE 0))"
| access: "shm_run g ps \<Longrightarrow> j < length ps \<Longrightarrow> shared_page p = ps ! j \<Longrightarrow>
    shmem_access s g p page = Some (Inr (r, p', g', s')) \<Longrightarrow> shm_run g' (ps[j := shared_page p'])"
| forked: "shm_run g ps \<Longrightarrow> j < length ps \<Longrightarrow> c < length ps \<Longrightarrow> ps ! c = replicate NSHAREPAGE 0 \<Longrightarrow>
    copy_shared s g d (ps ! j) (ps ! c) 0 NSHAREPAGE = Some (Inr (True, child, g', s')) \<Longrightarrow> shm_run g' (ps[c := child])"
| reaped: "shm_run g ps \<Longrightarrow> c < length ps \<Longrightarrow> reap_shared (sm_counts g) (ps ! c) 0 NSHAREPAGE = (counts, pages) \<Longrightarrow>
    shm_run (g\<lparr>sm_counts := counts\<rparr>) (ps[c := pages])"

definition counts_ok :: "shm \<Rightarrow> u32 list list \<Rightarrow> bool" where
  "counts_ok g ps \<longleftrightarrow> length (sm_counts g) = NSHAREPAGE \<and> (\<forall>p \<in> set ps. length p = NSHAREPAGE) \<and>
     (\<forall>i < NSHAREPAGE. sm_counts g ! i = users ps i)"

lemma counts_ok_update:
  assumes "counts_ok g ps" and "j < length ps" and "length q = NSHAREPAGE" and "length (sm_counts g') = NSHAREPAGE"
    and "\<And>i. i < NSHAREPAGE \<Longrightarrow> sm_counts g' ! i = sm_counts g ! i - used (ps ! j) i + used q i"
  shows "counts_ok g' (ps[j := q])"
proof -
  have "\<forall>p \<in> set (ps[j := q]). length p = NSHAREPAGE"
    using assms(1,3) set_update_subset_insert [of ps j q] by (auto simp: counts_ok_def)
  with assms show ?thesis by (simp add: counts_ok_def users_update)
qed

lemma shmem_access_counts:
  assumes acc: "shmem_access s g p page = Some (Inr (r, p', g', s'))"
    and len: "length (sm_counts g) = NSHAREPAGE" "length (shared_page p) = NSHAREPAGE"
  shows "length (sm_counts g') = NSHAREPAGE \<and> length (shared_page p') = NSHAREPAGE \<and>
    (\<forall>i < NSHAREPAGE. sm_counts g' ! i = sm_counts g ! i - used (shared_page p) i + used (shared_page p') i)"
proof (cases "page < 0 \<or> page \<ge> int NSHAREPAGE \<or> shared_page p ! nat page \<noteq> 0 \<or> vsz p > V2P (shmem_va (nat page))")
  case True
  then have "p' = p" "g' = g" using acc by (auto simp: shmem_access_def Let_def split: if_splits)
  then show ?thesis using len by simp
next
  case False
  let ?i = "nat page"
  have i: "?i < NSHAREPAGE" using False by linarith
  have e: "p' = p\<lparr>shared_page := (shared_page p)[?i := shmem_va ?i]\<rparr>" "g' = g\<lparr>sm_counts := (sm_counts g)[?i := sm_counts g ! ?i + 1]\<rparr>"
    using acc False by (auto simp: shmem_access_def Let_def res_simps split: if_splits)
  have "shmem_va ?i \<noteq> 0" using shmem_va_facts(1) [OF i] i by (auto simp: NSHAREPAGE_def)
  then show ?thesis using len i False by (auto simp: e used_def nth_list_update)
qed

lemma shm_run_counts: "shm_run g ps \<Longrightarrow> counts_ok g ps"
proof (induction rule: shm_run.induct)
  case (boot g n)
  then show ?case by (induction n) (auto simp: counts_ok_def users_def used_def)
next
  case (access g ps j p s page r p' g' s')
  have len: "length (sm_counts g) = NSHAREPAGE" "length (shared_page p) = NSHAREPAGE"
    using access by (auto simp: counts_ok_def)
  from shmem_access_counts [OF access.hyps(4) len] show ?case
    using access.IH access.hyps(2,3) by (intro counts_ok_update [of g]) auto
next
  case (forked g ps j c s d child g' s')
  then have len: "length (sm_counts g) = NSHAREPAGE" "length (ps ! c) = NSHAREPAGE" by (auto simp: counts_ok_def)
  note cs = copy_shared_counts [OF forked.hyps(5)]
  have "used (ps ! c) i = 0" if "i < NSHAREPAGE" for i using forked.hyps(4) that by (simp add: used_def)
  moreover have "used child i = used (ps ! j) i" if "i < NSHAREPAGE" for i
    using cs len that forked.hyps(4) by (simp add: used_def)
  ultimately show ?case
    using cs len forked.IH forked.hyps(3) by (intro counts_ok_update [of g]) auto
next
  case (reaped g ps c counts pages)
  then have len: "length (sm_counts g) = NSHAREPAGE" "length (ps ! c) = NSHAREPAGE" by (auto simp: counts_ok_def)
  with reap_shared_counts [OF reaped.hyps(3)] show ?case
    using reaped.IH reaped.hyps(2) by (intro counts_ok_update [of g]) (auto simp: used_def)
qed

section \<open>Properties\<close>


definition shm_demo :: shm where
  "shm_demo = \<lparr>sm_counts = replicate NSHAREPAGE 0, sm_addr = []\<rparr>"




end
