(* ===== verification/Fs.thy ===== *)
theory Fs
  imports Bytes Sleeplock Bio CString
begin

text \<open>
  The file system of part 2, \<^verbatim>\<open>fs.c\<close>: block bitmap, inodes and their cache, file contents (with the
  checksummed file type \<^verbatim>\<open>T_CHECKED\<close>), directories and path names.

  The routines run inside a transaction, where reading a block and logging a changed one acts on the
  logical contents of the disk (\<^verbatim>\<open>log.c\<close> and \<^verbatim>\<open>bio.c\<close>, theories Log and Bio): that is \<open>disk\<close>. What is
  left of the buffers is which blocks are locked (\<open>held\<close>): \<^verbatim>\<open>bread\<close> of a block whose buffer was never
  released waits forever. The running process is \<open>me\<close>. The tables of device routines \<^verbatim>\<open>devsw\<close> give
  the answer of a device; console messages are left out. There is one device.
\<close>

section \<open>Layout of the disk\<close>

definition NINODE :: nat where [layout_consts]: "NINODE = 50"
definition NDEV :: nat where [layout_consts]: "NDEV = 10"
definition ROOTINO :: u32 where [layout_consts]: "ROOTINO = 1"
definition NDIRECT :: nat where [layout_consts]: "NDIRECT = 12"
definition NINDIRECT :: nat where [layout_consts]: "NINDIRECT = 128"
definition MAXFILE :: nat where [layout_consts]: "MAXFILE = NDIRECT + NINDIRECT"
definition IPB :: nat where [layout_consts]: "IPB = 8"
definition BPB :: nat where [layout_consts]: "BPB = BSIZE * 8"
definition DIRSIZ :: nat where [layout_consts]: "DIRSIZ = 14"
definition T_DIR :: u16 where [layout_consts]: "T_DIR = 1"
definition T_FILE :: u16 where [layout_consts]: "T_FILE = 2"
definition T_DEV :: u16 where [layout_consts]: "T_DEV = 3"
definition T_CHECKED :: u16 where [layout_consts]: "T_CHECKED = 4"

record superblock =
  sb_size :: u32
  sb_nblocks :: u32
  sb_ninodes :: u32
  sb_nlog :: u32
  sb_logstart :: u32
  sb_inodestart :: u32
  sb_bmapstart :: u32

record dinode =
  dtype :: u16
  dmajor :: u16
  dminor :: u16
  dnlink :: u16
  dsize :: u32
  daddrs :: "u32 list"

record inode =
  idev :: u32
  inum :: u32
  iref :: int
  ilk :: sleeplock
  valid :: bool
  itype :: u16
  major :: u16
  minor :: u16
  nlink :: u16
  isize :: u32
  addrs :: "u32 list"

record fs =
  disk :: "u32 \<Rightarrow> block"
  held :: "u32 list"
  sb :: superblock
  icache :: "inode list"
  dev_read :: "nat \<Rightarrow> (u32 \<Rightarrow> int \<times> byte list) option"
  dev_write :: "nat \<Rightarrow> (byte list \<Rightarrow> int) option"
  me :: int

abbreviation inode_at :: "fs \<Rightarrow> nat \<Rightarrow> inode" where
  "inode_at s ip \<equiv> icache s ! ip"

definition upd_inode :: "nat \<Rightarrow> (inode \<Rightarrow> inode) \<Rightarrow> fs \<Rightarrow> fs" where
  "upd_inode ip f s = s\<lparr>icache := (icache s)[ip := f (inode_at s ip)]\<rparr>"

text \<open>\<^verbatim>\<open>bread\<close>, \<^verbatim>\<open>brelse\<close>, and a change of the data of a held buffer that is then logged.\<close>

definition bhold :: "fs \<Rightarrow> u32 \<Rightarrow> fs res" where
  "bhold s b = (if b \<in> set (held s) then Inl (Sleep ''buffer'') else ret (s\<lparr>held := b # held s\<rparr>))"

definition bdrop :: "fs \<Rightarrow> u32 \<Rightarrow> fs" where
  "bdrop s b = s\<lparr>held := remove1 b (held s)\<rparr>"

definition bstore :: "fs \<Rightarrow> u32 \<Rightarrow> block \<Rightarrow> fs" where
  "bstore s b blk = s\<lparr>disk := (disk s)(b := blk)\<rparr>"

section \<open>Blocks\<close>

definition get_sb :: "block \<Rightarrow> superblock" where
  "get_sb blk = \<lparr>sb_size = get32 blk 0, sb_nblocks = get32 blk 4, sb_ninodes = get32 blk 8, sb_nlog = get32 blk 12,
     sb_logstart = get32 blk 16, sb_inodestart = get32 blk 20, sb_bmapstart = get32 blk 24\<rparr>"

definition readsb :: "fs \<Rightarrow> fs res" where
  "readsb s = andthen (bhold s 1) (\<lambda>s. ret (bdrop (s\<lparr>sb := get_sb (disk s 1)\<rparr>) 1))"

definition bzero :: "fs \<Rightarrow> u32 \<Rightarrow> fs res" where
  "bzero s bno = andthen (bhold s bno) (\<lambda>s. ret (bdrop (bstore s bno (replicate BSIZE 0)) bno))"

definition BBLOCK :: "u32 \<Rightarrow> superblock \<Rightarrow> u32" where
  "BBLOCK b q = b div of_nat BPB + sb_bmapstart q"

definition IBLOCK :: "u32 \<Rightarrow> superblock \<Rightarrow> u32" where
  "IBLOCK i q = i div of_nat IPB + sb_inodestart q"

abbreviation bit_mask :: "nat \<Rightarrow> byte" where
  "bit_mask bi \<equiv> push_bit (bi mod 8) 1"

text \<open>The inner loop of \<^verbatim>\<open>balloc\<close>: the first zero bit from \<open>bi\<close> on.\<close>

function free_bit :: "block \<Rightarrow> nat \<Rightarrow> nat \<Rightarrow> nat \<Rightarrow> nat option" where
  "free_bit data b sz bi =
     (if bi < BPB \<and> b + bi < sz then
        if data ! (bi div 8) AND bit_mask bi = 0 then Some bi else free_bit data b sz (Suc bi)
      else None)"
  by pat_completeness auto
termination by (relation "measure (\<lambda>(data, b, sz, bi). BPB - bi)") auto

function balloc_loop :: "fs \<Rightarrow> nat \<Rightarrow> nat \<Rightarrow> (u32 \<times> fs) res" where
  "balloc_loop s sz b =
     (if b < sz then
        let bb = BBLOCK (of_nat b) (sb s)
        in andthen (bhold s bb) (\<lambda>s.
             case free_bit (disk s bb) b sz 0 of
               Some bi \<Rightarrow>
                 let data = disk s bb;
                     s = bdrop (bstore s bb (data[bi div 8 := data ! (bi div 8) OR bit_mask bi])) bb
                 in andthen (bzero s (of_nat (b + bi))) (\<lambda>s. ret (of_nat (b + bi), s))
             | None \<Rightarrow> balloc_loop (bdrop s bb) sz (b + BPB))
      else panic ''balloc: out of blocks'')"
  by pat_completeness auto
termination by (relation "measure (\<lambda>(s, sz, b). sz - b)") (auto simp: BPB_def BSIZE_def)

definition balloc :: "fs \<Rightarrow> (u32 \<times> fs) res" where
  "balloc s = balloc_loop s (unat (sb_size (sb s))) 0"

definition bfree :: "fs \<Rightarrow> u32 \<Rightarrow> fs res" where
  "bfree s b =
     andthen (readsb s) (\<lambda>s.
       let bb = BBLOCK b (sb s); bi = unat b mod BPB
       in andthen (bhold s bb) (\<lambda>s.
            let data = disk s bb
            in if data ! (bi div 8) AND bit_mask bi = 0 then panic ''freeing free block''
               else ret (bdrop (bstore s bb (data[bi div 8 := data ! (bi div 8) AND NOT (bit_mask bi)])) bb)))"

section \<open>Inodes\<close>

definition dinode_off :: "u32 \<Rightarrow> nat" where
  "dinode_off i = 64 * (unat i mod IPB)"

definition get_dinode :: "block \<Rightarrow> nat \<Rightarrow> dinode" where
  "get_dinode blk off = \<lparr>dtype = get16 blk off, dmajor = get16 blk (off + 2), dminor = get16 blk (off + 4),
     dnlink = get16 blk (off + 6), dsize = get32 blk (off + 8), daddrs = get_words blk (off + 12) (NDIRECT + 1)\<rparr>"

definition put_dinode :: "block \<Rightarrow> nat \<Rightarrow> dinode \<Rightarrow> block" where
  "put_dinode blk off d = put_words (put32 (put16 (put16 (put16 (put16 blk off (dtype d)) (off + 2) (dmajor d))
     (off + 4) (dminor d)) (off + 6) (dnlink d)) (off + 8) (dsize d)) (off + 12) (daddrs d)"

text \<open>\<^verbatim>\<open>iinit\<close>: the locks of the inode cache, and the superblock.\<close>

definition iinit :: "fs \<Rightarrow> fs res" where
  "iinit s = readsb (s\<lparr>icache := map (\<lambda>p. p\<lparr>ilk := initsleeplock\<rparr>) (icache s)\<rparr>)"

definition iget :: "fs \<Rightarrow> u32 \<Rightarrow> u32 \<Rightarrow> (nat \<times> fs) res" where
  "iget s dev ino =
     (case find_index (\<lambda>p. iref p > 0 \<and> idev p = dev \<and> inum p = ino) (icache s) of
        Some ip \<Rightarrow> ret (ip, upd_inode ip (\<lambda>p. p\<lparr>iref := iref p + 1\<rparr>) s)
      | None \<Rightarrow>
          (case find_index (\<lambda>p. iref p = 0) (icache s) of
             None \<Rightarrow> panic ''iget: no inodes''
           | Some ip \<Rightarrow> ret (ip, upd_inode ip (\<lambda>p. p\<lparr>idev := dev, inum := ino, iref := 1, valid := False\<rparr>) s)))"

text \<open>\<^verbatim>\<open>memset(dip, 0, sizeof( *dip))\<close> followed by the store of the type.\<close>

definition clear_dinode :: "block \<Rightarrow> nat \<Rightarrow> u16 \<Rightarrow> block" where
  "clear_dinode blk off ty = put16 (take off blk @ replicate 64 0 @ drop (off + 64) blk) off ty"

function ialloc_loop :: "fs \<Rightarrow> u32 \<Rightarrow> u16 \<Rightarrow> nat \<Rightarrow> (nat \<times> fs) res" where
  "ialloc_loop s dev ty ino =
     (if ino < unat (sb_ninodes (sb s)) then
        let ib = IBLOCK (of_nat ino) (sb s); off = dinode_off (of_nat ino)
        in case bhold s ib of
             Inl e \<Rightarrow> Inl e
           | Inr s' \<Rightarrow>
               if get16 (disk s' ib) off = 0
               then iget (bdrop (bstore s' ib (clear_dinode (disk s' ib) off ty)) ib) dev (of_nat ino)
               else ialloc_loop (bdrop s' ib) dev ty (Suc ino)
      else panic ''ialloc: no inodes'')"
  by pat_completeness auto
termination
  by (relation "measure (\<lambda>(s, dev, ty, ino). unat (sb_ninodes (sb s)) - ino)")
    (auto simp: bhold_def bdrop_def split: if_splits)

definition ialloc :: "fs \<Rightarrow> u32 \<Rightarrow> u16 \<Rightarrow> (nat \<times> fs) res" where
  "ialloc s dev ty = ialloc_loop s dev ty 1"

definition iupdate :: "fs \<Rightarrow> nat \<Rightarrow> fs res" where
  "iupdate s ip =
     (let p = inode_at s ip; ib = IBLOCK (inum p) (sb s)
      in andthen (bhold s ib) (\<lambda>s.
           ret (bdrop (bstore s ib (put_dinode (disk s ib) (dinode_off (inum p))
             \<lparr>dtype = itype p, dmajor = major p, dminor = minor p, dnlink = nlink p, dsize = isize p, daddrs = addrs p\<rparr>)) ib)))"

definition idup :: "fs \<Rightarrow> nat \<Rightarrow> fs" where
  "idup s ip = upd_inode ip (\<lambda>p. p\<lparr>iref := iref p + 1\<rparr>) s"

definition ilock :: "fs \<Rightarrow> nat \<Rightarrow> fs res" where
  "ilock s ip =
     (if iref (inode_at s ip) < 1 then panic ''ilock''
      else andthen (acquiresleep (me s) (ilk (inode_at s ip))) (\<lambda>lk.
        let s = upd_inode ip (\<lambda>p. p\<lparr>ilk := lk\<rparr>) s
        in if valid (inode_at s ip) then ret s
           else let ib = IBLOCK (inum (inode_at s ip)) (sb s)
                in andthen (bhold s ib) (\<lambda>s.
                     let d = get_dinode (disk s ib) (dinode_off (inum (inode_at s ip)));
                         s = bdrop (upd_inode ip (\<lambda>p. p\<lparr>itype := dtype d, major := dmajor d, minor := dminor d,
                               nlink := dnlink d, isize := dsize d, addrs := daddrs d, valid := True\<rparr>) s) ib
                     in if itype (inode_at s ip) = 0 then panic ''ilock: no type'' else ret s)))"

definition iunlock :: "fs \<Rightarrow> nat \<Rightarrow> fs res" where
  "iunlock s ip =
     (if \<not> holdingsleep (me s) (ilk (inode_at s ip)) \<or> iref (inode_at s ip) < 1 then panic ''iunlock''
      else ret (upd_inode ip (\<lambda>p. p\<lparr>ilk := releasesleep (ilk p)\<rparr>) s))"

text \<open>The loop of \<^verbatim>\<open>itrunc\<close> over the direct blocks, and the one over the entries of the indirect block.\<close>

fun itrunc_direct :: "fs \<Rightarrow> nat \<Rightarrow> nat list \<Rightarrow> fs res" where
  "itrunc_direct s ip [] = ret s"
| "itrunc_direct s ip (i # is) =
     (let a = addrs (inode_at s ip) ! i
      in if a \<noteq> 0
         then andthen (bfree s a) (\<lambda>s. itrunc_direct (upd_inode ip (\<lambda>p. p\<lparr>addrs := (addrs p)[i := 0]\<rparr>) s) ip is)
         else itrunc_direct s ip is)"

fun itrunc_indirect :: "fs \<Rightarrow> u32 \<Rightarrow> nat list \<Rightarrow> fs res" where
  "itrunc_indirect s b [] = ret s"
| "itrunc_indirect s b (j # js) =
     (let a = get32 (disk s b) (4 * j)
      in if a \<noteq> 0 then andthen (bfree s a) (\<lambda>s. itrunc_indirect s b js) else itrunc_indirect s b js)"

definition itrunc :: "fs \<Rightarrow> nat \<Rightarrow> fs res" where
  "itrunc s ip =
     andthen (itrunc_direct s ip [0..<NDIRECT]) (\<lambda>s.
       let ind = addrs (inode_at s ip) ! NDIRECT
       in andthen
            (if ind \<noteq> 0
             then andthen (bhold s ind) (\<lambda>s.
                  andthen (itrunc_indirect s ind [0..<NINDIRECT]) (\<lambda>s.
                  andthen (bfree (bdrop s ind) ind) (\<lambda>s.
                  ret (upd_inode ip (\<lambda>p. p\<lparr>addrs := (addrs p)[NDIRECT := 0]\<rparr>) s))))
             else ret s)
            (\<lambda>s. iupdate (upd_inode ip (\<lambda>p. p\<lparr>isize := 0\<rparr>) s) ip))"

definition iput :: "fs \<Rightarrow> nat \<Rightarrow> fs res" where
  "iput s ip =
     andthen (acquiresleep (me s) (ilk (inode_at s ip))) (\<lambda>lk.
       let s = upd_inode ip (\<lambda>p. p\<lparr>ilk := lk\<rparr>) s
       in andthen
            (if valid (inode_at s ip) \<and> nlink (inode_at s ip) = 0 \<and> iref (inode_at s ip) = 1
             then andthen (itrunc s ip) (\<lambda>s.
                  andthen (iupdate (upd_inode ip (\<lambda>p. p\<lparr>itype := 0\<rparr>) s) ip) (\<lambda>s.
                  ret (upd_inode ip (\<lambda>p. p\<lparr>valid := False\<rparr>) s)))
             else ret s)
            (\<lambda>s. ret (upd_inode ip (\<lambda>p. p\<lparr>ilk := releasesleep (ilk p), iref := iref p - 1\<rparr>) s)))"

definition iunlockput :: "fs \<Rightarrow> nat \<Rightarrow> fs res" where
  "iunlockput s ip = andthen (iunlock s ip) (\<lambda>s. iput s ip)"

end
