(* ===== verification/Fsdata.thy ===== *)
theory Fsdata
  imports Fs
begin

text \<open>
  Contents of files: \<^verbatim>\<open>bmap\<close>, \<^verbatim>\<open>stati\<close>, \<^verbatim>\<open>readi\<close> and \<^verbatim>\<open>writei\<close> of \<^verbatim>\<open>fs.c\<close>, including what they do for
  files of type \<^verbatim>\<open>T_CHECKED\<close>, whose block addresses carry a checksum in their top byte.
\<close>

definition low24 :: "u32 \<Rightarrow> u32" where
  "low24 a = 0x00ffffff AND a"

definition bmap :: "fs \<Rightarrow> nat \<Rightarrow> nat \<Rightarrow> (u32 \<times> fs) res" where
  "bmap s ip bn =
     (let strip = (\<lambda>a. if itype (inode_at s ip) = T_CHECKED then low24 a else a)
      in if bn < NDIRECT then
           let addr = addrs (inode_at s ip) ! bn
           in if addr = 0
              then andthen (balloc s) (\<lambda>(addr, s).
                ret (strip addr, upd_inode ip (\<lambda>p. p\<lparr>addrs := (addrs p)[bn := addr]\<rparr>) s))
              else ret (strip addr, s)
         else if bn - NDIRECT < NINDIRECT then
           let bn = bn - NDIRECT; addr = addrs (inode_at s ip) ! NDIRECT
           in andthen
                (if addr = 0
                 then andthen (balloc s) (\<lambda>(addr, s).
                   ret (addr, upd_inode ip (\<lambda>p. p\<lparr>addrs := (addrs p)[NDIRECT := addr]\<rparr>) s))
                 else ret (addr, s))
                (\<lambda>(ind, s). andthen (bhold s ind) (\<lambda>s.
                   let addr = get32 (disk s ind) (4 * bn)
                   in andthen
                        (if addr = 0
                         then andthen (balloc s) (\<lambda>(addr, s). ret (addr, bstore s ind (put32 (disk s ind) (4 * bn) addr)))
                         else ret (addr, s))
                        (\<lambda>(addr, s). ret (strip addr, bdrop s ind))))
         else panic ''bmap: out of range'')"

record stat =
  st_type :: u16
  st_dev :: u32
  st_ino :: u32
  st_nlink :: u16
  st_size :: u32
  st_checksum :: byte

definition xor_top :: "u32 list \<Rightarrow> u32" where
  "xor_top as = fold (\<lambda>a c. c XOR (drop_bit 24 a AND 0xff)) as 0"

text \<open>
  \<^verbatim>\<open>stati\<close>; for a checked file with an indirect block it reads \<^verbatim>\<open>addrs[NINDIRECT]\<close>, beyond the array, and
  \<open>beyond\<close> is the word found there. The checksum of other files keeps its old value.
\<close>

definition stati :: "u32 \<Rightarrow> fs \<Rightarrow> nat \<Rightarrow> stat \<Rightarrow> (stat \<times> fs) res" where
  "stati beyond s ip st =
     (let p = inode_at s ip;
          st = st\<lparr>st_dev := idev p, st_ino := inum p, st_type := itype p, st_nlink := nlink p, st_size := isize p\<rparr>
      in if itype p = T_CHECKED then
           let c = xor_top (take NDIRECT (addrs p))
           in if addrs p ! NDIRECT \<noteq> 0
              then andthen (bhold s beyond) (\<lambda>s.
                ret (st\<lparr>st_checksum := ucast (c XOR xor_top (get_words (disk s beyond) 0 NINDIRECT))\<rparr>, bdrop s beyond))
              else ret (st\<lparr>st_checksum := ucast c\<rparr>, s)
         else ret (st, s))"

text \<open>The checksum of a block; the bytes are signed characters and are sign-extended.\<close>

definition block_sum :: "block \<Rightarrow> u32" where
  "block_sum blk = fold (\<lambda>b c. c XOR scast b) blk 0"

abbreviation dmin :: "nat \<Rightarrow> nat \<Rightarrow> nat" where
  "dmin a b \<equiv> if a < b then a else b"

text \<open>
  The search of \<^verbatim>\<open>readi\<close> for the address that carries the checksum: the first direct address of the block,
  or else the first word of the indirect block (the pointer of the loop never moves), or 0.
\<close>

definition checked_addr :: "fs \<Rightarrow> nat \<Rightarrow> u32 \<Rightarrow> (u32 \<times> fs) res" where
  "checked_addr s ip bno =
     (let as = addrs (inode_at s ip)
      in case find_index (\<lambda>a. a AND 0x00ffffff = bno) (take NDIRECT as) of
           Some i \<Rightarrow> ret (as ! i, s)
         | None \<Rightarrow>
             if as ! NDIRECT \<noteq> 0
             then andthen (bhold s (as ! NDIRECT)) (\<lambda>s.
               let w = get32 (disk s (as ! NDIRECT)) 0
               in ret (if w AND 0x00ffffff = bno then w else 0, bdrop s (as ! NDIRECT)))
             else ret (0, s))"

text \<open>
  The loop of \<^verbatim>\<open>readi\<close>: its return value and the bytes copied to \<^verbatim>\<open>dst\<close>. For a checked file it returns
  from the first block with 1 or -1, copies nothing, and does not release the block's buffer.
\<close>

function readi_loop :: "fs \<Rightarrow> nat \<Rightarrow> nat \<Rightarrow> nat \<Rightarrow> nat \<Rightarrow> byte list \<Rightarrow> (int \<times> byte list \<times> fs) res" where
  "readi_loop s ip off n tot dst =
     (if tot < n then
        andthen (bmap s ip (off div BSIZE)) (\<lambda>(bno, s).
        andthen (bmap s ip (off div BSIZE)) (\<lambda>(b, s).
        andthen (bhold s b) (\<lambda>s.
          let m = dmin (n - tot) (BSIZE - off mod BSIZE)
          in if itype (inode_at s ip) = T_CHECKED
             then andthen (checked_addr s ip bno) (\<lambda>(addr, s).
               if block_sum (disk s b) = drop_bit 24 addr then ret (1, dst, s) else ret (-1, dst, s))
             else readi_loop (bdrop s b) ip (off + m) n (tot + m) (dst @ take m (drop (off mod BSIZE) (disk s b))))))
      else ret (sint (of_nat n :: u32), dst, s))"
  by pat_completeness auto
termination
  by (relation "measure (\<lambda>(s, ip, off, n, tot, dst). n - tot)") (auto simp: BSIZE_def)

definition readi :: "fs \<Rightarrow> nat \<Rightarrow> u32 \<Rightarrow> u32 \<Rightarrow> (int \<times> byte list \<times> fs) res" where
  "readi s ip off n =
     (let p = inode_at s ip
      in if itype p = T_DEV then
           if sint (major p) < 0 \<or> sint (major p) \<ge> int NDEV then ret (-1, [], s)
           else (case dev_read s (unat (major p)) of
                   None \<Rightarrow> ret (-1, [], s)
                 | Some f \<Rightarrow> let (r, bs) = f n in ret (r, bs, s))
         else if off > isize p \<or> off + n < off then ret (-1, [], s)
         else let n = (if off + n > isize p then isize p - off else n)
              in readi_loop s ip (unat off) (unat n) 0 [])"

text \<open>
  What \<^verbatim>\<open>writei\<close> does with the checksum of a changed block of a checked file: it goes into the first direct
  address of the block, or else into the first matching word of the indirect block.
\<close>

definition store_checksum :: "fs \<Rightarrow> nat \<Rightarrow> u32 \<Rightarrow> block \<Rightarrow> fs res" where
  "store_checksum s ip bno data =
     (let as = addrs (inode_at s ip); w = bno + push_bit 24 (block_sum data)
      in case find_index (\<lambda>a. a AND 0x00ffffff = bno) (take NDIRECT as) of
           Some i \<Rightarrow> ret (upd_inode ip (\<lambda>p. p\<lparr>addrs := (addrs p)[i := w]\<rparr>) s)
         | None \<Rightarrow>
             andthen (bhold s (as ! NDIRECT)) (\<lambda>s.
               let ws = get_words (disk s (as ! NDIRECT)) 0 NINDIRECT
               in ret (bdrop
                    (case find_index (\<lambda>a. a AND 0x00ffffff = bno) ws of
                       Some i \<Rightarrow> bstore s (as ! NDIRECT) (put32 (disk s (as ! NDIRECT)) (4 * i) w)
                     | None \<Rightarrow> s) (as ! NDIRECT))))"

definition splice :: "'a list \<Rightarrow> nat \<Rightarrow> 'a list \<Rightarrow> 'a list" where
  "splice xs off ys = take off xs @ ys @ drop (off + length ys) xs"

function writei_loop :: "fs \<Rightarrow> nat \<Rightarrow> byte list \<Rightarrow> nat \<Rightarrow> nat \<Rightarrow> nat \<Rightarrow> (nat \<times> fs) res" where
  "writei_loop s ip src off n tot =
     (if tot < n then
        andthen (bmap s ip (off div BSIZE)) (\<lambda>(bno, s).
        andthen (bmap s ip (off div BSIZE)) (\<lambda>(b, s).
        andthen (bhold s b) (\<lambda>s.
          let m = dmin (n - tot) (BSIZE - off mod BSIZE);
              s = bstore s b (splice (disk s b) (off mod BSIZE) (take m (drop tot src)))
          in andthen (if itype (inode_at s ip) = T_CHECKED then store_checksum s ip bno (disk s b) else ret s) (\<lambda>s.
             writei_loop (bdrop s b) ip src (off + m) n (tot + m)))))
      else ret (off, s))"
  by pat_completeness auto
termination
  by (relation "measure (\<lambda>(s, ip, src, off, n, tot). n - tot)") (auto simp: BSIZE_def)

definition writei :: "fs \<Rightarrow> nat \<Rightarrow> byte list \<Rightarrow> u32 \<Rightarrow> u32 \<Rightarrow> (int \<times> fs) res" where
  "writei s ip src off n =
     (let p = inode_at s ip
      in if itype p = T_DEV then
           if sint (major p) < 0 \<or> sint (major p) \<ge> int NDEV then ret (-1, s)
           else (case dev_write s (unat (major p)) of
                   None \<Rightarrow> ret (-1, s)
                 | Some f \<Rightarrow> ret (f (take (unat n) src), s))
         else if off > isize p \<or> off + n < off then ret (-1, s)
         else if off + n > of_nat (MAXFILE * BSIZE) then ret (-1, s)
         else andthen (writei_loop s ip src (unat off) (unat n) 0) (\<lambda>(off, s).
           if n > 0 \<and> of_nat off > isize (inode_at s ip)
           then andthen (iupdate (upd_inode ip (\<lambda>p. p\<lparr>isize := of_nat off\<rparr>) s) ip) (\<lambda>s. ret (sint n, s))
           else ret (sint n, s)))"

end
