(* ===== verification/Dir.thy ===== *)
theory Dir
  imports Fsdata
begin

text \<open>
  Directories and path names of \<^verbatim>\<open>fs.c\<close>. A path is the list of its characters before the NUL; a name is
  the contents of the 14-byte buffer up to its NUL. Offsets in a directory are natural numbers: they
  stay below the size of the directory, which the routines do not change while they scan it.
\<close>

definition namecmp :: "byte list \<Rightarrow> byte list \<Rightarrow> int" where
  "namecmp s t = strncmp (cstr_of s) (cstr_of t) DIRSIZ"

text \<open>A directory entry is 16 bytes: the inode number and the name.\<close>

definition de_inum :: "byte list \<Rightarrow> u16" where
  "de_inum de = get16 de 0"

definition de_name :: "byte list \<Rightarrow> byte list" where
  "de_name de = take DIRSIZ (drop 2 de)"

definition dirent :: "u32 \<Rightarrow> byte list \<Rightarrow> byte list" where
  "dirent ino name = put16 (replicate 2 0) 0 (ucast ino) @ strncpy (cstr_of name) (int DIRSIZ)"

function dirlookup_loop :: "fs \<Rightarrow> nat \<Rightarrow> byte list \<Rightarrow> nat \<Rightarrow> nat \<Rightarrow> ((nat \<times> nat) option \<times> fs) res" where
  "dirlookup_loop s dp name sz off =
     (if off < sz then
        andthen (readi s dp (of_nat off) 16) (\<lambda>(r, de, s).
          if r \<noteq> 16 then panic ''dirlookup read''
          else if de_inum de = 0 then dirlookup_loop s dp name sz (off + 16)
          else if namecmp name (de_name de) = 0
          then andthen (iget s (idev (inode_at s dp)) (ucast (de_inum de))) (\<lambda>(ip, s). ret (Some (ip, off), s))
          else dirlookup_loop s dp name sz (off + 16))
      else ret (None, s))"
  by pat_completeness auto
termination by (relation "measure (\<lambda>(s, dp, name, sz, off). sz - off)") auto

text \<open>The inode and the offset of the entry, or nothing.\<close>

definition dirlookup :: "fs \<Rightarrow> nat \<Rightarrow> byte list \<Rightarrow> ((nat \<times> nat) option \<times> fs) res" where
  "dirlookup s dp name =
     (if itype (inode_at s dp) \<noteq> T_DIR then panic ''dirlookup not DIR''
      else dirlookup_loop s dp name (unat (isize (inode_at s dp))) 0)"

text \<open>The offset of the first free entry, or the size of the directory.\<close>

function dirlink_slot :: "fs \<Rightarrow> nat \<Rightarrow> nat \<Rightarrow> nat \<Rightarrow> (nat \<times> fs) res" where
  "dirlink_slot s dp sz off =
     (if off < sz then
        andthen (readi s dp (of_nat off) 16) (\<lambda>(r, de, s).
          if r \<noteq> 16 then panic ''dirlink read''
          else if de_inum de = 0 then ret (off, s)
          else dirlink_slot s dp sz (off + 16))
      else ret (off, s))"
  by pat_completeness auto
termination by (relation "measure (\<lambda>(s, dp, sz, off). sz - off)") auto

definition dirlink :: "fs \<Rightarrow> nat \<Rightarrow> byte list \<Rightarrow> u32 \<Rightarrow> (int \<times> fs) res" where
  "dirlink s dp name ino =
     andthen (dirlookup s dp name) (\<lambda>(found, s).
       case found of
         Some (ip, _) \<Rightarrow> andthen (iput s ip) (\<lambda>s. ret (-1, s))
       | None \<Rightarrow>
           andthen (dirlink_slot s dp (unat (isize (inode_at s dp))) 0) (\<lambda>(off, s).
           andthen (writei s dp (dirent ino name) (of_nat off) 16) (\<lambda>(r, s).
             if r \<noteq> 16 then panic ''dirlink'' else ret (0, s))))"

section \<open>Paths\<close>

abbreviation slash :: byte where
  "slash \<equiv> 0x2f"

definition skipelem :: "byte list \<Rightarrow> (byte list \<times> byte list) option" where
  "skipelem path =
     (let s = dropWhile (\<lambda>c. c = slash) path
      in if s = [] then None
         else let path = dropWhile (\<lambda>c. c \<noteq> slash) s; len = length s - length path
              in Some (if len \<ge> DIRSIZ then take DIRSIZ s else take len s, dropWhile (\<lambda>c. c = slash) path))"

lemma skipelem_shorter: "skipelem path = Some (e, rest) \<Longrightarrow> length rest < length path"
proof -
  assume a: "skipelem path = Some (e, rest)"
  let ?s = "dropWhile (\<lambda>c. c = slash) path"
  have ne: "?s \<noteq> []" and r: "rest = dropWhile (\<lambda>c. c = slash) (dropWhile (\<lambda>c. c \<noteq> slash) ?s)"
    using a by (auto simp: skipelem_def Let_def split: if_splits)
  obtain c cs where c: "?s = c # cs" using ne by (cases ?s) auto
  have "c \<noteq> slash" using hd_dropWhile [of "\<lambda>c. c = slash" path] ne c by simp
  then have "dropWhile (\<lambda>c. c \<noteq> slash) ?s = dropWhile (\<lambda>c. c \<noteq> slash) cs" using c by simp
  then have "length rest \<le> length cs" using r length_dropWhile_le le_trans by metis
  also have "length cs < length ?s" using c by simp
  also have "length ?s \<le> length path" by (rule length_dropWhile_le)
  finally show ?thesis .
qed

text \<open>The result of \<^verbatim>\<open>namex\<close> is an inode with the last path element, or nothing.\<close>

function namex_loop :: "fs \<Rightarrow> nat \<Rightarrow> byte list \<Rightarrow> bool \<Rightarrow> byte list \<Rightarrow> ((nat \<times> byte list) option \<times> fs) res" where
  "namex_loop s ip path parent name =
     (case skipelem path of
        None \<Rightarrow> if parent then andthen (iput s ip) (\<lambda>s. ret (None, s)) else ret (Some (ip, name), s)
      | Some (name, path) \<Rightarrow>
          andthen (ilock s ip) (\<lambda>s.
            if itype (inode_at s ip) \<noteq> T_DIR then andthen (iunlockput s ip) (\<lambda>s. ret (None, s))
            else if parent \<and> path = [] then andthen (iunlock s ip) (\<lambda>s. ret (Some (ip, name), s))
            else andthen (dirlookup s ip name) (\<lambda>(found, s).
              case found of
                None \<Rightarrow> andthen (iunlockput s ip) (\<lambda>s. ret (None, s))
              | Some (next, _) \<Rightarrow> andthen (iunlockput s ip) (\<lambda>s. namex_loop s next path parent name))))"
  by pat_completeness auto
termination
  by (relation "measure (\<lambda>(s, ip, path, parent, name). length path)") (auto dest: skipelem_shorter)

definition namex :: "fs \<Rightarrow> nat \<Rightarrow> byte list \<Rightarrow> bool \<Rightarrow> ((nat \<times> byte list) option \<times> fs) res" where
  "namex s cwd path parent =
     (if path \<noteq> [] \<and> hd path = slash
      then andthen (iget s ROOTDEV ROOTINO) (\<lambda>(ip, s). namex_loop s ip path parent [])
      else namex_loop (idup s cwd) cwd path parent [])"

definition namei :: "fs \<Rightarrow> nat \<Rightarrow> byte list \<Rightarrow> (nat option \<times> fs) res" where
  "namei s cwd path = andthen (namex s cwd path False) (\<lambda>(r, s). ret (map_option fst r, s))"

definition nameiparent :: "fs \<Rightarrow> nat \<Rightarrow> byte list \<Rightarrow> ((nat \<times> byte list) option \<times> fs) res" where
  "nameiparent s cwd path = namex s cwd path True"

end
