(* ===== verification/Fsblock.thy ===== *)
theory Fsblock
  imports Fsdata
begin

text \<open>
  The block allocator: what it means for a file system to be laid out properly, the set of used
  blocks the bitmap stands for, and how \<^verbatim>\<open>balloc\<close>, \<^verbatim>\<open>bfree\<close>, \<^verbatim>\<open>iupdate\<close> and stores to data blocks act on it.
\<close>

section \<open>The bitmap as a set\<close>

definition bit_at :: "(u32 \<Rightarrow> block) \<Rightarrow> superblock \<Rightarrow> u32 \<Rightarrow> bool" where
  "bit_at d q b \<longleftrightarrow> bit (d (BBLOCK b q) ! (unat b mod BPB div 8)) (unat b mod 8)"

definition in_use :: "fs \<Rightarrow> u32 \<Rightarrow> bool" where
  "in_use s b \<longleftrightarrow> bit_at (disk s) (sb s) b"

text \<open>The boot block, the superblock, the inode blocks and the bitmap blocks.\<close>

definition meta :: "superblock \<Rightarrow> u32 \<Rightarrow> bool" where
  "meta q b \<longleftrightarrow> b = 0 \<or> b = 1 \<or> (\<exists>i. unat i < unat (sb_ninodes q) \<and> b = IBLOCK i q) \<or> (\<exists>k. unat k < unat (sb_size q) \<and> b = BBLOCK k q)"

text \<open>The kinds of metadata blocks do not overlap.\<close>

definition layout_ok :: "superblock \<Rightarrow> bool" where
  "layout_ok q \<longleftrightarrow>
     (\<forall>i. unat i < unat (sb_ninodes q) \<longrightarrow> IBLOCK i q \<noteq> 1 \<and> (\<forall>k. unat k < unat (sb_size q) \<longrightarrow> IBLOCK i q \<noteq> BBLOCK k q)) \<and>
     (\<forall>k. unat k < unat (sb_size q) \<longrightarrow> BBLOCK k q \<noteq> 1)"

definition fs_ok :: "fs \<Rightarrow> bool" where
  "fs_ok s \<longleftrightarrow> layout_ok (sb s) \<and> get_sb (disk s 1) = sb s \<and> (\<forall>b. length (disk s b) = BSIZE) \<and>
     (\<forall>b. meta (sb s) b \<longrightarrow> unat b < unat (sb_size (sb s)) \<and> in_use s b)"

text \<open>Buffers a process holds while it allocates are of allocated blocks that are not metadata.\<close>

definition held_ok :: "fs \<Rightarrow> bool" where
  "held_ok s \<longleftrightarrow> (\<forall>b \<in> set (held s). in_use s b \<and> \<not> meta (sb s) b)"

definition free_blocks :: "fs \<Rightarrow> u32 set" where
  "free_blocks s = {b. unat b < unat (sb_size (sb s)) \<and> \<not> in_use s b}"

lemma finite_free_blocks [simp]: "finite (free_blocks s)"
  by simp

section \<open>Bits\<close>

lemma and_mask_zero: "(x :: byte) AND push_bit n 1 = 0 \<longleftrightarrow> \<not> bit x n" if "n < 8"
proof -
  have "bit (x AND push_bit n 1) k = (k = n \<and> bit x n)" for k
    using that by (auto simp: bit_simps)
  then show ?thesis by (metis bit_0_eq bot_apply bot_bool_def bit_eq_iff)
qed

lemma bit_or_mask: "n < 8 \<Longrightarrow> m < 8 \<Longrightarrow> bit ((x :: byte) OR push_bit n 1) m \<longleftrightarrow> bit x m \<or> m = n"
  by (auto simp: bit_simps)

lemma bit_and_not_mask: "n < 8 \<Longrightarrow> m < 8 \<Longrightarrow> bit ((x :: byte) AND NOT (push_bit n 1)) m \<longleftrightarrow> bit x m \<and> m \<noteq> n"
  by (auto simp: bit_simps)

lemma BPB_num: "BPB = 4096"
  by (simp add: BPB_def BSIZE_def)

lemma BPB_mod8: "x mod BPB mod 8 = x mod 8"
  by (simp add: BPB_num mod_mod_cancel)

lemma unat_div_BPB: "unat ((b :: u32) div of_nat BPB) = unat b div 4096"
  by (simp add: BPB_num unat_div)

text \<open>A block number is determined by its bitmap block and its bit there.\<close>

lemma bit_place_inj:
  assumes "BBLOCK b q = BBLOCK c q" and "unat b mod BPB div 8 = unat c mod BPB div 8" and "unat b mod 8 = unat c mod 8"
  shows "b = c"
proof -
  have "b div of_nat BPB = c div of_nat BPB" using assms(1) by (simp add: BBLOCK_def)
  then have d: "unat b div 4096 = unat c div 4096" by (metis unat_div_BPB)
  have m: "x mod 8 = x mod 4096 mod 8" for x :: nat by (simp add: mod_mod_cancel)
  have "unat b mod 4096 = unat c mod 4096"
    using assms(2,3) m [of "unat b"] m [of "unat c"] unfolding BPB_num by (metis div_mult_mod_eq)
  with d have "unat b = unat c" by (metis div_mult_mod_eq)
  then show ?thesis by (simp add: word_unat_eq_iff)
qed

lemma bit_place_less: "unat (b :: u32) mod BPB div 8 < BSIZE"
  by (simp add: BPB_num BSIZE_def less_mult_imp_div_less)

lemma bit_at_store:
  assumes "length (d (BBLOCK b q)) = BSIZE" and "\<And>m. m < 8 \<Longrightarrow> bit x m \<longleftrightarrow> (if m = unat b mod 8 then v else bit (d (BBLOCK b q) ! (unat b mod BPB div 8)) m)"
  shows "bit_at (d(BBLOCK b q := (d (BBLOCK b q))[unat b mod BPB div 8 := x])) q c \<longleftrightarrow> (if c = b then v else bit_at d q c)"
proof (cases "BBLOCK c q = BBLOCK b q \<and> unat c mod BPB div 8 = unat b mod BPB div 8")
  case True
  then have "c = b \<longleftrightarrow> unat c mod 8 = unat b mod 8" using bit_place_inj [of c q b] by auto
  then show ?thesis using True assms(2) [of "unat c mod 8"] assms(1) bit_place_less [of b] by (auto simp: bit_at_def)
next
  case False
  then have "c \<noteq> b" by auto
  with False show ?thesis by (auto simp: bit_at_def nth_list_update)
qed

section \<open>Stores that keep the layout\<close>

lemma in_use_other: "b \<noteq> BBLOCK c (sb s) \<Longrightarrow> in_use (bstore s b blk) c = in_use s c"
  by (simp add: in_use_def bit_at_def bstore_def)

lemma bstore_sel [simp]:
  "held (bstore s b blk) = held s" "sb (bstore s b blk) = sb s" "icache (bstore s b blk) = icache s"
  "disk (bstore s b blk) = (disk s)(b := blk)" "me (bstore s b blk) = me s"
  by (simp_all add: bstore_def)

lemma bdrop_sel [simp]:
  "held (bdrop s b) = remove1 b (held s)" "sb (bdrop s b) = sb s" "icache (bdrop s b) = icache s"
  "disk (bdrop s b) = disk s" "me (bdrop s b) = me s"
  by (simp_all add: bdrop_def)

lemma upd_inode_sel [simp]:
  "held (upd_inode ip f s) = held s" "sb (upd_inode ip f s) = sb s" "disk (upd_inode ip f s) = disk s"
  "me (upd_inode ip f s) = me s" "icache (upd_inode ip f s) = (icache s)[ip := f (inode_at s ip)]"
  by (simp_all add: upd_inode_def)

lemma in_use_cong: "disk s = disk s' \<Longrightarrow> sb s = sb s' \<Longrightarrow> in_use s = in_use s'"
  by (rule ext) (simp add: in_use_def)

lemma fs_ok_cong: "disk s = disk s' \<Longrightarrow> sb s = sb s' \<Longrightarrow> fs_ok s = fs_ok s'"
  using in_use_cong [of s s'] by (simp add: fs_ok_def)

lemma fs_ok_sel:
  assumes "fs_ok s"
  shows "length (disk s b) = BSIZE" "meta (sb s) b \<Longrightarrow> in_use s b" "meta (sb s) b \<Longrightarrow> unat b < unat (sb_size (sb s))"
    "get_sb (disk s 1) = sb s" "layout_ok (sb s)"
  using assms by (simp_all add: fs_ok_def)

lemma bstore_data:
  assumes "fs_ok s" and "\<not> meta (sb s) b" and "length blk = BSIZE"
  shows "fs_ok (bstore s b blk)" and "unat c < unat (sb_size (sb s)) \<Longrightarrow> in_use (bstore s b blk) c = in_use s c"
proof -
  have u: "in_use (bstore s b blk) c = in_use s c" if "unat c < unat (sb_size (sb s))" for c
    using assms(2) that by (intro in_use_other) (auto simp: meta_def)
  then show "fs_ok (bstore s b blk)" using assms by (auto simp: fs_ok_def meta_def)
  show "unat c < unat (sb_size (sb s)) \<Longrightarrow> in_use (bstore s b blk) c = in_use s c" by (rule u)
qed

lemma bhold_runs [simp]: "b \<notin> set (held s) \<Longrightarrow> bhold s b = Inr (s\<lparr>held := b # held s\<rparr>)"
  by (simp add: bhold_def)

lemma bhold_stuck: "b \<in> set (held s) \<Longrightarrow> bhold s b = Inl (Sleep ''buffer'')"
  by (simp add: bhold_def)

lemma bzero_runs: "b \<notin> set (held s) \<Longrightarrow> bzero s b = Inr (bstore s b (replicate BSIZE 0))"
  by (simp add: bzero_def bdrop_def bstore_def)

section \<open>Allocation\<close>

declare free_bit.simps [simp del]
declare balloc_loop.simps [simp del]

lemma free_bit_Some:
  "free_bit data b sz bi = Some j \<Longrightarrow> bi \<le> j \<and> j < BPB \<and> b + j < sz \<and> \<not> bit (data ! (j div 8)) (j mod 8)"
proof (induction data b sz bi rule: free_bit.induct)
  case (1 data b sz bi)
  then show ?case using and_mask_zero [of "bi mod 8" "data ! (bi div 8)"]
    by (subst (asm) (2) free_bit.simps) (auto split: if_splits)
qed

lemma free_bit_None:
  "free_bit data b sz bi = None \<Longrightarrow> bi \<le> j \<Longrightarrow> j < BPB \<Longrightarrow> b + j < sz \<Longrightarrow> bit (data ! (j div 8)) (j mod 8)"
proof (induction data b sz bi rule: free_bit.induct)
  case (1 data b sz bi)
  then show ?case using and_mask_zero [of "bi mod 8" "data ! (bi div 8)"]
    by (cases "j = bi") (auto simp: free_bit.simps [of data b sz bi] split: if_splits)
qed

text \<open>The effect of an allocation.\<close>

definition allocated :: "fs \<Rightarrow> u32 \<Rightarrow> fs \<Rightarrow> bool" where
  "allocated s b s' \<longleftrightarrow> b \<in> free_blocks s \<and> fs_ok s' \<and> sb s' = sb s \<and> icache s' = icache s \<and> held s' = held s \<and>
     me s' = me s \<and> (\<forall>c. unat c < unat (sb_size (sb s)) \<longrightarrow> in_use s' c = (c = b \<or> in_use s c)) \<and>
     disk s' b = replicate BSIZE 0 \<and> (\<forall>c. c \<noteq> b \<longrightarrow> \<not> meta (sb s) c \<longrightarrow> disk s' c = disk s c)"

lemma balloc_mark:
  assumes ok: "fs_ok s" and h: "held_ok s" and f: "b \<in> free_blocks s"
  shows "let bb = BBLOCK b (sb s); s1 = bstore s bb ((disk s bb)[unat b mod BPB div 8 := disk s bb ! (unat b mod BPB div 8) OR bit_mask (unat b)])
    in allocated s b (bstore s1 b (replicate BSIZE 0)) \<and> b \<notin> set (held s)"
proof -
  let ?bb = "BBLOCK b (sb s)" and ?i = "unat b mod BPB div 8"
  let ?s1 = "bstore s ?bb ((disk s ?bb)[?i := disk s ?bb ! ?i OR bit_mask (unat b)])"
  have b: "unat b < unat (sb_size (sb s))" "\<not> in_use s b" using f by (auto simp: free_blocks_def)
  have nm: "\<not> meta (sb s) b" using fs_ok_sel(2) [OF ok] b by blast
  have mb: "meta (sb s) ?bb" using b by (auto simp: meta_def)
  have m: "bit (x OR bit_mask (unat b)) m \<longleftrightarrow> (if m = unat b mod 8 then True else bit x m)" if "m < 8" for m and x :: byte
    using bit_or_mask [of "unat b mod 8" m x] that by auto
  have u: "in_use ?s1 c = (c = b \<or> in_use s c)" for c
    using bit_at_store [where d = "disk s" and c = c, OF fs_ok_sel(1) [OF ok] m] by (simp add: in_use_def)
  have "?bb \<noteq> 1" using fs_ok_sel(5) [OF ok] b by (auto simp: layout_ok_def)
  then have ok1: "fs_ok ?s1" using ok u by (auto simp: fs_ok_def)
  have z: "fs_ok (bstore ?s1 b (replicate BSIZE 0))" "unat c < unat (sb_size (sb s)) \<Longrightarrow> in_use (bstore ?s1 b (replicate BSIZE 0)) c = in_use ?s1 c" for c
    using bstore_data [OF ok1, of b "replicate BSIZE 0"] nm by auto
  have "b \<notin> set (held s)" using h b by (auto simp: held_ok_def)
  moreover have "c \<noteq> ?bb" if "\<not> meta (sb s) c" for c using that mb by auto
  ultimately show ?thesis
    using f z u unfolding Let_def allocated_def by auto
qed

lemma place:
  assumes "k mod BPB = 0" and "j < BPB" and "k + j < 4294967296"
  shows "BBLOCK (of_nat (k + j)) q = BBLOCK (of_nat k) q" and "unat (of_nat (k + j) :: u32) mod BPB = j"
    and "unat (of_nat (k + j) :: u32) mod 8 = j mod 8"
proof -
  obtain a where a: "k = 4096 * a" using assms(1) unfolding BPB_num by auto
  have u: "unat (of_nat (k + j) :: u32) = k + j" "unat (of_nat k :: u32) = k" using assms(3) by (simp_all del: of_nat_add)
  have "unat (of_nat (k + j) div of_nat BPB :: u32) = unat (of_nat k div of_nat BPB :: u32)"
    unfolding unat_div_BPB u using assms(2) unfolding a BPB_num by simp
  then have "(of_nat (k + j) :: u32) div of_nat BPB = of_nat k div of_nat BPB" by (rule word_unat_eq_iff [THEN iffD2])
  then show "BBLOCK (of_nat (k + j)) q = BBLOCK (of_nat k) q" by (simp only: BBLOCK_def)
  show "unat (of_nat (k + j) :: u32) mod BPB = j" unfolding u using assms(2) unfolding a BPB_num by simp
  show "unat (of_nat (k + j) :: u32) mod 8 = j mod 8"
    unfolding u unfolding a using mod_mult_self2 [of j 8 "512 * a"] by (simp add: add.commute)
qed

lemma held_state [simp]:
  "fs_ok (s\<lparr>held := h\<rparr>) = fs_ok s" "in_use (s\<lparr>held := h\<rparr>) = in_use s" "free_blocks (s\<lparr>held := h\<rparr>) = free_blocks s"
  by (simp_all add: fs_ok_def in_use_def fun_eq_iff free_blocks_def)

lemma balloc_loop_runs:
  assumes "fs_ok s" and "held_ok s" and "k mod BPB = 0" and "sz = unat (sb_size (sb s))"
    and "\<exists>c \<in> free_blocks s. k \<le> unat c"
  shows "\<exists>c s'. balloc_loop s sz k = Inr (c, s') \<and> allocated s c s'"
  using assms
proof (induction "sz - k" arbitrary: k rule: less_induct)
  case less
  obtain c where c: "c \<in> free_blocks s" "k \<le> unat c" using less.prems by blast
  have cs: "unat c < sz" "\<not> in_use s c" using c less.prems(4) by (auto simp: free_blocks_def)
  have sz: "sz < 4294967296" using less.prems(4) by simp
  let ?bb = "BBLOCK (of_nat k) (sb s)"
  have "meta (sb s) ?bb"
  proof -
    have "unat (of_nat k :: u32) < unat (sb_size (sb s))" using cs c sz less.prems(4) by (subst unat_of_nat_u32) linarith+
    then show ?thesis by (auto simp: meta_def)
  qed
  then have nh: "?bb \<notin> set (held s)" using less.prems(2) by (auto simp: held_ok_def)
  have bd: "bdrop (s\<lparr>held := ?bb # held s\<rparr>) ?bb = s" by (simp add: bdrop_def)
  show ?case
  proof (cases "free_bit (disk s ?bb) k sz 0")
    case (Some j)
    then have j: "j < BPB" "k + j < sz" "\<not> bit (disk s ?bb ! (j div 8)) (j mod 8)" using free_bit_Some [OF Some] by auto
    let ?b = "of_nat (k + j) :: u32"
    have pl: "BBLOCK ?b (sb s) = ?bb" "unat ?b mod BPB = j" "unat ?b mod 8 = j mod 8"
      using place [OF less.prems(3) j(1)] j sz by auto
    have "unat ?b = k + j" using j(2) sz by (intro unat_of_nat_u32) linarith
    then have "unat ?b < unat (sb_size (sb s))" using j(2) less.prems(4) by simp
    moreover have "\<not> in_use s ?b" using j(3) unfolding in_use_def bit_at_def pl .
    ultimately have "?b \<in> free_blocks s" by (simp add: free_blocks_def)
    from balloc_mark [OF less.prems(1,2) this] have al: "allocated s ?b (bstore (bstore s ?bb ((disk s ?bb)[j div 8 := disk s ?bb ! (j div 8) OR bit_mask j])) ?b (replicate BSIZE 0))"
        "?b \<notin> set (held s)"
      unfolding Let_def pl by blast+
    have "balloc_loop s sz k = Inr (?b, bstore (bstore s ?bb ((disk s ?bb)[j div 8 := disk s ?bb ! (j div 8) OR bit_mask j])) ?b (replicate BSIZE 0))"
      using nh Some j cs c al(2)
      by (subst balloc_loop.simps) (simp add: Let_def bzero_runs bdrop_def bstore_def del: of_nat_add)
    then show ?thesis using al(1) by blast
  next
    case None
    have "k + BPB \<le> unat c"
    proof (rule ccontr)
      assume "\<not> ?thesis"
      then obtain j where j: "unat c = k + j" "j < BPB" using c(2) by (metis le_Suc_ex not_less nat_add_left_cancel_less)
      then have cj: "c = of_nat (k + j)" by (metis of_nat_unat ucast_id)
      have b: "bit (disk s ?bb ! (j div 8)) (j mod 8)" using free_bit_None [OF None, of j] j cs by simp
      have "k + j < 4294967296" using cs(1) j(1) sz by linarith
      then show False using b cs(2) place [OF less.prems(3) j(2)] unfolding in_use_def bit_at_def cj by simp
    qed
    then have "\<exists>c s'. balloc_loop s sz (k + BPB) = Inr (c, s') \<and> allocated s c s'"
      using less.prems(1-4) c cs by (intro less.hyps) (auto simp: BPB_num)
    moreover have "balloc_loop s sz k = balloc_loop s sz (k + BPB)"
      using nh None cs c bd by (subst balloc_loop.simps) (simp add: Let_def)
    ultimately show ?thesis by simp
  qed
qed

lemma balloc_runs:
  assumes "fs_ok s" and "held_ok s" and "free_blocks s \<noteq> {}"
  obtains b s' where "balloc s = Inr (b, s')" "allocated s b s'"
proof -
  have "\<exists>c s'. balloc_loop s (unat (sb_size (sb s))) 0 = Inr (c, s') \<and> allocated s c s'"
    using assms by (intro balloc_loop_runs) auto
  then show ?thesis using that by (auto simp: balloc_def)
qed

lemma allocated_free: "allocated s b s' \<Longrightarrow> free_blocks s' = free_blocks s - {b}"
  by (auto simp: allocated_def free_blocks_def)

section \<open>Freeing\<close>

lemma bfree_runs:
  assumes ok: "fs_ok s" and h: "\<forall>c \<in> set (held s). \<not> meta (sb s) c" and b: "unat b < unat (sb_size (sb s))" "in_use s b" "\<not> meta (sb s) b"
  obtains s' where "bfree s b = Inr s'" "fs_ok s'" "sb s' = sb s" "icache s' = icache s" "held s' = held s" "me s' = me s"
    "\<And>c. in_use s' c = (c \<noteq> b \<and> in_use s c)" "\<And>c. \<not> meta (sb s) c \<Longrightarrow> disk s' c = disk s c"
proof -
  let ?bb = "BBLOCK b (sb s)" and ?i = "unat b mod BPB div 8"
  let ?s' = "bstore s ?bb ((disk s ?bb)[?i := disk s ?bb ! ?i AND NOT (bit_mask (unat b))])"
  have m: "bit (x AND NOT (bit_mask (unat b))) m \<longleftrightarrow> (if m = unat b mod 8 then False else bit x m)" if "m < 8" for m and x :: byte
    using bit_and_not_mask [of "unat b mod 8" m x] that by auto
  have u: "in_use ?s' c = (c \<noteq> b \<and> in_use s c)" for c
    using bit_at_store [where d = "disk s" and c = c, OF fs_ok_sel(1) [OF ok] m] by (simp add: in_use_def)
  have mb: "meta (sb s) ?bb" "meta (sb s) 1" using b by (auto simp: meta_def)
  then have nh: "?bb \<notin> set (held s)" "1 \<notin> set (held s)" using h by auto
  have "?bb \<noteq> 1" using fs_ok_sel(5) [OF ok] b by (auto simp: layout_ok_def)
  then have ok': "fs_ok ?s'" using ok u b(3) by (auto simp: fs_ok_def)
  have rs: "readsb s = Inr s" using nh fs_ok_sel(4) [OF ok] by (simp add: readsb_def bdrop_def)
  have "\<not> disk s ?bb ! ?i AND push_bit (unat b mod 8) 1 = 0"
    using b(2) and_mask_zero [of "unat b mod 8" "disk s ?bb ! ?i"] by (simp add: in_use_def bit_at_def)
  then have "bfree s b = Inr ?s'"
    using nh rs unfolding bfree_def by (simp add: Let_def BPB_mod8 bdrop_def bstore_def)
  moreover have "disk ?s' c = disk s c" if "\<not> meta (sb s) c" for c using that mb by auto
  ultimately show ?thesis using that ok' u by (auto simp del: fun_upd_apply)
qed

lemma bfree_free_panics:
  assumes "fs_ok s" and "\<forall>c \<in> set (held s). \<not> meta (sb s) c" and "unat b < unat (sb_size (sb s))" and "\<not> in_use s b"
  shows "bfree s b = panic ''freeing free block''"
proof -
  let ?bb = "BBLOCK b (sb s)"
  have "meta (sb s) ?bb" "meta (sb s) 1" using assms(3) by (auto simp: meta_def)
  then have nh: "?bb \<notin> set (held s)" "1 \<notin> set (held s)" using assms(2) by auto
  have rs: "readsb s = Inr s" using nh fs_ok_sel(4) [OF assms(1)] by (simp add: readsb_def bdrop_def)
  have "disk s ?bb ! (unat b mod BPB div 8) AND push_bit (unat b mod 8) 1 = 0"
    using assms(4) and_mask_zero [of "unat b mod 8" "disk s ?bb ! (unat b mod BPB div 8)"] by (simp add: in_use_def bit_at_def)
  then show ?thesis using nh rs unfolding bfree_def by (simp add: Let_def BPB_mod8)
qed

end
