(* ===== verification/Fsfile.thy ===== *)
theory Fsfile
  imports Fsblock
begin

text \<open>
  Files as byte sequences: the contents an inode stands for, and proofs that \<^verbatim>\<open>bmap\<close>, \<^verbatim>\<open>readi\<close> and \<^verbatim>\<open>writei\<close>
  read and update exactly these contents, growing the file through the block allocator and its
  indirect block, without touching the blocks of other files.
\<close>

section \<open>The contents of a file\<close>

abbreviation indirect :: "fs \<Rightarrow> nat \<Rightarrow> u32" where
  "indirect s ip \<equiv> addrs (inode_at s ip) ! NDIRECT"

text \<open>The address of block \<open>n\<close> of the file, or 0.\<close>

definition blockmap :: "fs \<Rightarrow> nat \<Rightarrow> nat \<Rightarrow> u32" where
  "blockmap s ip n =
     (if n < NDIRECT then addrs (inode_at s ip) ! n
      else if indirect s ip = 0 then 0 else get32 (disk s (indirect s ip)) (4 * (n - NDIRECT)))"

definition content :: "fs \<Rightarrow> nat \<Rightarrow> nat \<Rightarrow> byte" where
  "content s ip k = (if blockmap s ip (k div BSIZE) = 0 then 0 else disk s (blockmap s ip (k div BSIZE)) ! (k mod BSIZE))"

definition data_block :: "fs \<Rightarrow> u32 \<Rightarrow> bool" where
  "data_block s b \<longleftrightarrow> unat b < unat (sb_size (sb s)) \<and> in_use s b \<and> \<not> meta (sb s) b"

definition file_blocks :: "fs \<Rightarrow> nat \<Rightarrow> u32 set" where
  "file_blocks s ip = insert (indirect s ip) (blockmap s ip ` {..<MAXFILE}) - {0}"

text \<open>An ordinary file or directory whose blocks are distinct allocated data blocks.\<close>

definition file_ok :: "fs \<Rightarrow> nat \<Rightarrow> bool" where
  "file_ok s ip \<longleftrightarrow> ip < length (icache s) \<and> length (addrs (inode_at s ip)) = NDIRECT + 1 \<and>
     itype (inode_at s ip) \<noteq> T_DEV \<and> itype (inode_at s ip) \<noteq> T_CHECKED \<and>
     (\<forall>b \<in> file_blocks s ip. data_block s b) \<and>
     (\<forall>m < MAXFILE. \<forall>n < MAXFILE. blockmap s ip m \<noteq> 0 \<longrightarrow> blockmap s ip m = blockmap s ip n \<longrightarrow> m = n) \<and>
     (\<forall>n < MAXFILE. blockmap s ip n \<noteq> 0 \<longrightarrow> blockmap s ip n \<noteq> indirect s ip)"

text \<open>The file has no hole: every byte below its size has a block.\<close>

definition file_full :: "fs \<Rightarrow> nat \<Rightarrow> bool" where
  "file_full s ip \<longleftrightarrow> (\<forall>k < unat (isize (inode_at s ip)). blockmap s ip (k div BSIZE) \<noteq> 0)"

lemma file_block_facts:
  assumes "file_ok s ip"
  shows "n < MAXFILE \<Longrightarrow> blockmap s ip n \<noteq> 0 \<Longrightarrow> data_block s (blockmap s ip n)"
    and "indirect s ip \<noteq> 0 \<Longrightarrow> data_block s (indirect s ip)"
    and "n < MAXFILE \<Longrightarrow> blockmap s ip n \<noteq> 0 \<Longrightarrow> blockmap s ip n \<noteq> indirect s ip"
    and "m < MAXFILE \<Longrightarrow> n < MAXFILE \<Longrightarrow> blockmap s ip m \<noteq> 0 \<Longrightarrow> blockmap s ip m = blockmap s ip n \<Longrightarrow> m = n"
    and "ip < length (icache s)" and "length (addrs (inode_at s ip)) = NDIRECT + 1"
    and "itype (inode_at s ip) \<noteq> T_DEV" and "itype (inode_at s ip) \<noteq> T_CHECKED"
  using assms unfolding file_ok_def file_blocks_def by auto

section \<open>Growing a file\<close>

text \<open>
  \<open>kept s ip s'\<close>: from \<open>s\<close> to \<open>s'\<close> only the file and its block addresses may have changed: it keeps
  the blocks it had, and every other file and every other inode is as before.
\<close>

definition kept :: "fs \<Rightarrow> nat \<Rightarrow> fs \<Rightarrow> bool" where
  "kept s ip s' \<longleftrightarrow> fs_ok s' \<and> file_ok s' ip \<and> sb s' = sb s \<and> me s' = me s \<and> held s' = held s \<and>
     (\<exists>as. icache s' = (icache s)[ip := (inode_at s ip)\<lparr>addrs := as\<rparr>]) \<and>
     (\<forall>c. data_block s c \<longrightarrow> data_block s' c) \<and>
     (\<forall>c. data_block s c \<longrightarrow> c \<notin> file_blocks s ip \<longrightarrow> disk s' c = disk s c \<and> c \<notin> file_blocks s' ip) \<and>
     (\<forall>m < MAXFILE. blockmap s ip m \<noteq> 0 \<longrightarrow> blockmap s' ip m = blockmap s ip m)"

lemma kept_refl: "fs_ok s \<Longrightarrow> file_ok s ip \<Longrightarrow> kept s ip s"
  unfolding kept_def by (auto intro!: exI [of _ "addrs (inode_at s ip)"])

lemma kept_trans: "kept s ip s1 \<Longrightarrow> kept s1 ip s2 \<Longrightarrow> kept s ip s2"
proof -
  assume a: "kept s ip s1" and b: "kept s1 ip s2"
  from a obtain as1 where i1: "icache s1 = (icache s)[ip := (inode_at s ip)\<lparr>addrs := as1\<rparr>]" by (auto simp: kept_def)
  from b obtain as2 where i2: "icache s2 = (icache s1)[ip := (inode_at s1 ip)\<lparr>addrs := as2\<rparr>]" by (auto simp: kept_def)
  have "ip < length (icache s)" using a i1 by (auto simp: kept_def file_ok_def)
  then have i: "icache s2 = (icache s)[ip := (inode_at s ip)\<lparr>addrs := as2\<rparr>]" using i1 i2 by simp
  have "\<forall>c. data_block s c \<longrightarrow> c \<notin> file_blocks s ip \<longrightarrow> disk s2 c = disk s c \<and> c \<notin> file_blocks s2 ip"
    using a b unfolding kept_def by metis
  moreover have "\<forall>m < MAXFILE. blockmap s ip m \<noteq> 0 \<longrightarrow> blockmap s2 ip m = blockmap s ip m"
    using a b unfolding kept_def by metis
  ultimately show ?thesis using a b i unfolding kept_def by simp blast
qed

lemma kept_inode:
  assumes "kept s ip s'"
  obtains as where "inode_at s' ip = (inode_at s ip)\<lparr>addrs := as\<rparr>" "ip < length (icache s)"
proof -
  obtain as where "icache s' = (icache s)[ip := (inode_at s ip)\<lparr>addrs := as\<rparr>]" "ip < length (icache s')"
    using assms by (auto simp: kept_def file_ok_def)
  then show ?thesis using that [of as] by simp
qed

text \<open>\<open>grown\<close>: the file may also have obtained blocks of zeros where it had none, with the same contents.\<close>

definition grown :: "fs \<Rightarrow> nat \<Rightarrow> fs \<Rightarrow> bool" where
  "grown s ip s' \<longleftrightarrow> kept s ip s' \<and> (\<forall>k < MAXFILE * BSIZE. content s' ip k = content s ip k)"

text \<open>\<open>wrote\<close>: the bytes \<open>bs\<close> now stand at offset \<open>off\<close>, and the rest of the contents is as before.\<close>

definition wrote_bytes :: "fs \<Rightarrow> nat \<Rightarrow> fs \<Rightarrow> nat \<Rightarrow> byte list \<Rightarrow> bool" where
  "wrote_bytes s ip s' off bs \<longleftrightarrow> kept s ip s' \<and>
     (\<forall>k < MAXFILE * BSIZE. content s' ip k = (if off \<le> k \<and> k < off + length bs then bs ! (k - off) else content s ip k))"

lemma grown_refl: "fs_ok s \<Longrightarrow> file_ok s ip \<Longrightarrow> grown s ip s"
  by (simp add: grown_def kept_refl)

lemma grown_trans: "grown s ip s1 \<Longrightarrow> grown s1 ip s2 \<Longrightarrow> grown s ip s2"
  using kept_trans by (auto simp: grown_def)

lemma wrote_after_grown: "grown s ip s1 \<Longrightarrow> wrote_bytes s1 ip s2 off bs \<Longrightarrow> wrote_bytes s ip s2 off bs"
  using kept_trans by (auto simp: grown_def wrote_bytes_def)

lemma wrote_append:
  "wrote_bytes s ip s1 off xs \<Longrightarrow> wrote_bytes s1 ip s2 (off + length xs) ys \<Longrightarrow> wrote_bytes s ip s2 off (xs @ ys)"
  using kept_trans [of s ip s1 s2] by (auto simp: wrote_bytes_def nth_append)

text \<open>
  One new block: an address slot of the file that was 0 now holds the freshly allocated block \<open>b\<close>.
  The slot is either the entry for block \<open>n\<close>, or the address of the indirect block.
\<close>

lemma grown_one:
  assumes ok: "fs_ok s" and f: "file_ok s ip" and al: "allocated s b s1"
    and s': "fs_ok s'" "sb s' = sb s" "me s' = me s" "held s' = held s"
    and ic: "icache s' = (icache s)[ip := (inode_at s ip)\<lparr>addrs := as\<rparr>]" "length as = NDIRECT + 1"
    and use: "\<And>c. unat c < unat (sb_size (sb s)) \<Longrightarrow> in_use s' c = (c = b \<or> in_use s c)"
    and dk: "disk s' b = replicate BSIZE 0" "\<And>c. data_block s c \<Longrightarrow> c \<noteq> indirect s ip \<Longrightarrow> disk s' c = disk s c"
    and bm: "\<And>m. m < MAXFILE \<Longrightarrow> blockmap s' ip m = (if slot = Some m then b else blockmap s ip m)"
    and slot: "\<And>m. slot = Some m \<Longrightarrow> m < MAXFILE \<and> blockmap s ip m = 0 \<and> indirect s' ip = indirect s ip"
    and ind: "slot = None \<Longrightarrow> indirect s ip = 0 \<and> indirect s' ip = b"
  shows "grown s ip s'"
proof -
  note F = file_block_facts [OF f]
  have b: "unat b < unat (sb_size (sb s))" "\<not> in_use s b" "b \<noteq> 0"
    using al fs_ok_sel(2) [OF ok, of 0] by (auto simp: allocated_def free_blocks_def meta_def)
  have nb: "\<not> data_block s b" using b by (simp add: data_block_def)
  have nm: "\<not> meta (sb s) b" using fs_ok_sel(2) [OF ok] b by blast
  have db: "data_block s' c \<longleftrightarrow> c = b \<or> data_block s c" for c
    using use [of c] s'(2) b nm by (auto simp: data_block_def)
  have fbs: "file_blocks s' ip = insert b (file_blocks s ip)"
  proof (cases slot)
    case None
    then have "blockmap s' ip ` {..<MAXFILE} = blockmap s ip ` {..<MAXFILE}" using bm by auto
    then show ?thesis using ind [OF None] b(3) by (auto simp: file_blocks_def)
  next
    case (Some m)
    have m: "m < MAXFILE" "blockmap s ip m = 0" "indirect s' ip = indirect s ip" using slot [OF Some] by auto
    have e: "blockmap s' ip ` {..<MAXFILE} = insert b (blockmap s ip ` ({..<MAXFILE} - {m}))"
      using bm Some m(1) by (auto simp: image_iff)
    have "insert 0 (blockmap s ip ` ({..<MAXFILE} - {m})) = insert 0 (blockmap s ip ` {..<MAXFILE})"
      using m(2) by auto
    then show ?thesis unfolding file_blocks_def e m(3) using b(3) by auto
  qed
  have inj: "k = n" if "k < MAXFILE" "n < MAXFILE" "blockmap s' ip k \<noteq> 0" "blockmap s' ip k = blockmap s' ip n" for k n
    using that(3,4) bm [OF that(1)] bm [OF that(2)] F(1) [OF that(1)] F(1) [OF that(2)] F(4) [OF that(1,2)] nb
    by (metis option.inject)
  have ni: "blockmap s' ip n \<noteq> indirect s' ip" if "n < MAXFILE" "blockmap s' ip n \<noteq> 0" for n
  proof (cases slot)
    case None
    then show ?thesis using that bm [OF that(1)] F(1) [OF that(1)] ind [OF None] nb by (metis option.distinct(1))
  next
    case (Some m)
    then show ?thesis using that bm [OF that(1)] F(2) F(3) [OF that(1)] slot [OF Some] nb b(3) by metis
  qed
  have len: "ip < length (icache s)" by (rule F(5))
  have "file_ok s' ip"
    using f inj ni fbs db len ic unfolding file_ok_def by auto
  moreover have "content s' ip k = content s ip k" if "k < MAXFILE * BSIZE" for k
  proof -
    have n: "k div BSIZE < MAXFILE" using that by (simp add: less_mult_imp_div_less)
    have "k mod BSIZE < BSIZE" by (simp add: BSIZE_def)
    then show ?thesis using bm [OF n] slot b(3) dk F(1,3) [OF n] by (auto simp: content_def)
  qed
  moreover have "disk s' c = disk s c \<and> c \<notin> file_blocks s' ip" if "data_block s c" "c \<notin> file_blocks s ip" for c
  proof -
    have "c \<noteq> indirect s ip"
      using that ok by (auto simp: file_blocks_def data_block_def meta_def)
    then show ?thesis using that dk(2) fbs nb by auto
  qed
  moreover have "blockmap s' ip m = blockmap s ip m" if "m < MAXFILE" "blockmap s ip m \<noteq> 0" for m
    using that bm [OF that(1)] slot by auto
  ultimately show ?thesis using s' ic db unfolding grown_def kept_def by auto
qed

lemma allocated_file:
  assumes "fs_ok s" and "file_ok s ip" and "allocated s b s1"
  shows "blockmap s1 ip m = blockmap s ip m" and "indirect s1 ip = indirect s ip" and "b \<noteq> 0"
    and "data_block s c \<Longrightarrow> c \<noteq> b \<and> disk s1 c = disk s c"
proof -
  have b: "b \<in> free_blocks s" "icache s1 = icache s" "\<And>c. c \<noteq> b \<Longrightarrow> \<not> meta (sb s) c \<Longrightarrow> disk s1 c = disk s c"
    using assms(3) by (auto simp: allocated_def)
  then show "b \<noteq> 0" using fs_ok_sel(2) [OF assms(1), of 0] by (auto simp: free_blocks_def meta_def)
  show d: "data_block s c \<Longrightarrow> c \<noteq> b \<and> disk s1 c = disk s c" for c
    using b by (cases "c = b") (auto simp: data_block_def free_blocks_def)
  show "indirect s1 ip = indirect s ip" using b by simp
  show "blockmap s1 ip m = blockmap s ip m"
    using b(2) d [OF file_block_facts(2) [OF assms(2)]] by (simp add: blockmap_def)
qed

lemma fs_ok_upd_inode [simp]: "fs_ok (upd_inode ip g s) = fs_ok s" "in_use (upd_inode ip g s) = in_use s" "free_blocks (upd_inode ip g s) = free_blocks s"
  using fs_ok_cong [of "upd_inode ip g s" s] in_use_cong [of "upd_inode ip g s" s] by (simp_all add: free_blocks_def)

text \<open>A direct block, or the indirect block itself, is allocated.\<close>

lemma alloc_slot:
  assumes ok: "fs_ok s" and f: "file_ok s ip" and al: "allocated s b s1" and n: "n \<le> NDIRECT" and z: "addrs (inode_at s ip) ! n = 0"
  defines "s' \<equiv> upd_inode ip (\<lambda>p. p\<lparr>addrs := (addrs p)[n := b]\<rparr>) s1"
  shows "grown s ip s'" and "n < NDIRECT \<Longrightarrow> blockmap s' ip n = b" and "n = NDIRECT \<Longrightarrow> indirect s' ip = b \<and> disk s' b = replicate BSIZE 0"
    and "free_blocks s' = free_blocks s - {b}"
proof -
  note F = file_block_facts [OF f] and A = allocated_file [OF ok f al]
  have a: "fs_ok s1" "sb s1 = sb s" "me s1 = me s" "held s1 = held s" "icache s1 = icache s" "disk s1 b = replicate BSIZE 0"
    using al by (auto simp: allocated_def)
  have in': "inode_at s' ip = (inode_at s ip)\<lparr>addrs := (addrs (inode_at s ip))[n := b]\<rparr>"
    using a(5) F(5) by (simp add: s'_def)
  have ind: "indirect s' ip = (if n = NDIRECT then b else indirect s ip)" using in' F(6) n by simp
  have zero: "get32 (replicate BSIZE 0) (4 * (m - NDIRECT)) = 0" if "m < MAXFILE" for m
    using that by (simp add: get32_def BSIZE_def MAXFILE_def NDIRECT_def NINDIRECT_def)
  have bm: "blockmap s' ip m = (if (if n < NDIRECT then Some n else None) = Some m then b else blockmap s ip m)" if "m < MAXFILE" for m
  proof (cases "m < NDIRECT")
    case True
    then show ?thesis using in' n F(6) by (auto simp: blockmap_def)
  next
    case False
    show ?thesis
    proof (cases "n = NDIRECT")
      case True
      then show ?thesis using False ind a(6) zero [OF that] z A(3) by (simp add: blockmap_def s'_def)
    next
      case nd: False
      have "indirect s ip \<noteq> 0 \<Longrightarrow> disk s' (indirect s ip) = disk s (indirect s ip)" using A(4) [OF F(2)] by (simp add: s'_def)
      then show ?thesis using False nd n ind by (auto simp: blockmap_def)
    qed
  qed
  show "grown s ip s'"
  proof (rule grown_one [OF ok f al, of s' "(addrs (inode_at s ip))[n := b]" "if n < NDIRECT then Some n else None"])
    show "icache s' = (icache s)[ip := (inode_at s ip)\<lparr>addrs := (addrs (inode_at s ip))[n := b]\<rparr>]" using a(5) by (simp add: s'_def)
    show "in_use s' c = (c = b \<or> in_use s c)" if "unat c < unat (sb_size (sb s))" for c
      using al that by (simp add: s'_def allocated_def)
  qed (use a bm ind z n A(4) F(6) in \<open>auto simp: s'_def blockmap_def MAXFILE_def split: if_splits\<close>)
  show "n < NDIRECT \<Longrightarrow> blockmap s' ip n = b" using bm [of n] by (simp add: MAXFILE_def)
  show "n = NDIRECT \<Longrightarrow> indirect s' ip = b \<and> disk s' b = replicate BSIZE 0" using ind a(6) by (simp add: s'_def)
  show "free_blocks s' = free_blocks s - {b}" using allocated_free [OF al] by (simp add: s'_def)
qed

text \<open>An entry of the indirect block is allocated while the indirect block is held.\<close>

lemma alloc_entry:
  assumes ok: "fs_ok s" and f: "file_ok s ip" and i: "i < NINDIRECT" and z: "blockmap s ip (NDIRECT + i) = 0"
    and ind: "indirect s ip \<noteq> 0" and al: "allocated s b s1"
  defines "s' \<equiv> bstore s1 (indirect s ip) (put32 (disk s1 (indirect s ip)) (4 * i) b)"
  shows "grown s ip s'" and "blockmap s' ip (NDIRECT + i) = b" and "free_blocks s' = free_blocks s - {b}"
proof -
  note F = file_block_facts [OF f] and A = allocated_file [OF ok f al]
  let ?d = "indirect s ip"
  have a: "fs_ok s1" "sb s1 = sb s" "me s1 = me s" "held s1 = held s" "icache s1 = icache s" "disk s1 b = replicate BSIZE 0"
    using al by (auto simp: allocated_def)
  have d: "?d \<noteq> b" "disk s1 ?d = disk s ?d" "\<not> meta (sb s) ?d" using A(4) [OF F(2) [OF ind]] F(2) [OF ind] by (auto simp: data_block_def)
  have len: "length (disk s ?d) = BSIZE" by (rule fs_ok_sel(1) [OF ok])
  have sd: "fs_ok s'" "\<And>c. unat c < unat (sb_size (sb s)) \<Longrightarrow> in_use s' c = in_use s1 c"
    using bstore_data [OF a(1), of ?d "put32 (disk s1 ?d) (4 * i) b"] d(3) a(2) fs_ok_sel(1) [OF a(1)] by (auto simp: s'_def)
  have ix: "indirect s' ip = ?d" using a(5) by (simp add: s'_def)
  have i': "4 * i + 3 < BSIZE" using i by (simp add: NINDIRECT_def BSIZE_def)
  have bm: "blockmap s' ip m = (if Some (NDIRECT + i) = Some m then b else blockmap s ip m)" if "m < MAXFILE" for m
  proof -
    have "get32 (put32 (disk s ?d) (4 * i) b) (4 * (m - NDIRECT)) = get32 (disk s ?d) (4 * (m - NDIRECT))" if "m \<noteq> NDIRECT + i" "\<not> m < NDIRECT"
      using that by (intro get32_put32_other) linarith
    then show ?thesis using ind len i' d(2) a(5) by (auto simp: blockmap_def s'_def)
  qed
  show "grown s ip s'"
  proof (rule grown_one [OF ok f al, of s' "addrs (inode_at s ip)" "Some (NDIRECT + i)"])
    show "in_use s' c = (c = b \<or> in_use s c)" if "unat c < unat (sb_size (sb s))" for c
      using al sd(2) that by (simp add: allocated_def)
  qed (use a sd bm ix z i d A(4) F(6) in \<open>auto simp: s'_def MAXFILE_def\<close>)
  show "blockmap s' ip (NDIRECT + i) = b" using bm [of "NDIRECT + i"] i by (simp add: MAXFILE_def)
  show "free_blocks s' = free_blocks s - {b}" using allocated_free [OF al] sd(2) a(2) by (auto simp: s'_def free_blocks_def)
qed

lemma bmap_present:
  assumes f: "file_ok s ip" and h: "held s = []" and n: "n < MAXFILE" and p: "blockmap s ip n \<noteq> 0"
  shows "bmap s ip n = Inr (blockmap s ip n, s)"
proof (cases "n < NDIRECT")
  case True
  then show ?thesis using p file_block_facts(8) [OF f] by (simp add: bmap_def blockmap_def Let_def)
next
  case False
  then have "indirect s ip \<noteq> 0" "n - NDIRECT < NINDIRECT" using p n by (auto simp: blockmap_def MAXFILE_def split: if_splits)
  then show ?thesis
    using False p h file_block_facts(8) [OF f] by (simp add: bmap_def blockmap_def Let_def bdrop_def)
qed

text \<open>Enough free blocks: \<^verbatim>\<open>bmap\<close> takes at most two.\<close>

lemma card_free_minus: "card (free_blocks s) \<le> Suc (card (free_blocks s - {b}))"
  by (metis card_Suc_Diff1 finite_free_blocks Diff_empty Diff_insert0 le_Suc_eq order_refl)

lemma bmap_indirect:
  assumes ok: "fs_ok s" and f: "file_ok s ip" and h: "held s = []" and i: "i < NINDIRECT" and ind: "indirect s ip \<noteq> 0"
    and fr: "free_blocks s \<noteq> {}" and z: "blockmap s ip (NDIRECT + i) = 0"
  obtains s' where "bmap s ip (NDIRECT + i) = Inr (blockmap s' ip (NDIRECT + i), s')" "grown s ip s'" "blockmap s' ip (NDIRECT + i) \<noteq> 0"
    "card (free_blocks s) \<le> Suc (card (free_blocks s'))"
proof -
  let ?d = "indirect s ip" and ?sh = "s\<lparr>held := [indirect s ip]\<rparr>"
  have "data_block s ?d" by (rule file_block_facts(2) [OF f ind])
  then have "held_ok ?sh" by (simp add: held_ok_def data_block_def)
  then obtain b s1 where b: "balloc ?sh = Inr (b, s1)" "allocated ?sh b s1"
    using balloc_runs [of ?sh] ok fr by auto
  have al: "allocated s b (bdrop s1 ?d)"
    using b(2) fs_ok_cong [of "bdrop s1 ?d" s1] in_use_cong [of "bdrop s1 ?d" s1] h by (simp add: allocated_def)
  let ?s' = "bstore (bdrop s1 ?d) ?d (put32 (disk (bdrop s1 ?d) ?d) (4 * i) b)"
  note E = alloc_entry [OF ok f i z ind al]
  have e: "bdrop (bstore s1 ?d (put32 (disk s1 ?d) (4 * i) b)) ?d = ?s'" by (simp add: bdrop_def bstore_def)
  have g: "get32 (disk s ?d) (4 * i) = 0" using z ind by (simp add: blockmap_def)
  have "bmap s ip (NDIRECT + i) = Inr (b, ?s')"
    using h i ind g b(1) e file_block_facts(8) [OF f] unfolding bmap_def Let_def by simp
  moreover have "b \<noteq> 0" by (rule allocated_file(3) [OF ok f al])
  ultimately show ?thesis using that [of ?s'] E card_free_minus [of s b] by simp
qed

lemma bmap_runs:
  assumes ok: "fs_ok s" and f: "file_ok s ip" and h: "held s = []" and n: "n < MAXFILE" and fr: "blockmap s ip n = 0 \<Longrightarrow> 2 \<le> card (free_blocks s)"
  obtains s' where "bmap s ip n = Inr (blockmap s' ip n, s')" "grown s ip s'" "blockmap s' ip n \<noteq> 0"
    "card (free_blocks s) \<le> card (free_blocks s') + 2"
proof (cases "blockmap s ip n = 0")
  case False
  then show ?thesis using that [of s] bmap_present [OF f h n] grown_refl [OF ok f] by simp
next
  case z: True
  have ne: "free_blocks s \<noteq> {}" using fr [OF z] by auto
  have ho: "held_ok s" using h by (simp add: held_ok_def)
  obtain b s1 where b: "balloc s = Inr (b, s1)" "allocated s b s1" using balloc_runs [OF ok ho ne] .
  have b0: "b \<noteq> 0" by (rule allocated_file(3) [OF ok f b(2)])
  show ?thesis
  proof (cases "n < NDIRECT")
    case True
    then have z': "addrs (inode_at s ip) ! n = 0" using z by (simp add: blockmap_def)
    note S = alloc_slot [OF ok f b(2) less_imp_le [OF True] z']
    show ?thesis using that [of "upd_inode ip (\<lambda>p. p\<lparr>addrs := (addrs p)[n := b]\<rparr>) s1"] S(1,2,4) True b b0 z' card_free_minus [of s b] file_block_facts(8) [OF f]
      by (simp add: bmap_def Let_def)
  next
    case False
    then obtain i where i: "n = NDIRECT + i" "i < NINDIRECT" using n by (metis MAXFILE_def le_Suc_ex nat_add_left_cancel_less not_less)
    show ?thesis
    proof (cases "indirect s ip = 0")
      case False
      then show ?thesis using bmap_indirect [OF ok f h i(2) False ne] z that unfolding i(1) by (metis add_2_eq_Suc' le_SucI)
    next
      case True
      note S = alloc_slot [OF ok f b(2) order_refl True]
      let ?sA = "upd_inode ip (\<lambda>p. p\<lparr>addrs := (addrs p)[NDIRECT := b]\<rparr>) s1"
      have A: "fs_ok ?sA" "file_ok ?sA ip" "held ?sA = []" "indirect ?sA ip = b" using S(1,3) h by (auto simp: grown_def kept_def)
      have zA: "blockmap ?sA ip (NDIRECT + i) = 0"
        using S(3) b0 i(2) by (simp add: blockmap_def get32_def BSIZE_def NINDIRECT_def)
      have "1 \<le> card (free_blocks ?sA)" using S(4) fr [OF z] card_free_minus [of s b] by simp
      then have neA: "free_blocks ?sA \<noteq> {}" by auto
      have iA: "indirect ?sA ip \<noteq> 0" using A(4) b0 by simp
      obtain s' where s': "bmap ?sA ip (NDIRECT + i) = Inr (blockmap s' ip (NDIRECT + i), s')" "grown ?sA ip s'"
          "blockmap s' ip (NDIRECT + i) \<noteq> 0" "card (free_blocks ?sA) \<le> Suc (card (free_blocks s'))"
        by (rule bmap_indirect [OF A(1-3) i(2) iA neA zA])
      have "bmap s ip n = bmap ?sA ip n"
      proof -
        have "itype (inode_at ?sA ip) = itype (inode_at s ip)" using S(1) file_block_facts(5) [OF f] by (auto simp: grown_def kept_def)
        then show ?thesis using True A(4) b b0 i unfolding bmap_def Let_def by simp
      qed
      then show ?thesis
        using that [of s'] s' grown_trans [OF S(1) s'(2)] S(4) card_free_minus [of s b] i(1) by simp
    qed
  qed
qed

section \<open>Reading\<close>

declare readi_loop.simps [simp del]
declare writei_loop.simps [simp del]

lemma held_nil: "held s = [] \<Longrightarrow> s\<lparr>held := []\<rparr> = s"
  by (cases s) simp

lemma within_block:
  assumes "off mod BSIZE + i < BSIZE"
  shows "(off + i) div BSIZE = off div BSIZE" and "(off + i) mod BSIZE = off mod BSIZE + i"
proof -
  have e: "off + i = (off mod BSIZE + i) + BSIZE * (off div BSIZE)" by (simp add: BSIZE_def)
  have z: "BSIZE \<noteq> 0" by (simp add: BSIZE_def)
  show "(off + i) div BSIZE = off div BSIZE" 
    using div_mult_self2 [OF z, of "off mod BSIZE + i" "off div BSIZE"] div_less [OF assms] unfolding e [symmetric] by simp
  show "(off + i) mod BSIZE = off mod BSIZE + i"
    using mod_mult_self2 [of "off mod BSIZE + i" BSIZE "off div BSIZE"] mod_less [OF assms] unfolding e [symmetric] by simp
qed

lemma content_slice:
  assumes "m \<le> BSIZE - off mod BSIZE" and "blockmap s ip (off div BSIZE) \<noteq> 0" and "length (disk s (blockmap s ip (off div BSIZE))) = BSIZE"
  shows "take m (drop (off mod BSIZE) (disk s (blockmap s ip (off div BSIZE)))) = map (content s ip) [off..<off + m]"
proof (rule nth_equalityI)
  have ob: "off mod BSIZE < BSIZE" by (simp add: BSIZE_def)
  show "length (take m (drop (off mod BSIZE) (disk s (blockmap s ip (off div BSIZE))))) = length (map (content s ip) [off..<off + m])"
    using assms ob by simp
  fix i assume "i < length (take m (drop (off mod BSIZE) (disk s (blockmap s ip (off div BSIZE)))))"
  then have i: "i < m" "off mod BSIZE + i < BSIZE" using assms(1) ob by auto
  have "(off + i) div BSIZE = off div BSIZE" "(off + i) mod BSIZE = off mod BSIZE + i" using within_block [OF i(2)] by auto
  then show "take m (drop (off mod BSIZE) (disk s (blockmap s ip (off div BSIZE)))) ! i = map (content s ip) [off..<off + m] ! i"
    using i assms(2,3) by (simp add: content_def)
qed

lemma readi_loop_runs:
  assumes "fs_ok s" and "file_ok s ip" and "held s = []" and "tot \<le> n" and "off + (n - tot) \<le> MAXFILE * BSIZE"
    and "\<forall>k. off \<le> k \<and> k < off + (n - tot) \<longrightarrow> blockmap s ip (k div BSIZE) \<noteq> 0"
  shows "readi_loop s ip off n tot dst = Inr (sint (of_nat n :: u32), dst @ map (content s ip) [off..<off + (n - tot)], s)"
  using assms(4-)
proof (induction "n - tot" arbitrary: off tot dst rule: less_induct)
  case less
  show ?case
  proof (cases "tot < n")
    case False
    then show ?thesis using less.prems by (subst readi_loop.simps) simp
  next
    case True
    let ?bn = "off div BSIZE"
    define m where "m = dmin (n - tot) (BSIZE - off mod BSIZE)"
    have ob: "off mod BSIZE < BSIZE" by (simp add: BSIZE_def)
    have n: "?bn < MAXFILE" using less.prems(2) True by (simp add: less_mult_imp_div_less)
    have p: "blockmap s ip ?bn \<noteq> 0" using less.prems(3) True by simp
    note b = bmap_present [OF assms(2,3) n p]
    have m: "0 < m" "m \<le> n - tot" "m \<le> BSIZE - off mod BSIZE" using True ob by (auto simp: m_def)
    have sl: "take m (drop (off mod BSIZE) (disk s (blockmap s ip ?bn))) = map (content s ip) [off..<off + m]"
      by (rule content_slice [OF m(3) p fs_ok_sel(1) [OF assms(1)]])
    have "readi_loop s ip off n tot dst = readi_loop s ip (off + m) n (tot + m) (dst @ map (content s ip) [off..<off + m])"
      using True b assms(3) file_block_facts(8) [OF assms(2)] sl
      by (subst readi_loop.simps) (simp add: Let_def bdrop_def held_nil [OF assms(3)] m_def [symmetric] del: if_split)
    also have "\<dots> = Inr (sint (of_nat n :: u32), (dst @ map (content s ip) [off..<off + m]) @
        map (content s ip) [off + m..<off + m + (n - (tot + m))], s)"
      using m less.prems by (intro less.hyps) auto
    also have "off + m + (n - (tot + m)) = off + (n - tot)" using m by linarith
    finally show ?thesis using upt_add_eq_append [of off "off + m" "n - tot - m"] m by simp
  qed
qed

lemma readi_runs:
  assumes "fs_ok s" and "file_ok s ip" and "held s = []" and "file_full s ip" and "unat (isize (inode_at s ip)) \<le> MAXFILE * BSIZE"
    and "off \<le> isize (inode_at s ip)" and "unat off + unat n < 4294967296"
  defines "r \<equiv> min (unat n) (unat (isize (inode_at s ip)) - unat off)"
  shows "readi s ip off n = Inr (int r, map (content s ip) [unat off..<unat off + r], s)"
proof -
  let ?sz = "isize (inode_at s ip)"
  have on: "unat (off + n) = unat off + unat n" by (rule unat_add_small [OF assms(7)])
  have o: "unat off \<le> unat ?sz" using assms(6) by (simp add: word_le_nat_alt)
  have r: "unat (if off + n > ?sz then ?sz - off else n) = r"
    using on o assms(6) by (auto simp: r_def word_less_nat_alt unat_diff_u32)
  have nw: "\<not> (off > ?sz \<or> off + n < off)" using o on by (simp add: word_less_nat_alt)
  have rs: "r \<le> unat ?sz - unat off" by (simp add: r_def)
  have "r < 2147483648" using rs assms(5) by (simp add: MAXFILE_def NDIRECT_def NINDIRECT_def BSIZE_def)
  then have "sint (of_nat r :: u32) = int r" by (rule sint_of_nat_u32)
  moreover have "readi_loop s ip (unat off) r 0 [] = Inr (sint (of_nat r :: u32), [] @ map (content s ip) [unat off..<unat off + (r - 0)], s)"
    using assms(4,5) rs o by (intro readi_loop_runs [OF assms(1-3)]) (auto simp: file_full_def)
  ultimately show ?thesis
    using nw r file_block_facts(7) [OF assms(2)] by (simp add: readi_def Let_def)
qed

section \<open>Writing\<close>

lemma length_splice [simp]: "off + length ys \<le> length xs \<Longrightarrow> length (splice xs off ys) = length xs"
  by (simp add: splice_def)

lemma nth_splice:
  "off + length ys \<le> length xs \<Longrightarrow> i < length xs \<Longrightarrow>
   splice xs off ys ! i = (if off \<le> i \<and> i < off + length ys then ys ! (i - off) else xs ! i)"
  by (auto simp: splice_def nth_append min_def)

text \<open>A store into one block of the file.\<close>

lemma block_store:
  assumes ok: "fs_ok s" and f: "file_ok s ip" and n: "off div BSIZE < MAXFILE" and p: "blockmap s ip (off div BSIZE) \<noteq> 0"
    and len: "off mod BSIZE + length bs \<le> BSIZE"
  defines "b \<equiv> blockmap s ip (off div BSIZE)"
  defines "s' \<equiv> bstore s b (splice (disk s b) (off mod BSIZE) bs)"
  shows "wrote_bytes s ip s' off bs" and "free_blocks s' = free_blocks s"
proof -
  note F = file_block_facts [OF f]
  have b: "data_block s b" "b \<noteq> indirect s ip" using F(1,3) [OF n p] by (auto simp: b_def)
  have lb: "length (disk s b) = BSIZE" by (rule fs_ok_sel(1) [OF ok])
  have S: "fs_ok s'" "\<And>c. unat c < unat (sb_size (sb s)) \<Longrightarrow> in_use s' c = in_use s c"
    using bstore_data [OF ok, of b "splice (disk s b) (off mod BSIZE) bs"] b(1) lb len by (auto simp: s'_def data_block_def)
  have bm: "blockmap s' ip = blockmap s ip" using b(2) by (auto simp: fun_eq_iff blockmap_def s'_def)
  have ic: "icache s' = icache s" "sb s' = sb s" "me s' = me s" "held s' = held s" by (simp_all add: s'_def)
  have db: "data_block s' = data_block s" using S(2) ic(2) by (auto simp: fun_eq_iff data_block_def)
  have fb: "file_blocks s' ip = file_blocks s ip" using bm ic by (simp add: file_blocks_def)
  have "b \<in> file_blocks s ip" using n p by (auto simp: file_blocks_def b_def)
  then have "kept s ip s'"
    unfolding kept_def using S(1) bm ic db fb f
    by (auto simp: file_ok_def s'_def intro!: exI [of _ "addrs (inode_at s ip)"])
  moreover have "content s' ip k = (if off \<le> k \<and> k < off + length bs then bs ! (k - off) else content s ip k)" if k: "k < MAXFILE * BSIZE" for k
  proof (cases "k div BSIZE = off div BSIZE")
    case True
    have e: "off = BSIZE * (off div BSIZE) + off mod BSIZE" "k = BSIZE * (off div BSIZE) + k mod BSIZE"
      by simp (metis True mult_div_mod_eq)
    have kb: "k mod BSIZE < BSIZE" by (simp add: BSIZE_def)
    have "off \<le> k \<longleftrightarrow> off mod BSIZE \<le> k mod BSIZE" "k < off + length bs \<longleftrightarrow> k mod BSIZE < off mod BSIZE + length bs"
        "k - off = k mod BSIZE - off mod BSIZE" using e by linarith+
    then show ?thesis
      using True p bm lb len kb nth_splice [of "off mod BSIZE" bs "disk s b" "k mod BSIZE"] by (simp add: content_def s'_def b_def)
  next
    case False
    have nk: "\<not> (off \<le> k \<and> k < off + length bs)"
    proof
      assume a: "off \<le> k \<and> k < off + length bs"
      then have "off mod BSIZE + (k - off) < BSIZE" using len by linarith
      from within_block(1) [OF this] False a show False by simp
    qed
    have "blockmap s ip (k div BSIZE) \<noteq> b" if "blockmap s ip (k div BSIZE) \<noteq> 0"
      using F(4) [OF _ n that] k False by (auto simp: b_def less_mult_imp_div_less)
    then show ?thesis using nk bm by (auto simp: content_def s'_def)
  qed
  ultimately show "wrote_bytes s ip s' off bs" by (simp add: wrote_bytes_def)
  show "free_blocks s' = free_blocks s" using S(2) ic by (auto simp: free_blocks_def)
qed

text \<open>The number of blocks that \<open>r\<close> bytes from offset \<open>off\<close> on touch.\<close>

definition blocks_touched :: "nat \<Rightarrow> nat \<Rightarrow> nat" where
  "blocks_touched off r = (if r = 0 then 0 else (off mod BSIZE + r + (BSIZE - 1)) div BSIZE)"

lemma blocks_touched_step:
  assumes "0 < r" and "m = dmin r (BSIZE - off mod BSIZE)"
  shows "blocks_touched off r = Suc (blocks_touched (off + m) (r - m))"
proof (cases "r < BSIZE - off mod BSIZE")
  case True
  then have "off mod BSIZE + r + (BSIZE - 1) = BSIZE + (off mod BSIZE + r - 1)" "off mod BSIZE + r - 1 < BSIZE" using assms(1) by (auto simp: BSIZE_def)
  then have "(off mod BSIZE + r + (BSIZE - 1)) div BSIZE = 1" by (simp add: BSIZE_def)
  then show ?thesis using True assms by (simp add: blocks_touched_def)
next
  case False
  have ob: "off mod BSIZE < BSIZE" by (simp add: BSIZE_def)
  have m: "m = BSIZE - off mod BSIZE" using False assms(2) by simp
  have "off + m = BSIZE * (off div BSIZE) + BSIZE"
    using ob mult_div_mod_eq [of BSIZE off] unfolding m by linarith
  then have z: "(off + m) mod BSIZE = 0" by simp
  have x: "off mod BSIZE + r = (r - m) + BSIZE" using False ob unfolding m by linarith
  have "(off mod BSIZE + r + (BSIZE - 1)) div BSIZE = Suc (((r - m) + (BSIZE - 1)) div BSIZE)"
    unfolding x by (simp add: BSIZE_def)
  then show ?thesis using assms(1) z by (simp add: blocks_touched_def BSIZE_def)
qed

lemma writei_loop_runs:
  assumes "fs_ok s" and "file_ok s ip" and "held s = []" and "tot \<le> n" and "n \<le> length src" and "off + (n - tot) \<le> MAXFILE * BSIZE"
    and "2 * blocks_touched off (n - tot) \<le> card (free_blocks s)"
  shows "\<exists>s'. writei_loop s ip src off n tot = Inr (off + (n - tot), s') \<and> wrote_bytes s ip s' off (take (n - tot) (drop tot src)) \<and>
    (\<forall>k. off \<le> k \<and> k < off + (n - tot) \<longrightarrow> blockmap s' ip (k div BSIZE) \<noteq> 0)"
  using assms
proof (induction "n - tot" arbitrary: s off tot rule: less_induct)
  case less
  show ?case
  proof (cases "tot < n")
    case False
    then have "writei_loop s ip src off n tot = Inr (off + (n - tot), s)" using less.prems(4) by (subst writei_loop.simps) simp
    moreover have "wrote_bytes s ip s off []" using kept_refl [OF less.prems(1,2)] by (auto simp: wrote_bytes_def)
    ultimately show ?thesis using False by auto
  next
    case True
    let ?bn = "off div BSIZE"
    define m where "m = dmin (n - tot) (BSIZE - off mod BSIZE)"
    have ob: "off mod BSIZE < BSIZE" by (simp add: BSIZE_def)
    have n: "?bn < MAXFILE" using less.prems(6) True by (simp add: less_mult_imp_div_less)
    have m: "0 < m" "m \<le> n - tot" "m \<le> BSIZE - off mod BSIZE" using True ob by (auto simp: m_def)
    have bt: "blocks_touched off (n - tot) = Suc (blocks_touched (off + m) (n - (tot + m)))"
      using blocks_touched_step [of "n - tot" m off] True by (simp add: m_def)
    then have fr: "2 \<le> card (free_blocks s)" using less.prems(7) by linarith
    obtain s1 where s1: "bmap s ip ?bn = Inr (blockmap s1 ip ?bn, s1)" "grown s ip s1" "blockmap s1 ip ?bn \<noteq> 0"
        "card (free_blocks s) \<le> card (free_blocks s1) + 2"
      by (rule bmap_runs [OF less.prems(1-3) n fr])
    have k1: "fs_ok s1" "file_ok s1 ip" "held s1 = []" using s1(2) less.prems(3) by (auto simp: grown_def kept_def)
    let ?b = "blockmap s1 ip ?bn" and ?bs = "take m (drop tot src)"
    define s2 where "s2 = bstore s1 ?b (splice (disk s1 ?b) (off mod BSIZE) ?bs)"
    have lb: "length ?bs = m" using m less.prems(5) by simp
    have st: "wrote_bytes s1 ip s2 off ?bs" "free_blocks s2 = free_blocks s1"
      using block_store [OF k1(1,2) n s1(3), of ?bs] lb m(3) ob unfolding s2_def by auto
    have k2: "fs_ok s2" "file_ok s2 ip" "held s2 = []" "itype (inode_at s2 ip) \<noteq> T_CHECKED"
      using st(1) k1(3) by (auto simp: wrote_bytes_def kept_def file_ok_def)
    have step: "writei_loop s ip src off n tot = writei_loop s2 ip src (off + m) n (tot + m)"
    proof -
      have ic: "icache s2 = icache s1" by (simp add: s2_def)
      have "bdrop (bstore (s1\<lparr>held := [?b]\<rparr>) ?b (splice (disk s1 ?b) (off mod BSIZE) ?bs)) ?b = s2"
        using k1(3) by (simp add: s2_def bdrop_def bstore_def held_nil [OF k1(3)])
      then show ?thesis
        using True s1(1) bmap_present [OF k1(2,3) n s1(3)] k1(3) k2(4) ic
        by (subst writei_loop.simps) (simp add: Let_def m_def [symmetric] del: if_split)
    qed
    have "n - (tot + m) < n - tot" "tot + m \<le> n" "off + m + (n - (tot + m)) = off + (n - tot)" using m True by linarith+
    moreover from this have "off + m + (n - (tot + m)) \<le> MAXFILE * BSIZE" using less.prems(6) by simp
    moreover have "2 * blocks_touched (off + m) (n - (tot + m)) \<le> card (free_blocks s2)" using bt less.prems(7) s1(4) st(2) by simp
    ultimately obtain s' where s': "writei_loop s2 ip src (off + m) n (tot + m) = Inr (off + (n - tot), s')"
        "wrote_bytes s2 ip s' (off + m) (take (n - (tot + m)) (drop (tot + m) src))"
        "\<forall>k. off + m \<le> k \<and> k < off + (n - tot) \<longrightarrow> blockmap s' ip (k div BSIZE) \<noteq> 0"
      using less.hyps [of "tot + m" s2 "off + m"] k2(1-3) less.prems(5) by auto
    have "wrote_bytes s ip s' off (?bs @ take (n - (tot + m)) (drop (tot + m) src))"
      using wrote_append [OF wrote_after_grown [OF s1(2) st(1)]] s'(2) lb by simp
    moreover have "?bs @ take (n - (tot + m)) (drop (tot + m) src) = take (n - tot) (drop tot src)"
      using m take_add [of m "n - tot - m" "drop tot src"] by (simp add: add.commute)
    moreover have "blockmap s' ip (k div BSIZE) \<noteq> 0" if "off \<le> k" "k < off + (n - tot)" for k
    proof (cases "off + m \<le> k")
      case True
      then show ?thesis using s'(3) that by blast
    next
      case False
      then have "off mod BSIZE + (k - off) < BSIZE" using m(3) that ob by linarith
      then have "k div BSIZE = ?bn" using within_block(1) [of off "k - off"] that by simp
      moreover have "blockmap s2 ip ?bn \<noteq> 0" "blockmap s' ip ?bn = blockmap s2 ip ?bn"
        using s1(3) st(1) s'(2) n by (auto simp: wrote_bytes_def kept_def)
      ultimately show ?thesis by simp
    qed
    ultimately show ?thesis using step s'(1) by auto
  qed
qed

section \<open>Inodes on disk\<close>

definition disk_inode :: "inode \<Rightarrow> dinode" where
  "disk_inode p = \<lparr>dtype = itype p, dmajor = major p, dminor = minor p, dnlink = nlink p, dsize = isize p, daddrs = addrs p\<rparr>"

lemma length_put_dinode [simp]: "length (put_dinode blk off d) = length blk"
  by (simp add: put_dinode_def)

lemma get_put_dinode:
  assumes "off + 64 \<le> length blk" and "length (daddrs d) = NDIRECT + 1"
  shows "get_dinode (put_dinode blk off d) off = d"
proof -
  have l: "length (daddrs d) = 13" using assms(2) by (simp add: NDIRECT_def)
  then have "get_words (put_dinode blk off d) (off + 12) 13 = daddrs d"
    using assms(1) unfolding put_dinode_def by (subst l [symmetric], intro get_words_put_words) simp
  then show ?thesis
    using assms(1) l by (simp add: get_dinode_def put_dinode_def get16_put_words_other get32_put_words_other NDIRECT_def)
qed

lemma get_put_dinode_other:
  assumes "off' + 64 \<le> off \<or> off + 64 \<le> off'" and "length (daddrs d) = NDIRECT + 1"
  shows "get_dinode (put_dinode blk off d) off' = get_dinode blk off'"
proof -
  have n: "put_dinode blk off d ! k = blk ! k" if "k < off \<or> off + 64 \<le> k" for k
    using that assms(2) by (auto simp: put_dinode_def put_words_nth put32_nth put16_nth NDIRECT_def)
  have g32: "get32 (put_dinode blk off d) (off' + k) = get32 blk (off' + k)" if "k + 4 \<le> 64" for k
    using assms(1) that by (auto simp: get32_def n)
  have g16: "get16 (put_dinode blk off d) (off' + k) = get16 blk (off' + k)" if "k + 2 \<le> 64" for k
    using assms(1) that by (auto simp: get16_def n)
  show ?thesis
    using g16 [of 0] g16 [of 2] g16 [of 4] g16 [of 6] g32 [of 8] g32
    by (simp add: get_dinode_def get_words_def add.assoc NDIRECT_def)
qed

text \<open>The on-disk inode with number \<open>i\<close>.\<close>

definition dinode_at :: "fs \<Rightarrow> u32 \<Rightarrow> dinode" where
  "dinode_at s i = get_dinode (disk s (IBLOCK i (sb s))) (dinode_off i)"

lemma iblock_place: "IBLOCK i q = IBLOCK j q \<Longrightarrow> dinode_off i = dinode_off j \<Longrightarrow> i = j"
proof -
  assume a: "IBLOCK i q = IBLOCK j q" and b: "dinode_off i = dinode_off j"
  have "unat (i div of_nat IPB) = unat (j div of_nat IPB)" using a by (simp add: IBLOCK_def)
  then have "unat i div 8 = unat j div 8" by (simp add: IPB_def unat_div)
  moreover have "unat i mod 8 = unat j mod 8" using b by (simp add: dinode_off_def IPB_def)
  ultimately have "unat i = unat j" by (metis div_mult_mod_eq)
  then show ?thesis by (simp add: word_unat_eq_iff)
qed

lemma dinode_off_less: "dinode_off i + 64 \<le> BSIZE"
  by (simp add: dinode_off_def IPB_def BSIZE_def)

lemma iupdate_runs:
  assumes ok: "fs_ok s" and ino: "unat (inum (inode_at s ip)) < unat (sb_ninodes (sb s))" and h: "\<forall>c \<in> set (held s). \<not> meta (sb s) c"
    and l: "length (addrs (inode_at s ip)) = NDIRECT + 1"
  obtains s' where "iupdate s ip = Inr s'" "fs_ok s'" "sb s' = sb s" "icache s' = icache s" "held s' = held s" "me s' = me s"
    "\<And>c. unat c < unat (sb_size (sb s)) \<Longrightarrow> in_use s' c = in_use s c" "\<And>c. \<not> meta (sb s) c \<Longrightarrow> disk s' c = disk s c"
    "\<And>i. dinode_at s' i = (if i = inum (inode_at s ip) then disk_inode (inode_at s ip) else dinode_at s i)"
proof -
  let ?p = "inode_at s ip" let ?ib = "IBLOCK (inum ?p) (sb s)"
  let ?s' = "bstore s ?ib (put_dinode (disk s ?ib) (dinode_off (inum ?p)) (disk_inode ?p))"
  have mb: "meta (sb s) ?ib" using ino by (auto simp: meta_def)
  then have "?ib \<notin> set (held s)" using h by auto
  then have r: "iupdate s ip = Inr ?s'" by (simp add: iupdate_def Let_def disk_inode_def bdrop_def bstore_def)
  have lay: "?ib \<noteq> 1" "\<And>k. unat k < unat (sb_size (sb s)) \<Longrightarrow> ?ib \<noteq> BBLOCK k (sb s)"
    using fs_ok_sel(5) [OF ok] ino by (auto simp: layout_ok_def)
  have u: "in_use ?s' c = in_use s c" if "unat c < unat (sb_size (sb s))" for c
    using lay(2) [OF that] by (rule in_use_other)
  have ok': "fs_ok ?s'" using ok u lay(1) by (auto simp: fs_ok_def)
  have di: "dinode_at ?s' i = (if i = inum ?p then disk_inode ?p else dinode_at s i)" for i
  proof (cases "IBLOCK i (sb s) = ?ib")
    case False
    then show ?thesis by (auto simp: dinode_at_def)
  next
    case True
    show ?thesis
    proof (cases "i = inum ?p")
      case True
      then show ?thesis using get_put_dinode [of "dinode_off i" "disk s ?ib" "disk_inode ?p"] dinode_off_less [of i] fs_ok_sel(1) [OF ok] l
        by (simp add: dinode_at_def disk_inode_def)
    next
      case ne: False
      then have "dinode_off i \<noteq> dinode_off (inum ?p)" using iblock_place [OF True] by blast
      then have "dinode_off i + 64 \<le> dinode_off (inum ?p) \<or> dinode_off (inum ?p) + 64 \<le> dinode_off i"
        unfolding dinode_off_def by (auto simp: nat_neq_iff)
      then show ?thesis using True ne l get_put_dinode_other [of "dinode_off i" "dinode_off (inum ?p)" "disk_inode ?p" "disk s ?ib"]
        by (simp add: dinode_at_def disk_inode_def)
    qed
  qed
  have "disk ?s' c = disk s c" if "\<not> meta (sb s) c" for c using that mb by auto
  then show ?thesis using that [OF r ok' _ _ _ _ u] di by simp
qed

section \<open>Properties\<close>

text \<open>What a process that holds the lock of an open file may rely on.\<close>

definition open_file :: "fs \<Rightarrow> nat \<Rightarrow> bool" where
  "open_file s ip \<longleftrightarrow> fs_ok s \<and> file_ok s ip \<and> file_full s ip \<and> held s = [] \<and>
     unat (inum (inode_at s ip)) < unat (sb_ninodes (sb s)) \<and> unat (isize (inode_at s ip)) \<le> MAXFILE * BSIZE"

lemma file_cong:
  assumes "\<And>c. \<not> meta (sb s) c \<Longrightarrow> disk s' c = disk s c" and "sb s' = sb s" and "addrs (inode_at s' ip) = addrs (inode_at s ip)" and "file_ok s ip"
  shows "n < MAXFILE \<Longrightarrow> blockmap s' ip n = blockmap s ip n" and "k < MAXFILE * BSIZE \<Longrightarrow> content s' ip k = content s ip k"
proof -
  note F = file_block_facts [OF assms(4)]
  have d: "data_block s c \<Longrightarrow> disk s' c = disk s c" for c using assms(1) by (simp add: data_block_def)
  show b: "n < MAXFILE \<Longrightarrow> blockmap s' ip n = blockmap s ip n" for n
    using d [OF F(2)] assms(3) by (auto simp: blockmap_def)
  show "k < MAXFILE * BSIZE \<Longrightarrow> content s' ip k = content s ip k"
    using b [of "k div BSIZE"] d [OF F(1)] by (auto simp: content_def less_mult_imp_div_less)
qed

text \<open>Setting the size of the file and writing its inode to disk keeps blocks and contents.\<close>

lemma resize_runs:
  assumes ok: "fs_ok s" and f: "file_ok s ip" and h: "held s = []" and ino: "unat (inum (inode_at s ip)) < unat (sb_ninodes (sb s))"
  obtains s' where "iupdate (upd_inode ip (\<lambda>p. p\<lparr>isize := z\<rparr>) s) ip = Inr s'" "fs_ok s'" "file_ok s' ip" "held s' = []" "sb s' = sb s"
    "icache s' = (icache s)[ip := (inode_at s ip)\<lparr>isize := z\<rparr>]" "\<And>c. \<not> meta (sb s) c \<Longrightarrow> disk s' c = disk s c"
    "\<And>n. n < MAXFILE \<Longrightarrow> blockmap s' ip n = blockmap s ip n" "\<And>k. k < MAXFILE * BSIZE \<Longrightarrow> content s' ip k = content s ip k"
    "dinode_at s' (inum (inode_at s ip)) = disk_inode (inode_at s' ip)"
proof -
  let ?s1 = "upd_inode ip (\<lambda>p. p\<lparr>isize := z\<rparr>) s"
  note F = file_block_facts [OF f]
  have p1: "inode_at ?s1 ip = (inode_at s ip)\<lparr>isize := z\<rparr>" using F(5) by simp
  obtain s' where s': "iupdate ?s1 ip = Inr s'" "fs_ok s'" "sb s' = sb s" "icache s' = icache ?s1" "held s' = held s"
      "\<And>c. unat c < unat (sb_size (sb s)) \<Longrightarrow> in_use s' c = in_use s c" "\<And>c. \<not> meta (sb s) c \<Longrightarrow> disk s' c = disk s c"
      "\<And>i. dinode_at s' i = (if i = inum (inode_at ?s1 ip) then disk_inode (inode_at ?s1 ip) else dinode_at ?s1 i)"
    by (rule iupdate_runs [of ?s1 ip]) (use ok ino h F(6) p1 in auto)
  have a: "addrs (inode_at s' ip) = addrs (inode_at s ip)" using s'(4) p1 by simp
  note C = file_cong [OF s'(7,3) a f]
  have "file_blocks s' ip = file_blocks s ip" using C(1) a by (simp add: file_blocks_def)
  moreover have "data_block s' c = data_block s c" for c using s'(3,6) by (auto simp: data_block_def)
  ultimately have "file_ok s' ip" using f C(1) a s'(4) p1 by (auto simp: file_ok_def)
  then show ?thesis using that [of s'] s' C h p1 by simp
qed

lemma writei_runs:
  assumes op: "open_file s ip" and off: "off \<le> isize (inode_at s ip)" and mx: "unat off + length src \<le> MAXFILE * BSIZE"
    and fr: "2 * blocks_touched (unat off) (length src) \<le> card (free_blocks s)"
  obtains s1 s' where "writei s ip src off (of_nat (length src)) = Inr (int (length src), s')" "wrote_bytes s ip s1 (unat off) src"
    "open_file s' ip" "unat (isize (inode_at s' ip)) = max (unat (isize (inode_at s ip))) (unat off + length src)"
    "\<And>c. \<not> meta (sb s) c \<Longrightarrow> disk s' c = disk s1 c" "\<And>k. k < MAXFILE * BSIZE \<Longrightarrow> content s' ip k = content s1 ip k"
    "\<And>j. j \<noteq> ip \<Longrightarrow> inode_at s' j = inode_at s j"
    "isize (inode_at s' ip) \<noteq> isize (inode_at s ip) \<Longrightarrow> dinode_at s' (inum (inode_at s ip)) = disk_inode (inode_at s' ip)"
    "itype (inode_at s' ip) = itype (inode_at s ip)" "idev (inode_at s' ip) = idev (inode_at s ip)"
proof -
  let ?n = "length src" and ?sz = "isize (inode_at s ip)"
  have o: "fs_ok s" "file_ok s ip" "file_full s ip" "held s = []" "unat (inum (inode_at s ip)) < unat (sb_ninodes (sb s))" "unat ?sz \<le> MAXFILE * BSIZE"
    using op by (auto simp: open_file_def)
  have mb: "MAXFILE * BSIZE = 71680" by (simp add: MAXFILE_def NDIRECT_def NINDIRECT_def BSIZE_def)
  have un: "unat (of_nat ?n :: u32) = ?n" "sint (of_nat ?n :: u32) = int ?n" using mx mb by (auto intro: sint_of_nat_u32)
  have uo: "unat (off + of_nat ?n) = unat off + ?n" using mx mb un(1) by (subst unat_add_small) auto
  obtain s1 where s1: "writei_loop s ip src (unat off) ?n 0 = Inr (unat off + ?n, s1)" "wrote_bytes s ip s1 (unat off) src"
      "\<forall>k. unat off \<le> k \<and> k < unat off + ?n \<longrightarrow> blockmap s1 ip (k div BSIZE) \<noteq> 0"
    using writei_loop_runs [OF o(1,2,4), of 0 ?n src "unat off"] mx fr by auto
  have k: "kept s ip s1" using s1(2) by (simp add: wrote_bytes_def)
  then have k1: "fs_ok s1" "file_ok s1 ip" "held s1 = []" "sb s1 = sb s" using o(4) by (auto simp: kept_def)
  obtain as where as: "inode_at s1 ip = (inode_at s ip)\<lparr>addrs := as\<rparr>" by (rule kept_inode [OF k])
  have ic: "inode_at s1 j = inode_at s j" if "j \<noteq> ip" for j using k that by (auto simp: kept_def)
  have full: "blockmap s1 ip (q div BSIZE) \<noteq> 0" if "q < max (unat ?sz) (unat off + ?n)" for q
  proof (cases "q < unat ?sz")
    case True
    then have "blockmap s ip (q div BSIZE) \<noteq> 0" "q div BSIZE < MAXFILE" using o(3,6) by (auto simp: file_full_def less_mult_imp_div_less)
    then show ?thesis using k by (simp add: kept_def)
  next
    case False
    then show ?thesis using s1(3) that off by (auto simp: word_le_nat_alt)
  qed
  have uu: "unat (of_nat (unat off + ?n) :: u32) = unat off + ?n" using mx mb by (intro unat_of_nat_u32) simp
  have w: "writei s ip src off (of_nat ?n) =
      (if ?n > 0 \<and> unat off + ?n > unat ?sz
       then andthen (iupdate (upd_inode ip (\<lambda>p. p\<lparr>isize := of_nat (unat off + ?n)\<rparr>) s1) ip) (\<lambda>s. ret (int ?n, s))
       else ret (int ?n, s1))"
  proof -
    have "\<not> (off > ?sz \<or> off + of_nat ?n < off)" "\<not> off + of_nat ?n > of_nat (MAXFILE * BSIZE)"
      using off uo mx mb by (simp_all add: word_less_nat_alt word_le_nat_alt)
    moreover have "(of_nat ?n > (0 :: u32)) = (?n > 0)" "(of_nat (unat off + ?n) > isize (inode_at s1 ip)) = (unat off + ?n > unat ?sz)"
      using un(1) uu as by (simp_all only: word_less_nat_alt) auto
    ultimately show ?thesis using s1(1) un file_block_facts(7) [OF o(2)] unfolding writei_def Let_def by simp
  qed
  show ?thesis
  proof (cases "?n > 0 \<and> unat off + ?n > unat ?sz")
    case True
    let ?z = "of_nat (unat off + ?n) :: u32"
    have ino: "unat (inum (inode_at s1 ip)) < unat (sb_ninodes (sb s1))" using o(5) as k1(4) by simp
    obtain s' where s': "iupdate (upd_inode ip (\<lambda>p. p\<lparr>isize := ?z\<rparr>) s1) ip = Inr s'" "fs_ok s'" "file_ok s' ip" "held s' = []" "sb s' = sb s1"
        "icache s' = (icache s1)[ip := (inode_at s1 ip)\<lparr>isize := ?z\<rparr>]" "\<And>c. \<not> meta (sb s1) c \<Longrightarrow> disk s' c = disk s1 c"
        "\<And>n. n < MAXFILE \<Longrightarrow> blockmap s' ip n = blockmap s1 ip n" "\<And>k. k < MAXFILE * BSIZE \<Longrightarrow> content s' ip k = content s1 ip k"
        "dinode_at s' (inum (inode_at s1 ip)) = disk_inode (inode_at s' ip)"
      by (rule resize_runs [OF k1(1-3) ino, of ?z]) blast
    have p': "inode_at s' ip = (inode_at s1 ip)\<lparr>isize := ?z\<rparr>" using s'(6) file_block_facts(5) [OF k1(2)] by simp
    have sz: "unat (isize (inode_at s' ip)) = max (unat ?sz) (unat off + ?n)" using p' uu True by simp
    have "file_full s' ip" unfolding file_full_def sz
      using full s'(8) mx o(6) by (auto simp: less_mult_imp_div_less)
    then have "open_file s' ip" using s' k1(4) p' as o(5,6) sz mx by (simp add: open_file_def)
    moreover have "inode_at s' j = inode_at s j" if "j \<noteq> ip" for j using s'(6) ic [OF that] that by simp
    ultimately show ?thesis using that [of s' s1] w True s' s1(2) sz k1(4) as p' by simp
  next
    case False
    have sz: "unat (isize (inode_at s1 ip)) = max (unat ?sz) (unat off + ?n)"
      using False as off by (auto simp: word_le_nat_alt)
    then have "open_file s1 ip" using k1 full o(5,6) as by (simp add: open_file_def file_full_def)
    moreover have "inode_at s1 j = inode_at s j" if "j \<noteq> ip" for j by (rule ic [OF that])
    ultimately show ?thesis using that [of s1 s1] w [unfolded if_not_P [OF False]] s1(2) sz as by simp
  qed
qed


text \<open>A file system of eight blocks: boot block, superblock, one inode block, one bitmap block, four data blocks.\<close>

definition sb_demo :: superblock where
  "sb_demo = \<lparr>sb_size = 8, sb_nblocks = 4, sb_ninodes = 8, sb_nlog = 0, sb_logstart = 2, sb_inodestart = 2, sb_bmapstart = 3\<rparr>"

definition fs_demo :: "u16 \<Rightarrow> fs" where
  "fs_demo ty = \<lparr>disk = (\<lambda>b. if b = 1 then put_words (replicate BSIZE 0) 0 [8, 4, 8, 0, 2, 2, 3]
       else if b = 3 then 0x0f # replicate (BSIZE - 1) 0 else replicate BSIZE 0),
     held = [], sb = sb_demo,
     icache = [\<lparr>idev = 1, inum = 1, iref = 1, ilk = \<lparr>slocked = True, spid = 7\<rparr>, valid = True, itype = ty,
       major = 0, minor = 0, nlink = 1, isize = 0, addrs = replicate 13 0\<rparr>],
     dev_read = (\<lambda>_. None), dev_write = (\<lambda>_. None), me = 7\<rparr>"

lemma sb_demo_blocks:
  "unat i < 8 \<Longrightarrow> IBLOCK i sb_demo = 2" "unat i < 8 \<Longrightarrow> BBLOCK i sb_demo = 3"
proof -
  assume i: "unat i < 8"
  have "unat (i div of_nat IPB) = 0" "unat (i div of_nat BPB) = 0" using i by (simp_all add: unat_div IPB_def BPB_num)
  then show "IBLOCK i sb_demo = 2" "BBLOCK i sb_demo = 3" by (simp_all add: IBLOCK_def BBLOCK_def sb_demo_def unat_eq_0)
qed

lemma meta_demo: "meta sb_demo b \<longleftrightarrow> b = 0 \<or> b = 1 \<or> b = 2 \<or> b = 3"
proof -
  have "unat (0 :: u32) < 8" by simp
  then show ?thesis using sb_demo_blocks unfolding meta_def
    by (auto simp: sb_demo_def) (metis sb_demo_def unat_0 zero_less_numeral)+
qed

lemma in_use_demo: "unat b < 8 \<Longrightarrow> in_use (fs_demo ty) b \<longleftrightarrow> unat b < 4"
proof -
  assume b: "unat b < 8"
  have "unat b mod BPB div 8 = 0" "unat b mod 8 = unat b" using b by (simp_all add: BPB_num)
  moreover have "bit (0x0f :: byte) n \<longleftrightarrow> n < 4" if "n < 8" for n
  proof -
    have "n \<in> {0, 1, 2, 3, 4, 5, 6, 7}" using that by auto
    then show ?thesis by (auto simp: bit_numeral_rec)
  qed
  ultimately show ?thesis using sb_demo_blocks(2) [OF b] b by (simp add: in_use_def bit_at_def fs_demo_def)
qed

lemma open_file_demo: "ty = T_FILE \<or> ty = T_DIR \<Longrightarrow> open_file (fs_demo ty) 0" "{4, 5} \<subseteq> free_blocks (fs_demo ty)"
proof -
  have sz: "sb (fs_demo ty) = sb_demo" "unat (sb_size sb_demo) = 8" by (simp_all add: fs_demo_def sb_demo_def)
  have "layout_ok sb_demo" using sb_demo_blocks by (auto simp: layout_ok_def sb_demo_def)
  moreover have "get_sb (disk (fs_demo ty) 1) = sb_demo"
    by (simp add: fs_demo_def get_sb_def sb_demo_def BSIZE_def)
  ultimately have "fs_ok (fs_demo ty)" using sz in_use_demo by (auto simp: fs_ok_def meta_demo fs_demo_def [unfolded BSIZE_def] BSIZE_def)
  moreover have "blockmap (fs_demo ty) 0 n = 0" if "n < MAXFILE" for n
    using that by (simp add: blockmap_def fs_demo_def NDIRECT_def MAXFILE_def)
  ultimately show "ty = T_FILE \<or> ty = T_DIR \<Longrightarrow> open_file (fs_demo ty) 0"
    unfolding open_file_def file_ok_def file_blocks_def
    by (auto simp: fs_demo_def sb_demo_def NDIRECT_def file_full_def layout_consts)
  show "{4, 5} \<subseteq> free_blocks (fs_demo ty)" using in_use_demo [of 4] in_use_demo [of 5] sz by (simp add: free_blocks_def)
qed


end
