(* ===== verification/Dirfacts.thy ===== *)
theory Dirfacts
  imports Dir Fsfile
begin

text \<open>
  Directories as lists of 16-byte entries: \<^verbatim>\<open>dirlookup\<close> finds the first entry in use with the name, and
  \<^verbatim>\<open>dirlink\<close> adds an entry that later lookups find, without disturbing other names. Path names are
  cut into their elements.
\<close>

section \<open>Names\<close>

lemma strncpy_cstr: "cstr_list (cstr_of (strncpy t (int n))) n = cstr_list t n"
proof -
  have "cstr_list (cstr_of (bs @ replicate r 0)) n = cstr_list t n" if "copy_phase t n = (bs, r)" for bs r
    using that
  proof (induction n arbitrary: t bs r)
    case (Suc n)
    show ?case
    proof (cases "t 0 = 0")
      case True
      then show ?thesis using Suc.prems by (auto simp: cstr_of_def)
    next
      case False
      then obtain bs' where b: "copy_phase (\<lambda>i. t (Suc i)) n = (bs', r)" "bs = t 0 # bs'"
        using Suc.prems by (auto split: prod.splits)
      have "cstr_of (bs @ replicate r 0) 0 = t 0" "(\<lambda>i. cstr_of (bs @ replicate r 0) (Suc i)) = cstr_of (bs' @ replicate r 0)"
        using b(2) by (auto simp: cstr_of_def)
      then show ?thesis using Suc.IH [OF b(1)] False by simp
    qed
  qed simp
  then show ?thesis by (simp add: strncpy_def split: prod.splits)
qed

lemma namecmp_eq: "namecmp s t = 0 \<longleftrightarrow> cstr_list (cstr_of s) DIRSIZ = cstr_list (cstr_of t) DIRSIZ"
  by (simp add: namecmp_def strncmp_eq_0)

lemma dirent_facts: "length (dirent ino name) = 16" "de_inum (dirent ino name) = ucast ino"
  "namecmp t (de_name (dirent ino name)) = 0 \<longleftrightarrow> namecmp t name = 0"
proof -
  have l: "length (strncpy (cstr_of name) (int DIRSIZ)) = 14" by (simp add: strncpy_length DIRSIZ_def)
  then show "length (dirent ino name) = 16" by (simp add: dirent_def)
  show "de_inum (dirent ino name) = ucast ino"
  proof -
    have "get16 (put16 (replicate 2 0) 0 (ucast ino) @ xs) 0 = get16 (put16 (replicate 2 0) 0 (ucast ino)) 0" for xs :: "byte list"
      by (simp add: get16_def nth_append)
    then show ?thesis by (simp add: de_inum_def dirent_def)
  qed
  have "de_name (dirent ino name) = strncpy (cstr_of name) (int DIRSIZ)"
    using l by (simp add: de_name_def dirent_def DIRSIZ_def)
  then show "namecmp t (de_name (dirent ino name)) = 0 \<longleftrightarrow> namecmp t name = 0"
    using strncpy_cstr [of "cstr_of name" DIRSIZ] by (simp add: namecmp_eq)
qed

section \<open>Directories as lists of entries\<close>

definition dir_entry :: "fs \<Rightarrow> nat \<Rightarrow> nat \<Rightarrow> byte list" where
  "dir_entry s dp j = map (content s dp) [16 * j..<16 * j + 16]"

definition entries :: "fs \<Rightarrow> nat \<Rightarrow> byte list list" where
  "entries s dp = map (dir_entry s dp) [0..<unat (isize (inode_at s dp)) div 16]"

definition dir_ok :: "fs \<Rightarrow> nat \<Rightarrow> bool" where
  "dir_ok s dp \<longleftrightarrow> open_file s dp \<and> itype (inode_at s dp) = T_DIR \<and> 16 dvd unat (isize (inode_at s dp))"

definition matches :: "byte list \<Rightarrow> byte list \<Rightarrow> bool" where
  "matches name e \<longleftrightarrow> de_inum e \<noteq> 0 \<and> namecmp name (de_name e) = 0"

definition dir_find :: "byte list list \<Rightarrow> byte list \<Rightarrow> nat option" where
  "dir_find es name = find_index (matches name) es"

declare dirlookup_loop.simps [simp del]
declare dirlink_slot.simps [simp del]
declare namex_loop.simps [simp del]

lemma read_entry:
  assumes "dir_ok s dp" and "j < length (entries s dp)"
  shows "readi s dp (of_nat (16 * j)) 16 = Inr (16, entries s dp ! j, s)"
proof -
  let ?sz = "unat (isize (inode_at s dp))"
  have o: "open_file s dp" "16 dvd ?sz" using assms(1) by (auto simp: dir_ok_def)
  have j: "16 * j + 16 \<le> ?sz" using assms(2) o(2) by (auto simp: entries_def)
  have mb: "?sz \<le> 71680" using o(1) by (simp add: open_file_def MAXFILE_def NDIRECT_def NINDIRECT_def BSIZE_def)
  have u: "unat (of_nat (16 * j) :: u32) = 16 * j" using j mb by (intro unat_of_nat_u32) linarith
  have f: "fs_ok s" "file_ok s dp" "held s = []" "file_full s dp" "?sz \<le> MAXFILE * BSIZE" using o(1) by (auto simp: open_file_def)
  have a: "of_nat (16 * j) \<le> isize (inode_at s dp)" using j u by (simp add: word_le_nat_alt)
  have b: "unat (of_nat (16 * j) :: u32) + unat (16 :: u32) < 4294967296" unfolding u using j mb by simp
  have "min (unat (16 :: u32)) (?sz - 16 * j) = 16" using j by simp
  then show ?thesis
    using readi_runs [OF f a b] assms(2) unfolding u by (simp add: entries_def dir_entry_def)
qed

definition dir_hit :: "fs \<Rightarrow> nat \<Rightarrow> byte list \<Rightarrow> nat \<Rightarrow> ((nat \<times> nat) option \<times> fs) res" where
  "dir_hit s dp e off = andthen (iget s (idev (inode_at s dp)) (ucast (de_inum e))) (\<lambda>(ip, s). ret (Some (ip, off), s))"

lemma dirlookup_loop_runs:
  assumes d: "dir_ok s dp" and "j \<le> length (entries s dp)"
  shows "dirlookup_loop s dp name (unat (isize (inode_at s dp))) (16 * j) =
    (case find_index (matches name) (drop j (entries s dp)) of
       None \<Rightarrow> ret (None, s) | Some i \<Rightarrow> dir_hit s dp (entries s dp ! (j + i)) (16 * (j + i)))"
  using assms(2)
proof (induction "length (entries s dp) - j" arbitrary: j)
  case 0
  then have "drop j (entries s dp) = []" "\<not> 16 * j < unat (isize (inode_at s dp))" using d by (auto simp: entries_def dir_ok_def)
  then show ?case by (subst dirlookup_loop.simps) simp
next
  case (Suc k)
  then have j: "j < length (entries s dp)" by simp
  let ?sz = "unat (isize (inode_at s dp))" and ?e = "entries s dp ! j"
  have lt: "16 * j < ?sz" using j by (auto simp: entries_def)
  have dr: "drop j (entries s dp) = ?e # drop (Suc j) (entries s dp)" by (simp add: Cons_nth_drop_Suc j)
  have step: "dirlookup_loop s dp name ?sz (16 * j) = (if matches name ?e then dir_hit s dp ?e (16 * j) else dirlookup_loop s dp name ?sz (16 * Suc j))"
    using lt read_entry [OF d j] by (subst dirlookup_loop.simps) (simp add: matches_def dir_hit_def add.commute)
  have IH: "dirlookup_loop s dp name ?sz (16 * Suc j) = (case find_index (matches name) (drop (Suc j) (entries s dp)) of
       None \<Rightarrow> ret (None, s) | Some i \<Rightarrow> dir_hit s dp (entries s dp ! (Suc j + i)) (16 * (Suc j + i)))"
    using Suc.hyps(2) j by (intro Suc.hyps(1)) auto
  show ?case
  proof (cases "matches name ?e")
    case True
    then show ?thesis unfolding dr step by simp
  next
    case False
    then show ?thesis unfolding dr step IH
      by (cases "find_index (matches name) (drop (Suc j) (entries s dp))") (simp_all add: algebra_simps del: find_index_None)
  qed
qed

lemma dirlookup_runs:
  assumes "dir_ok s dp"
  shows "dirlookup s dp name = (case dir_find (entries s dp) name of
    None \<Rightarrow> ret (None, s) | Some j \<Rightarrow> dir_hit s dp (entries s dp ! j) (16 * j))"
  using dirlookup_loop_runs [OF assms, of 0 name] assms by (simp add: dirlookup_def dir_ok_def dir_find_def cong: option.case_cong)

lemma dirlink_slot_runs:
  assumes d: "dir_ok s dp" and "j \<le> length (entries s dp)"
  shows "dirlink_slot s dp (unat (isize (inode_at s dp))) (16 * j) =
    ret (16 * (case find_index (\<lambda>e. de_inum e = 0) (drop j (entries s dp)) of None \<Rightarrow> length (entries s dp) | Some i \<Rightarrow> j + i), s)"
  using assms(2)
proof (induction "length (entries s dp) - j" arbitrary: j)
  case 0
  then have j: "j = length (entries s dp)" by simp
  then have "\<not> 16 * j < unat (isize (inode_at s dp))" using d by (auto simp: entries_def dir_ok_def)
  then show ?case using j by (subst dirlink_slot.simps) simp
next
  case (Suc k)
  then have j: "j < length (entries s dp)" by simp
  let ?sz = "unat (isize (inode_at s dp))" and ?e = "entries s dp ! j"
  have lt: "16 * j < ?sz" using j by (auto simp: entries_def)
  have dr: "drop j (entries s dp) = ?e # drop (Suc j) (entries s dp)" by (simp add: Cons_nth_drop_Suc j)
  have step: "dirlink_slot s dp ?sz (16 * j) = (if de_inum ?e = 0 then ret (16 * j, s) else dirlink_slot s dp ?sz (16 * Suc j))"
    using lt read_entry [OF d j] by (subst dirlink_slot.simps) (simp add: add.commute)
  have IH: "dirlink_slot s dp ?sz (16 * Suc j) =
      ret (16 * (case find_index (\<lambda>e. de_inum e = 0) (drop (Suc j) (entries s dp)) of None \<Rightarrow> length (entries s dp) | Some i \<Rightarrow> Suc j + i), s)"
    using Suc.hyps(2) j by (intro Suc.hyps(1)) auto
  show ?case
  proof (cases "de_inum ?e = 0")
    case True
    then show ?thesis unfolding dr step by simp
  next
    case False
    then show ?thesis unfolding dr step IH
      by (cases "find_index (\<lambda>e. de_inum e = 0) (drop (Suc j) (entries s dp))") (simp_all add: algebra_simps del: find_index_None)
  qed
qed

text \<open>Replacing an entry that is not in use, or appending one.\<close>

definition put_entry :: "byte list list \<Rightarrow> nat \<Rightarrow> byte list \<Rightarrow> byte list list" where
  "put_entry es j e = (if j < length es then es[j := e] else es @ [e])"

lemma find_index_update:
  "j < length xs \<Longrightarrow> \<not> P (xs ! j) \<Longrightarrow> \<not> P x \<Longrightarrow> find_index P (xs[j := x]) = find_index P xs"
proof (induction xs arbitrary: j)
  case (Cons y xs)
  then show ?case by (cases j) auto
qed simp

lemma find_index_append: "\<not> P x \<Longrightarrow> find_index P (xs @ [x]) = find_index P xs"
  by (induction xs) auto

lemma find_put_entry:
  assumes "dir_find es name = None" and "j \<le> length es" and "j < length es \<Longrightarrow> de_inum (es ! j) = 0" and "ucast ino \<noteq> (0 :: u16)"
  defines "es' \<equiv> put_entry es j (dirent ino name)"
  shows "dir_find es' name = Some j" and "es' ! j = dirent ino name"
    and "namecmp t name \<noteq> 0 \<Longrightarrow> map_option ((!) es') (dir_find es' t) = map_option ((!) es) (dir_find es t)"
proof -
  show e: "es' ! j = dirent ino name" using assms(2) by (simp add: es'_def put_entry_def nth_append)
  have l: "j < length es'" using assms(2) by (simp add: es'_def put_entry_def)
  have n: "es' ! k = es ! k" "k < length es" if "k < j" for k
    using that assms(2) by (auto simp: es'_def put_entry_def nth_append)
  have m: "matches t (dirent ino name) \<longleftrightarrow> namecmp t name = 0" for t
    using assms(4) by (simp add: matches_def dirent_facts)
  have "namecmp name name = 0" by (simp add: namecmp_eq)
  then show "dir_find es' name = Some j"
    using assms(1) e l n m by (auto simp: dir_find_def find_index_Some)
  assume t: "namecmp t name \<noteq> 0"
  have f: "dir_find es' t = dir_find es t"
    using t m assms(3) find_index_update [of j es "matches t" "dirent ino name"] find_index_append [of "matches t" "dirent ino name" es]
    by (auto simp: dir_find_def es'_def put_entry_def matches_def)
  have "es' ! k = es ! k" if "dir_find es t = Some k" for k
  proof -
    have "k < length es" "matches t (es ! k)" using that by (auto simp: dir_find_def find_index_Some)
    then show ?thesis using assms(3) by (auto simp: es'_def put_entry_def nth_append nth_list_update matches_def)
  qed
  then show "map_option ((!) es') (dir_find es' t) = map_option ((!) es) (dir_find es t)"
    unfolding f by (cases "dir_find es t") auto
qed

section \<open>Adding an entry\<close>

lemma dirlink_runs:
  assumes d: "dir_ok s dp" and nf: "dir_find (entries s dp) name = None" and fr: "2 \<le> card (free_blocks s)"
    and sz: "unat (isize (inode_at s dp)) + 16 \<le> MAXFILE * BSIZE"
  obtains s' j where "dirlink s dp name ino = Inr (0, s')" "dir_ok s' dp" "idev (inode_at s' dp) = idev (inode_at s dp)"
    "j \<le> length (entries s dp)" "j < length (entries s dp) \<Longrightarrow> de_inum (entries s dp ! j) = 0"
    "entries s' dp = put_entry (entries s dp) j (dirent ino name)"
proof -
  let ?es = "entries s dp" and ?sz = "unat (isize (inode_at s dp))" and ?e = "dirent ino name"
  define j where "j = (case find_index (\<lambda>e. de_inum e = 0) ?es of None \<Rightarrow> length ?es | Some i \<Rightarrow> i)"
  have j: "j \<le> length ?es" "j < length ?es \<Longrightarrow> de_inum (?es ! j) = 0"
    by (auto simp: j_def find_index_Some split: option.splits)
  have o: "open_file s dp" "16 dvd ?sz" using d by (auto simp: dir_ok_def)
  have len: "16 * length ?es = ?sz" using o(2) by (simp add: entries_def)
  have mb: "MAXFILE * BSIZE = 71680" by (simp add: MAXFILE_def NDIRECT_def NINDIRECT_def BSIZE_def)
  have u: "unat (of_nat (16 * j) :: u32) = 16 * j" using j(1) len sz mb by (intro unat_of_nat_u32) linarith
  have off: "of_nat (16 * j) \<le> isize (inode_at s dp)" using j(1) len u by (simp add: word_le_nat_alt)
  have le: "length ?e = 16" by (rule dirent_facts)
  have bt: "blocks_touched (16 * j) 16 = 1"
  proof -
    have "16 * j mod BSIZE = 16 * (j mod 32)" unfolding BSIZE_def by (simp add: mult_mod_right)
    then show ?thesis by (simp add: blocks_touched_def BSIZE_def)
  qed
  have mx: "unat (of_nat (16 * j) :: u32) + length ?e \<le> MAXFILE * BSIZE" unfolding u le using j(1) len sz by linarith
  have fr': "2 * blocks_touched (unat (of_nat (16 * j) :: u32)) (length ?e) \<le> card (free_blocks s)" unfolding u le bt using fr by simp
  obtain s1 s' where W: "writei s dp ?e (of_nat (16 * j)) (of_nat (length ?e)) = Inr (int (length ?e), s')"
      "wrote_bytes s dp s1 (unat (of_nat (16 * j) :: u32)) ?e" "open_file s' dp"
      "unat (isize (inode_at s' dp)) = max ?sz (unat (of_nat (16 * j) :: u32) + length ?e)"
      "\<And>k. k < MAXFILE * BSIZE \<Longrightarrow> content s' dp k = content s1 dp k"
      "itype (inode_at s' dp) = itype (inode_at s dp)" "idev (inode_at s' dp) = idev (inode_at s dp)"
    by (rule writei_runs [OF o(1) off mx fr']) blast
  have sz': "unat (isize (inode_at s' dp)) = max ?sz (16 * j + 16)" using W(4) unfolding u le .
  have C: "content s' dp k = (if 16 * j \<le> k \<and> k < 16 * j + 16 then ?e ! (k - 16 * j) else content s dp k)" if "k < MAXFILE * BSIZE" for k
    using W(2) W(5) [OF that] that unfolding wrote_bytes_def u le by simp
  have E: "dir_entry s' dp i = (if i = j then ?e else dir_entry s dp i)" if "16 * i + 16 \<le> MAXFILE * BSIZE" for i
  proof (cases "i = j")
    case True
    then show ?thesis using C that le by (auto simp: dir_entry_def intro!: nth_equalityI)
  next
    case False
    then have "\<not> (16 * j \<le> k \<and> k < 16 * j + 16)" if "16 * i \<le> k" "k < 16 * i + 16" for k using that by linarith
    then show ?thesis using False C that by (auto simp: dir_entry_def)
  qed
  have len': "unat (isize (inode_at s' dp)) div 16 = max (length ?es) (Suc j)" using sz' len j(1) by (auto simp: max_def)
  have "entries s' dp = put_entry ?es j ?e"
  proof (rule nth_equalityI)
    show "length (entries s' dp) = length (put_entry ?es j ?e)" using len' j(1) by (auto simp: entries_def put_entry_def max_def)
    fix i assume "i < length (entries s' dp)"
    then have i: "i < max (length ?es) (Suc j)" using len' by (simp add: entries_def)
    have "16 * i + 16 \<le> MAXFILE * BSIZE" using i j(1) len sz by (auto simp: max_def split: if_splits)
    from E [OF this] show "entries s' dp ! i = put_entry ?es j ?e ! i"
      using i j(1) len' by (auto simp: entries_def put_entry_def nth_append max_def nth_list_update split: if_splits)
  qed
  moreover have "dir_ok s' dp"
  proof -
    have "16 dvd max ?sz (16 * j + 16)" using o(2) by (auto simp: max_def)
    then show ?thesis using W(3,6) d sz' by (simp add: dir_ok_def)
  qed
  moreover have "dirlink s dp name ino = Inr (0, s')"
  proof -
    have "dirlookup s dp name = ret (None, s)" using dirlookup_runs [OF d, of name] nf by simp
    moreover have "dirlink_slot s dp ?sz 0 = ret (16 * j, s)"
      using dirlink_slot_runs [OF d, of 0] by (simp add: j_def cong: option.case_cong)
    ultimately show ?thesis using W(1) le unfolding dirlink_def by simp
  qed
  ultimately show ?thesis using that W(7) j by blast
qed

text \<open>
  C25. Adding a directory entry: for a name that is not in the directory and a non-zero inode number, with free blocks and room below
  the maximal file size, \<^verbatim>\<open>dirlink\<close> returns 0; the directory stays well formed; the name is then found, at one
  entry that carries the number; a later \<^verbatim>\<open>dirlookup\<close> of the name gets that inode and reports the
  entry's offset; and the lookup of every other name gives the same entry as before.
\<close>

theorem dirlink_lookup:
  assumes d: "dir_ok s dp" and nf: "dir_find (entries s dp) name = None" and ino: "ucast ino \<noteq> (0 :: u16)"
    and fr: "2 \<le> card (free_blocks s)" and sz: "unat (isize (inode_at s dp)) + 16 \<le> MAXFILE * BSIZE"
  shows "\<exists>s' j. dirlink s dp name ino = Inr (0, s') \<and> dir_ok s' dp \<and> dir_find (entries s' dp) name = Some j \<and>
    de_inum (entries s' dp ! j) = ucast ino \<and>
    dirlookup s' dp name = andthen (iget s' (idev (inode_at s dp)) (ucast (ucast ino :: u16))) (\<lambda>(ip, s). ret (Some (ip, 16 * j), s)) \<and>
    (\<forall>t. namecmp t name \<noteq> 0 \<longrightarrow>
      map_option ((!) (entries s' dp)) (dir_find (entries s' dp) t) = map_option ((!) (entries s dp)) (dir_find (entries s dp) t))"
proof -
  obtain s' j where L: "dirlink s dp name ino = Inr (0, s')" "dir_ok s' dp" "idev (inode_at s' dp) = idev (inode_at s dp)"
    "j \<le> length (entries s dp)" "j < length (entries s dp) \<Longrightarrow> de_inum (entries s dp ! j) = 0"
    "entries s' dp = put_entry (entries s dp) j (dirent ino name)"
    by (rule dirlink_runs [OF d nf fr sz, of ino]) blast
  note P = find_put_entry [OF nf L(4,5) ino, folded L(6)]
  have "dirlookup s' dp name = dir_hit s' dp (dirent ino name) (16 * j)" using dirlookup_runs [OF L(2)] P(1,2) by simp
  then show ?thesis using L(1-3) P by (auto simp: dir_hit_def dirent_facts)
qed

theorem dirlink_lookup_witness:
  "\<exists>s' j. dirlink (fs_demo T_DIR) 0 [0x61, 0x62] 5 = Inr (0, s') \<and> dir_find (entries s' 0) [0x61, 0x62] = Some j \<and>
    de_inum (entries s' 0 ! j) = 5"
proof -
  have d: "dir_ok (fs_demo T_DIR) 0" using open_file_demo(1) [of T_DIR] by (simp add: dir_ok_def) (simp add: fs_demo_def)
  have z: "isize (inode_at (fs_demo T_DIR) 0) = 0" by (simp add: fs_demo_def)
  have f: "dir_find (entries (fs_demo T_DIR) 0) [0x61, 0x62] = None" by (simp add: dir_find_def entries_def z)
  have "card {4, 5 :: u32} \<le> card (free_blocks (fs_demo T_DIR))" using open_file_demo(2) by (intro card_mono) auto
  then have c: "2 \<le> card (free_blocks (fs_demo T_DIR))" by simp
  show ?thesis using dirlink_lookup [OF d f _ c, of 5] z by (auto simp: layout_consts)
qed

section \<open>Path elements\<close>

text \<open>The segments between slashes; the elements of a path are the non-empty ones, cut to 14 characters.\<close>

fun segments :: "byte list \<Rightarrow> byte list list" where
  "segments [] = [[]]"
| "segments (c # cs) = (if c = slash then [] # segments cs else (c # hd (segments cs)) # tl (segments cs))"

definition path_elems :: "byte list \<Rightarrow> byte list list" where
  "path_elems path = map (take DIRSIZ) (filter (\<lambda>e. e \<noteq> []) (segments path))"

lemma segments_ne [simp]: "segments p \<noteq> []"
  by (cases p) auto

lemma segments_plain: "slash \<notin> set xs \<Longrightarrow> segments xs = [xs]"
  by (induction xs) auto

lemma segments_cut: "slash \<notin> set xs \<Longrightarrow> segments (xs @ slash # ys) = xs # segments ys"
  by (induction xs) auto

lemma path_elems_slashes [simp]: "path_elems (dropWhile (\<lambda>c. c = slash) p) = path_elems p"
  by (induction p) (auto simp: path_elems_def)

lemma path_elems_cut:
  assumes "s \<noteq> []" and "hd s \<noteq> slash"
  shows "path_elems s = take DIRSIZ (takeWhile (\<lambda>c. c \<noteq> slash) s) # path_elems (dropWhile (\<lambda>c. c = slash) (dropWhile (\<lambda>c. c \<noteq> slash) s))"
proof -
  let ?e = "takeWhile (\<lambda>c. c \<noteq> slash) s" and ?r = "dropWhile (\<lambda>c. c \<noteq> slash) s"
  have e: "slash \<notin> set ?e" "?e \<noteq> []" using assms set_takeWhileD [of slash "\<lambda>c. c \<noteq> slash" s] by (auto simp: takeWhile_eq_Nil_iff)
  show ?thesis
  proof (cases ?r)
    case Nil
    then have "s = ?e" by (metis append_Nil2 takeWhile_dropWhile_id)
    then have "path_elems s = [take DIRSIZ ?e]" using segments_plain [OF e(1)] e(2) by (simp add: path_elems_def)
    then show ?thesis unfolding Nil by (simp add: path_elems_def)
  next
    case (Cons c cs)
    then have "c = slash" using hd_dropWhile [of "\<lambda>c. c \<noteq> slash" s] by simp
    then have "s = ?e @ slash # cs" using Cons by (metis takeWhile_dropWhile_id)
    then have "path_elems s = take DIRSIZ ?e # path_elems cs" using segments_cut [OF e(1), of cs] e(2) by (simp add: path_elems_def)
    then show ?thesis using Cons \<open>c = slash\<close> by simp
  qed
qed

text \<open>
  \<^verbatim>\<open>skipelem\<close> cuts off the first element of a path: it fails exactly on paths without elements; otherwise it
  returns the first element (cut to 14 characters) and a rest that has exactly the remaining elements and no leading slash, and
  that is empty exactly when the element was the last one.
\<close>

theorem skipelem_elements:
  "case skipelem path of
     None \<Rightarrow> path_elems path = []
   | Some (name, rest) \<Rightarrow> path_elems path = name # path_elems rest \<and> length name \<le> DIRSIZ \<and>
       (rest = [] \<longleftrightarrow> path_elems rest = []) \<and> hd (rest @ [0]) \<noteq> slash"
proof -
  let ?s = "dropWhile (\<lambda>c. c = slash) path" let ?p = "dropWhile (\<lambda>c. c \<noteq> slash) ?s"
  let ?r = "dropWhile (\<lambda>c. c = slash) ?p"
  have ps: "path_elems ?s = path_elems path" by simp
  show ?thesis
  proof (cases "?s = []")
    case True
    then have "path_elems path = path_elems []" using ps by metis
    then have "path_elems path = []" by (simp add: path_elems_def)
    then show ?thesis using True by (simp add: skipelem_def)
  next
    case False
    have hd: "hd ?s \<noteq> slash" using hd_dropWhile [OF False] by simp
    have tk: "takeWhile (\<lambda>c. c \<noteq> slash) ?s = take (length ?s - length ?p) ?s"
    proof -
      have "length (takeWhile (\<lambda>c. c \<noteq> slash) ?s) + length ?p = length ?s"
        unfolding length_append [symmetric] by simp
      then have "length ?s - length ?p = length (takeWhile (\<lambda>c. c \<noteq> slash) ?s)" by simp
      then show ?thesis using takeWhile_eq_take [of "\<lambda>c. c \<noteq> slash" ?s] by simp
    qed
    have cut: "(if length ?s - length ?p \<ge> DIRSIZ then take DIRSIZ ?s else take (length ?s - length ?p) ?s) = take DIRSIZ (takeWhile (\<lambda>c. c \<noteq> slash) ?s)"
      unfolding tk take_take min_def by (cases "DIRSIZ \<le> length ?s - length ?p") (simp_all only: if_True if_False)
    have sk: "skipelem path = Some (take DIRSIZ (takeWhile (\<lambda>c. c \<noteq> slash) ?s), ?r)"
      unfolding skipelem_def Let_def cut using False by (rule if_not_P)
    have r: "?r = [] \<or> hd ?r \<noteq> slash" using hd_dropWhile [of "\<lambda>c. c = slash" ?p] by auto
    have "?r = [] \<longleftrightarrow> path_elems ?r = []"
    proof (cases "?r = []")
      case True
      then show ?thesis by (simp only: path_elems_def segments.simps filter.simps list.map) simp
    next
      case rne: False
      then show ?thesis using path_elems_cut [OF rne] r by (metis list.distinct(1))
    qed
    moreover have "hd (?r @ [0]) \<noteq> slash" using r unfolding hd_append by (auto simp: if_splits)
    moreover have "path_elems path = take DIRSIZ (takeWhile (\<lambda>c. c \<noteq> slash) ?s) # path_elems ?r"
      using path_elems_cut [OF False hd] unfolding ps .
    ultimately show ?thesis unfolding sk option.case prod.case length_take by (simp only: min.cobounded2 simp_thms)
  qed
qed

end
