(* ===== verification/Checked.thy ===== *)
theory Checked
  imports Fsfile
begin

text \<open>
  Checksummed files (\<^verbatim>\<open>T_CHECKED\<close>): what \<^verbatim>\<open>readi\<close> really does with them.
\<close>

lemma low24_and: "low24 a = a AND 0x00ffffff"
  by (simp add: low24_def and.commute)

text \<open>One round of the loop of \<^verbatim>\<open>readi\<close> on a directly addressed block of a checked file.\<close>

lemma checked_read:
  assumes ty: "itype (inode_at s ip) = T_CHECKED" and off: "off < isize (inode_at s ip)" and n: "0 < n" "unat off + unat n < 4294967296"
    and bn: "unat off div BSIZE < NDIRECT" "addrs (inode_at s ip) ! (unat off div BSIZE) \<noteq> 0" "length (addrs (inode_at s ip)) = NDIRECT + 1"
  defines "b \<equiv> low24 (addrs (inode_at s ip) ! (unat off div BSIZE))"
  obtains i where "i \<le> unat off div BSIZE" "low24 (addrs (inode_at s ip) ! i) = b"
    "readi s ip off n = (if b \<in> set (held s) then Inl (Sleep ''buffer'')
       else ret (if block_sum (disk s b) = drop_bit 24 (addrs (inode_at s ip) ! i) then 1 else -1, [], s\<lparr>held := b # held s\<rparr>))"
proof -
  let ?bn = "unat off div BSIZE" and ?as = "addrs (inode_at s ip)"
  have bm: "bmap s ip ?bn = Inr (b, s)" using bn ty by (simp add: bmap_def b_def Let_def)
  obtain i where i: "find_index (\<lambda>a. a AND 0x00ffffff = b) (take NDIRECT ?as) = Some i" "i \<le> ?bn"
  proof (cases "find_index (\<lambda>a. a AND 0x00ffffff = b) (take NDIRECT ?as)")
    case None
    then have "\<forall>x \<in> set (take NDIRECT ?as). x AND 0x00ffffff \<noteq> b" by simp
    moreover have "?as ! ?bn \<in> set (take NDIRECT ?as)" using bn by (auto simp: in_set_conv_nth intro!: exI [of _ ?bn])
    ultimately have False by (auto simp: b_def low24_and)
    then show ?thesis ..
  next
    case (Some i)
    then have "\<not> ?bn < i" using bn find_index_first [OF Some, of ?bn] by (auto simp: b_def low24_and)
    then show ?thesis using that Some by simp
  qed
  have ib: "?as ! i AND 0x00ffffff = b" using find_index_hit [OF i(1)] i(2) bn by simp
  have ca: "checked_addr s' ip b = ret (?as ! i, s')" if "icache s' = icache s" for s'
    using i(1) that by (simp add: checked_addr_def Let_def)
  let ?m = "if off + n > isize (inode_at s ip) then isize (inode_at s ip) - off else n"
  have on: "unat (off + n) = unat off + unat n" by (rule unat_add_small [OF n(2)])
  have m: "0 < unat ?m" using off n on by (auto simp: word_less_nat_alt unat_diff_u32 word_le_nat_alt)
  have nw: "\<not> (off > isize (inode_at s ip) \<or> off + n < off)" using off on by (auto simp: word_less_nat_alt)
  have nd: "itype (inode_at s ip) \<noteq> T_DEV" using ty by (simp add: T_DEV_def T_CHECKED_def)
  have r: "readi s ip off n = readi_loop s ip (unat off) (unat ?m) 0 []"
    using nw nd unfolding readi_def Let_def by simp
  have "readi s ip off n = (if b \<in> set (held s) then Inl (Sleep ''buffer'')
       else ret (if block_sum (disk s b) = drop_bit 24 (?as ! i) then 1 else -1, [], s\<lparr>held := b # held s\<rparr>))"
    unfolding r using m bm ca ty by (subst readi_loop.simps) (simp add: Let_def bhold_def)
  then show ?thesis using that [OF i(2)] ib by (simp add: low24_and)
qed

section \<open>Properties\<close>

text \<open>
  C33. Reading a checked file: \<^verbatim>\<open>readi\<close> within the file returns 1 or -1 (not a number of bytes), copies
  nothing, and never releases the buffer of the block it looked at: the next \<^verbatim>\<open>readi\<close> of the same
  place waits forever for that buffer.
\<close>

theorem checked_read_blocks:
  assumes "itype (inode_at s ip) = T_CHECKED" and "off < isize (inode_at s ip)" and "0 < n" and "unat off + unat n < 4294967296"
    and "unat off div BSIZE < NDIRECT" and "addrs (inode_at s ip) ! (unat off div BSIZE) \<noteq> 0"
    and "length (addrs (inode_at s ip)) = NDIRECT + 1" and "held s = []"
  shows "\<exists>r s'. readi s ip off n = Inr (r, [], s') \<and> (r = 1 \<or> r = -1) \<and> held s' \<noteq> [] \<and> readi s' ip off n = Inl (Sleep ''buffer'')"
proof -
  let ?b = "low24 (addrs (inode_at s ip) ! (unat off div BSIZE))"
  let ?s' = "s\<lparr>held := [?b]\<rparr>"
  obtain i where "readi s ip off n = (if ?b \<in> set (held s) then Inl (Sleep ''buffer'')
       else ret (if block_sum (disk s ?b) = drop_bit 24 (addrs (inode_at s ip) ! i) then 1 else -1, [], s\<lparr>held := ?b # held s\<rparr>))"
    by (rule checked_read [OF assms(1-7)])
  then obtain r where "readi s ip off n = Inr (r, [], ?s')" "r = 1 \<or> r = -1" using assms(8) by (simp split: if_splits)
  moreover have "readi ?s' ip off n = Inl (Sleep ''buffer'')"
    by (rule checked_read [of ?s' ip off n]) (use assms(1-7) in auto)
  ultimately show ?thesis by force
qed

definition checked_demo :: fs where
  "checked_demo = (fs_demo T_CHECKED)\<lparr>icache := [(inode_at (fs_demo T_CHECKED) 0)\<lparr>isize := 100, addrs := 4 # replicate 12 0\<rparr>]\<rparr>"

theorem checked_read_blocks_witness:
  "\<exists>r s'. readi checked_demo 0 0 10 = Inr (r, [], s') \<and> readi s' 0 0 10 = Inl (Sleep ''buffer'')"
  using checked_read_blocks [of checked_demo 0 0 10] by (auto simp: checked_demo_def fs_demo_def layout_consts)

section \<open>The sign of characters\<close>

lemma bit_block_sum: "bit (fold (\<lambda>b c. c XOR scast b) blk (x :: u32)) 31 = (bit x 31 \<noteq> odd (length (filter (\<lambda>b :: byte. bit b 7) blk)))"
  by (induction blk arbitrary: x) (auto simp: bit_simps)

text \<open>
  C34. The checksum sign-extends each byte: when an odd number of the bytes of a block is 0x80 or more, the
  computed sum does not fit the eight bits stored with the address, and \<^verbatim>\<open>readi\<close> of an undamaged
  block returns -1.
\<close>

theorem checked_sum_sign:
  assumes "itype (inode_at s ip) = T_CHECKED" and "off < isize (inode_at s ip)" and "0 < n" and "unat off + unat n < 4294967296"
    and "unat off div BSIZE < NDIRECT" and "addrs (inode_at s ip) ! (unat off div BSIZE) \<noteq> 0"
    and "length (addrs (inode_at s ip)) = NDIRECT + 1" and "held s = []"
    and "odd (length (filter (\<lambda>b. 0x80 \<le> b) (disk s (low24 (addrs (inode_at s ip) ! (unat off div BSIZE))))))"
  shows "\<exists>s'. readi s ip off n = Inr (-1, [], s')"
proof -
  let ?b = "low24 (addrs (inode_at s ip) ! (unat off div BSIZE))"
  obtain i where r: "readi s ip off n = (if ?b \<in> set (held s) then Inl (Sleep ''buffer'')
       else ret (if block_sum (disk s ?b) = drop_bit 24 (addrs (inode_at s ip) ! i) then 1 else -1, [], s\<lparr>held := ?b # held s\<rparr>))"
    by (rule checked_read [OF assms(1-7)])
  have "bit (b :: byte) 7 \<longleftrightarrow> 0x80 \<le> b" for b
  proof -
    have "bit b 7 \<longleftrightarrow> odd (unat b div 128)" using bit_unsigned_iff [where 'a = nat, of b 7] by (simp add: bit_iff_odd)
    moreover have "unat b < 256" using unsigned_less [of b, where 'a = nat] by simp
    moreover have "odd (m div 128) \<longleftrightarrow> 128 \<le> m" if "m < 256" for m :: nat
      using that by (cases "m < 128") (simp_all add: le_div_geq)
    ultimately show ?thesis by (simp add: word_le_nat_alt)
  qed
  then have "bit (block_sum (disk s ?b)) 31" using assms(9) bit_block_sum [of "disk s ?b" 0] by (simp add: block_sum_def)
  moreover have "\<not> bit (drop_bit 24 (a :: u32)) 31" for a
    using bit_imp_le_length [of a 55] by (auto simp: bit_simps)
  ultimately have "block_sum (disk s ?b) \<noteq> drop_bit 24 (addrs (inode_at s ip) ! i)" by metis
  then show ?thesis using r assms(8) by simp
qed

definition sign_demo :: fs where
  "sign_demo = checked_demo\<lparr>disk := (\<lambda>b. 0x80 # replicate 511 0)\<rparr>"

theorem checked_sum_sign_witness: "\<exists>s'. readi sign_demo 0 0 10 = Inr (-1, [], s')"
  using checked_sum_sign [of sign_demo 0 0 10] by (auto simp: sign_demo_def checked_demo_def fs_demo_def layout_consts)

end
