(* ===== verification/Filetable.thy ===== *)
theory Filetable
  imports Dir Pipe Kalloc
begin

text \<open>
  Open files, \<^verbatim>\<open>file.c\<close> and \<^verbatim>\<open>pipealloc\<close> of \<^verbatim>\<open>pipe.c\<close>. Pipes live in pages of the page allocator and are
  named by the address of their page. \<open>ops\<close> counts the file system operations this process has open
  between \<^verbatim>\<open>begin_op\<close> and \<^verbatim>\<open>end_op\<close>. A run that would wait for another process ends in \<open>Sleep\<close>; what happens to a pipe
  between two sleeps is the subject of theory Pipe.
\<close>

definition NFILE :: nat where [layout_consts]: "NFILE = 100"

datatype fdtype = FD_NONE | FD_PIPE | FD_INODE

record openfile =
  ftype :: fdtype
  fref :: int
  freadable :: bool
  fwritable :: bool
  fpipe :: u32
  fip :: nat
  foff :: u32

record kfiles =
  kfs :: fs
  ftable :: "openfile list"
  pipes :: "u32 \<Rightarrow> pipe"
  pages :: kmem
  kend :: u32
  ops :: int

definition upd_file :: "nat \<Rightarrow> (openfile \<Rightarrow> openfile) \<Rightarrow> kfiles \<Rightarrow> kfiles" where
  "upd_file f g k = k\<lparr>ftable := (ftable k)[f := g (ftable k ! f)]\<rparr>"

text \<open>A file system routine on the file system of the kernel.\<close>

definition on_fs :: "(fs \<Rightarrow> ('a \<times> fs) res) \<Rightarrow> kfiles \<Rightarrow> ('a \<times> kfiles) res" where
  "on_fs op k = andthen (op (kfs k)) (\<lambda>(x, s). ret (x, k\<lparr>kfs := s\<rparr>))"

definition on_fs' :: "(fs \<Rightarrow> fs res) \<Rightarrow> kfiles \<Rightarrow> kfiles res" where
  "on_fs' op k = andthen (op (kfs k)) (\<lambda>s. ret (k\<lparr>kfs := s\<rparr>))"

definition op_begin :: "kfiles \<Rightarrow> kfiles" where
  "op_begin k = k\<lparr>ops := ops k + 1\<rparr>"

definition op_end :: "kfiles \<Rightarrow> kfiles" where
  "op_end k = k\<lparr>ops := ops k - 1\<rparr>"

section \<open>Operations\<close>

definition filealloc :: "kfiles \<Rightarrow> nat option \<times> kfiles" where
  "filealloc k =
     (case find_index (\<lambda>f. fref f = 0) (ftable k) of
        Some f \<Rightarrow> (Some f, upd_file f (\<lambda>q. q\<lparr>fref := 1\<rparr>) k)
      | None \<Rightarrow> (None, k))"

definition filedup :: "kfiles \<Rightarrow> nat \<Rightarrow> kfiles res" where
  "filedup k f =
     (if fref (ftable k ! f) < 1 then panic ''filedup''
      else ret (upd_file f (\<lambda>q. q\<lparr>fref := fref q + 1\<rparr>) k))"

definition close_pipe :: "kfiles \<Rightarrow> u32 \<Rightarrow> bool \<Rightarrow> kfiles res" where
  "close_pipe k a writable =
     (let (p, _, free) = pipeclose (pipes k a) writable; k = k\<lparr>pipes := (pipes k)(a := p)\<rparr>
      in if free then andthen (kfree (kend k) (pages k) a) (\<lambda>m. ret (k\<lparr>pages := m\<rparr>)) else ret k)"

definition fileclose :: "kfiles \<Rightarrow> nat \<Rightarrow> kfiles res" where
  "fileclose k f =
     (let q = ftable k ! f
      in if fref q < 1 then panic ''fileclose''
         else if fref q - 1 > 0 then ret (upd_file f (\<lambda>q. q\<lparr>fref := fref q - 1\<rparr>) k)
         else let k = upd_file f (\<lambda>q. q\<lparr>fref := 0, ftype := FD_NONE\<rparr>) k
              in case ftype q of
                   FD_PIPE \<Rightarrow> close_pipe k (fpipe q) (fwritable q)
                 | FD_INODE \<Rightarrow> andthen (on_fs' (\<lambda>s. iput s (fip q)) (op_begin k)) (\<lambda>k. ret (op_end k))
                 | FD_NONE \<Rightarrow> ret k)"

definition filestat :: "u32 \<Rightarrow> kfiles \<Rightarrow> nat \<Rightarrow> stat \<Rightarrow> (int \<times> stat \<times> kfiles) res" where
  "filestat beyond k f st =
     (let q = ftable k ! f
      in if ftype q = FD_INODE
         then andthen (on_fs' (\<lambda>s. ilock s (fip q)) k) (\<lambda>k.
              andthen (on_fs (\<lambda>s. stati beyond s (fip q) st) k) (\<lambda>(st, k).
              andthen (on_fs' (\<lambda>s. iunlock s (fip q)) k) (\<lambda>k. ret (0, st, k))))
         else ret (-1, st, k))"

text \<open>\<^verbatim>\<open>fileread\<close>: the return value and the bytes stored at \<^verbatim>\<open>addr\<close>; \<open>kld\<close> is \<^verbatim>\<open>myproc()->killed\<close>.\<close>

definition fileread :: "bool \<Rightarrow> kfiles \<Rightarrow> nat \<Rightarrow> int \<Rightarrow> (int \<times> byte list \<times> kfiles) res" where
  "fileread kld k f n =
     (let q = ftable k ! f
      in if \<not> freadable q then ret (-1, [], k)
         else case ftype q of
           FD_PIPE \<Rightarrow>
             (case piperead (pipes k (fpipe q)) kld n of
                (p, _, Returned (Some bs)) \<Rightarrow> ret (int (length bs), bs, k\<lparr>pipes := (pipes k)(fpipe q := p)\<rparr>)
              | (p, _, Returned None) \<Rightarrow> ret (-1, [], k)
              | (p, _, Asleep _ _) \<Rightarrow> Inl (Sleep ''piperead''))
         | FD_INODE \<Rightarrow>
             andthen (on_fs' (\<lambda>s. ilock s (fip q)) k) (\<lambda>k.
             andthen (readi (kfs k) (fip q) (foff q) (of_int n)) (\<lambda>(r, bs, s).
               let k = k\<lparr>kfs := s\<rparr>; k = (if r > 0 then upd_file f (\<lambda>q. q\<lparr>foff := foff q + of_int r\<rparr>) k else k)
               in andthen (on_fs' (\<lambda>s. iunlock s (fip q)) k) (\<lambda>k. ret (r, bs, k))))
         | FD_NONE \<Rightarrow> panic ''fileread'')"

definition chunk_max :: nat where
  "chunk_max = ((10 - 1 - 1 - 2) div 2) * 512"

text \<open>One transaction of \<^verbatim>\<open>filewrite\<close>: write the bytes \<open>src\<close> at the offset of the file.\<close>

definition write_chunk :: "kfiles \<Rightarrow> nat \<Rightarrow> byte list \<Rightarrow> (int \<times> kfiles) res" where
  "write_chunk k f src =
     (let q = ftable k ! f
      in andthen (on_fs' (\<lambda>s. ilock s (fip q)) (op_begin k)) (\<lambda>k.
         andthen (on_fs (\<lambda>s. writei s (fip q) src (foff q) (of_nat (length src))) k) (\<lambda>(r, k).
           let k = (if r > 0 then upd_file f (\<lambda>q. q\<lparr>foff := foff q + of_int r\<rparr>) k else k)
           in andthen (on_fs' (\<lambda>s. iunlock s (fip q)) k) (\<lambda>k. ret (r, op_end k)))))"

function filewrite_loop :: "kfiles \<Rightarrow> nat \<Rightarrow> byte list \<Rightarrow> nat \<Rightarrow> (int \<times> kfiles) res" where
  "filewrite_loop k f src i =
     (if i < length src then
        let n1 = length src - i; n1 = (if n1 > chunk_max then chunk_max else n1)
        in case write_chunk k f (take n1 (drop i src)) of
             Inl e \<Rightarrow> Inl e
           | Inr (r, k) \<Rightarrow>
               if r < 0 then ret (-1, k)
               else if r \<noteq> int n1 then panic ''short filewrite''
               else filewrite_loop k f src (i + n1)
      else ret (int (length src), k))"
  by pat_completeness auto
termination by (relation "measure (\<lambda>(k, f, src, i). length src - i)") (auto simp: chunk_max_def)

text \<open>\<^verbatim>\<open>filewrite\<close> of the \<open>n\<close> bytes of the list; a negative \<open>n\<close> comes with no bytes and writes nothing.\<close>

definition filewrite :: "bool \<Rightarrow> kfiles \<Rightarrow> nat \<Rightarrow> byte list \<Rightarrow> (int \<times> kfiles) res" where
  "filewrite kld k f src =
     (let q = ftable k ! f
      in if \<not> fwritable q then ret (-1, k)
         else case ftype q of
           FD_PIPE \<Rightarrow>
             (case pipewrite (pipes k (fpipe q)) kld src of
                (p, _, Returned r) \<Rightarrow> ret (r, k\<lparr>pipes := (pipes k)(fpipe q := p)\<rparr>)
              | (p, _, Asleep _ _) \<Rightarrow> Inl (Sleep ''pipewrite''))
         | FD_INODE \<Rightarrow> filewrite_loop k f src 0
         | FD_NONE \<Rightarrow> panic ''filewrite'')"

text \<open>\<^verbatim>\<open>pipealloc\<close>: the read end and the write end, or nothing; \<open>junk\<close> is what the page held.\<close>

definition pipealloc :: "byte list \<Rightarrow> kfiles \<Rightarrow> ((nat \<times> nat) option \<times> kfiles) res" where
  "pipealloc junk k =
     (case filealloc k of
        (None, k) \<Rightarrow> ret (None, k)
      | (Some f0, k) \<Rightarrow>
          (case filealloc k of
             (None, k) \<Rightarrow> andthen (fileclose k f0) (\<lambda>k. ret (None, k))
           | (Some f1, k) \<Rightarrow>
               let (a, m) = kalloc (pages k); k = k\<lparr>pages := m\<rparr>
               in if a = 0 then andthen (fileclose k f0) (\<lambda>k. andthen (fileclose k f1) (\<lambda>k. ret (None, k)))
                  else let k = k\<lparr>pipes := (pipes k)(a := pipe_init junk)\<rparr>;
                           k = upd_file f0 (\<lambda>q. q\<lparr>ftype := FD_PIPE, freadable := True, fwritable := False, fpipe := a\<rparr>) k;
                           k = upd_file f1 (\<lambda>q. q\<lparr>ftype := FD_PIPE, freadable := False, fwritable := True, fpipe := a\<rparr>) k
                       in ret (Some (f0, f1), k)))"

end
