(* ===== verification/Syscall.thy ===== *)
theory Syscall
  imports CString Kalloc
begin

text \<open>
  Fetching system call arguments from user memory and dispatching calls, \<^verbatim>\<open>syscall.c\<close>. The part of the
  running process these routines look at is its size, its memory as mapped by its page table, and
  the saved user stack pointer; \<^verbatim>\<open>eax\<close> is the saved register with the call number.
\<close>

record user =
  usz :: u32
  umem :: mem
  uesp :: u32
  ueax :: u32

definition fetchint :: "user \<Rightarrow> u32 \<Rightarrow> u32 option" where
  "fetchint u addr = (if addr \<ge> usz u \<or> addr + 4 > usz u then None else Some (load32 (umem u) addr))"

text \<open>The scan of \<^verbatim>\<open>fetchstr\<close> over the \<open>n\<close> bytes from \<open>a\<close> up to the end of the process: the characters before the NUL.\<close>

fun scan_str :: "mem \<Rightarrow> u32 \<Rightarrow> nat \<Rightarrow> byte list option" where
  "scan_str m a 0 = None"
| "scan_str m a (Suc n) = (if m a = 0 then Some [] else map_option ((#) (m a)) (scan_str m (a + 1) n))"

text \<open>\<^verbatim>\<open>fetchstr\<close>: the string at \<open>addr\<close>, whose length is the C return value; \<open>None\<close> is \<open>-1\<close>.\<close>

definition fetchstr :: "user \<Rightarrow> u32 \<Rightarrow> byte list option" where
  "fetchstr u addr = (if addr \<ge> usz u then None else scan_str (umem u) addr (unat (usz u) - unat addr))"

definition argint :: "user \<Rightarrow> nat \<Rightarrow> u32 option" where
  "argint u n = fetchint u (uesp u + 4 + 4 * of_nat n)"

definition argptr :: "user \<Rightarrow> nat \<Rightarrow> int \<Rightarrow> u32 option" where
  "argptr u n len =
     (case argint u n of
        None \<Rightarrow> None
      | Some i \<Rightarrow> if len < 0 \<or> i \<ge> usz u \<or> i + of_int len > usz u then None else Some i)"

text \<open>In part 1, \<^verbatim>\<open>argptr\<close> also rejects the null pointer.\<close>

definition argptr_part1 :: "user \<Rightarrow> nat \<Rightarrow> int \<Rightarrow> u32 option" where
  "argptr_part1 u n len =
     (case argint u n of
        None \<Rightarrow> None
      | Some i \<Rightarrow> if len < 0 \<or> i \<ge> usz u \<or> i + of_int len > usz u \<or> i = 0 then None else Some i)"

definition argstr :: "user \<Rightarrow> nat \<Rightarrow> byte list option" where
  "argstr u n = (case argint u n of None \<Rightarrow> None | Some addr \<Rightarrow> fetchstr u addr)"

text \<open>
  \<^verbatim>\<open>syscall\<close>: the handler with the number in \<^verbatim>\<open>eax\<close> runs and its result goes to \<^verbatim>\<open>eax\<close>; an unknown number
  gives -1. \<open>tbl\<close> is the table \<^verbatim>\<open>syscalls\<close> of handlers on a state \<open>'s\<close>.
\<close>

definition syscall :: "('s \<Rightarrow> u32 \<times> 's) option list \<Rightarrow> user \<Rightarrow> 's \<Rightarrow> user \<times> 's" where
  "syscall tbl u s =
     (let num = sint (ueax u)
      in if num > 0 \<and> num < int (length tbl) \<and> tbl ! nat num \<noteq> None
         then let (r, s) = the (tbl ! nat num) s in (u\<lparr>ueax := r\<rparr>, s)
         else (u\<lparr>ueax := -1\<rparr>, s))"

section \<open>Bounds\<close>

lemma scan_str_Some:
  "scan_str m a n = Some bs \<Longrightarrow> length bs < n \<and> m (a + of_nat (length bs)) = 0 \<and>
     (\<forall>i < length bs. bs ! i = m (a + of_nat i) \<and> bs ! i \<noteq> 0)"
proof (induction m a n arbitrary: bs rule: scan_str.induct)
  case (2 m a n)
  show ?case
  proof (cases "m a = 0")
    case True
    with 2 show ?thesis by simp
  next
    case False
    then obtain cs where cs: "scan_str m (a + 1) n = Some cs" "bs = m a # cs" using "2.prems" by auto
    with "2.IH" [OF False cs(1)] False show ?thesis by (auto simp: nth_Cons add.assoc split: nat.split)
  qed
qed simp

lemma fetchint_bounds: "usz u \<le> KERNBASE \<Longrightarrow> fetchint u a = Some v \<Longrightarrow> unat a + 4 \<le> unat (usz u) \<and> v = load32 (umem u) a"
proof -
  assume k: "usz u \<le> KERNBASE" and f: "fetchint u a = Some v"
  have "a < usz u" "a + 4 \<le> usz u" "v = load32 (umem u) a" using f by (auto simp: fetchint_def split: if_splits)
  moreover from this have "unat a < 2147483648" using k by (simp add: word_less_nat_alt word_le_nat_alt layout_consts)
  ultimately show ?thesis by (auto simp: word_le_nat_alt unat_add_small)
qed

section \<open>Properties\<close>

text \<open>
  C31. Arguments stay inside the process: for a process below the kernel's addresses, whatever the user
  registers and memory hold, an integer argument is read from four bytes below the process size, a
  buffer argument that is accepted lies completely below it with a size that is not negative, and a string argument that is
  accepted is followed by a NUL below it and is the bytes of user memory up to there.
\<close>

theorem args_in_user_memory:
  assumes "usz u \<le> KERNBASE"
  shows "(\<forall>v. argint u n = Some v \<longrightarrow> unat (uesp u + 4 + 4 * of_nat n) + 4 \<le> unat (usz u)) \<and>
    (\<forall>p len. - 2147483648 \<le> len \<and> len < 2147483648 \<longrightarrow> argptr u n len = Some p \<longrightarrow> 0 \<le> len \<and> int (unat p) + len \<le> int (unat (usz u))) \<and>
    (\<forall>bs. argstr u n = Some bs \<longrightarrow> (\<exists>p. argint u n = Some p \<and> unat p + length bs < unat (usz u) \<and>
      umem u (p + of_nat (length bs)) = 0 \<and> (\<forall>i < length bs. bs ! i = umem u (p + of_nat i) \<and> bs ! i \<noteq> 0)))"
proof (intro conjI allI impI)
  fix v assume "argint u n = Some v"
  then show "unat (uesp u + 4 + 4 * of_nat n) + 4 \<le> unat (usz u)" using fetchint_bounds [OF assms] by (auto simp: argint_def)
next
  fix p len assume s: "- 2147483648 \<le> len \<and> len < 2147483648" and a: "argptr u n len = Some p"
  have p: "0 \<le> len" "p < usz u" "p + of_int len \<le> usz u" using a by (auto simp: argptr_def split: option.splits if_splits)
  then show "0 \<le> len" by simp
  have "of_int len = (of_nat (nat len) :: u32)" using p(1) by simp
  moreover have "unat (of_nat (nat len) :: u32) = nat len" using s by (intro unat_of_nat_u32) linarith
  moreover have "unat p < 2147483648" using p(2) assms by (simp add: word_less_nat_alt word_le_nat_alt layout_consts)
  ultimately have "unat (p + of_int len) = unat p + nat len" using s by (subst unat_add_small) auto
  then have "unat p + nat len \<le> unat (usz u)" using p(3) by (simp add: word_le_nat_alt)
  then show "int (unat p) + len \<le> int (unat (usz u))" using p(1) by linarith
next
  fix bs assume "argstr u n = Some bs"
  then obtain p where p: "argint u n = Some p" "fetchstr u p = Some bs" by (auto simp: argstr_def split: option.splits)
  then have "\<not> usz u \<le> p" "scan_str (umem u) p (unat (usz u) - unat p) = Some bs" by (auto simp: fetchstr_def split: if_splits)
  with scan_str_Some [OF this(2)] p(1) show "\<exists>p. argint u n = Some p \<and> unat p + length bs < unat (usz u) \<and>
      umem u (p + of_nat (length bs)) = 0 \<and> (\<forall>i < length bs. bs ! i = umem u (p + of_nat i) \<and> bs ! i \<noteq> 0)"
    by (auto simp: word_le_nat_alt)
qed

definition user_demo :: user where
  "user_demo = \<lparr>usz = 0x2000, umem = (\<lambda>_. 0), uesp = 0x1000, ueax = 0\<rparr>"

theorem args_in_user_memory_witness:
  "argstr user_demo 0 = Some [] \<and> (\<exists>p. argint user_demo 0 = Some p \<and> unat p < 0x2000 \<and> umem user_demo p = 0)"
proof -
  have "scan_str (\<lambda>_. 0) a 8192 = Some []" for a by (simp add: numeral_eq_Suc)
  then have a: "argstr user_demo 0 = Some []" by (simp add: argstr_def argint_def fetchint_def fetchstr_def user_demo_def load32_def)
  have "usz user_demo \<le> KERNBASE" by (simp add: user_demo_def layout_consts)
  from args_in_user_memory [OF this, of 0] a show ?thesis by (auto simp: user_demo_def)
qed

text \<open>
  The null-page check of part 1 rejects only the pointer 0 itself: a buffer pointer 1 in a process
  of three pages is accepted although the first page of a process is never mapped there.
\<close>

theorem null_page_accepted:
  "argptr_part1 \<lparr>usz = 0x3000, umem = (\<lambda>a. if a = 0x2004 then 1 else 0), uesp = 0x2000, ueax = 0\<rparr> 0 16 = Some 1"
proof -
  have "\<not> (0x3000 :: u32) \<le> 1" by (simp add: word_le_nat_alt)
  then show ?thesis by (simp add: argptr_part1_def argint_def fetchint_def load32_def)
qed

end
