(* ===== verification/Sysfile.thy ===== *)
theory Sysfile
  imports Filetable Syscall
begin

text \<open>
  The file system calls, \<^verbatim>\<open>sysfile.c\<close>, except \<^verbatim>\<open>sys_exec\<close>. A task is the part of the running process these
  calls use: its descriptors, current directory, the \<^verbatim>\<open>killed\<close> flag and its user side. A call returns
  its value with the new task and kernel state.
\<close>

definition NOFILE :: nat where [layout_consts]: "NOFILE = 16"
definition O_WRONLY :: u32 where [layout_consts]: "O_WRONLY = 1"
definition O_RDWR :: u32 where [layout_consts]: "O_RDWR = 2"
definition O_CREATE :: u32 where [layout_consts]: "O_CREATE = 0x200"
definition O_CHECKED :: u32 where [layout_consts]: "O_CHECKED = 0x400"

record task =
  ofile :: "nat option list"
  cwd :: nat
  killed :: bool
  tuser :: user

type_synonym call = "(int \<times> task \<times> kfiles) res"

definition store_bytes :: "mem \<Rightarrow> u32 \<Rightarrow> byte list \<Rightarrow> mem" where
  "store_bytes m p bs = (\<lambda>a. if unat (a - p) < length bs then bs ! unat (a - p) else m a)"

definition load_bytes :: "mem \<Rightarrow> u32 \<Rightarrow> nat \<Rightarrow> byte list" where
  "load_bytes m p n = map (\<lambda>i. m (p + of_nat i)) [0..<n]"

section \<open>Descriptors\<close>

definition argfd :: "task \<Rightarrow> nat \<Rightarrow> (nat \<times> nat) option" where
  "argfd t n =
     (case argint (tuser t) n of
        None \<Rightarrow> None
      | Some w \<Rightarrow> let fd = sint w
          in if fd < 0 \<or> fd \<ge> int NOFILE then None
             else map_option (\<lambda>f. (nat fd, f)) (ofile t ! nat fd))"

definition fdalloc :: "task \<Rightarrow> nat \<Rightarrow> (nat \<times> task) option" where
  "fdalloc t f = map_option (\<lambda>fd. (fd, t\<lparr>ofile := (ofile t)[fd := Some f]\<rparr>)) (find_index (\<lambda>d. d = None) (ofile t))"

definition sys_dup :: "task \<Rightarrow> kfiles \<Rightarrow> call" where
  "sys_dup t k =
     (case argfd t 0 of
        None \<Rightarrow> ret (-1, t, k)
      | Some (_, f) \<Rightarrow>
          (case fdalloc t f of
             None \<Rightarrow> ret (-1, t, k)
           | Some (fd, t) \<Rightarrow> andthen (filedup k f) (\<lambda>k. ret (int fd, t, k))))"

definition sys_read :: "task \<Rightarrow> kfiles \<Rightarrow> call" where
  "sys_read t k =
     (case (argfd t 0, argint (tuser t) 2) of
        (Some (_, f), Some n) \<Rightarrow>
          (case argptr (tuser t) 1 (sint n) of
             None \<Rightarrow> ret (-1, t, k)
           | Some p \<Rightarrow> andthen (fileread (killed t) k f (sint n)) (\<lambda>(r, bs, k).
               ret (r, t\<lparr>tuser := (tuser t)\<lparr>umem := store_bytes (umem (tuser t)) p bs\<rparr>\<rparr>, k)))
      | _ \<Rightarrow> ret (-1, t, k))"

definition sys_write :: "task \<Rightarrow> kfiles \<Rightarrow> call" where
  "sys_write t k =
     (case (argfd t 0, argint (tuser t) 2) of
        (Some (_, f), Some n) \<Rightarrow>
          (case argptr (tuser t) 1 (sint n) of
             None \<Rightarrow> ret (-1, t, k)
           | Some p \<Rightarrow> andthen (filewrite (killed t) k f (load_bytes (umem (tuser t)) p (nat (sint n)))) (\<lambda>(r, k). ret (r, t, k)))
      | _ \<Rightarrow> ret (-1, t, k))"

definition sys_close :: "task \<Rightarrow> kfiles \<Rightarrow> call" where
  "sys_close t k =
     (case argfd t 0 of
        None \<Rightarrow> ret (-1, t, k)
      | Some (fd, f) \<Rightarrow> andthen (fileclose k f) (\<lambda>k. ret (0, t\<lparr>ofile := (ofile t)[fd := None]\<rparr>, k)))"

text \<open>\<^verbatim>\<open>struct stat\<close> in user memory; the padding keeps its contents.\<close>

definition load_stat :: "mem \<Rightarrow> u32 \<Rightarrow> stat" where
  "load_stat m p = (let b = load_bytes m p 24
     in \<lparr>st_type = get16 b 0, st_dev = get32 b 4, st_ino = get32 b 8, st_nlink = get16 b 12, st_size = get32 b 16, st_checksum = b ! 20\<rparr>)"

definition store_stat :: "mem \<Rightarrow> u32 \<Rightarrow> stat \<Rightarrow> mem" where
  "store_stat m p st = store_bytes m p
     ((put32 (put16 (put32 (put32 (put16 (load_bytes m p 24) 0 (st_type st)) 4 (st_dev st)) 8 (st_ino st)) 12 (st_nlink st)) 16 (st_size st))
        [20 := st_checksum st])"

definition sys_fstat :: "u32 \<Rightarrow> task \<Rightarrow> kfiles \<Rightarrow> call" where
  "sys_fstat beyond t k =
     (case (argfd t 0, argptr (tuser t) 1 24) of
        (Some (_, f), Some p) \<Rightarrow>
          andthen (filestat beyond k f (load_stat (umem (tuser t)) p)) (\<lambda>(r, st, k).
            ret (r, (if r = 0 then t\<lparr>tuser := (tuser t)\<lparr>umem := store_stat (umem (tuser t)) p st\<rparr>\<rparr> else t), k))
      | _ \<Rightarrow> ret (-1, t, k))"

section \<open>Links\<close>

definition link_bad :: "task \<Rightarrow> kfiles \<Rightarrow> nat \<Rightarrow> call" where
  "link_bad t k ip =
     andthen (on_fs' (\<lambda>s. ilock s ip) k) (\<lambda>k.
     andthen (on_fs' (\<lambda>s. iupdate (upd_inode ip (\<lambda>p. p\<lparr>nlink := nlink p - 1\<rparr>) s) ip) k) (\<lambda>k.
     andthen (on_fs' (\<lambda>s. iunlockput s ip) k) (\<lambda>k. ret (-1, t, op_end k))))"

definition sys_link :: "task \<Rightarrow> kfiles \<Rightarrow> call" where
  "sys_link t k =
     (case (argstr (tuser t) 0, argstr (tuser t) 1) of
        (Some old, Some new) \<Rightarrow>
          andthen (on_fs (\<lambda>s. namei s (cwd t) old) (op_begin k)) (\<lambda>(found, k).
            case found of
              None \<Rightarrow> ret (-1, t, op_end k)
            | Some ip \<Rightarrow>
                andthen (on_fs' (\<lambda>s. ilock s ip) k) (\<lambda>k.
                  if itype (inode_at (kfs k) ip) = T_DIR
                  then andthen (on_fs' (\<lambda>s. iunlockput s ip) k) (\<lambda>k. ret (-1, t, op_end k))
                  else
                    andthen (on_fs' (\<lambda>s. iupdate (upd_inode ip (\<lambda>p. p\<lparr>nlink := nlink p + 1\<rparr>) s) ip) k) (\<lambda>k.
                    andthen (on_fs' (\<lambda>s. iunlock s ip) k) (\<lambda>k.
                    andthen (on_fs (\<lambda>s. nameiparent s (cwd t) new) k) (\<lambda>(parent, k).
                      case parent of
                        None \<Rightarrow> link_bad t k ip
                      | Some (dp, name) \<Rightarrow>
                          andthen (on_fs' (\<lambda>s. ilock s dp) k) (\<lambda>k.
                          andthen (if idev (inode_at (kfs k) dp) \<noteq> idev (inode_at (kfs k) ip) then ret (-1, k)
                                   else on_fs (\<lambda>s. dirlink s dp name (inum (inode_at s ip))) k) (\<lambda>(r, k).
                            if r < 0 then andthen (on_fs' (\<lambda>s. iunlockput s dp) k) (\<lambda>k. link_bad t k ip)
                            else andthen (on_fs' (\<lambda>s. iunlockput s dp) k) (\<lambda>k.
                                 andthen (on_fs' (\<lambda>s. iput s ip) k) (\<lambda>k. ret (0, t, op_end k))))))))))
      | _ \<Rightarrow> ret (-1, t, k))"

function isdirempty_loop :: "fs \<Rightarrow> nat \<Rightarrow> nat \<Rightarrow> nat \<Rightarrow> (bool \<times> fs) res" where
  "isdirempty_loop s dp sz off =
     (if off < sz then
        andthen (readi s dp (of_nat off) 16) (\<lambda>(r, de, s).
          if r \<noteq> 16 then panic ''isdirempty: readi''
          else if de_inum de \<noteq> 0 then ret (False, s)
          else isdirempty_loop s dp sz (off + 16))
      else ret (True, s))"
  by pat_completeness auto
termination by (relation "measure (\<lambda>(s, dp, sz, off). sz - off)") auto

definition isdirempty :: "fs \<Rightarrow> nat \<Rightarrow> (bool \<times> fs) res" where
  "isdirempty s dp = isdirempty_loop s dp (unat (isize (inode_at s dp))) 32"

definition unlink_bad :: "task \<Rightarrow> kfiles \<Rightarrow> nat \<Rightarrow> call" where
  "unlink_bad t k dp = andthen (on_fs' (\<lambda>s. iunlockput s dp) k) (\<lambda>k. ret (-1, t, op_end k))"

text \<open>The part of \<^verbatim>\<open>sys_unlink\<close> after the entry at \<open>off\<close> for the locked inode \<open>ip\<close> has passed all tests.\<close>

definition unlink_entry :: "task \<Rightarrow> kfiles \<Rightarrow> nat \<Rightarrow> nat \<Rightarrow> nat \<Rightarrow> call" where
  "unlink_entry t k dp ip off =
     andthen (on_fs (\<lambda>s. writei s dp (replicate 16 0) (of_nat off) 16) k) (\<lambda>(r, k).
       if r \<noteq> 16 then panic ''unlink: writei''
       else andthen (if itype (inode_at (kfs k) ip) = T_DIR
                     then on_fs' (\<lambda>s. iupdate (upd_inode dp (\<lambda>p. p\<lparr>nlink := nlink p - 1\<rparr>) s) dp) k else ret k) (\<lambda>k.
            andthen (on_fs' (\<lambda>s. iunlockput s dp) k) (\<lambda>k.
            andthen (on_fs' (\<lambda>s. iupdate (upd_inode ip (\<lambda>p. p\<lparr>nlink := nlink p - 1\<rparr>) s) ip) k) (\<lambda>k.
            andthen (on_fs' (\<lambda>s. iunlockput s ip) k) (\<lambda>k. ret (0, t, op_end k))))))"

definition sys_unlink :: "task \<Rightarrow> kfiles \<Rightarrow> call" where
  "sys_unlink t k =
     (case argstr (tuser t) 0 of
        None \<Rightarrow> ret (-1, t, k)
      | Some path \<Rightarrow>
          andthen (on_fs (\<lambda>s. nameiparent s (cwd t) path) (op_begin k)) (\<lambda>(parent, k).
            case parent of
              None \<Rightarrow> ret (-1, t, op_end k)
            | Some (dp, name) \<Rightarrow>
                andthen (on_fs' (\<lambda>s. ilock s dp) k) (\<lambda>k.
                  if namecmp name [0x2e] = 0 \<or> namecmp name [0x2e, 0x2e] = 0 then unlink_bad t k dp
                  else andthen (on_fs (\<lambda>s. dirlookup s dp name) k) (\<lambda>(found, k).
                    case found of
                      None \<Rightarrow> unlink_bad t k dp
                    | Some (ip, off) \<Rightarrow>
                        andthen (on_fs' (\<lambda>s. ilock s ip) k) (\<lambda>k.
                          if sint (nlink (inode_at (kfs k) ip)) < 1 then panic ''unlink: nlink < 1''
                          else andthen (if itype (inode_at (kfs k) ip) = T_DIR then on_fs (\<lambda>s. isdirempty s ip) k else ret (True, k)) (\<lambda>(e, k).
                            if \<not> e then andthen (on_fs' (\<lambda>s. iunlockput s ip) k) (\<lambda>k. unlink_bad t k dp)
                            else unlink_entry t k dp ip off))))))"

section \<open>Creating and opening\<close>

definition create :: "nat \<Rightarrow> fs \<Rightarrow> byte list \<Rightarrow> u16 \<Rightarrow> u16 \<Rightarrow> u16 \<Rightarrow> (nat option \<times> fs) res" where
  "create dir s path ty maj mnr =
     andthen (nameiparent s dir path) (\<lambda>(parent, s).
       case parent of
         None \<Rightarrow> ret (None, s)
       | Some (dp, name) \<Rightarrow>
           andthen (ilock s dp) (\<lambda>s.
           andthen (dirlookup s dp name) (\<lambda>(found, s).
             case found of
               Some (ip, _) \<Rightarrow>
                 andthen (iunlockput s dp) (\<lambda>s.
                 andthen (ilock s ip) (\<lambda>s.
                   if ty = T_FILE \<and> itype (inode_at s ip) = T_FILE then ret (Some ip, s)
                   else andthen (iunlockput s ip) (\<lambda>s. ret (None, s))))
             | None \<Rightarrow>
                 andthen (ialloc s (idev (inode_at s dp)) ty) (\<lambda>(ip, s).
                 andthen (ilock s ip) (\<lambda>s.
                 andthen (iupdate (upd_inode ip (\<lambda>p. p\<lparr>major := maj, minor := mnr, nlink := 1\<rparr>) s) ip) (\<lambda>s.
                 andthen
                   (if ty = T_DIR
                    then andthen (iupdate (upd_inode dp (\<lambda>p. p\<lparr>nlink := nlink p + 1\<rparr>) s) dp) (\<lambda>s.
                         andthen (dirlink s ip [0x2e] (inum (inode_at s ip))) (\<lambda>(r, s).
                           if r < 0 then panic ''create dots''
                           else andthen (dirlink s ip [0x2e, 0x2e] (inum (inode_at s dp))) (\<lambda>(r, s).
                             if r < 0 then panic ''create dots'' else ret s)))
                    else ret s)
                   (\<lambda>s. andthen (dirlink s dp name (inum (inode_at s ip))) (\<lambda>(r, s).
                      if r < 0 then panic ''create: dirlink''
                      else andthen (iunlockput s dp) (\<lambda>s. ret (Some ip, s))))))))))"

text \<open>The end of \<^verbatim>\<open>sys_open\<close>: a descriptor for the locked inode \<open>ip\<close>.\<close>

definition open_inode :: "task \<Rightarrow> kfiles \<Rightarrow> nat \<Rightarrow> u32 \<Rightarrow> call" where
  "open_inode t k ip omode =
     (case filealloc k of
        (None, k) \<Rightarrow> andthen (on_fs' (\<lambda>s. iunlockput s ip) k) (\<lambda>k. ret (-1, t, op_end k))
      | (Some f, k) \<Rightarrow>
          (case fdalloc t f of
             None \<Rightarrow> andthen (fileclose k f) (\<lambda>k.
                     andthen (on_fs' (\<lambda>s. iunlockput s ip) k) (\<lambda>k. ret (-1, t, op_end k)))
           | Some (fd, t) \<Rightarrow>
               andthen (on_fs' (\<lambda>s. iunlock s ip) k) (\<lambda>k.
                 ret (int fd, t, upd_file f (\<lambda>q. q\<lparr>ftype := FD_INODE, fip := ip, foff := 0,
                   freadable := (omode AND O_WRONLY = 0), fwritable := (omode AND O_WRONLY \<noteq> 0 \<or> omode AND O_RDWR \<noteq> 0)\<rparr>) (op_end k)))))"

definition sys_open :: "task \<Rightarrow> kfiles \<Rightarrow> call" where
  "sys_open t k =
     (case (argstr (tuser t) 0, argint (tuser t) 1) of
        (Some path, Some omode) \<Rightarrow>
          if omode AND O_CREATE \<noteq> 0
          then andthen (on_fs (\<lambda>s. create (cwd t) s path (if omode AND O_CHECKED \<noteq> 0 then T_CHECKED else T_FILE) 0 0) (op_begin k)) (\<lambda>(r, k).
                 case r of None \<Rightarrow> ret (-1, t, op_end k) | Some ip \<Rightarrow> open_inode t k ip omode)
          else andthen (on_fs (\<lambda>s. namei s (cwd t) path) (op_begin k)) (\<lambda>(r, k).
                 case r of
                   None \<Rightarrow> ret (-1, t, op_end k)
                 | Some ip \<Rightarrow>
                     andthen (on_fs' (\<lambda>s. ilock s ip) k) (\<lambda>k.
                       if itype (inode_at (kfs k) ip) = T_DIR \<and> omode \<noteq> 0
                       then andthen (on_fs' (\<lambda>s. iunlockput s ip) k) (\<lambda>k. ret (-1, t, op_end k))
                       else open_inode t k ip omode))
      | _ \<Rightarrow> ret (-1, t, k))"

definition sys_mkdir :: "task \<Rightarrow> kfiles \<Rightarrow> call" where
  "sys_mkdir t k =
     (let k = op_begin k
      in case argstr (tuser t) 0 of
           None \<Rightarrow> ret (-1, t, op_end k)
         | Some path \<Rightarrow> andthen (on_fs (\<lambda>s. create (cwd t) s path T_DIR 0 0) k) (\<lambda>(r, k).
             case r of
               None \<Rightarrow> ret (-1, t, op_end k)
             | Some ip \<Rightarrow> andthen (on_fs' (\<lambda>s. iunlockput s ip) k) (\<lambda>k. ret (0, t, op_end k))))"

definition sys_mknod :: "task \<Rightarrow> kfiles \<Rightarrow> call" where
  "sys_mknod t k =
     (let k = op_begin k
      in case (argstr (tuser t) 0, argint (tuser t) 1, argint (tuser t) 2) of
           (Some path, Some maj, Some mnr) \<Rightarrow>
             andthen (on_fs (\<lambda>s. create (cwd t) s path T_DEV (ucast maj) (ucast mnr)) k) (\<lambda>(r, k).
               case r of
                 None \<Rightarrow> ret (-1, t, op_end k)
               | Some ip \<Rightarrow> andthen (on_fs' (\<lambda>s. iunlockput s ip) k) (\<lambda>k. ret (0, t, op_end k)))
         | _ \<Rightarrow> ret (-1, t, op_end k))"

definition sys_chdir :: "task \<Rightarrow> kfiles \<Rightarrow> call" where
  "sys_chdir t k =
     (let k = op_begin k
      in case argstr (tuser t) 0 of
           None \<Rightarrow> ret (-1, t, op_end k)
         | Some path \<Rightarrow> andthen (on_fs (\<lambda>s. namei s (cwd t) path) k) (\<lambda>(r, k).
             case r of
               None \<Rightarrow> ret (-1, t, op_end k)
             | Some ip \<Rightarrow>
                 andthen (on_fs' (\<lambda>s. ilock s ip) k) (\<lambda>k.
                   if itype (inode_at (kfs k) ip) \<noteq> T_DIR
                   then andthen (on_fs' (\<lambda>s. iunlockput s ip) k) (\<lambda>k. ret (-1, t, op_end k))
                   else andthen (on_fs' (\<lambda>s. iunlock s ip) k) (\<lambda>k.
                        andthen (on_fs' (\<lambda>s. iput s (cwd t)) k) (\<lambda>k. ret (0, t\<lparr>cwd := ip\<rparr>, op_end k))))))"

text \<open>The end of \<^verbatim>\<open>sys_pipe\<close>: descriptors for the read end \<open>r\<close> and the write end \<open>w\<close>, stored at \<open>p\<close>.\<close>

definition pipe_fds :: "task \<Rightarrow> kfiles \<Rightarrow> u32 \<Rightarrow> nat \<Rightarrow> nat \<Rightarrow> call" where
  "pipe_fds t k p r w =
     (let bad = (\<lambda>t. andthen (fileclose k r) (\<lambda>k. andthen (fileclose k w) (\<lambda>k. ret (-1, t, k))))
      in (case fdalloc t r of
            None \<Rightarrow> bad t
          | Some (fd0, t0) \<Rightarrow>
              (case fdalloc t0 w of
                 None \<Rightarrow> bad (t0\<lparr>ofile := (ofile t0)[fd0 := None]\<rparr>)
               | Some (fd1, t1) \<Rightarrow>
                   ret (0, t1\<lparr>tuser := (tuser t1)\<lparr>umem := store32 (store32 (umem (tuser t1)) p (of_nat fd0)) (p + 4) (of_nat fd1)\<rparr>\<rparr>, k))))"

definition sys_pipe :: "byte list \<Rightarrow> task \<Rightarrow> kfiles \<Rightarrow> call" where
  "sys_pipe junk t k =
     (case argptr (tuser t) 0 8 of
        None \<Rightarrow> ret (-1, t, k)
      | Some p \<Rightarrow> andthen (pipealloc junk k) (\<lambda>(ends, k).
          case ends of None \<Rightarrow> ret (-1, t, k) | Some (r, w) \<Rightarrow> pipe_fds t k p r w))"

end
