(* ===== verification/Fdrefs.thy ===== *)
theory Fdrefs
  imports Sysfile
begin

text \<open>
  Bookkeeping of the file system calls: every call closes the transactions it opens, and the
  reference count of an open file is the number of descriptors that name it.
\<close>

section \<open>Transactions\<close>

lemma on_fs_keeps [res_simps]: "on_fs op k = Inr (x, k') \<longleftrightarrow> (\<exists>s. op (kfs k) = Inr (x, s) \<and> k' = k\<lparr>kfs := s\<rparr>)"
  by (auto simp: on_fs_def andthen_def split: sum.splits)

lemma on_fs'_keeps [res_simps]: "on_fs' op k = Inr k' \<longleftrightarrow> (\<exists>s. op (kfs k) = Inr s \<and> k' = k\<lparr>kfs := s\<rparr>)"
  by (auto simp: on_fs'_def andthen_def split: sum.splits)

lemma op_sel [simp]:
  "kfs (op_begin k) = kfs k" "ftable (op_begin k) = ftable k" "ops (op_begin k) = ops k + 1"
  "kfs (op_end k) = kfs k" "ftable (op_end k) = ftable k" "ops (op_end k) = ops k - 1"
  by (simp_all add: op_begin_def op_end_def)

lemma upd_file_sel [simp]:
  "kfs (upd_file f g k) = kfs k" "ops (upd_file f g k) = ops k" "ftable (upd_file f g k) = (ftable k)[f := g (ftable k ! f)]"
  by (simp_all add: upd_file_def)

lemma close_pipe_keeps: "close_pipe k a w = Inr k' \<Longrightarrow> ops k' = ops k \<and> ftable k' = ftable k"
  by (auto simp: close_pipe_def Let_def res_simps split: prod.splits if_splits)

text \<open>The reference counts of the file table.\<close>

abbreviation frefs :: "kfiles \<Rightarrow> int list" where
  "frefs k \<equiv> map fref (ftable k)"

lemma fileclose_keeps:
  assumes "fileclose k f = Inr k'"
  shows "ops k' = ops k" and "1 \<le> fref (ftable k ! f)" and "frefs k' = (frefs k)[f := fref (ftable k ! f) - 1]"
  using assms
  by (auto simp: fileclose_def Let_def res_simps map_update split: if_splits fdtype.splits dest!: close_pipe_keeps)

lemma filedup_keeps:
  assumes "filedup k f = Inr k'"
  shows "ops k' = ops k" and "1 \<le> fref (ftable k ! f)" and "frefs k' = (frefs k)[f := fref (ftable k ! f) + 1]"
  using assms by (auto simp: filedup_def map_update split: if_splits)

lemma filealloc_keeps:
  assumes "filealloc k = (r, k')"
  shows "ops k' = ops k" and "r = None \<Longrightarrow> k' = k"
    and "r = Some f \<Longrightarrow> f < length (ftable k) \<and> fref (ftable k ! f) = 0 \<and> frefs k' = (frefs k)[f := 1]"
  using assms by (auto simp: filealloc_def find_index_Some map_update split: option.splits)

definition balanced :: "kfiles \<Rightarrow> call \<Rightarrow> bool" where
  "balanced k c \<longleftrightarrow> (case c of Inl _ \<Rightarrow> True | Inr (_, _, k') \<Rightarrow> ops k' = ops k)"

lemma balancedI: "(\<And>r t' k'. c = Inr (r, t', k') \<Longrightarrow> ops k' = ops k) \<Longrightarrow> balanced k c"
  by (auto simp: balanced_def split: sum.splits)

lemma write_chunk_ops: "write_chunk k f src = Inr (r, k') \<Longrightarrow> ops k' = ops k"
  unfolding write_chunk_def Let_def
  by (clarsimp simp: res_simps if_distrib [of ops] split del: if_split) simp

lemma filewrite_loop_ops: "filewrite_loop k f src i = Inr (r, k') \<Longrightarrow> ops k' = ops k"
proof (induction k f src i rule: filewrite_loop.induct)
  case (1 k f src i)
  let ?n = "if length src - i > chunk_max then chunk_max else length src - i"
  show ?case
  proof (cases "i < length src")
    case False
    then show ?thesis using "1.prems" by (subst (asm) filewrite_loop.simps) simp
  next
    case True
    obtain r1 k1 where c: "write_chunk k f (take ?n (drop i src)) = Inr (r1, k1)"
      using "1.prems" True by (subst (asm) filewrite_loop.simps) (auto simp: Let_def split: sum.splits)
    then show ?thesis
      using "1.prems" True "1.IH" [OF True refl refl c refl] write_chunk_ops [OF c]
      by (subst (asm) filewrite_loop.simps) (auto simp: Let_def split: if_splits)
  qed
qed

declare filewrite_loop.simps [simp del]

lemma pipe_fds_ops: "pipe_fds t k p r w = Inr (x, t', k') \<Longrightarrow> ops k' = ops k"
  by (auto simp: pipe_fds_def Let_def res_simps split: option.splits dest!: fileclose_keeps(1))

lemma filewrite_ops: "filewrite kld k f src = Inr (r, k') \<Longrightarrow> ops k' = ops k"
  by (auto simp: filewrite_def Let_def split: if_splits fdtype.splits prod.splits outcome.splits dest!: filewrite_loop_ops)

lemma fileread_ops:
  assumes "fileread kld k f n = Inr (r, bs, k')"
  shows "ops k' = ops k"
proof (cases "ftype (ftable k ! f)")
  case FD_INODE
  show ?thesis
  proof (cases "freadable (ftable k ! f)")
    case True
    then show ?thesis using assms FD_INODE unfolding fileread_def Let_def
      by (clarsimp simp: res_simps if_distrib [of ops] split del: if_split) simp
  qed (use assms in \<open>simp add: fileread_def Let_def\<close>)
next
  case FD_PIPE
  then show ?thesis using assms unfolding fileread_def Let_def
    by (auto split: prod.splits outcome.splits option.splits if_splits)
qed (use assms in \<open>auto simp: fileread_def Let_def split: if_splits\<close>)

lemma pipealloc_ops: "pipealloc junk k = Inr (r, k') \<Longrightarrow> ops k' = ops k"
  by (auto simp: pipealloc_def Let_def res_simps split: prod.splits option.splits if_splits
      dest!: filealloc_keeps(1) fileclose_keeps(1))

lemma open_inode_ops: "open_inode t k ip m = Inr (r, t', k') \<Longrightarrow> ops k' = ops k - 1"
  by (auto simp: open_inode_def res_simps split: prod.splits option.splits dest!: filealloc_keeps(1) fileclose_keeps(1))

lemma link_bad_ops: "link_bad t k ip = Inr (r, t', k') \<Longrightarrow> ops k' = ops k - 1"
  by (auto simp: link_bad_def res_simps)

lemma unlink_ops: "unlink_bad t k dp = Inr (r, t', k') \<Longrightarrow> ops k' = ops k - 1"
  "unlink_entry t k dp ip off = Inr (r, t', k') \<Longrightarrow> ops k' = ops k - 1"
  by (auto simp: unlink_bad_def unlink_entry_def res_simps split: if_splits)

lemma sys_link_ops: "sys_link t k = Inr (r, t', k') \<Longrightarrow> ops k' = ops k"
  by (auto simp: sys_link_def res_simps split: option.splits if_splits dest!: link_bad_ops)

lemma sys_unlink_ops: "sys_unlink t k = Inr (r, t', k') \<Longrightarrow> ops k' = ops k"
  by (auto simp: sys_unlink_def res_simps split: option.splits if_splits dest!: unlink_ops)

lemma sys_open_ops: "sys_open t k = Inr (r, t', k') \<Longrightarrow> ops k' = ops k"
  by (auto simp: sys_open_def res_simps split: option.splits if_splits dest!: open_inode_ops)

lemma sys_make_ops: "sys_mkdir t k = Inr (r, t', k') \<Longrightarrow> ops k' = ops k" "sys_mknod t k = Inr (r, t', k') \<Longrightarrow> ops k' = ops k"
  "sys_chdir t k = Inr (r, t', k') \<Longrightarrow> ops k' = ops k"
  by (auto simp: sys_mkdir_def sys_mknod_def sys_chdir_def Let_def res_simps split: option.splits if_splits)


section \<open>Reference counts of open files\<close>

text \<open>The number of descriptors of all tasks that name file \<open>f\<close>.\<close>

definition fd_count :: "task list \<Rightarrow> nat \<Rightarrow> nat" where
  "fd_count ts f = sum_list (map (\<lambda>t. count_list (ofile t) (Some f)) ts)"

text \<open>
  \<open>held_refs xs ts k\<close>: the count of every file is the number of descriptors that name it plus the references \<open>xs\<close>
  the running call still holds itself.
\<close>

definition held_refs :: "nat list \<Rightarrow> task list \<Rightarrow> kfiles \<Rightarrow> bool" where
  "held_refs xs ts k \<longleftrightarrow> (\<forall>t \<in> set ts. length (ofile t) = NOFILE \<and> (\<forall>f. Some f \<in> set (ofile t) \<longrightarrow> f < length (ftable k))) \<and>
     (\<forall>f \<in> set xs. f < length (ftable k)) \<and>
     (\<forall>f < length (ftable k). fref (ftable k ! f) = int (fd_count ts f) + int (count_list xs f))"

abbreviation refs_ok :: "task list \<Rightarrow> kfiles \<Rightarrow> bool" where
  "refs_ok ts k \<equiv> held_refs [] ts k"

lemma count_list_update:
  "i < length xs \<Longrightarrow> count_list (xs[i := x]) y + (if xs ! i = y then 1 else 0) = count_list xs y + (if x = y then 1 else 0)"
proof (induction xs arbitrary: i)
  case (Cons z zs)
  show ?case
  proof (cases i)
    case (Suc n)
    then show ?thesis using Cons.IH [of n] Cons.prems by (cases "z = y") simp_all
  qed auto
qed simp

lemma held_refs_state [simp]:
  "held_refs xs ts (k\<lparr>kfs := s\<rparr>) = held_refs xs ts k" "held_refs xs ts (op_begin k) = held_refs xs ts k"
  "held_refs xs ts (op_end k) = held_refs xs ts k"
  by (simp_all add: held_refs_def)

lemma frefs_update:
  assumes "frefs k' = (frefs k)[f := v]"
  shows "length (ftable k') = length (ftable k)" and "g < length (ftable k) \<Longrightarrow> fref (ftable k' ! g) = (if g = f then v else fref (ftable k ! g))"
proof -
  show l: "length (ftable k') = length (ftable k)" using arg_cong [OF assms, of length] by simp
  show "g < length (ftable k) \<Longrightarrow> fref (ftable k' ! g) = (if g = f then v else fref (ftable k ! g))"
    using arg_cong [OF assms, of "\<lambda>xs. xs ! g"] l by (auto simp: nth_list_update)
qed

lemma filealloc_refs: "held_refs xs ts k \<Longrightarrow> filealloc k = (Some f, k') \<Longrightarrow> held_refs (f # xs) ts k'"
proof -
  assume h: "held_refs xs ts k" and a: "filealloc k = (Some f, k')"
  have f: "f < length (ftable k)" "fref (ftable k ! f) = 0" "frefs k' = (frefs k)[f := 1]" using filealloc_keeps(3) [OF a refl] by auto
  show ?thesis using h f(1,2) frefs_update [OF f(3)] by (auto simp: held_refs_def)
qed

lemma filedup_refs: "held_refs xs ts k \<Longrightarrow> f < length (ftable k) \<Longrightarrow> filedup k f = Inr k' \<Longrightarrow> held_refs (f # xs) ts k'"
  using frefs_update [OF filedup_keeps(3), of k f k'] by (auto simp: held_refs_def)

lemma fileclose_refs: "held_refs (f # xs) ts k \<Longrightarrow> fileclose k f = Inr k' \<Longrightarrow> held_refs xs ts k'"
  using frefs_update [OF fileclose_keeps(3), of k f k'] by (auto simp: held_refs_def)

text \<open>Setting a free descriptor takes over a reference; clearing one gives it back.\<close>

lemma set_fd_refs:
  assumes h: "held_refs (f # xs) (t # ts) k" and i: "i < NOFILE" "ofile t ! i = None"
  shows "held_refs xs (t\<lparr>ofile := (ofile t)[i := Some f], tuser := u\<rparr> # ts) k"
proof -
  have len: "length (ofile t) = NOFILE" using h by (simp add: held_refs_def)
  have "count_list ((ofile t)[i := Some f]) (Some g) = count_list (ofile t) (Some g) + (if f = g then 1 else 0)" for g
    using count_list_update [of i "ofile t" "Some f" "Some g"] i len by auto
  moreover have "f' < length (ftable k)" if "Some f' \<in> set ((ofile t)[i := Some f])" for f'
    using that h set_update_subset_insert [of "ofile t" i "Some f"] by (auto simp: held_refs_def)
  ultimately show ?thesis using h by (auto simp: held_refs_def fd_count_def)
qed

lemma clear_fd_refs:
  assumes h: "held_refs xs (t # ts) k" and i: "i < NOFILE" "ofile t ! i = Some f"
  shows "held_refs (f # xs) (t\<lparr>ofile := (ofile t)[i := None]\<rparr> # ts) k"
proof -
  have len: "length (ofile t) = NOFILE" using h by (simp add: held_refs_def)
  have c0: "count_list ((ofile t)[i := None]) (Some g) + (if f = g then 1 else 0) = count_list (ofile t) (Some g)" for g
    using count_list_update [of i "ofile t" None "Some g"] i len by auto
  have c: "int (count_list (ofile t) (Some g)) = int (count_list ((ofile t)[i := None]) (Some g)) + (if f = g then 1 else 0)" for g
    by (subst c0 [symmetric]) simp
  have "f' < length (ftable k)" if "Some f' \<in> set ((ofile t)[i := None])" for f'
    using that h set_update_subset_insert [of "ofile t" i None] by (auto simp: held_refs_def)
  moreover have "f < length (ftable k)" using h i len by (auto simp: held_refs_def) (metis nth_mem)
  ultimately show ?thesis using h c by (auto simp: held_refs_def fd_count_def)
qed

lemma fdalloc_Some: "fdalloc t f = Some (fd, t') \<Longrightarrow> length (ofile t) = NOFILE \<Longrightarrow>
    fd < NOFILE \<and> ofile t ! fd = None \<and> t' = t\<lparr>ofile := (ofile t)[fd := Some f]\<rparr>"
  by (auto simp: fdalloc_def find_index_Some)

lemma fdalloc_refs: "held_refs (f # xs) (t # ts) k \<Longrightarrow> fdalloc t f = Some (fd, t') \<Longrightarrow> held_refs xs (t' # ts) k \<and> fd < NOFILE \<and> ofile t' ! fd = Some f"
  using fdalloc_Some [of t f fd t'] set_fd_refs [of f xs t ts k fd "tuser t"] by (auto simp: held_refs_def)

lemma argfd_Some: "argfd t n = Some (fd, f) \<Longrightarrow> fd < NOFILE \<and> ofile t ! fd = Some f"
  by (auto simp: argfd_def Let_def split: option.splits if_splits)

lemma argfd_valid: "held_refs xs (t # ts) k \<Longrightarrow> argfd t n = Some (fd, f) \<Longrightarrow> f < length (ftable k)"
  using argfd_Some [of t n fd f] by (auto simp: held_refs_def) (metis nth_mem)

lemma held_refs_user: "held_refs xs (t\<lparr>tuser := u\<rparr> # ts) k = held_refs xs (t # ts) k"
  by (simp add: held_refs_def fd_count_def)

lemma sys_dup_refs: "refs_ok (t # ts) k \<Longrightarrow> sys_dup t k = Inr (x, t', k') \<Longrightarrow> refs_ok (t' # ts) k'"
proof (cases "argfd t 0")
  case (Some a)
  obtain fd f where a: "a = (fd, f)" by fastforce
  assume r: "refs_ok (t # ts) k" and c: "sys_dup t k = Inr (x, t', k')"
  show ?thesis
  proof (cases "fdalloc t f")
    case (Some b)
    then have "filedup k f = Inr k'" "fdalloc t f = Some (nat x, t')"
      using c \<open>argfd t 0 = Some a\<close> a by (cases b, auto simp: sys_dup_def res_simps)+
    then show ?thesis using fdalloc_refs filedup_refs [OF r argfd_valid] r \<open>argfd t 0 = Some a\<close> a by blast
  qed (use r c Some a in \<open>auto simp: sys_dup_def\<close>)
qed (auto simp: sys_dup_def)

lemma sys_close_refs: "refs_ok (t # ts) k \<Longrightarrow> sys_close t k = Inr (x, t', k') \<Longrightarrow> refs_ok (t' # ts) k'"
  by (auto simp: sys_close_def res_simps split: option.splits dest!: argfd_Some intro: fileclose_refs [OF clear_fd_refs])

lemma open_inode_refs:
  assumes r: "refs_ok (t # ts) k" and c: "open_inode t k ip m = Inr (x, t', k')"
  shows "refs_ok (t' # ts) k'"
proof -
  obtain g k1 where a: "filealloc k = (g, k1)" by fastforce
  show ?thesis
  proof (cases g)
    case None
    then show ?thesis using r c a filealloc_keeps(2) [OF a] by (auto simp: open_inode_def res_simps)
  next
    case (Some f)
    have h: "held_refs [f] (t # ts) k1" using filealloc_refs [OF r] a Some by simp
    show ?thesis
    proof (cases "fdalloc t f")
      case None
      then show ?thesis using c a Some fileclose_refs [OF h] by (auto simp: open_inode_def res_simps)
    next
      case (Some b)
      have "f < length (ftable k1)" using h by (simp add: held_refs_def)
      then have "(frefs k1)[f := fref (ftable k1 ! f)] = frefs k1" by (metis list_update_id nth_map)
      then obtain fd where fd: "fdalloc t f = Some (fd, t')" "frefs k' = frefs k1"
        using c a Some \<open>g = Some f\<close> by (cases b) (auto simp: open_inode_def res_simps map_update)
      have "length (ftable k') = length (ftable k1)" "\<And>g. g < length (ftable k1) \<Longrightarrow> fref (ftable k' ! g) = fref (ftable k1 ! g)"
        using frefs_update [of k' k1 f "frefs k1 ! f"] fd(2) by auto
      then show ?thesis using fdalloc_refs [OF h fd(1)] by (auto simp: held_refs_def)
    qed
  qed
qed

lemma sys_open_refs: "refs_ok (t # ts) k \<Longrightarrow> sys_open t k = Inr (x, t', k') \<Longrightarrow> refs_ok (t' # ts) k'"
  by (auto simp: sys_open_def res_simps split: option.splits if_splits; erule open_inode_refs [rotated]; simp)

lemma pipealloc_refs:
  assumes r: "refs_ok ts k" and c: "pipealloc junk k = Inr (e, k')"
  shows "case e of None \<Rightarrow> refs_ok ts k' | Some (r, w) \<Rightarrow> held_refs [w, r] ts k'"
proof -
  obtain g k1 where a: "filealloc k = (g, k1)" by fastforce
  show ?thesis
  proof (cases g)
    case None
    then show ?thesis using c a r filealloc_keeps(2) [OF a] by (auto simp: pipealloc_def)
  next
    case (Some f0)
    have h: "held_refs [f0] ts k1" using filealloc_refs [OF r] a Some by simp
    obtain g' k2 where b: "filealloc k1 = (g', k2)" by fastforce
    show ?thesis
    proof (cases g')
      case None
      then show ?thesis using c a b \<open>g = Some f0\<close> h filealloc_keeps(2) [OF b] fileclose_refs [OF h] by (auto simp: pipealloc_def res_simps)
    next
      case (Some f1)
      have h2: "held_refs [f1, f0] ts k2" using filealloc_refs [OF h] b Some by simp
      then have h2': "held_refs [f0, f1] ts k2" by (simp add: held_refs_def)
      obtain p m where p: "kalloc (pages k2) = (p, m)" by fastforce
      show ?thesis
      proof (cases "p = 0")
        case True
        have "held_refs [f0, f1] ts (k2\<lparr>pages := m\<rparr>)" using h2' by (simp add: held_refs_def)
        then show ?thesis using True c a b p \<open>g = Some f0\<close> \<open>g' = Some f1\<close>
          by (auto simp: pipealloc_def res_simps dest!: fileclose_refs dest: fileclose_refs)
      next
        case False
        then have e: "e = Some (f0, f1)" and fr: "frefs k' = frefs k2"
          using c a b p \<open>g = Some f0\<close> \<open>g' = Some f1\<close> h2
          by (auto simp: pipealloc_def Let_def map_update held_refs_def intro!: nth_equalityI simp: nth_list_update)
        have "length (ftable k') = length (ftable k2)" "\<And>g. g < length (ftable k2) \<Longrightarrow> fref (ftable k' ! g) = fref (ftable k2 ! g)"
          using frefs_update [of k' k2 f0 "frefs k2 ! f0"] fr by auto
        then show ?thesis using h2 e by (auto simp: held_refs_def)
      qed
    qed
  qed
qed

lemma pipe_fds_refs:
  assumes h: "held_refs [w, r] (t # ts) k" and c: "pipe_fds t k p r w = Inr (x, t', k')"
  shows "refs_ok (t' # ts) k'"
proof -
  have h': "held_refs [r, w] (t # ts) k" using h by (simp add: held_refs_def)
  have bad: "refs_ok (t1 # ts) k'" if "held_refs [r, w] (t1 # ts) k" "andthen (fileclose k r) (\<lambda>k. andthen (fileclose k w) (\<lambda>k. ret (-1, t1, k))) = Inr (x, t', k')" for t1
    using that fileclose_refs by (auto simp: res_simps) blast
  show ?thesis
  proof (cases "fdalloc t r")
    case None
    then show ?thesis using c bad [OF h'] by (auto simp: pipe_fds_def Let_def res_simps)
  next
    case (Some a)
    obtain fd0 t0 where a: "fdalloc t r = Some (fd0, t0)" using Some by (cases a) auto
    have h0: "held_refs [w] (t0 # ts) k" "fd0 < NOFILE" "ofile t0 ! fd0 = Some r" using fdalloc_refs [OF h' a] by auto
    show ?thesis
    proof (cases "fdalloc t0 w")
      case None
      have "held_refs [r, w] (t0\<lparr>ofile := (ofile t0)[fd0 := None]\<rparr> # ts) k" by (rule clear_fd_refs [OF h0])
      then show ?thesis using c a None bad by (auto simp: pipe_fds_def Let_def res_simps)
    next
      case (Some b)
      obtain fd1 t1 where b: "fdalloc t0 w = Some (fd1, t1)" using Some by (cases b) auto
      then show ?thesis using fdalloc_refs [OF h0(1) b] c a by (auto simp: pipe_fds_def Let_def held_refs_user)
    qed
  qed
qed

lemma sys_pipe_refs: "refs_ok (t # ts) k \<Longrightarrow> sys_pipe junk t k = Inr (x, t', k') \<Longrightarrow> refs_ok (t' # ts) k'"
  by (fastforce simp: sys_pipe_def res_simps split: option.splits dest: pipealloc_refs pipe_fds_refs)

text \<open>
  C9. The reference count of every entry of the file table is the number of descriptors of all processes that
  name it, and a process that calls \<^verbatim>\<open>sys_dup\<close>, \<^verbatim>\<open>sys_close\<close>, \<^verbatim>\<open>sys_open\<close> or \<^verbatim>\<open>sys_pipe\<close> keeps it so, whether the call
  succeeds or fails, as long as it does not panic.
\<close>

theorem descriptor_refs:
  assumes "refs_ok (t # ts) k"
    and "c = sys_dup t k \<or> c = sys_close t k \<or> c = sys_open t k \<or> c = sys_pipe junk t k" and "c = Inr (x, t', k')"
  shows "refs_ok (t' # ts) k'"
  using assms sys_dup_refs sys_close_refs sys_open_refs sys_pipe_refs by metis

definition task_demo :: task where
  "task_demo = \<lparr>ofile = Some 0 # replicate 15 None, cwd = 0, killed = False, tuser = user_demo\<rparr>"

definition files_demo :: kfiles where
  "files_demo = \<lparr>kfs = \<lparr>disk = (\<lambda>_. []), held = [], sb = get_sb (replicate 512 0), icache = [], dev_read = (\<lambda>_. None), dev_write = (\<lambda>_. None), me = 1\<rparr>,
     ftable = [\<lparr>ftype = FD_INODE, fref = 1, freadable = True, fwritable = True, fpipe = 0, fip = 0, foff = 0\<rparr>],
     pipes = (\<lambda>_. pipe_init []), pages = \<lparr>use_lock = True, freelist = 0, ram = (\<lambda>_. 0)\<rparr>, kend = 0, ops = 0\<rparr>"

theorem descriptor_refs_witness:
  "\<exists>t' k'. sys_dup task_demo files_demo = Inr (1, t', k') \<and> refs_ok [t'] k' \<and> fref (ftable k' ! 0) = 2"
proof -
  have r: "refs_ok [task_demo] files_demo"
    by (simp add: held_refs_def task_demo_def files_demo_def fd_count_def NOFILE_def numeral_eq_Suc)
  have "argint user_demo 0 = Some 0" by (simp add: argint_def fetchint_def user_demo_def load32_def)
  then obtain t' k' where c: "sys_dup task_demo files_demo = Inr (1, t', k')" "fref (ftable k' ! 0) = 2"
    by (simp add: sys_dup_def argfd_def fdalloc_def filedup_def task_demo_def files_demo_def upd_file_def NOFILE_def numeral_eq_Suc)
  then show ?thesis using descriptor_refs [OF r disjI1 [OF refl] c(1)] by blast
qed

end
