(* ===== verification/Proc.thy ===== *)
theory Proc
  imports Vm Sysfile
begin

text \<open>
  Processes, \<^verbatim>\<open>proc.c\<close> of part 2 with its two-level priority scheduler, and the process calls of
  \<^verbatim>\<open>sysproc.c\<close>. A process is an index into the table; \<^verbatim>\<open>ptable.lock\<close> makes each routine one step between the points
  where it switches away. Trap frames are the words of \<^verbatim>\<open>struct trapframe\<close>; the frames set up on a new
  kernel stack are not modelled. \<^verbatim>\<open>nextpid\<close> and the pids are integers without a bound: the C code overflows
  after 2147483647 processes. A live process has a working directory, so the branches for a missing one
  are never taken. The routines of \<^verbatim>\<open>vm.c\<close> that differ in part 2 from part 1 are repeated
  here; \<open>kdata\<close> is the linker symbol \<^verbatim>\<open>data\<close>.
\<close>

definition NPROC :: nat where [layout_consts]: "NPROC = 64"
definition LOW_PRI :: int where [layout_consts]: "LOW_PRI = 1"
definition HIGH_PRI :: int where [layout_consts]: "HIGH_PRI = 2"

datatype procstate = UNUSED | EMBRYO | SLEEPING | RUNNABLE | RUNNING | ZOMBIE

datatype chan = Chan_proc nat | Chan_ticks | Chan_at u32

record proc =
  psz :: u32
  pgdir :: u32
  kstack :: u32
  pstate :: procstate
  pid :: int
  parent :: "nat option"
  tf :: "nat \<Rightarrow> u32"
  pchan :: "chan option"
  pkilled :: bool
  pofile :: "nat option list"
  pcwd :: "nat option"
  pname :: "byte list"
  sched_time :: u32
  lop_ticks :: u32
  hip_ticks :: u32
  pri :: int

record kernel =
  procs :: "proc list"
  nextpid :: int
  initproc :: nat
  ticks :: u32
  files :: kfiles

abbreviation proc_at :: "kernel \<Rightarrow> nat \<Rightarrow> proc" where
  "proc_at K i \<equiv> procs K ! i"

definition upd_proc :: "nat \<Rightarrow> (proc \<Rightarrow> proc) \<Rightarrow> kernel \<Rightarrow> kernel" where
  "upd_proc i f K = K\<lparr>procs := (procs K)[i := f (proc_at K i)]\<rparr>"

abbreviation memory :: "kernel \<Rightarrow> kmem" where
  "memory K \<equiv> pages (files K)"

definition set_memory :: "kmem \<Rightarrow> kernel \<Rightarrow> kernel" where
  "set_memory m K = K\<lparr>files := (files K)\<lparr>pages := m\<rparr>\<rparr>"

text \<open>The word of the trap frame that holds \<^verbatim>\<open>eax\<close>.\<close>

abbreviation EAX :: nat where
  "EAX \<equiv> 7"

section \<open>Address spaces of part 2\<close>

definition freevm_part2 :: "u32 \<Rightarrow> kmem \<Rightarrow> u32 \<Rightarrow> kmem res option" where
  "freevm_part2 ke s pd =
     (if pd = 0 then Some (panic ''freevm: no pd'')
      else obind (deallocuvm ke s pd KERNBASE 0) (\<lambda>(_, s).
           obind (freevm_tables ke s pd 0) (\<lambda>s. Some (kfree ke s pd))))"

fun setupkvm_maps_part2 :: "u32 \<Rightarrow> kmem \<Rightarrow> u32 \<Rightarrow> (u32 \<times> u32 \<times> u32 \<times> u32) list \<Rightarrow> (u32 \<times> kmem) res option" where
  "setupkvm_maps_part2 ke s pd [] = oret (pd, s)"
| "setupkvm_maps_part2 ke s pd ((virt, phys_start, phys_end, perm) # ks) =
     obind (mappages s pd virt (phys_end - phys_start) phys_start perm) (\<lambda>(r, s).
       if r < 0 then obind (freevm_part2 ke s pd) (\<lambda>s. oret (0, s))
       else setupkvm_maps_part2 ke s pd ks)"

definition setupkvm_part2 :: "u32 \<Rightarrow> u32 \<Rightarrow> kmem \<Rightarrow> (u32 \<times> kmem) res option" where
  "setupkvm_part2 ke kdata s =
     (let (pd, s) = kalloc s
      in if pd = 0 then oret (0, s)
         else let s = s\<lparr>ram := memset (ram s) pd 0 PGSIZE\<rparr>
              in if P2V PHYSTOP > DEVSPACE then Some (panic ''PHYSTOP too high'')
                 else setupkvm_maps_part2 ke s pd (kmap kdata))"

definition copyuvm_part2 :: "u32 \<Rightarrow> u32 \<Rightarrow> kmem \<Rightarrow> u32 \<Rightarrow> u32 \<Rightarrow> (u32 \<times> kmem) res option" where
  "copyuvm_part2 ke kdata s pd sz =
     obind (setupkvm_part2 ke kdata s) (\<lambda>(d, s).
       if d = 0 then oret (0, s)
       else obind (copy_pages ke s pd d 0 sz) (\<lambda>(good, s).
         if \<not> good then obind (freevm_part2 ke s d) (\<lambda>s. oret (0, s)) else oret (d, s)))"

section \<open>Creating processes\<close>

definition allocproc :: "kernel \<Rightarrow> nat option \<times> kernel" where
  "allocproc K =
     (case find_index (\<lambda>p. pstate p = UNUSED) (procs K) of
        None \<Rightarrow> (None, K)
      | Some i \<Rightarrow>
          let K = (upd_proc i (\<lambda>p. p\<lparr>pstate := EMBRYO, pid := nextpid K, pri := 1, lop_ticks := 0, hip_ticks := 0\<rparr>) K)
                    \<lparr>nextpid := nextpid K + 1\<rparr>;
              (a, m) = kalloc (memory K);
              K = upd_proc i (\<lambda>p. p\<lparr>kstack := a\<rparr>) (set_memory m K)
          in if a = 0 then (None, upd_proc i (\<lambda>p. p\<lparr>pstate := UNUSED\<rparr>) K) else (Some i, K))"

text \<open>
  \<^verbatim>\<open>userinit\<close>: \<open>code\<close> and \<open>len\<close> are the linked-in \<^verbatim>\<open>initcode\<close>, \<open>root\<close> is the inode \<^verbatim>\<open>namei("/")\<close> gives. The words set in the trap
  frame are the segment selectors, the flags, the stack pointer and the entry point.
\<close>

definition init_frame :: "nat \<Rightarrow> u32" where
  "init_frame = (\<lambda>_. 0)(15 := 0x1b, 11 := 0x23, 10 := 0x23, 18 := 0x23, 16 := 0x200, 17 := PGSIZE, 14 := 0)"

definition userinit :: "u32 \<Rightarrow> u32 \<Rightarrow> u32 \<Rightarrow> nat \<Rightarrow> kernel \<Rightarrow> kernel res option" where
  "userinit kdata code len root K =
     (case allocproc K of
        (None, K) \<Rightarrow> None
      | (Some i, K) \<Rightarrow>
          obind (setupkvm_part2 (kend (files K)) kdata (memory K)) (\<lambda>(d, m).
            if d = 0 then Some (panic ''userinit: out of memory?'')
            else obind (inituvm m d code len) (\<lambda>m.
              oret (upd_proc i (\<lambda>p. p\<lparr>pgdir := d, psz := PGSIZE, tf := init_frame,
                pname := safestrcpy (cstr_of (map of_char ''initcode'')) 16, pcwd := Some root,
                pri := LOW_PRI, lop_ticks := 0, hip_ticks := 0, pstate := RUNNABLE\<rparr>)
                (set_memory m K\<lparr>initproc := i\<rparr>)))))"

definition growproc :: "kernel \<Rightarrow> nat \<Rightarrow> int \<Rightarrow> (int \<times> kernel) res option" where
  "growproc K i n =
     (let p = proc_at K i; sz = psz p;
          finish = (\<lambda>(sz, m). if sz = 0 \<and> n \<noteq> 0 then oret (-1, set_memory m K)
                            else oret (0, upd_proc i (\<lambda>p. p\<lparr>psz := sz\<rparr>) (set_memory m K)))
      in if n > 0 then obind (allocuvm (kend (files K)) (memory K) (pgdir p) sz (sz + of_int n)) finish
         else if n < 0 then obind (deallocuvm (kend (files K)) (memory K) (pgdir p) sz (sz + of_int n)) finish
         else finish (sz, memory K))"

text \<open>The loop of \<^verbatim>\<open>fork\<close> that duplicates the open files.\<close>

fun dup_files :: "kfiles \<Rightarrow> nat option list \<Rightarrow> kfiles res" where
  "dup_files k [] = ret k"
| "dup_files k (None # fs) = dup_files k fs"
| "dup_files k (Some f # fs) = andthen (filedup k f) (\<lambda>k. dup_files k fs)"

definition fork :: "u32 \<Rightarrow> kernel \<Rightarrow> nat \<Rightarrow> (int \<times> kernel) res option" where
  "fork kdata K cur =
     (case allocproc K of
        (None, K) \<Rightarrow> oret (-1, K)
      | (Some np, K) \<Rightarrow>
          obind (copyuvm_part2 (kend (files K)) kdata (memory K) (pgdir (proc_at K cur)) (psz (proc_at K cur))) (\<lambda>(d, m).
            let K = upd_proc np (\<lambda>p. p\<lparr>pgdir := d\<rparr>) (set_memory m K)
            in if d = 0
               then obind (Some (kfree (kend (files K)) (memory K) (kstack (proc_at K np)))) (\<lambda>m.
                 oret (-1, upd_proc np (\<lambda>p. p\<lparr>kstack := 0, pstate := UNUSED\<rparr>) (set_memory m K)))
               else obind (Some (dup_files (files K) (pofile (proc_at K cur)))) (\<lambda>k.
                 let c = proc_at K cur;
                     k = (case pcwd c of None \<Rightarrow> k | Some ip \<Rightarrow> k\<lparr>kfs := idup (kfs k) ip\<rparr>)
                 in oret (pid (proc_at K np),
                   upd_proc np (\<lambda>p. p\<lparr>psz := psz c, parent := Some cur, tf := (tf c)(EAX := 0),
                     pofile := map2 (\<lambda>new old. if old \<noteq> None then old else new) (pofile p) (pofile c), pcwd := pcwd c,
                     pname := safestrcpy (cstr_of (pname c)) 16, lop_ticks := 0, hip_ticks := 0, pri := LOW_PRI, pstate := RUNNABLE\<rparr>)
                     (K\<lparr>files := k\<rparr>)))))"

section \<open>Sleeping and waking\<close>

definition wakeup1 :: "kernel \<Rightarrow> chan \<Rightarrow> kernel" where
  "wakeup1 K ch = K\<lparr>procs := map (\<lambda>p. if pstate p = SLEEPING \<and> pchan p = Some ch then p\<lparr>pstate := RUNNABLE\<rparr> else p) (procs K)\<rparr>"

definition wakeup :: "kernel \<Rightarrow> chan \<Rightarrow> kernel" where
  "wakeup K ch = wakeup1 K ch"

text \<open>\<^verbatim>\<open>sleep\<close> up to the switch to the scheduler, and what it does when the process runs again.\<close>

definition sleep_begin :: "kernel \<Rightarrow> nat \<Rightarrow> chan \<Rightarrow> kernel" where
  "sleep_begin K cur ch = upd_proc cur (\<lambda>p. p\<lparr>pchan := Some ch, pstate := SLEEPING\<rparr>) K"

definition sleep_end :: "kernel \<Rightarrow> nat \<Rightarrow> kernel" where
  "sleep_end K cur = upd_proc cur (\<lambda>p. p\<lparr>pchan := None\<rparr>) K"

definition yield_cpu :: "kernel \<Rightarrow> nat \<Rightarrow> kernel" where
  "yield_cpu K cur = upd_proc cur (\<lambda>p. p\<lparr>pstate := RUNNABLE\<rparr>) K"

definition kill :: "kernel \<Rightarrow> int \<Rightarrow> int \<times> kernel" where
  "kill K target =
     (case find_index (\<lambda>p. pid p = target) (procs K) of
        None \<Rightarrow> (-1, K)
      | Some i \<Rightarrow> (0, upd_proc i (\<lambda>p. p\<lparr>pkilled := True, pstate := (if pstate p = SLEEPING then RUNNABLE else pstate p)\<rparr>) K))"

section \<open>Ending and reaping\<close>

fun close_files :: "kfiles \<Rightarrow> nat option list \<Rightarrow> kfiles res" where
  "close_files k [] = ret k"
| "close_files k (None # fs) = close_files k fs"
| "close_files k (Some f # fs) = andthen (fileclose k f) (\<lambda>k. close_files k fs)"

text \<open>Handing the children of \<open>cur\<close> to \<^verbatim>\<open>init\<close>, which is woken for each zombie among them.\<close>

fun abandon :: "kernel \<Rightarrow> nat \<Rightarrow> nat list \<Rightarrow> kernel" where
  "abandon K cur [] = K"
| "abandon K cur (i # is) =
     (if parent (proc_at K i) = Some cur
      then let K = upd_proc i (\<lambda>p. p\<lparr>parent := Some (initproc K)\<rparr>) K
           in abandon (if pstate (proc_at K i) = ZOMBIE then wakeup1 K (Chan_proc (initproc K)) else K) cur is
      else abandon K cur is)"

text \<open>\<^verbatim>\<open>exit\<close> up to its last switch to the scheduler.\<close>

definition exit_proc :: "kernel \<Rightarrow> nat \<Rightarrow> kernel res" where
  "exit_proc K cur =
     (if cur = initproc K then panic ''init exiting''
      else andthen (close_files (files K) (pofile (proc_at K cur))) (\<lambda>k.
           andthen (case pcwd (proc_at K cur) of
                      None \<Rightarrow> ret k
                    | Some ip \<Rightarrow> andthen (on_fs' (\<lambda>s. iput s ip) (op_begin k)) (\<lambda>k. ret (op_end k))) (\<lambda>k.
             let K = upd_proc cur (\<lambda>p. p\<lparr>pofile := map (\<lambda>_. None) (pofile p), pcwd := None\<rparr>) (K\<lparr>files := k\<rparr>);
                 K = (case parent (proc_at K cur) of None \<Rightarrow> K | Some q \<Rightarrow> wakeup1 K (Chan_proc q));
                 K = abandon K cur [0..<length (procs K)]
             in ret (upd_proc cur (\<lambda>p. p\<lparr>pstate := ZOMBIE\<rparr>) K))))"

text \<open>
  One scan of \<^verbatim>\<open>wait\<close>: it returns the pid of a child it reaped or -1, or goes to sleep on its own process
  (\<open>None\<close> as value).
\<close>

definition wait_scan :: "kernel \<Rightarrow> nat \<Rightarrow> (int option \<times> kernel) res option" where
  "wait_scan K cur =
     (case find_index (\<lambda>p. parent p = Some cur \<and> pstate p = ZOMBIE) (procs K) of
        Some i \<Rightarrow>
          obind (Some (kfree (kend (files K)) (memory K) (kstack (proc_at K i)))) (\<lambda>m.
          obind (freevm_part2 (kend (files K)) m (pgdir (proc_at K i))) (\<lambda>m.
            oret (Some (pid (proc_at K i)),
              upd_proc i (\<lambda>p. p\<lparr>kstack := 0, pid := 0, parent := None, pname := (pname p)[0 := 0], pkilled := False, pstate := UNUSED\<rparr>)
                (set_memory m K))))
      | None \<Rightarrow>
          if (\<forall>p \<in> set (procs K). parent p \<noteq> Some cur) \<or> pkilled (proc_at K cur) then oret (Some (-1), K)
          else oret (None, sleep_begin K cur (Chan_proc cur)))"

section \<open>Scheduling\<close>

text \<open>The first loop of \<^verbatim>\<open>scheduler\<close>: the priority to look for.\<close>

fun search_pri :: "int \<Rightarrow> proc list \<Rightarrow> int" where
  "search_pri pr [] = pr"
| "search_pri pr (p # ps) =
     (if pstate p \<noteq> RUNNABLE \<or> pri p < pr then search_pri pr ps
      else if pri p > pr \<and> pri p = HIGH_PRI then pri p
      else search_pri pr ps)"

text \<open>
  Running process \<open>i\<close>: \<open>run i\<close> stands for everything that happens from the switch to the process until
  control comes back to the scheduler.
\<close>

definition account :: "nat \<Rightarrow> kernel \<Rightarrow> kernel res" where
  "account i K =
     (let tdif = ticks K - sched_time (proc_at K i)
      in if pri (proc_at K i) = LOW_PRI then ret (upd_proc i (\<lambda>p. p\<lparr>lop_ticks := lop_ticks p + tdif\<rparr>) K)
         else if pri (proc_at K i) = HIGH_PRI then ret (upd_proc i (\<lambda>p. p\<lparr>hip_ticks := hip_ticks p + tdif\<rparr>) K)
         else panic ''priority'')"

definition dispatch :: "nat \<Rightarrow> kernel \<Rightarrow> kernel" where
  "dispatch i K = upd_proc i (\<lambda>p. p\<lparr>pstate := RUNNING, sched_time := ticks K\<rparr>) K"

definition run_proc :: "(nat \<Rightarrow> kernel \<Rightarrow> kernel) \<Rightarrow> nat \<Rightarrow> kernel \<Rightarrow> kernel res" where
  "run_proc run i K = account i (run i (dispatch i K))"

text \<open>The second loop, with the processes it ran, in order and each with the priority it had when it was chosen.\<close>

fun sched_loop :: "(nat \<Rightarrow> kernel \<Rightarrow> kernel) \<Rightarrow> int \<Rightarrow> nat list \<Rightarrow> kernel \<Rightarrow> ((nat \<times> int) list \<times> kernel) res" where
  "sched_loop run pr [] K = ret ([], K)"
| "sched_loop run pr (i # is) K =
     (if pstate (proc_at K i) = RUNNABLE \<and> pri (proc_at K i) = pr
      then andthen (run_proc run i K) (\<lambda>K'.
        let pr' = (if pstate (proc_at K' i) \<noteq> ZOMBIE \<and> pri (proc_at K' i) > pr then pri (proc_at K' i) else pr)
        in andthen (sched_loop run pr' is K') (\<lambda>(ran, K''). ret ((i, pri (proc_at K i)) # ran, K'')))
      else sched_loop run pr is K)"

text \<open>One iteration of \<^verbatim>\<open>scheduler\<close>.\<close>

definition sched_pass :: "(nat \<Rightarrow> kernel \<Rightarrow> kernel) \<Rightarrow> kernel \<Rightarrow> ((nat \<times> int) list \<times> kernel) res" where
  "sched_pass run K = sched_loop run (search_pri LOW_PRI (procs K)) [0..<length (procs K)] K"

text \<open>The checks of \<^verbatim>\<open>sched\<close>, on the CPU's lock depth, interrupt flag and whether it holds the table lock.\<close>

definition sched_check :: "kernel \<Rightarrow> nat \<Rightarrow> bool \<Rightarrow> int \<Rightarrow> bool \<Rightarrow> unit res" where
  "sched_check K cur holds_lock depth intr =
     (if \<not> holds_lock then panic ''sched ptable.lock''
      else if depth \<noteq> 1 then panic ''sched locks''
      else if pstate (proc_at K cur) = RUNNING then panic ''sched running''
      else if intr then panic ''sched interruptible''
      else ret ())"

definition setpri :: "kernel \<Rightarrow> nat \<Rightarrow> int \<Rightarrow> int \<times> kernel" where
  "setpri K cur priority =
     (if priority < 1 \<or> priority > 2 then (-1, K) else (1, upd_proc cur (\<lambda>p. p\<lparr>pri := priority\<rparr>) K))"

record pstat =
  inuse :: int
  ps_pid :: int
  hticks :: u32
  lticks :: u32

text \<open>\<^verbatim>\<open>getpinfo\<close>: the entries it stores at \<^verbatim>\<open>ps[0], ps[1], ...\<close>\<close>

definition getpinfo :: "kernel \<Rightarrow> pstat list" where
  "getpinfo K = map (\<lambda>p. \<lparr>inuse = (if pstate p = UNUSED then 0 else 1), ps_pid = pid p, hticks = hip_ticks p, lticks = lop_ticks p\<rparr>) (procs K)"

end
