(* ===== verification/Schedule.thy ===== *)
theory Schedule
  imports Proc "HOL-Library.Sublist"
begin

text \<open>
  The two-level priority scheduler: which processes one pass over the table runs. Everything a process does
  between the switch to it and the switch back is a parameter \<open>run\<close> of the pass.
\<close>

section \<open>The level of a pass\<close>

definition runnable_at :: "int \<Rightarrow> proc \<Rightarrow> bool" where
  "runnable_at l p \<longleftrightarrow> pstate p = RUNNABLE \<and> pri p = l"

definition pri_ok :: "proc \<Rightarrow> bool" where
  "pri_ok p \<longleftrightarrow> pri p = LOW_PRI \<or> pri p = HIGH_PRI"

lemma upd_proc_simps [simp]:
  "length (procs (upd_proc i f K)) = length (procs K)"
  "nextpid (upd_proc i f K) = nextpid K" "initproc (upd_proc i f K) = initproc K"
  "ticks (upd_proc i f K) = ticks K" "files (upd_proc i f K) = files K"
  by (simp_all add: upd_proc_def)

lemma upd_proc_nth:
  "proc_at (upd_proc i f K) j = (if j = i \<and> i < length (procs K) then f (proc_at K j) else proc_at K j)"
  by (cases "i < length (procs K)") (auto simp: upd_proc_def nth_list_update list_update_beyond nth_list_update_neq)

lemma search_pri_low: "search_pri LOW_PRI ps = (if \<exists>p \<in> set ps. runnable_at HIGH_PRI p then HIGH_PRI else LOW_PRI)"
  by (induction ps) (auto simp: runnable_at_def layout_consts)

lemma account_cases:
  assumes "account i K = ret K'"
  shows "pri_ok (proc_at K i)" "length (procs K') = length (procs K)"
    "pstate (proc_at K' j) = pstate (proc_at K j)" "pri (proc_at K' j) = pri (proc_at K j)"
  using assms by (auto simp: account_def Let_def pri_ok_def upd_proc_nth split: if_splits)

lemma account_runs: "pri_ok (proc_at K i) \<Longrightarrow> \<exists>K'. account i K = ret K'"
  by (auto simp: account_def pri_ok_def Let_def)

section \<open>What a pass runs\<close>

lemma next_level:
  assumes "run_proc run i K = ret L"
  shows "pri (proc_at L i) = LOW_PRI \<or> pri (proc_at L i) = HIGH_PRI"
  using account_cases [of i "run i (dispatch i K)" L] assms by (auto simp: run_proc_def pri_ok_def)

lemma sched_loop_high:
  "sched_loop run HIGH_PRI is K = ret (trc, K') \<Longrightarrow> \<forall>x \<in> set trc. snd x = HIGH_PRI"
proof (induction "is" arbitrary: K trc K')
  case (Cons i "is")
  show ?case
  proof (cases "pstate (proc_at K i) = RUNNABLE \<and> pri (proc_at K i) = HIGH_PRI")
    case True
    with Cons.prems obtain L trc' where L: "run_proc run i K = ret L" "trc = (i, HIGH_PRI) # trc'"
      "sched_loop run (if pstate (proc_at L i) \<noteq> ZOMBIE \<and> pri (proc_at L i) > HIGH_PRI then pri (proc_at L i) else HIGH_PRI) is L = ret (trc', K')"
      by (auto simp: res_simps Let_def split: if_splits)
    moreover have "\<not> pri (proc_at L i) > HIGH_PRI" using next_level [OF L(1)] by (auto simp: layout_consts)
    ultimately show ?thesis using Cons.IH by auto
  next
    case False
    with Cons show ?thesis by auto
  qed
qed simp

text \<open>The chosen processes are visited in table order, each at most once.\<close>

lemma sched_loop_order:
  "sched_loop run pr is K = ret (trc, K') \<Longrightarrow> subseq (map fst trc) is"
proof (induction "is" arbitrary: pr K trc K')
  case (Cons i "is")
  then show ?case by (fastforce simp: res_simps Let_def split: if_splits)
qed simp

lemma subseq_sorted_wrt: "subseq zs ys \<Longrightarrow> sorted_wrt R ys \<Longrightarrow> sorted_wrt R zs"
proof (induction rule: list_emb.induct)
  case (list_emb_Cons2 x y xs ys)
  then show ?case using list_emb_set [of "(=)" xs ys] by fastforce
qed auto

text \<open>
  A run that disturbs nobody: the other processes that are runnable stay so at their level, and the
  priorities stay the two levels.
\<close>

definition prios_ok :: "kernel \<Rightarrow> bool" where
  "prios_ok K \<longleftrightarrow> (\<forall>p \<in> set (procs K). pstate p \<noteq> UNUSED \<longrightarrow> pri_ok p)"

definition undisturbed :: "(nat \<Rightarrow> kernel \<Rightarrow> kernel) \<Rightarrow> bool" where
  "undisturbed run \<longleftrightarrow> (\<forall>i L. pstate (proc_at L i) = RUNNING \<longrightarrow> length (procs (run i L)) = length (procs L) \<and>
     (prios_ok L \<longrightarrow> prios_ok (run i L)) \<and> (pri_ok (proc_at L i) \<longrightarrow> pri_ok (proc_at (run i L) i)) \<and>
     (\<forall>j l. j < length (procs L) \<longrightarrow> j \<noteq> i \<longrightarrow> runnable_at l (proc_at L j) \<longrightarrow> runnable_at l (proc_at (run i L) j)))"

definition keeps_level :: "(nat \<Rightarrow> kernel \<Rightarrow> kernel) \<Rightarrow> bool" where
  "keeps_level run \<longleftrightarrow> (\<forall>i L. pri (proc_at (run i L) i) = pri (proc_at L i))"

lemma run_proc_runs:
  assumes u: "undisturbed run" and p: "prios_ok K" and i: "i < length (procs K)" "pstate (proc_at K i) = RUNNABLE"
  obtains L where "run_proc run i K = ret L" "length (procs L) = length (procs K)" "prios_ok L"
    "\<And>j l. j < length (procs K) \<Longrightarrow> j \<noteq> i \<Longrightarrow> runnable_at l (proc_at K j) \<Longrightarrow> runnable_at l (proc_at L j)"
    "keeps_level run \<Longrightarrow> pri (proc_at L i) = pri (proc_at K i)"
proof -
  let ?D = "dispatch i K" let ?M = "run i ?D"
  have D: "length (procs ?D) = length (procs K)" "pstate (proc_at ?D i) = RUNNING" "prios_ok ?D" "pri_ok (proc_at ?D i)"
    using p i by (auto simp: dispatch_def prios_ok_def all_set_conv_all_nth upd_proc_nth pri_ok_def)
  have M: "length (procs ?M) = length (procs K)" "prios_ok ?M" "pri_ok (proc_at ?M i)" using u D by (auto simp: undisturbed_def)
  obtain L where L: "account i ?M = ret L" using account_runs [of ?M i] M by auto
  note a = account_cases [OF L]
  show thesis
  proof
    show "run_proc run i K = ret L" using L by (simp add: run_proc_def)
    show "length (procs L) = length (procs K)" using a(2) M(1) by simp
    show "prios_ok L" using M a(2-4) by (simp add: prios_ok_def all_set_conv_all_nth pri_ok_def)
    show "runnable_at l (proc_at L j)" if "j < length (procs K)" "j \<noteq> i" "runnable_at l (proc_at K j)" for j l
    proof -
      have "runnable_at l (proc_at ?D j)" using that by (simp add: dispatch_def upd_proc_nth)
      then have "runnable_at l (proc_at ?M j)" using u that D(1,2) by (auto simp: undisturbed_def)
      then show ?thesis using a(3,4) [of j] by (simp add: runnable_at_def)
    qed
    show "pri (proc_at L i) = pri (proc_at K i)" if "keeps_level run"
      using that a(4) [of i] by (simp add: keeps_level_def dispatch_def upd_proc_nth)
  qed
qed

lemma sched_loop_live:
  assumes u: "undisturbed run"
  shows "prios_ok K \<Longrightarrow> distinct is \<Longrightarrow> set is \<subseteq> {..<length (procs K)} \<Longrightarrow> pr = LOW_PRI \<or> pr = HIGH_PRI \<Longrightarrow>
    \<exists>trc K'. sched_loop run pr is K = ret (trc, K') \<and>
      ((\<exists>i \<in> set is. runnable_at pr (proc_at K i)) \<longrightarrow> trc \<noteq> []) \<and>
      (pr = HIGH_PRI \<or> keeps_level run \<longrightarrow> (\<forall>i \<in> set is. runnable_at pr (proc_at K i) \<longrightarrow> i \<in> fst ` set trc))"
proof (induction "is" arbitrary: pr K)
  case (Cons i "is")
  show ?case
  proof (cases "runnable_at pr (proc_at K i)")
    case True
    have i: "i < length (procs K)" "pstate (proc_at K i) = RUNNABLE" using Cons.prems(3) True by (auto simp: runnable_at_def)
    obtain L where L: "run_proc run i K = ret L" "length (procs L) = length (procs K)" "prios_ok L"
      and others: "\<And>j l. j < length (procs K) \<Longrightarrow> j \<noteq> i \<Longrightarrow> runnable_at l (proc_at K j) \<Longrightarrow> runnable_at l (proc_at L j)"
      and keeps: "keeps_level run \<Longrightarrow> pri (proc_at L i) = pri (proc_at K i)"
      by (rule run_proc_runs [OF u Cons.prems(1) i]) blast
    define pr' where "pr' = (if pstate (proc_at L i) \<noteq> ZOMBIE \<and> pri (proc_at L i) > pr then pri (proc_at L i) else pr)"
    have pr': "pr' = LOW_PRI \<or> pr' = HIGH_PRI" using next_level [OF L(1)] Cons.prems(4) by (auto simp: pr'_def)
    have same: "pr' = pr" if "pr = HIGH_PRI \<or> keeps_level run"
      using that next_level [OF L(1)] keeps True by (auto simp: pr'_def runnable_at_def layout_consts)
    obtain trc K' where t: "sched_loop run pr' is L = ret (trc, K')"
      "pr' = HIGH_PRI \<or> keeps_level run \<longrightarrow> (\<forall>i \<in> set is. runnable_at pr' (proc_at L i) \<longrightarrow> i \<in> fst ` set trc)"
      using Cons.IH [OF L(3) _ _ pr'] Cons.prems L(2) by auto
    have "sched_loop run pr (i # is) K = ret ((i, pri (proc_at K i)) # trc, K')"
      using True L(1) t(1) by (simp add: runnable_at_def pr'_def)
    moreover have "i' \<in> fst ` set trc" if "pr = HIGH_PRI \<or> keeps_level run" "i' \<in> set is" "runnable_at pr (proc_at K i')" for i'
    proof -
      have "i' \<noteq> i" "i' < length (procs K)" using Cons.prems that by auto
      then show ?thesis using others [of i' pr] that t(2) same by auto
    qed
    ultimately show ?thesis by auto
  next
    case False
    then have "sched_loop run pr (i # is) K = sched_loop run pr is K" by (auto simp: runnable_at_def)
    then show ?thesis using Cons.IH [OF Cons.prems(1) _ _ Cons.prems(4)] Cons.prems(2,3) False by auto
  qed
qed simp

section \<open>Properties\<close>

text \<open>
  C3. Priorities are respected, whatever the processes do while they run: when a high-priority process
  is runnable at the start of a pass of the scheduler, the pass only ever switches to processes that have high priority at
  that moment, and it visits processes in table order, each at most once.
\<close>

theorem high_priority_first:
  assumes "\<exists>p \<in> set (procs K). pstate p = RUNNABLE \<and> pri p = HIGH_PRI"
    and "sched_pass run K = ret (trc, K')"
  shows "(\<forall>(i, l) \<in> set trc. l = HIGH_PRI) \<and> sorted_wrt (<) (map fst trc)"
proof -
  have l: "sched_loop run HIGH_PRI [0..<length (procs K)] K = ret (trc, K')"
    using assms by (simp add: sched_pass_def search_pri_low runnable_at_def)
  have "sorted_wrt (<) (map fst trc)"
    using sched_loop_order [OF l] sorted_wrt_upt subseq_sorted_wrt by blast
  then show ?thesis using sched_loop_high [OF l] by auto
qed

definition proc_demo :: proc where
  "proc_demo = \<lparr>psz = 0, pgdir = 0, kstack = 0, pstate = UNUSED, pid = 0, parent = None, tf = (\<lambda>_. 0), pchan = None, pkilled = False,
     pofile = replicate NOFILE None, pcwd = None, pname = replicate 16 0, sched_time = 0, lop_ticks = 0, hip_ticks = 0, pri = 0\<rparr>"

text \<open>A low-priority, two high-priority processes; each runs for a tick and yields.\<close>

definition sched_demo :: "kfiles \<Rightarrow> kernel" where
  "sched_demo k = \<lparr>procs = [proc_demo\<lparr>pstate := RUNNABLE, pid := 1, pri := 1\<rparr>, proc_demo\<lparr>pstate := RUNNABLE, pid := 2, pri := 2\<rparr>,
     proc_demo, proc_demo\<lparr>pstate := RUNNABLE, pid := 3, pri := 2\<rparr>], nextpid = 4, initproc = 0, ticks = 0, files = k\<rparr>"

definition run_demo :: "nat \<Rightarrow> kernel \<Rightarrow> kernel" where
  "run_demo i K = yield_cpu (K\<lparr>ticks := ticks K + 1\<rparr>) i"

lemma sched_demo_pass: "\<exists>K'. sched_pass run_demo (sched_demo k) = ret ([(1, 2), (3, 2)], K')"
  by (simp add: sched_pass_def sched_demo_def proc_demo_def run_demo_def yield_cpu_def run_proc_def dispatch_def account_def upd_proc_def
    layout_consts upt_conv_Cons)

theorem high_priority_first_witness:
  "\<forall>k. \<exists>K'. sched_pass run_demo (sched_demo k) = ret ([(1, 2), (3, 2)], K') \<and> (\<forall>(i, l) \<in> set [(1 :: nat, 2 :: int), (3, 2)]. l = HIGH_PRI)"
proof
  fix k
  obtain K' where K': "sched_pass run_demo (sched_demo k) = ret ([(1, 2), (3, 2)], K')" using sched_demo_pass by blast
  have "\<exists>p \<in> set (procs (sched_demo k)). pstate p = RUNNABLE \<and> pri p = HIGH_PRI" by (simp add: sched_demo_def layout_consts)
  from high_priority_first [OF this K'] K'
  show "\<exists>K'. sched_pass run_demo (sched_demo k) = ret ([(1, 2), (3, 2)], K') \<and> (\<forall>(i, l) \<in> set [(1 :: nat, 2 :: int), (3, 2)]. l = HIGH_PRI)" by blast
qed



end
