(* ===== verification/Ptable.thy ===== *)
theory Ptable
  imports Schedule
begin

text \<open>
  The process table as a state machine: the steps the process calls and the scheduler take under
  \<^verbatim>\<open>ptable.lock\<close>, in any order, and the invariant they keep.
\<close>

section \<open>Steps\<close>

definition running :: "kernel \<Rightarrow> nat \<Rightarrow> bool" where
  "running K i \<longleftrightarrow> i < length (procs K) \<and> pstate (proc_at K i) = RUNNING"

text \<open>
  Only \<^verbatim>\<open>wait\<close> and \<^verbatim>\<open>exit\<close> use processes as channels. Other system calls may change the files, the descriptors and the
  working directory of the caller. \<^verbatim>\<open>nextpid\<close> has not overflowed.
\<close>

inductive kstep :: "kernel \<Rightarrow> kernel \<Rightarrow> bool" where
  fork: "running K cur \<Longrightarrow> nextpid K < 2147483647 \<Longrightarrow> fork kdata K cur = Some (ret (r, K')) \<Longrightarrow> kstep K K'"
| exit: "running K cur \<Longrightarrow> exit_proc K cur = ret K' \<Longrightarrow> kstep K K'"
| wait: "running K cur \<Longrightarrow> wait_scan K cur = Some (ret (r, K')) \<Longrightarrow> kstep K K'"
| sleep: "running K cur \<Longrightarrow> \<forall>q. ch \<noteq> Chan_proc q \<Longrightarrow> kstep K (sleep_begin K cur ch)"
| resume: "running K cur \<Longrightarrow> kstep K (sleep_end K cur)"
| wakeup: "\<forall>q. ch \<noteq> Chan_proc q \<Longrightarrow> kstep K (wakeup K ch)"
| yield: "running K cur \<Longrightarrow> kstep K (yield_cpu K cur)"
| kill: "kstep K (snd (kill K target))"
| setpri: "running K cur \<Longrightarrow> kstep K (snd (setpri K cur priority))"
| grow: "running K cur \<Longrightarrow> growproc K cur n = Some (ret (r, K')) \<Longrightarrow> kstep K K'"
| dispatch: "i < length (procs K) \<Longrightarrow> pstate (proc_at K i) = RUNNABLE \<Longrightarrow> kstep K (dispatch i K)"
| account: "account i K = ret K' \<Longrightarrow> kstep K K'"
| tick: "kstep K (K\<lparr>ticks := ticks K + 1\<rparr>)"
| files: "running K cur \<Longrightarrow> kstep K (upd_proc cur (\<lambda>p. p\<lparr>pofile := fds, pcwd := d\<rparr>) (K\<lparr>files := k\<rparr>))"

section \<open>The invariant\<close>

definition alive :: "proc \<Rightarrow> bool" where
  "alive p \<longleftrightarrow> pstate p = SLEEPING \<or> pstate p = RUNNABLE \<or> pstate p = RUNNING"

definition proc_ok :: "kernel \<Rightarrow> nat \<Rightarrow> bool" where
  "proc_ok K i \<longleftrightarrow>
     (if pstate (proc_at K i) = UNUSED then parent (proc_at K i) = None
      else pstate (proc_at K i) \<noteq> EMBRYO \<and> 0 < pid (proc_at K i) \<and> pid (proc_at K i) < nextpid K \<and> pri_ok (proc_at K i) \<and>
        (if i = initproc K then parent (proc_at K i) = None
         else \<exists>q < length (procs K). q \<noteq> i \<and> parent (proc_at K i) = Some q \<and> alive (proc_at K q)))"

definition zombie_of :: "kernel \<Rightarrow> nat \<Rightarrow> nat \<Rightarrow> bool" where
  "zombie_of K q i \<longleftrightarrow> i < length (procs K) \<and> parent (proc_at K i) = Some q \<and> pstate (proc_at K i) = ZOMBIE"

text \<open>A process asleep on a process as channel is that process, waiting for a child, and has no child to reap.\<close>

definition wait_ok :: "kernel \<Rightarrow> nat \<Rightarrow> bool" where
  "wait_ok K i \<longleftrightarrow> (\<forall>q. pstate (proc_at K i) = SLEEPING \<and> pchan (proc_at K i) = Some (Chan_proc q) \<longrightarrow> i = q \<and> (\<forall>j. \<not> zombie_of K q j))"

definition pids_ok :: "kernel \<Rightarrow> bool" where
  "pids_ok K \<longleftrightarrow> (\<forall>i j. i < length (procs K) \<longrightarrow> j < length (procs K) \<longrightarrow> i \<noteq> j \<longrightarrow>
     pstate (proc_at K i) \<noteq> UNUSED \<longrightarrow> pstate (proc_at K j) \<noteq> UNUSED \<longrightarrow> pid (proc_at K i) \<noteq> pid (proc_at K j))"

definition ptable_ok :: "kernel \<Rightarrow> bool" where
  "ptable_ok K \<longleftrightarrow> 0 < nextpid K \<and> initproc K < length (procs K) \<and> alive (proc_at K (initproc K)) \<and>
     (\<forall>i < length (procs K). proc_ok K i \<and> wait_ok K i) \<and> pids_ok K"

text \<open>
  The steps that create, end or reap no process: every process keeps its pid, its parent and
  whether it is unused, alive or a zombie, and a new sleeper on a process has no child to reap.
\<close>

definition steady :: "kernel \<Rightarrow> kernel \<Rightarrow> nat \<Rightarrow> bool" where
  "steady K K' j \<longleftrightarrow> parent (proc_at K' j) = parent (proc_at K j) \<and>
     (pstate (proc_at K' j) = pstate (proc_at K j) \<or> alive (proc_at K j) \<and> alive (proc_at K' j)) \<and>
     (pstate (proc_at K j) \<noteq> UNUSED \<longrightarrow> pid (proc_at K' j) = pid (proc_at K j)) \<and>
     (pri_ok (proc_at K j) \<longrightarrow> pri_ok (proc_at K' j)) \<and>
     (\<forall>q. pstate (proc_at K' j) = SLEEPING \<and> pchan (proc_at K' j) = Some (Chan_proc q) \<longrightarrow>
        pstate (proc_at K j) = SLEEPING \<and> pchan (proc_at K j) = Some (Chan_proc q) \<or> j = q \<and> (\<forall>i. \<not> zombie_of K q i))"

lemma alive_simps: "alive p \<Longrightarrow> pstate p \<noteq> UNUSED \<and> pstate p \<noteq> ZOMBIE \<and> pstate p \<noteq> EMBRYO"
  by (auto simp: alive_def)

lemma steadyD:
  assumes "steady K K' j"
  shows "alive (proc_at K' j) = alive (proc_at K j)" "pstate (proc_at K' j) = UNUSED \<longleftrightarrow> pstate (proc_at K j) = UNUSED"
    "pstate (proc_at K' j) = ZOMBIE \<longleftrightarrow> pstate (proc_at K j) = ZOMBIE" "pstate (proc_at K' j) = EMBRYO \<longleftrightarrow> pstate (proc_at K j) = EMBRYO"
    "parent (proc_at K' j) = parent (proc_at K j)" "pstate (proc_at K j) \<noteq> UNUSED \<Longrightarrow> pid (proc_at K' j) = pid (proc_at K j)"
  using assms by (auto simp: steady_def alive_def)

lemma ptable_ok_steady:
  assumes ok: "ptable_ok K" and len: "length (procs K') = length (procs K)" and ini: "initproc K' = initproc K"
    and np: "nextpid K \<le> nextpid K'" and st: "\<And>j. j < length (procs K) \<Longrightarrow> steady K K' j"
  shows "ptable_ok K'"
proof -
  have z: "zombie_of K' q i = zombie_of K q i" for q i
    using steadyD [OF st, of i] len by (auto simp: zombie_of_def)
  have al: "alive (proc_at K' q) = alive (proc_at K q)" if "q < length (procs K)" for q using steadyD [OF st [OF that]] by simp
  have "proc_ok K' i \<and> wait_ok K' i" if i: "i < length (procs K)" for i
  proof -
    note s = steadyD [OF st [OF i]]
    have "proc_ok K i" "wait_ok K i" using ok i by (auto simp: ptable_ok_def)
    moreover have "pri_ok (proc_at K i) \<Longrightarrow> pri_ok (proc_at K' i)" using st [OF i] by (simp add: steady_def)
    ultimately show ?thesis using s np st [OF i] al
      by (auto simp: proc_ok_def wait_ok_def z ini len steady_def split: if_splits)
  qed
  moreover have "pids_ok K'" using ok steadyD [OF st] unfolding ptable_ok_def pids_ok_def len by metis
  ultimately show ?thesis using ok np al len ini by (auto simp: ptable_ok_def)
qed

lemma steady_refl: "procs K' = procs K \<Longrightarrow> steady K K' j"
  by (auto simp: steady_def)

lemma set_memory_simps [simp]:
  "procs (set_memory m K) = procs K" "nextpid (set_memory m K) = nextpid K" "initproc (set_memory m K) = initproc K"
  by (simp_all add: set_memory_def)

section \<open>Steps that keep the processes\<close>

lemma ptable_ok_sleep:
  assumes "ptable_ok K" "running K cur" "\<And>q. ch = Chan_proc q \<Longrightarrow> cur = q \<and> (\<forall>i. \<not> zombie_of K q i)"
  shows "ptable_ok (sleep_begin K cur ch)"
  by (rule ptable_ok_steady [OF assms(1)])
    (use assms(2,3) in \<open>auto simp: sleep_begin_def steady_def upd_proc_nth running_def alive_def pri_ok_def\<close>)

lemma ptable_ok_running:
  assumes "ptable_ok K" "running K cur"
    and f: "pstate (f (proc_at K cur)) = RUNNING \<or> pstate (f (proc_at K cur)) = RUNNABLE"
    "pid (f (proc_at K cur)) = pid (proc_at K cur)" "parent (f (proc_at K cur)) = parent (proc_at K cur)"
    "pri_ok (proc_at K cur) \<longrightarrow> pri_ok (f (proc_at K cur))"
  shows "ptable_ok (upd_proc cur f K)"
  by (rule ptable_ok_steady [OF assms(1)]) (use assms in \<open>auto simp: steady_def upd_proc_nth running_def alive_def\<close>)

lemma ptable_ok_same: "ptable_ok K \<Longrightarrow> procs K' = procs K \<Longrightarrow> nextpid K' = nextpid K \<Longrightarrow> initproc K' = initproc K \<Longrightarrow> ptable_ok K'"
  by (rule ptable_ok_steady [of K]) (auto simp: steady_refl)

lemma running_same [simp]: "running (set_memory m K) i = running K i" "running (K\<lparr>files := k\<rparr>) i = running K i"
  by (simp_all add: running_def)

lemma wakeup1_nth:
  "j < length (procs K) \<Longrightarrow> proc_at (wakeup1 K ch) j =
     (if pstate (proc_at K j) = SLEEPING \<and> pchan (proc_at K j) = Some ch then (proc_at K j)\<lparr>pstate := RUNNABLE\<rparr> else proc_at K j)"
  by (simp add: wakeup1_def)

lemma wakeup1_simps [simp]:
  "length (procs (wakeup1 K ch)) = length (procs K)" "nextpid (wakeup1 K ch) = nextpid K" "initproc (wakeup1 K ch) = initproc K"
  "files (wakeup1 K ch) = files K"
  by (simp_all add: wakeup1_def)

lemma wakeup1_steady: "j < length (procs K) \<Longrightarrow> steady K (wakeup1 K ch) j"
  by (auto simp: steady_def wakeup1_nth alive_def pri_ok_def)

lemma ptable_ok_wakeup1: "ptable_ok K \<Longrightarrow> ptable_ok (wakeup1 K ch)"
  by (rule ptable_ok_steady [of K]) (auto simp: wakeup1_steady)

lemma ptable_ok_kill: "ptable_ok K \<Longrightarrow> ptable_ok (snd (kill K target))"
proof (cases "find_index (\<lambda>p. pid p = target) (procs K)")
  case None
  then show "ptable_ok K \<Longrightarrow> ?thesis" by (simp add: kill_def del: find_index_None)
next
  case (Some i)
  let ?f = "\<lambda>p. p\<lparr>pkilled := True, pstate := (if pstate p = SLEEPING then RUNNABLE else pstate p)\<rparr>"
  have "snd (kill K target) = upd_proc i ?f K" using Some by (simp add: kill_def)
  moreover have "steady K (upd_proc i ?f K) j" for j
    by (cases "j = i"; cases "pstate (proc_at K i) = SLEEPING") (simp_all add: steady_def upd_proc_nth alive_def pri_ok_def)
  ultimately show "ptable_ok K \<Longrightarrow> ?thesis" by (elim ptable_ok_steady) simp_all
qed

lemma ptable_ok_account: "ptable_ok K \<Longrightarrow> account i K = ret K' \<Longrightarrow> ptable_ok K'"
  by (erule ptable_ok_steady)
    (auto simp: account_def Let_def steady_def upd_proc_nth pri_ok_def split: if_splits)

lemma growproc_cases:
  assumes "growproc K cur n = Some (ret (r, K'))"
  obtains m where "K' = set_memory m K" | m sz where "K' = upd_proc cur (\<lambda>p. p\<lparr>psz := sz\<rparr>) (set_memory m K)"
proof -
  define fin where "fin = (\<lambda>(sz, m). if sz = 0 \<and> n \<noteq> 0 then oret (-1, set_memory m K)
    else oret (0 :: int, upd_proc cur (\<lambda>p. p\<lparr>psz := sz\<rparr>) (set_memory m K)))"
  have "\<exists>x. fin x = Some (ret (r, K'))"
    using assms unfolding growproc_def Let_def fin_def [symmetric] by (auto simp: obind_eq_oret split: if_splits)
  then show thesis using that by (auto simp: fin_def split: if_splits)
qed

lemma ptable_ok_growproc: "ptable_ok K \<Longrightarrow> running K cur \<Longrightarrow> growproc K cur n = Some (ret (r, K')) \<Longrightarrow> ptable_ok K'"
proof -
  assume ok: "ptable_ok K" and run: "running K cur" and g: "growproc K cur n = Some (ret (r, K'))"
  have m: "ptable_ok (set_memory m K)" "running (set_memory m K) cur" for m
    by (rule ptable_ok_same [OF ok]) (use run in simp_all)
  from g show ?thesis
  proof (cases rule: growproc_cases)
    case (1 m)
    then show ?thesis using m by simp
  next
    case (2 m sz)
    show ?thesis unfolding 2
      by (rule ptable_ok_running [OF m]) (use run in \<open>simp_all add: running_def pri_ok_def\<close>)
  qed
qed

section \<open>Creating, ending and reaping\<close>

text \<open>A change of at most the process at \<open>i\<close>.\<close>

definition touches :: "nat \<Rightarrow> kernel \<Rightarrow> kernel \<Rightarrow> bool" where
  "touches i K K' \<longleftrightarrow> length (procs K') = length (procs K) \<and> initproc K' = initproc K \<and> (\<forall>j. j \<noteq> i \<longrightarrow> proc_at K' j = proc_at K j)"

lemma touches_upd_proc [simp]: "touches i K (upd_proc i f L) \<longleftrightarrow> touches i K L"
  by (auto simp: touches_def upd_proc_nth)

lemma touches_field [simp]:
  "touches i K (L\<lparr>nextpid := n\<rparr>) \<longleftrightarrow> touches i K L" "touches i K (L\<lparr>files := k\<rparr>) \<longleftrightarrow> touches i K L"
  "touches i K (set_memory m L) \<longleftrightarrow> touches i K L" "touches i K K"
  by (auto simp: touches_def)

lemma allocproc_cases:
  assumes "allocproc K = (r, K1)"
  obtains "r = None" "K1 = K"
  | np where "np < length (procs K)" "pstate (proc_at K np) = UNUSED" "touches np K K1" "nextpid K1 = nextpid K + 1"
      "pid (proc_at K1 np) = nextpid K" "parent (proc_at K1 np) = parent (proc_at K np)" "pkilled (proc_at K1 np) = pkilled (proc_at K np)"
      "r = None \<and> pstate (proc_at K1 np) = UNUSED \<or> r = Some np \<and> pstate (proc_at K1 np) = EMBRYO"
proof (cases "find_index (\<lambda>p. pstate p = UNUSED) (procs K)")
  case None
  then show thesis using assms that(1) by (simp add: allocproc_def del: find_index_None)
next
  case (Some np)
  then have np: "np < length (procs K)" "pstate (proc_at K np) = UNUSED" by (auto simp: find_index_Some)
  obtain a m where a: "kalloc (memory K) = (a, m)" by fastforce
  show thesis
    by (rule that(2) [OF np]) (use assms Some a np in \<open>auto simp: allocproc_def Let_def upd_proc_nth split: if_splits\<close>)
qed

lemma fork_cases:
  assumes "fork kdata K cur = Some (ret (r, K'))"
  obtains "K' = K"
  | np where "np < length (procs K)" "pstate (proc_at K np) = UNUSED" "touches np K K'" "nextpid K' = nextpid K + 1"
      "pstate (proc_at K' np) = UNUSED" "parent (proc_at K' np) = parent (proc_at K np)"
  | np where "np < length (procs K)" "pstate (proc_at K np) = UNUSED" "touches np K K'" "nextpid K' = nextpid K + 1"
      "pstate (proc_at K' np) = RUNNABLE" "parent (proc_at K' np) = Some cur" "pid (proc_at K' np) = nextpid K" "pri (proc_at K' np) = LOW_PRI"
proof -
  obtain a K1 where a: "allocproc K = (a, K1)" by fastforce
  from a show thesis
  proof (cases rule: allocproc_cases)
    case 1
    then show thesis using that(1) a assms by (simp add: fork_def)
  next
    case (2 np)
    have len: "length (procs K1) = length (procs K)" using 2(3) by (simp add: touches_def)
    show thesis
    proof (cases a)
      case None
      then show thesis using that(2) a assms 2 by (auto simp: fork_def)
    next
      case (Some i)
      then have "i = np" using 2 by auto
      have "touches np K K' \<and> nextpid K' = nextpid K + 1 \<and>
        (pstate (proc_at K' np) = UNUSED \<and> parent (proc_at K' np) = parent (proc_at K np) \<or>
         pstate (proc_at K' np) = RUNNABLE \<and> parent (proc_at K' np) = Some cur \<and> pid (proc_at K' np) = nextpid K \<and> pri (proc_at K' np) = LOW_PRI)"
        using assms a Some \<open>i = np\<close> 2(1-6) len
        by (auto simp: fork_def res_simps Let_def upd_proc_nth split: if_splits)
      then show thesis using 2(1,2) that(2,3) by blast
    qed
  qed
qed

text \<open>
  A change of one process that is neither alive nor asleep before: the others stay as they are, so
  only the new state of that process has to be checked.
\<close>

lemma ptable_ok_touches:
  assumes ok: "ptable_ok K" and t: "touches i K K'" and i: "i < length (procs K)" "i \<noteq> initproc K"
    and dead: "\<not> alive (proc_at K i)" and np: "nextpid K \<le> nextpid K'"
    and new: "proc_ok K' i" "pstate (proc_at K' i) \<noteq> SLEEPING" "pstate (proc_at K' i) \<noteq> ZOMBIE"
    and fresh: "pstate (proc_at K' i) \<noteq> UNUSED \<Longrightarrow> nextpid K \<le> pid (proc_at K' i)"
  shows "ptable_ok K'"
proof -
  have len: "length (procs K') = length (procs K)" and ini: "initproc K' = initproc K"
    and same: "\<And>j. j \<noteq> i \<Longrightarrow> proc_at K' j = proc_at K j" using t by (auto simp: touches_def)
  have z: "\<not> zombie_of K' q j" if "\<not> zombie_of K q j" for q j
    using that new(3) same [of j] by (cases "j = i") (auto simp: zombie_of_def len)
  have al: "alive (proc_at K' q)" if "alive (proc_at K q)" for q using that dead same [of q] by (cases "q = i") auto
  have pid: "pid (proc_at K j) < nextpid K" if "j < length (procs K)" "pstate (proc_at K j) \<noteq> UNUSED" for j
    using ok that by (auto simp: ptable_ok_def proc_ok_def split: if_splits)
  have "proc_ok K' j \<and> wait_ok K' j" if j: "j < length (procs K)" for j
  proof (cases "j = i")
    case True
    then show ?thesis using new by (simp add: wait_ok_def)
  next
    case False
    have "proc_ok K j" "wait_ok K j" using ok j by (auto simp: ptable_ok_def)
    then show ?thesis using same [OF False] np al z by (auto simp: proc_ok_def wait_ok_def len ini split: if_splits)
  qed
  moreover have "pids_ok K'"
    unfolding pids_ok_def len
  proof (intro allI impI)
    fix a b assume ab: "a < length (procs K)" "b < length (procs K)" "a \<noteq> b" "pstate (proc_at K' a) \<noteq> UNUSED" "pstate (proc_at K' b) \<noteq> UNUSED"
    consider "a = i" "b \<noteq> i" | "b = i" "a \<noteq> i" | "a \<noteq> i" "b \<noteq> i" using ab(3) by blast
    then show "pid (proc_at K' a) \<noteq> pid (proc_at K' b)"
    proof cases
      case 1
      then show ?thesis using ab same [of b] pid [of b] fresh by fastforce
    next
      case 2
      then show ?thesis using ab same [of a] pid [of a] fresh by fastforce
    next
      case 3
      then show ?thesis using ab same ok by (simp add: ptable_ok_def pids_ok_def)
    qed
  qed
  moreover have "alive (proc_at K' (initproc K))" using ok al by (simp add: ptable_ok_def)
  ultimately show ?thesis using ok np by (simp add: ptable_ok_def len ini)
qed

lemma ptable_ok_fork:
  assumes ok: "ptable_ok K" and run: "running K cur" and f: "fork kdata K cur = Some (ret (r, K'))"
  shows "ptable_ok K'"
  using f
proof (cases rule: fork_cases)
  case (2 np)
  have "np \<noteq> initproc K" using ok 2(2) by (auto simp: ptable_ok_def alive_def)
  moreover have "proc_ok K' np" using 2 ok by (simp add: proc_ok_def ptable_ok_def)
  ultimately show ?thesis using 2 by (intro ptable_ok_touches [OF ok 2(3,1)]) (auto simp: alive_def)
next
  case (3 np)
  have ini: "np \<noteq> initproc K" "0 < nextpid K" using ok 3(2) by (auto simp: ptable_ok_def alive_def)
  have "cur \<noteq> np" using run 3(2) by (auto simp: running_def)
  then have "cur \<noteq> np" "alive (proc_at K' cur)" "cur < length (procs K')" "initproc K' = initproc K"
    using 3(3) run by (auto simp: touches_def running_def alive_def)
  then have "proc_ok K' np" using 3 ini by (simp add: proc_ok_def pri_ok_def)
  then show ?thesis using 3 ini by (intro ptable_ok_touches [OF ok 3(3,1)]) (auto simp: alive_def)
qed (use ok in simp)

lemma ptable_ok_wait:
  assumes ok: "ptable_ok K" and run: "running K cur" and w: "wait_scan K cur = Some (ret (r, K'))"
  shows "ptable_ok K'"
proof (cases "find_index (\<lambda>p. parent p = Some cur \<and> pstate p = ZOMBIE) (procs K)")
  case (Some i)
  then have i: "i < length (procs K)" "parent (proc_at K i) = Some cur" "pstate (proc_at K i) = ZOMBIE" by (auto simp: find_index_Some)
  have ini: "i \<noteq> initproc K" using ok i by (auto simp: ptable_ok_def alive_def)
  have K': "touches i K K'" "nextpid K' = nextpid K" "pstate (proc_at K' i) = UNUSED" "parent (proc_at K' i) = None"
    using w Some i(1) by (auto simp: wait_scan_def res_simps upd_proc_nth)
  then have "proc_ok K' i" by (simp add: proc_ok_def)
  then show ?thesis using K' i ini by (intro ptable_ok_touches [OF ok K'(1) i(1)]) (auto simp: alive_def)
next
  case None
  then have z: "\<not> zombie_of K cur i" for i by (auto simp: zombie_of_def)
  have "K' = K \<or> K' = sleep_begin K cur (Chan_proc cur)"
    using w None by (auto simp: wait_scan_def simp del: find_index_None split: if_splits)
  then show ?thesis using ok ptable_ok_sleep [OF ok run, of "Chan_proc cur"] z by auto
qed

lemma abandon_fields:
  "length (procs (abandon K cur is)) = length (procs K)" "initproc (abandon K cur is) = initproc K" "nextpid (abandon K cur is) = nextpid K"
  by (induction K cur "is" rule: abandon.induct) (auto simp: Let_def)

lemma abandon_nth:
  "cur \<noteq> initproc K \<Longrightarrow> \<forall>i \<in> set is. i < length (procs K) \<Longrightarrow> j < length (procs K) \<Longrightarrow>
    pid (proc_at (abandon K cur is) j) = pid (proc_at K j) \<and> pri (proc_at (abandon K cur is) j) = pri (proc_at K j) \<and>
    pchan (proc_at (abandon K cur is) j) = pchan (proc_at K j) \<and>
    parent (proc_at (abandon K cur is) j) = (if j \<in> set is \<and> parent (proc_at K j) = Some cur then Some (initproc K) else parent (proc_at K j)) \<and>
    (pstate (proc_at (abandon K cur is) j) = pstate (proc_at K j) \<or>
      pstate (proc_at K j) = SLEEPING \<and> pstate (proc_at (abandon K cur is) j) = RUNNABLE) \<and>
    ((\<exists>i \<in> set is. zombie_of K cur i) \<longrightarrow>
      \<not> (pstate (proc_at (abandon K cur is) j) = SLEEPING \<and> pchan (proc_at K j) = Some (Chan_proc (initproc K))))"
proof (induction K cur "is" rule: abandon.induct)
  case (2 K cur i "is")
  show ?case
  proof (cases "parent (proc_at K i) = Some cur")
    case True
    define L where "L = upd_proc i (\<lambda>p. p\<lparr>parent := Some (initproc K)\<rparr>) K"
    define M where "M = (if pstate (proc_at L i) = ZOMBIE then wakeup1 L (Chan_proc (initproc L)) else L)"
    have i: "i < length (procs K)" using "2.prems" by simp
    have ab: "abandon K cur (i # is) = abandon M cur is" using True by (simp add: L_def M_def Let_def)
    have M: "initproc M = initproc K" "length (procs M) = length (procs K)" by (simp_all add: M_def L_def)
    have nth: "pid (proc_at M j) = pid (proc_at K j)" "pri (proc_at M j) = pri (proc_at K j)" "pchan (proc_at M j) = pchan (proc_at K j)"
      "parent (proc_at M j) = (if j = i then Some (initproc K) else parent (proc_at K j))"
      "pstate (proc_at M j) = (if pstate (proc_at K i) = ZOMBIE \<and> pstate (proc_at K j) = SLEEPING \<and> pchan (proc_at K j) = Some (Chan_proc (initproc K))
        then RUNNABLE else pstate (proc_at K j))" if "j < length (procs K)" for j
      using that i by (auto simp: M_def L_def wakeup1_nth upd_proc_nth)
    have z: "zombie_of M cur k \<longleftrightarrow> k \<noteq> i \<and> zombie_of K cur k" for k
      using nth [of k] "2.prems"(1) by (auto simp: zombie_of_def M split: if_splits)
    have zi: "zombie_of K cur i \<longleftrightarrow> pstate (proc_at K i) = ZOMBIE" using True i by (simp add: zombie_of_def)
    note IH = "2.IH"(1) [OF True L_def, folded M_def, unfolded M, OF "2.prems"(1) _ "2.prems"(3)]
    have ex: "(\<exists>k \<in> set (i # is). zombie_of K cur k) \<longleftrightarrow> pstate (proc_at K i) = ZOMBIE \<or> (\<exists>k \<in> set is. zombie_of M cur k)"
      using z zi by auto
    have "\<forall>k \<in> set is. k < length (procs K)" using "2.prems"(2) by simp
    note IH = IH [OF this]
    show ?thesis unfolding ab ex
    proof (intro conjI impI)
      let ?A = "abandon M cur is"
      show "pid (proc_at ?A j) = pid (proc_at K j)" "pri (proc_at ?A j) = pri (proc_at K j)" "pchan (proc_at ?A j) = pchan (proc_at K j)"
        using IH nth(1-3) [OF "2.prems"(3)] by simp_all
      show "parent (proc_at ?A j) = (if j \<in> set (i # is) \<and> parent (proc_at K j) = Some cur then Some (initproc K) else parent (proc_at K j))"
        using IH nth(4) [OF "2.prems"(3)] True "2.prems"(1) by simp
      show "pstate (proc_at ?A j) = pstate (proc_at K j) \<or> pstate (proc_at K j) = SLEEPING \<and> pstate (proc_at ?A j) = RUNNABLE"
        using IH nth(5) [OF "2.prems"(3)] by (auto split: if_splits)
      show "\<not> (pstate (proc_at ?A j) = SLEEPING \<and> pchan (proc_at K j) = Some (Chan_proc (initproc K)))"
        if "pstate (proc_at K i) = ZOMBIE \<or> (\<exists>k \<in> set is. zombie_of M cur k)"
        using that IH nth(3,5) [OF "2.prems"(3)] by (auto split: if_splits)
    qed
  next
    case False
    then have "\<not> zombie_of K cur i" by (simp add: zombie_of_def)
    then show ?thesis using False "2.IH"(2) [OF False "2.prems"(1) _ "2.prems"(3)] "2.prems"(2) by auto
  qed
qed simp

lemma exit_cases:
  assumes "exit_proc K cur = ret K'"
  obtains k where "cur \<noteq> initproc K" and "K' = upd_proc cur (\<lambda>p. p\<lparr>pstate := ZOMBIE\<rparr>) (abandon (case parent (proc_at K cur) of
      None \<Rightarrow> upd_proc cur (\<lambda>p. p\<lparr>pofile := map (\<lambda>_. None) (pofile p), pcwd := None\<rparr>) (K\<lparr>files := k\<rparr>)
    | Some q \<Rightarrow> wakeup1 (upd_proc cur (\<lambda>p. p\<lparr>pofile := map (\<lambda>_. None) (pofile p), pcwd := None\<rparr>) (K\<lparr>files := k\<rparr>)) (Chan_proc q))
    cur [0..<length (procs K)])"
proof -
  have p: "parent (proc_at (upd_proc cur (\<lambda>p. p\<lparr>pofile := map (\<lambda>_. None) (pofile p), pcwd := None\<rparr>) (K\<lparr>files := k\<rparr>)) cur) = parent (proc_at K cur)" for k
    by (simp add: upd_proc_nth)
  show thesis using assms that by (auto simp: exit_proc_def res_simps Let_def p split: if_splits option.splits)
qed

lemma exit_nth:
  assumes ok: "ptable_ok K" and run: "running K cur" and e: "exit_proc K cur = ret K'"
  shows "length (procs K') = length (procs K)" "initproc K' = initproc K" "nextpid K' = nextpid K" "cur \<noteq> initproc K"
    "j < length (procs K) \<Longrightarrow>
      pid (proc_at K' j) = pid (proc_at K j) \<and> pri (proc_at K' j) = pri (proc_at K j) \<and> pchan (proc_at K' j) = pchan (proc_at K j) \<and>
      parent (proc_at K' j) = (if parent (proc_at K j) = Some cur then Some (initproc K) else parent (proc_at K j)) \<and>
      pstate (proc_at K' cur) = ZOMBIE \<and>
      (j \<noteq> cur \<longrightarrow> pstate (proc_at K' j) = pstate (proc_at K j) \<or> pstate (proc_at K j) = SLEEPING \<and> pstate (proc_at K' j) = RUNNABLE) \<and>
      (\<forall>q. pstate (proc_at K' j) = SLEEPING \<and> pchan (proc_at K j) = Some (Chan_proc q) \<longrightarrow>
        parent (proc_at K cur) \<noteq> Some q \<and> (q = initproc K \<longrightarrow> (\<forall>i. \<not> zombie_of K cur i)))"
proof -
  obtain k where ini: "cur \<noteq> initproc K" and K': "K' = upd_proc cur (\<lambda>p. p\<lparr>pstate := ZOMBIE\<rparr>) (abandon (case parent (proc_at K cur) of
      None \<Rightarrow> upd_proc cur (\<lambda>p. p\<lparr>pofile := map (\<lambda>_. None) (pofile p), pcwd := None\<rparr>) (K\<lparr>files := k\<rparr>)
    | Some q \<Rightarrow> wakeup1 (upd_proc cur (\<lambda>p. p\<lparr>pofile := map (\<lambda>_. None) (pofile p), pcwd := None\<rparr>) (K\<lparr>files := k\<rparr>)) (Chan_proc q))
    cur [0..<length (procs K)])" by (rule exit_cases [OF e])
  define L where "L = upd_proc cur (\<lambda>p. p\<lparr>pofile := map (\<lambda>_. None) (pofile p), pcwd := None\<rparr>) (K\<lparr>files := k\<rparr>)"
  define M where "M = (case parent (proc_at K cur) of None \<Rightarrow> L | Some q \<Rightarrow> wakeup1 L (Chan_proc q))"
  define A where "A = abandon M cur [0..<length (procs K)]"
  have K': "K' = upd_proc cur (\<lambda>p. p\<lparr>pstate := ZOMBIE\<rparr>) A" using K' by (simp only: A_def M_def L_def)
  have M: "length (procs M) = length (procs K)" "initproc M = initproc K" "nextpid M = nextpid K"
    by (simp_all add: M_def L_def split: option.split)
  have Mj: "pid (proc_at M j) = pid (proc_at K j)" "pri (proc_at M j) = pri (proc_at K j)" "pchan (proc_at M j) = pchan (proc_at K j)"
    "parent (proc_at M j) = parent (proc_at K j)"
    "pstate (proc_at M j) = (if \<exists>q. parent (proc_at K cur) = Some q \<and> pstate (proc_at K j) = SLEEPING \<and> pchan (proc_at K j) = Some (Chan_proc q)
      then RUNNABLE else pstate (proc_at K j))" if "j < length (procs K)" for j
    using that by (auto simp: M_def L_def wakeup1_nth upd_proc_nth split: option.split)
  have z: "zombie_of M cur i = zombie_of K cur i" for i using Mj [of i] by (auto simp: zombie_of_def M split: if_splits)
  have cur: "cur < length (procs K)" using run by (simp add: running_def)
  show "length (procs K') = length (procs K)" "initproc K' = initproc K" "nextpid K' = nextpid K" "cur \<noteq> initproc K"
    using ini by (simp_all add: K' A_def abandon_fields M)
  assume j: "j < length (procs K)"
  have "cur \<noteq> initproc M" "\<forall>i \<in> set [0..<length (procs K)]. i < length (procs M)" "j < length (procs M)" using ini j M by auto
  note ab = abandon_nth [OF this, folded A_def, unfolded M z]
  have lenA: "length (procs A) = length (procs K)" by (simp add: A_def abandon_fields M)
  have ex: "(\<exists>i \<in> set [0..<length (procs K)]. zombie_of K cur i) \<longleftrightarrow> (\<exists>i. zombie_of K cur i)" by (auto simp: zombie_of_def)
  note ab = ab [unfolded ex]
  show "pid (proc_at K' j) = pid (proc_at K j) \<and> pri (proc_at K' j) = pri (proc_at K j) \<and> pchan (proc_at K' j) = pchan (proc_at K j) \<and>
      parent (proc_at K' j) = (if parent (proc_at K j) = Some cur then Some (initproc K) else parent (proc_at K j)) \<and>
      pstate (proc_at K' cur) = ZOMBIE \<and>
      (j \<noteq> cur \<longrightarrow> pstate (proc_at K' j) = pstate (proc_at K j) \<or> pstate (proc_at K j) = SLEEPING \<and> pstate (proc_at K' j) = RUNNABLE) \<and>
      (\<forall>q. pstate (proc_at K' j) = SLEEPING \<and> pchan (proc_at K j) = Some (Chan_proc q) \<longrightarrow>
        parent (proc_at K cur) \<noteq> Some q \<and> (q = initproc K \<longrightarrow> (\<forall>i. \<not> zombie_of K cur i)))"
    using ab Mj [OF j] j cur lenA by (auto simp: K' upd_proc_nth split: if_splits)
qed

lemma ptable_ok_exit:
  assumes ok: "ptable_ok K" and run: "running K cur" and e: "exit_proc K cur = ret K'"
  shows "ptable_ok K'"
proof -
  note f = exit_nth(1-4) [OF ok run e] and n = exit_nth(5) [OF ok run e]
  have cur: "cur < length (procs K)" "pstate (proc_at K cur) = RUNNING" using run by (simp_all add: running_def)
  have al: "alive (proc_at K' q)" if "q < length (procs K)" "alive (proc_at K q)" "q \<noteq> cur" for q
    using n [OF that(1)] that by (auto simp: alive_def)
  have ini: "alive (proc_at K' (initproc K))" "initproc K < length (procs K)" using ok f(4) by (auto simp: ptable_ok_def al)
  have proc: "proc_ok K j" "wait_ok K j" if "j < length (procs K)" for j using ok that by (auto simp: ptable_ok_def)
  have "proc_ok K' j" if j: "j < length (procs K)" for j
  proof -
    have un: "pstate (proc_at K' j) = UNUSED \<longleftrightarrow> pstate (proc_at K j) = UNUSED" "pstate (proc_at K' j) = EMBRYO \<longrightarrow> pstate (proc_at K j) = EMBRYO"
      using n [OF j] cur by auto
    show ?thesis
    proof (cases "pstate (proc_at K j) = UNUSED \<or> j = initproc K")
      case True
      then show ?thesis using proc(1) [OF j] n [OF j] un f by (auto simp: proc_ok_def pri_ok_def)
    next
      case False
      then obtain q where q: "q < length (procs K)" "q \<noteq> j" "parent (proc_at K j) = Some q" "alive (proc_at K q)"
        using proc(1) [OF j] by (auto simp: proc_ok_def)
      then have "\<exists>q < length (procs K). q \<noteq> j \<and> parent (proc_at K' j) = Some q \<and> alive (proc_at K' q)"
        using n [OF j] ini al False by (cases "q = cur") auto
      then show ?thesis using False proc(1) [OF j] n [OF j] un f by (auto simp: proc_ok_def pri_ok_def)
    qed
  qed
  moreover have "wait_ok K' j" if j: "j < length (procs K)" for j
    unfolding wait_ok_def
  proof (intro allI impI)
    fix q assume s: "pstate (proc_at K' j) = SLEEPING \<and> pchan (proc_at K' j) = Some (Chan_proc q)"
    then have "j \<noteq> cur" using n [OF j] by auto
    then have old: "pstate (proc_at K j) = SLEEPING" "pchan (proc_at K j) = Some (Chan_proc q)" using s n [OF j] by auto
    then have jq: "j = q" "\<And>i. \<not> zombie_of K q i" using proc(2) [OF j] by (auto simp: wait_ok_def)
    have "\<not> zombie_of K' q i" for i
    proof
      assume z: "zombie_of K' q i"
      then have i: "i < length (procs K)" "parent (proc_at K' i) = Some q" "pstate (proc_at K' i) = ZOMBIE" by (auto simp: zombie_of_def f)
      show False
      proof (cases "i = cur")
        case True
        have "cur \<noteq> initproc K" "pstate (proc_at K cur) \<noteq> UNUSED" using f(4) cur by auto
        then have "parent (proc_at K cur) \<noteq> Some cur" using proc(1) [OF cur(1)] by (auto simp: proc_ok_def)
        then have "parent (proc_at K cur) = Some q" using i True n [OF cur(1)] by auto
        then show False using n [OF j] s old by auto
      next
        case False
        then have "pstate (proc_at K i) = ZOMBIE" using n [OF i(1)] i by auto
        moreover have "parent (proc_at K i) = Some cur \<and> q = initproc K \<or> parent (proc_at K i) = Some q"
          using n [OF i(1)] i(2) by (auto split: if_splits)
        ultimately have "q = initproc K \<and> zombie_of K cur i \<or> zombie_of K q i" using i(1) by (auto simp: zombie_of_def)
        then show False using jq(2) n [OF j] s old by blast
      qed
    qed
    then show "j = q \<and> (\<forall>i. \<not> zombie_of K' q i)" using jq by simp
  qed
  moreover have "pids_ok K'" unfolding pids_ok_def f
  proof (intro allI impI)
    fix a b assume ab: "a < length (procs K)" "b < length (procs K)" "a \<noteq> b" "pstate (proc_at K' a) \<noteq> UNUSED" "pstate (proc_at K' b) \<noteq> UNUSED"
    then have "pstate (proc_at K a) \<noteq> UNUSED" "pstate (proc_at K b) \<noteq> UNUSED" using n [OF ab(1)] n [OF ab(2)] cur by auto
    then have "pid (proc_at K a) \<noteq> pid (proc_at K b)" using ok ab by (simp add: ptable_ok_def pids_ok_def)
    then show "pid (proc_at K' a) \<noteq> pid (proc_at K' b)" using n [OF ab(1)] n [OF ab(2)] by simp
  qed
  ultimately show ?thesis using ini f ok by (auto simp: ptable_ok_def)
qed

lemma ptable_ok_step: "kstep K K' \<Longrightarrow> ptable_ok K \<Longrightarrow> ptable_ok K'"
proof (induction rule: kstep.induct)
  case (sleep K cur ch)
  then show ?case by (intro ptable_ok_sleep) auto
next
  case (resume K cur)
  then show ?case unfolding sleep_end_def by (intro ptable_ok_running) (auto simp: running_def pri_ok_def)
next
  case (yield K cur)
  then show ?case unfolding yield_cpu_def by (intro ptable_ok_running) (auto simp: running_def pri_ok_def)
next
  case (setpri K cur priority)
  then show ?case unfolding setpri_def
    by (auto intro!: ptable_ok_running simp: running_def pri_ok_def layout_consts)
next
  case (dispatch i K)
  then show ?case by (elim ptable_ok_steady) (auto simp: dispatch_def steady_def upd_proc_nth alive_def pri_ok_def)
next
  case (tick K)
  then show ?case by (elim ptable_ok_same) simp_all
next
  case (files K cur fds d k)
  have "ptable_ok (K\<lparr>files := k\<rparr>)" using files(2) by (rule ptable_ok_same) simp_all
  then show ?case using files(1) by (intro ptable_ok_running) (auto simp: running_def pri_ok_def)
next
  case (wakeup ch K)
  then show ?case by (simp add: wakeup_def ptable_ok_wakeup1)
qed (blast intro: ptable_ok_fork ptable_ok_exit ptable_ok_wait ptable_ok_kill ptable_ok_growproc ptable_ok_account)+

lemma ptable_ok_steps: "kstep\<^sup>*\<^sup>* K K' \<Longrightarrow> ptable_ok K \<Longrightarrow> ptable_ok K'"
  by (induction rule: rtranclp_induct) (auto dest: ptable_ok_step)

section \<open>The first process\<close>

lemma userinit_cases:
  assumes "userinit kdata code len root K = Some (ret K')"
  obtains i where "touches i (K\<lparr>initproc := i\<rparr>) K'" "i < length (procs K)" "pstate (proc_at K i) = UNUSED" "nextpid K' = nextpid K + 1"
    "pstate (proc_at K' i) = RUNNABLE" "parent (proc_at K' i) = parent (proc_at K i)" "pid (proc_at K' i) = nextpid K" "pri (proc_at K' i) = LOW_PRI"
proof -
  obtain a K1 where a: "allocproc K = (a, K1)" by fastforce
  from a show thesis
  proof (cases rule: allocproc_cases)
    case 1
    then show thesis using a assms by (simp add: userinit_def)
  next
    case (2 np)
    then have "a = Some np" using a assms by (auto simp: userinit_def)
    moreover have "length (procs K1) = length (procs K)" "\<And>j. j \<noteq> np \<Longrightarrow> proc_at K1 j = proc_at K j" using 2(3) by (simp_all add: touches_def)
    ultimately show thesis using a assms 2 that [of np]
      by (auto simp: userinit_def res_simps touches_def upd_proc_nth split: if_splits)
  qed
qed

lemma ptable_ok_userinit:
  assumes "userinit kdata code len root K = Some (ret K')" "0 < nextpid K" "\<forall>p \<in> set (procs K). pstate p = UNUSED \<and> parent p = None"
  shows "ptable_ok K'"
  using assms(1)
proof (cases rule: userinit_cases)
  case (1 i)
  then have f: "length (procs K') = length (procs K)" "initproc K' = i" "\<And>j. j \<noteq> i \<Longrightarrow> proc_at K' j = proc_at K j"
    by (auto simp: touches_def)
  have u: "pstate (proc_at K j) = UNUSED" "parent (proc_at K j) = None" if "j < length (procs K)" for j using assms(3) that by simp_all
  have un: "pstate (proc_at K' j) = UNUSED" "parent (proc_at K' j) = None" if "j < length (procs K)" "j \<noteq> i" for j using u f(3) that by simp_all
  have "proc_ok K' j" "wait_ok K' j" if "j < length (procs K)" for j
    using that un [of j] 1 u(2) [of i] f(2) assms(2) by (cases "j = i"; simp add: proc_ok_def wait_ok_def pri_ok_def)+
  moreover have "pids_ok K'" unfolding pids_ok_def f(1) using un by metis
  ultimately show ?thesis using 1 f assms(2) by (simp add: ptable_ok_def alive_def)
qed

section \<open>Properties\<close>


text \<open>Init waits for its child, which exits.\<close>

definition wait_demo :: "kfiles \<Rightarrow> kernel" where
  "wait_demo k = \<lparr>procs = [proc_demo\<lparr>pstate := SLEEPING, pchan := Some (Chan_proc 0), pid := 1, pri := 1\<rparr>,
     proc_demo\<lparr>pstate := RUNNING, pid := 2, pri := 2, parent := Some 0\<rparr>, proc_demo], nextpid = 3, initproc = 0, ticks = 0, files = k\<rparr>"

lemma wait_demo_procs:
  "i < length (procs (wait_demo k)) \<longleftrightarrow> i = 0 \<or> i = 1 \<or> i = 2"
  "proc_at (wait_demo k) 0 = proc_demo\<lparr>pstate := SLEEPING, pchan := Some (Chan_proc 0), pid := 1, pri := 1\<rparr>"
  "proc_at (wait_demo k) (Suc 0) = proc_demo\<lparr>pstate := RUNNING, pid := 2, pri := 2, parent := Some 0\<rparr>"
  "proc_at (wait_demo k) 2 = proc_demo" "initproc (wait_demo k) = 0" "nextpid (wait_demo k) = 3"
  by (auto simp: wait_demo_def)

lemma wait_demo_ok: "ptable_ok (wait_demo k)"
proof -
  have "\<not> zombie_of (wait_demo k) q j" for q j
    by (cases "j = 0"; cases "j = 1"; cases "j = 2") (simp_all add: zombie_of_def wait_demo_procs proc_demo_def)
  then show ?thesis
    by (auto simp: ptable_ok_def wait_demo_procs proc_ok_def wait_ok_def pids_ok_def alive_def pri_ok_def proc_demo_def layout_consts)
qed

lemma wait_demo_exit: "exit_proc (wait_demo k) 1 = ret (wait_demo k\<lparr>procs := [proc_demo\<lparr>pstate := RUNNABLE, pchan := Some (Chan_proc 0), pid := 1, pri := 1\<rparr>,
     proc_demo\<lparr>pstate := ZOMBIE, pid := 2, pri := 2, parent := Some 0\<rparr>, proc_demo]\<rparr>)"
proof -
  have "close_files k (replicate n None) = ret k" for n by (induction n) simp_all
  then show ?thesis
    by (simp add: exit_proc_def wait_demo_def proc_demo_def upd_proc_def wakeup1_def upt_conv_Cons)
qed


text \<open>
  C36. \<^verbatim>\<open>kill\<close> does not look at the state of the slot it finds: while the first slot with pid 0 is the first unused
  one, \<^verbatim>\<open>kill(0)\<close> succeeds, and the process that is allocated next starts out killed.
\<close>

theorem kill_zero_hits_unused:
  assumes "find_index (\<lambda>p. pid p = 0) (procs K) = Some i" and "find_index (\<lambda>p. pstate p = UNUSED) (procs K) = Some i"
    and "fst (kalloc (memory K)) \<noteq> 0"
  shows "fst (kill K 0) = 0 \<and> (\<exists>K'. allocproc (snd (kill K 0)) = (Some i, K') \<and> pkilled (proc_at K' i) \<and> pid (proc_at K' i) = nextpid K)"
proof -
  have i: "i < length (procs K)" "pstate (proc_at K i) = UNUSED" "\<And>j. j < i \<Longrightarrow> pstate (proc_at K j) \<noteq> UNUSED"
    using assms(2) by (auto simp: find_index_Some)
  define L where "L = upd_proc i (\<lambda>p. p\<lparr>pkilled := True, pstate := (if pstate p = SLEEPING then RUNNABLE else pstate p)\<rparr>) K"
  have k: "kill K 0 = (0, L)" using assms(1) by (simp add: kill_def L_def)
  have "find_index (\<lambda>p. pstate p = UNUSED) (procs L) = Some i"
    using i by (auto simp: find_index_Some L_def upd_proc_nth)
  then have "\<exists>K'. allocproc L = (Some i, K') \<and> pkilled (proc_at K' i) \<and> pid (proc_at K' i) = nextpid K"
    using assms(3) i(1) by (auto simp: allocproc_def Let_def L_def upd_proc_nth split: prod.split)
  then show ?thesis by (simp add: k)
qed

definition alloc_demo :: "kfiles \<Rightarrow> kernel" where
  "alloc_demo k = wait_demo (k\<lparr>pages := \<lparr>use_lock = True, freelist = 0x80400000, ram = (\<lambda>_. 0)\<rparr>\<rparr>)"

theorem kill_zero_hits_unused_witness:
  "\<forall>k. fst (kill (alloc_demo k) 0) = 0 \<and> (\<exists>K'. allocproc (snd (kill (alloc_demo k) 0)) = (Some 2, K') \<and> pkilled (proc_at K' 2))"
proof
  fix k
  have "find_index (\<lambda>p. pid p = 0) (procs (alloc_demo k)) = Some 2" "find_index (\<lambda>p. pstate p = UNUSED) (procs (alloc_demo k)) = Some 2"
    by (simp_all add: alloc_demo_def wait_demo_def proc_demo_def)
  moreover have "fst (kalloc (memory (alloc_demo k))) \<noteq> 0" by (simp add: kalloc_def alloc_demo_def wait_demo_def Let_def)
  ultimately show "fst (kill (alloc_demo k) 0) = 0 \<and> (\<exists>K'. allocproc (snd (kill (alloc_demo k) 0)) = (Some 2, K') \<and> pkilled (proc_at K' 2))"
    using kill_zero_hits_unused [of "alloc_demo k" 2] by blast
qed

end
