(* ===== verification/Grep.thy ===== *)
theory Grep
  imports Prelude
begin

text \<open>
  The user program \<^verbatim>\<open>grep.c\<close>: its pattern matcher and its loop over the input. A C string is the list of its
  characters before the NUL, so that the end of the list is the NUL; a pointer into a string is the
  rest of the list.
\<close>

section \<open>Matching\<close>

abbreviation caret :: byte where "caret \<equiv> 94"
abbreviation dollar :: byte where "dollar \<equiv> 36"
abbreviation dot :: byte where "dot \<equiv> 46"
abbreviation star :: byte where "star \<equiv> 42"
abbreviation newline :: byte where "newline \<equiv> 10"

function (sequential) matchhere :: "byte list \<Rightarrow> byte list \<Rightarrow> bool"
  and matchstar :: "byte \<Rightarrow> byte list \<Rightarrow> byte list \<Rightarrow> bool" where
  "matchhere [] text = True"
| "matchhere [c] text =
     (if c = dollar then text = []
      else case text of [] \<Rightarrow> False | t # ts \<Rightarrow> (c = dot \<or> c = t) \<and> matchhere [] ts)"
| "matchhere (c # d # re) text =
     (if d = star then matchstar c re text
      else case text of [] \<Rightarrow> False | t # ts \<Rightarrow> (c = dot \<or> c = t) \<and> matchhere (d # re) ts)"
| "matchstar c re text =
     (if matchhere re text then True
      else case text of [] \<Rightarrow> False | t # ts \<Rightarrow> (t = c \<or> c = dot) \<and> matchstar c re ts)"
  by pat_completeness auto
termination
  by (relation "measures [\<lambda>x. case x of Inl (re, _) \<Rightarrow> length re | Inr (_, re, _) \<Rightarrow> Suc (length re),
    \<lambda>x. case x of Inl (_, text) \<Rightarrow> length text | Inr (_, _, text) \<Rightarrow> length text]") auto

declare matchstar.simps [simp del]

text \<open>The loop of \<^verbatim>\<open>match\<close>, which also tries the empty rest of the text.\<close>

fun match_from :: "byte list \<Rightarrow> byte list \<Rightarrow> bool" where
  "match_from re [] = matchhere re []"
| "match_from re (t # ts) = (if matchhere re (t # ts) then True else match_from re ts)"

definition match :: "byte list \<Rightarrow> byte list \<Rightarrow> bool" where
  "match re text = (case re of c # re' \<Rightarrow> if c = caret then matchhere re' text else match_from re text | [] \<Rightarrow> match_from re text)"

section \<open>The input loop\<close>

text \<open>
  \<^verbatim>\<open>strchr(p, '\n')\<close> looks only up to a NUL in the data. The inner loop over the lines in the buffer gives what is written and
  the rest \<^verbatim>\<open>p\<close> of the buffer after the last newline.
\<close>

definition split_line :: "byte list \<Rightarrow> (byte list \<times> byte list) option" where
  "split_line p =
     (if newline \<in> set (takeWhile (\<lambda>c. c \<noteq> 0) p)
      then Some (takeWhile (\<lambda>c. c \<noteq> newline) p, tl (dropWhile (\<lambda>c. c \<noteq> newline) p)) else None)"

lemma split_line_Some:
  "split_line p = Some (l, r) \<Longrightarrow> p = l @ newline # r \<and> newline \<notin> set l"
proof -
  assume "split_line p = Some (l, r)"
  then have n: "newline \<in> set p" and l: "l = takeWhile (\<lambda>c. c \<noteq> newline) p" "r = tl (dropWhile (\<lambda>c. c \<noteq> newline) p)"
    by (auto simp: split_line_def split: if_splits dest: set_takeWhileD)
  have d: "dropWhile (\<lambda>c. c \<noteq> newline) p \<noteq> []" using n by (auto simp: dropWhile_eq_Nil_conv)
  then have "dropWhile (\<lambda>c. c \<noteq> newline) p = newline # r" using hd_dropWhile [OF d] l(2) by (metis list.collapse)
  then have "p = l @ newline # r" using takeWhile_dropWhile_id [of "\<lambda>c. c \<noteq> newline" p] l(1) by simp
  then show ?thesis using l(1) by (auto dest: set_takeWhileD)
qed

lemma split_line_shorter [termination_simp]: "split_line p = Some (l, r) \<Longrightarrow> length r < length p"
  by (auto dest: split_line_Some)

fun grep_lines :: "byte list \<Rightarrow> byte list \<Rightarrow> byte list \<times> byte list" where
  "grep_lines re p =
     (case split_line p of
        None \<Rightarrow> ([], p)
      | Some (l, r) \<Rightarrow> let (out, rest) = grep_lines re r in ((if match re l then l @ [newline] else []) @ out, rest))"

declare grep_lines.simps [simp del]

text \<open>
  \<^verbatim>\<open>grep\<close>: \<open>buf\<close> is what the buffer holds before the next \<^verbatim>\<open>read\<close> (\<open>m\<close> bytes), \<open>rd\<close> the results of the calls of \<^verbatim>\<open>read\<close> up
  to the end of the file. A line without newline at the end of the buffer is kept for the next round
  only if the buffer had a newline before it.
\<close>

fun grep :: "byte list \<Rightarrow> byte list \<Rightarrow> byte list list \<Rightarrow> byte list" where
  "grep re buf [] = []"
| "grep re buf (n # rd) =
     (if n = [] then []
      else let b = buf @ n; (out, p) = grep_lines re b
           in out @ grep re (if length p = length b then [] else p) rd)"

section \<open>What a pattern means\<close>

text \<open>
  The meaning of a pattern, independent of the matcher: a sequence of single characters and repetitions, and an
  anchor at the end.
\<close>

datatype atom = Lit byte | Any

datatype pat = End | Dollar | Seq atom pat | Many atom pat

fun admits :: "atom \<Rightarrow> byte \<Rightarrow> bool" where
  "admits (Lit c) t = (c = t)"
| "admits Any t = True"

definition atom_of :: "byte \<Rightarrow> atom" where
  "atom_of c = (if c = dot then Any else Lit c)"

fun compile :: "byte list \<Rightarrow> pat" where
  "compile [] = End"
| "compile [c] = (if c = dollar then Dollar else Seq (atom_of c) End)"
| "compile (c # d # re) = (if d = star then Many (atom_of c) (compile re) else Seq (atom_of c) (compile (d # re)))"

fun words :: "pat \<Rightarrow> byte list set" where
  "words End = {[]}"
| "words Dollar = {[]}"
| "words (Seq a p) = {t # w | t w. admits a t \<and> w \<in> words p}"
| "words (Many a p) = {u @ w | u w. (\<forall>t \<in> set u. admits a t) \<and> w \<in> words p}"

fun anchored :: "pat \<Rightarrow> bool" where
  "anchored End = False"
| "anchored Dollar = True"
| "anchored (Seq a p) = anchored p"
| "anchored (Many a p) = anchored p"

definition fits :: "pat \<Rightarrow> byte list \<Rightarrow> bool" where
  "fits p text \<longleftrightarrow> (\<exists>w rest. text = w @ rest \<and> w \<in> words p \<and> (anchored p \<longrightarrow> rest = []))"

lemma fitsI: "text = w @ rest \<Longrightarrow> w \<in> words p \<Longrightarrow> (anchored p \<Longrightarrow> rest = []) \<Longrightarrow> fits p text"
  unfolding fits_def by blast

lemma fitsE: "fits p text \<Longrightarrow> (\<And>w rest. text = w @ rest \<Longrightarrow> w \<in> words p \<Longrightarrow> (anchored p \<Longrightarrow> rest = []) \<Longrightarrow> thesis) \<Longrightarrow> thesis"
  unfolding fits_def by blast

lemma fits_ends [simp]: "fits End text" "fits Dollar text \<longleftrightarrow> text = []" "\<not> fits (Seq a p) []"
  by (auto simp: fits_def)

lemma fits_Seq [simp]: "fits (Seq a p) (t # ts) \<longleftrightarrow> admits a t \<and> fits p ts"
proof
  assume "fits (Seq a p) (t # ts)"
  then obtain w rest where "t # ts = w @ rest" "w \<in> words (Seq a p)" "anchored p \<longrightarrow> rest = []" by (metis fitsE anchored.simps(3))
  then show "admits a t \<and> fits p ts" by (auto intro: fitsI)
next
  assume r: "admits a t \<and> fits p ts"
  then obtain w rest where w: "ts = w @ rest" "w \<in> words p" "anchored p \<Longrightarrow> rest = []" by (metis fitsE)
  show "fits (Seq a p) (t # ts)" by (rule fitsI [of _ "t # w" rest]) (use w r in auto)
qed

lemma words_ManyI: "\<forall>t \<in> set u. admits a t \<Longrightarrow> w \<in> words p \<Longrightarrow> u @ w \<in> words (Many a p)"
  by auto

lemma fits_Many: "fits (Many a p) text \<longleftrightarrow> fits p text \<or> (\<exists>t ts. text = t # ts \<and> admits a t \<and> fits (Many a p) ts)"
  (is "?L \<longleftrightarrow> ?R")
proof
  assume ?L
  then obtain x rest where x: "text = x @ rest" "x \<in> words (Many a p)" "anchored p \<Longrightarrow> rest = []" by (metis fitsE anchored.simps(4))
  then obtain u w where u: "x = u @ w" "\<forall>t \<in> set u. admits a t" "w \<in> words p" by auto
  show ?R
  proof (cases u)
    case Nil
    then show ?thesis using u x by (auto intro: fitsI)
  next
    case (Cons t v)
    have "fits (Many a p) (v @ w @ rest)" by (rule fitsI [of _ "v @ w" rest]) (use u x Cons in auto)
    with Cons u x show ?thesis by auto
  qed
next
  assume ?R
  then consider "fits p text" | t ts where "text = t # ts" "admits a t" "fits (Many a p) ts" by blast
  then show ?L
  proof cases
    case 1
    then obtain w rest where w: "text = w @ rest" "w \<in> words p" "anchored p \<Longrightarrow> rest = []" by (metis fitsE)
    have "w \<in> words (Many a p)" using words_ManyI [of "[]"] w(2) by simp
    then show ?thesis using w by (intro fitsI [of _ w rest]) simp_all
  next
    case 2
    then obtain x rest where x: "ts = x @ rest" "x \<in> words (Many a p)" "anchored p \<Longrightarrow> rest = []" by (metis fitsE anchored.simps(4))
    then obtain u w where u: "x = u @ w" "\<forall>t \<in> set u. admits a t" "w \<in> words p" by auto
    then have "t # x \<in> words (Many a p)" using 2 words_ManyI [of "t # u" a w p] by simp
    then show ?thesis using x 2 by (intro fitsI [of _ "t # x" rest]) auto
  qed
qed

lemma admits_atom_of: "admits (atom_of c) t \<longleftrightarrow> c = dot \<or> c = t"
  by (auto simp: atom_of_def)

lemma matcher_fits:
  "matchhere re tx \<longleftrightarrow> fits (compile re) tx"
  "matchstar c re tx \<longleftrightarrow> fits (Many (atom_of c) (compile re)) tx"
proof (induction re tx and c re tx rule: matchhere_matchstar.induct)
  case (4 c re tx)
  then show ?case by (subst fits_Many) (auto simp: matchstar.simps [of c re tx] admits_atom_of split: list.split)
qed (auto simp: admits_atom_of split: list.split)

lemma match_from_fits: "match_from re tx \<longleftrightarrow> (\<exists>pre post. tx = pre @ post \<and> fits (compile re) post)"
proof (induction tx)
  case (Cons t ts)
  then show ?case by (auto simp: matcher_fits Cons_eq_append_conv)
qed (simp add: matcher_fits)

section \<open>The lines of the input\<close>

fun lines_of :: "byte list \<Rightarrow> byte list \<Rightarrow> byte list list" where
  "lines_of cur [] = []"
| "lines_of cur (c # cs) = (if c = newline then cur # lines_of [] cs else lines_of (cur @ [c]) cs)"

definition selected :: "byte list \<Rightarrow> byte list list \<Rightarrow> byte list" where
  "selected re ls = concat (map (\<lambda>l. l @ [newline]) (filter (match re) ls))"

lemma lines_of_append: "newline \<notin> set l \<Longrightarrow> lines_of cur (l @ newline # r) = (cur @ l) # lines_of [] r"
  by (induction l arbitrary: cur) auto

lemma lines_of_none: "newline \<notin> set p \<Longrightarrow> lines_of cur (p @ r) = lines_of (cur @ p) r"
  by (induction p arbitrary: cur) auto

lemma grep_lines_selected:
  assumes "0 \<notin> set b" "grep_lines re b = (out, p)"
  shows "newline \<notin> set p \<and> (newline \<in> set b \<longrightarrow> length p < length b) \<and> (newline \<notin> set b \<longrightarrow> p = b) \<and> 0 \<notin> set p \<and>
    selected re (lines_of [] (b @ r)) = out @ selected re (lines_of [] (p @ r))"
  using assms
proof (induction re b arbitrary: out p rule: grep_lines.induct)
  case (1 re b)
  have nz: "takeWhile (\<lambda>c. c \<noteq> 0) b = b" using "1.prems"(1) by (induction b) auto
  show ?case
  proof (cases "split_line b")
    case None
    then show ?thesis using "1.prems" nz by (auto simp: split_line_def grep_lines.simps [of re b])
  next
    case (Some lr)
    obtain l t where lr: "lr = (l, t)" by fastforce
    have b: "b = l @ newline # t" "newline \<notin> set l" using Some split_line_Some lr by auto
    obtain o' p' where t: "grep_lines re t = (o', p')" by fastforce
    have out: "out = (if match re l then l @ [newline] else []) @ o'" "p = p'"
      using "1.prems"(2) Some t by (auto simp: grep_lines.simps [of re b] lr)
    have "0 \<notin> set t" using "1.prems"(1) b by simp
    from "1.IH" [OF Some lr [symmetric] this t] show ?thesis using b out by (auto simp: lines_of_append selected_def)
  qed
qed

section \<open>Properties\<close>

text \<open>
  C27. The matcher of Kernighan and Pike decides what the pattern means: \<^verbatim>\<open>match\<close> succeeds exactly on a text that
  contains a word of the pattern, at its start after a \<^verbatim>\<open>^\<close> and up to its end before a \<^verbatim>\<open>$\<close>.
\<close>

theorem match_correct:
  "match re text \<longleftrightarrow> (\<exists>pre post. text = pre @ post \<and>
     (if re \<noteq> [] \<and> hd re = caret then pre = [] \<and> fits (compile (tl re)) post else fits (compile re) post))"
  by (cases re) (auto simp: match_def matcher_fits match_from_fits)

text \<open>
  C28. When every read brings a newline and the data has no NUL, \<^verbatim>\<open>grep\<close> writes exactly the complete lines of the whole
  input that match, in order and across the boundaries of the reads.
\<close>

theorem grep_selects:
  assumes "\<forall>n \<in> set rd. newline \<in> set n \<and> 0 \<notin> set n"
  shows "grep re [] rd = selected re (lines_of [] (concat rd))"
proof -
  have "newline \<notin> set buf \<Longrightarrow> 0 \<notin> set buf \<Longrightarrow> \<forall>n \<in> set rd. newline \<in> set n \<and> 0 \<notin> set n \<Longrightarrow>
      grep re buf rd = selected re (lines_of [] (buf @ concat rd))" for buf
  proof (induction rd arbitrary: buf)
    case Nil
    then show ?case using lines_of_none [of buf "[]" "[]"] by (simp add: selected_def)
  next
    case (Cons n rd)
    obtain out p where g: "grep_lines re (buf @ n) = (out, p)" by fastforce
    have "0 \<notin> set (buf @ n)" "newline \<in> set (buf @ n)" "n \<noteq> []" using Cons.prems by auto
    with grep_lines_selected [OF this(1) g, of "concat rd"] Cons.IH [of p] Cons.prems g show ?case by auto
  qed
  from this [of "[]"] assms show ?thesis by simp
qed

theorem grep_selects_witness:
  "grep [97, 42, 98] [] [[120, 98, 10, 99], [10, 97, 98, 10]] = [120, 98, 10, 97, 98, 10] \<and>
   selected [97, 42, 98] (lines_of [] (concat [[120, 98, 10, 99], [10, 97, 98, 10]])) = [120, 98, 10, 97, 98, 10]"
proof -
  have "grep [97, 42, 98] [] [[120, 98, 10, 99], [10, 97, 98, 10]] =
      selected [97, 42, 98] (lines_of [] (concat [[120, 98, 10, 99], [10, 97, 98, 10]]))" by (rule grep_selects) simp
  moreover have "selected [97, 42, 98] (lines_of [] (concat [[120, 98, 10, 99], [10, 97, 98, 10]])) = [120, 98, 10, 97, 98, 10]"
    by (simp add: selected_def match_def matchstar.simps)
  ultimately show ?thesis by simp
qed

text \<open>A line whose first part arrives in a read without newline loses that part.\<close>

lemma grep_drops_partial_line: "grep [97] [] [[97], [98, 10]] = []" "selected [97] (lines_of [] (concat [[97], [98, 10]])) = [97, 98, 10]"
  by (simp_all add: grep_lines.simps split_line_def match_def selected_def)

end
