(* ===== verification/Sh.thy ===== *)
theory Sh
  imports Prelude "HOL-Library.Sublist"
begin

text \<open>
  The command parser of the shell, \<^verbatim>\<open>sh.c\<close>. The line is a C string, the list of its characters before the NUL. A
  pointer into the line is the rest of the line from there: \<^verbatim>\<open>s < es\<close> says that the rest is not empty, and \<^verbatim>\<open>*s\<close> at the
  end is the NUL. The routines that call each other take fuel, one unit per call; \<^verbatim>\<open>parsecmd\<close> has
  enough for its line.
\<close>

section \<open>Tokens\<close>

definition whitespace :: "byte list" where "whitespace = [32, 9, 13, 10, 11]"
definition symbols :: "byte list" where "symbols = [60, 124, 62, 38, 59, 40, 41]"

abbreviation lt :: byte where "lt \<equiv> 60"
abbreviation bar :: byte where "bar \<equiv> 124"
abbreviation gt :: byte where "gt \<equiv> 62"
abbreviation amp :: byte where "amp \<equiv> 38"
abbreviation semi :: byte where "semi \<equiv> 59"
abbreviation lpar :: byte where "lpar \<equiv> 40"
abbreviation rpar :: byte where "rpar \<equiv> 41"
abbreviation plus_tok :: byte where "plus_tok \<equiv> 43"
abbreviation word_tok :: byte where "word_tok \<equiv> 97"

definition MAXARGS :: nat where "MAXARGS = 10"

datatype cmd =
    EXEC "(byte list \<times> byte list) list"
  | REDIR cmd "byte list" "byte list" u32 nat
  | PIPE cmd cmd
  | LIST cmd cmd
  | BACK cmd

definition deref :: "byte list \<Rightarrow> byte" where
  "deref s = (case s of [] \<Rightarrow> 0 | c # _ \<Rightarrow> c)"

definition skip_white :: "byte list \<Rightarrow> byte list" where
  "skip_white s = dropWhile (\<lambda>c. c \<in> set whitespace) s"

text \<open>\<^verbatim>\<open>gettoken\<close>: the token, its two pointers \<^verbatim>\<open>q\<close> and \<^verbatim>\<open>eq\<close>, and the new position.\<close>

definition gettoken :: "byte list \<Rightarrow> byte \<times> byte list \<times> byte list \<times> byte list" where
  "gettoken s =
     (let q = skip_white s; c = deref q;
          (r, eq) = (if c = 0 then (0, q)
                     else if c = bar \<or> c = lpar \<or> c = rpar \<or> c = semi \<or> c = amp \<or> c = lt then (c, tl q)
                     else if c = gt then (if deref (tl q) = gt then (plus_tok, tl (tl q)) else (gt, tl q))
                     else (word_tok, dropWhile (\<lambda>c. c \<notin> set whitespace \<and> c \<notin> set symbols) q))
      in (r, q, eq, skip_white eq))"

definition peek :: "byte list \<Rightarrow> byte list \<Rightarrow> byte list \<times> bool" where
  "peek s toks = (let s = skip_white s in (s, s \<noteq> [] \<and> deref s \<in> set toks))"

lemma skip_white_length: "length (skip_white s) \<le> length s"
  by (simp add: skip_white_def length_dropWhile_le)

lemma gettoken_length: "gettoken s = (t, q, eq, s') \<Longrightarrow> length s' \<le> length eq \<and> length eq \<le> length q \<and> length q \<le> length s"
  using skip_white_length length_dropWhile_le
  by (auto simp: gettoken_def Let_def split: if_splits)

lemma skip_white_hd: "skip_white s = c # r \<Longrightarrow> c \<notin> set whitespace"
  unfolding skip_white_def by (metis hd_dropWhile list.distinct(1) list.sel(1))

lemma gettoken_progress: "gettoken s = (t, q, eq, s') \<Longrightarrow> t \<noteq> 0 \<Longrightarrow> length s' < length s"
proof -
  assume g: "gettoken s = (t, q, eq, s')" and t: "t \<noteq> 0"
  have l: "length s' \<le> length eq" "length q \<le> length s" using gettoken_length [OF g] by auto
  obtain c r where q: "q = c # r" using g t by (cases q) (auto simp: gettoken_def Let_def deref_def split: if_splits)
  have "c \<notin> set whitespace" using g q by (intro skip_white_hd [of s _ r]) (auto simp: gettoken_def Let_def split: if_splits)
  then have "length eq < length q" using g t q length_dropWhile_le [of _ r]
    by (auto simp: gettoken_def Let_def deref_def symbols_def less_Suc_eq_le split: if_splits list.splits dest: sym)
  with l show ?thesis by simp
qed

lemma peek_shorter: "peek s toks = (s', p) \<Longrightarrow> length s' \<le> length s"
  using skip_white_length [of s] by (auto simp: peek_def Let_def)

lemma gettoken_shorter: "gettoken s = (t, q, eq, s') \<Longrightarrow> length s' \<le> length s"
  using gettoken_length [of s] by fastforce

lemma skip_white_idem [simp]: "skip_white (skip_white s) = skip_white s"
  by (simp add: skip_white_def)

lemma peek_gettoken:
  assumes "peek s toks = (s1, True)" "0 \<notin> set toks" "gettoken s1 = (t, q, eq, s2)"
  shows "length s2 < length s"
proof -
  have s1: "s1 = skip_white s" "deref s1 \<noteq> 0" using assms(1,2) by (auto simp: peek_def Let_def)
  then have "t \<noteq> 0" using assms(3) by (auto simp: gettoken_def Let_def split: if_splits)
  then have "length s2 < length s1" using assms(3) gettoken_progress by blast
  then show ?thesis using skip_white_length [of s] s1 by simp
qed

lemma gettoken_word: "gettoken s = (word_tok, q, eq, s') \<Longrightarrow> length s' < length s"
  using gettoken_progress [of s word_tok] by simp

section \<open>Commands\<close>

text \<open>The modes of \<^verbatim>\<open>fcntl.h\<close> the shell opens files with: \<^verbatim>\<open>O_RDONLY\<close> and \<^verbatim>\<open>O_WRONLY|O_CREATE\<close>.\<close>

abbreviation rd_mode :: u32 where "rd_mode \<equiv> 0"
abbreviation wr_mode :: u32 where "wr_mode \<equiv> 0x201"

definition redir_of :: "byte \<Rightarrow> cmd \<Rightarrow> byte list \<Rightarrow> byte list \<Rightarrow> cmd" where
  "redir_of tok c q eq =
     (if tok = lt then REDIR c q eq rd_mode 0
      else if tok = gt then REDIR c q eq wr_mode 1
      else if tok = plus_tok then REDIR c q eq wr_mode 1
      else c)"

function parseredirs :: "cmd \<Rightarrow> byte list \<Rightarrow> (cmd \<times> byte list) res" where
  "parseredirs c s =
     (case peek s [lt, gt] of (s1, p) \<Rightarrow>
        if \<not> p then ret (c, s1)
        else case gettoken s1 of (tok, _, _, s2) \<Rightarrow>
             case gettoken s2 of (t, q, eq, s3) \<Rightarrow>
               if t \<noteq> word_tok then panic ''missing file for redirection''
               else parseredirs (redir_of tok c q eq) s3)"
  by pat_completeness auto
termination
proof (relation "measure (\<lambda>(c, s). length s)", goal_cases)
  case 2
  from peek_shorter [OF 2(1) [symmetric]] gettoken_shorter [OF 2(3) [unfolded 2(4,5) [symmetric], symmetric]]
    gettoken_progress [OF 2(6) [unfolded 2(7,8) [symmetric], symmetric]] 2(9)
  show ?case by simp
qed simp

declare parseredirs.simps [simp del]

text \<open>Storing an argument through \<^verbatim>\<open>cmd\<close>, which is the \<^verbatim>\<open>execcmd\<close> inside the redirections \<^verbatim>\<open>ret\<close>.\<close>

fun add_arg :: "cmd \<Rightarrow> byte list \<times> byte list \<Rightarrow> cmd" where
  "add_arg (EXEC args) a = EXEC (args @ [a])"
| "add_arg (REDIR c q eq m fd) a = REDIR (add_arg c a) q eq m fd"
| "add_arg c a = c"

lemma parseredirs_length: "parseredirs c s = ret (c', s') \<Longrightarrow> length s' \<le> length s"
proof (induction c s rule: parseredirs.induct)
  case (1 c s)
  obtain s1 p where p: "peek s [lt, gt] = (s1, p)" by fastforce
  obtain tok q1 e1 s2 where g: "gettoken s1 = (tok, q1, e1, s2)" by (metis prod_cases4)
  obtain t q eq s3 where g2: "gettoken s2 = (t, q, eq, s3)" by (metis prod_cases4)
  have "length s1 \<le> length s" using p skip_white_length by (auto simp: peek_def Let_def)
  moreover have "length s3 \<le> length s2" "length s2 \<le> length s1" using gettoken_length g g2 by fastforce+
  ultimately show ?case using "1.prems" "1.IH" [OF p [symmetric] _ g [symmetric] refl refl g2 [symmetric] refl refl] p g g2
    by (auto simp: parseredirs.simps [of c s] split: if_splits)
qed

text \<open>The loop of \<^verbatim>\<open>parseexec\<close> over the arguments.\<close>

function parseargs :: "cmd \<Rightarrow> nat \<Rightarrow> byte list \<Rightarrow> (cmd \<times> byte list) res" where
  "parseargs r argc s =
     (case peek s [bar, rpar, amp, semi] of (s1, p) \<Rightarrow>
        if p then ret (r, s1)
        else case gettoken s1 of (tok, q, eq, s2) \<Rightarrow>
          if tok = 0 then ret (r, s2)
          else if tok \<noteq> word_tok then panic ''syntax''
          else if argc + 1 \<ge> MAXARGS then panic ''too many args''
          else andthen (parseredirs (add_arg r (q, eq)) s2) (\<lambda>(r, s3). parseargs r (argc + 1) s3))"
  by pat_completeness auto
termination by (relation "measure (\<lambda>(r, argc, s). MAXARGS - argc)") auto

declare parseargs.simps [simp del]

text \<open>The loop of \<^verbatim>\<open>parseline\<close> over the ampersands.\<close>

function parseback :: "cmd \<Rightarrow> byte list \<Rightarrow> cmd \<times> byte list" where
  "parseback c s =
     (case peek s [amp] of (s1, p) \<Rightarrow>
        if p then case gettoken s1 of (_, _, _, s2) \<Rightarrow> parseback (BACK c) s2 else (c, s1))"
  by pat_completeness auto
termination
proof (relation "measure (\<lambda>(c, s). length s)", goal_cases)
  case 2
  from peek_gettoken [OF 2(1) [symmetric, unfolded eqTrueI [OF 2(2)]] _ 2(3) [unfolded 2(4,5) [symmetric], symmetric]]
  show ?case by simp
qed simp

declare parseback.simps [simp del]

fun parseline :: "nat \<Rightarrow> byte list \<Rightarrow> (cmd \<times> byte list) res option"
  and parsepipe :: "nat \<Rightarrow> byte list \<Rightarrow> (cmd \<times> byte list) res option"
  and parseexec :: "nat \<Rightarrow> byte list \<Rightarrow> (cmd \<times> byte list) res option"
  and parseblock :: "nat \<Rightarrow> byte list \<Rightarrow> (cmd \<times> byte list) res option" where
  "parseline 0 s = None"
| "parseline (Suc f) s =
     obind (parsepipe f s) (\<lambda>(c, s).
       case parseback c s of (c, s) \<Rightarrow>
       case peek s [semi] of (s, p) \<Rightarrow>
         if p then case gettoken s of (_, _, _, s) \<Rightarrow> obind (parseline f s) (\<lambda>(r, s). oret (LIST c r, s))
         else oret (c, s))"
| "parsepipe 0 s = None"
| "parsepipe (Suc f) s =
     obind (parseexec f s) (\<lambda>(c, s).
       case peek s [bar] of (s, p) \<Rightarrow>
         if p then case gettoken s of (_, _, _, s) \<Rightarrow> obind (parsepipe f s) (\<lambda>(r, s). oret (PIPE c r, s))
         else oret (c, s))"
| "parseblock 0 s = None"
| "parseblock (Suc f) s =
     (case peek s [lpar] of (s, p) \<Rightarrow>
        if \<not> p then Some (panic ''parseblock'')
        else case gettoken s of (_, _, _, s) \<Rightarrow>
          obind (parseline f s) (\<lambda>(c, s).
            case peek s [rpar] of (s, p) \<Rightarrow>
              if \<not> p then Some (panic ''syntax - missing )'')
              else case gettoken s of (_, _, _, s) \<Rightarrow> Some (parseredirs c s)))"
| "parseexec 0 s = None"
| "parseexec (Suc f) s =
     (case peek s [lpar] of (s, p) \<Rightarrow>
        if p then parseblock f s
        else Some (andthen (parseredirs (EXEC []) s) (\<lambda>(r, s). parseargs r 0 s)))"

text \<open>
  Writing the NULs: \<open>b\<close> is the buffer of the line with its final NUL, and \<open>n\<close> the length of the line, so
  that the pointer \<open>p\<close> is the index \<open>n - length p\<close>.
\<close>

definition put_nul :: "nat \<Rightarrow> byte list \<Rightarrow> byte list \<Rightarrow> byte list" where
  "put_nul n p b = b[n - length p := 0]"

fun nulterminate :: "nat \<Rightarrow> cmd \<Rightarrow> byte list \<Rightarrow> byte list" where
  "nulterminate n (EXEC args) b = fold (\<lambda>(q, eq). put_nul n eq) args b"
| "nulterminate n (REDIR c q eq m fd) b = put_nul n eq (nulterminate n c b)"
| "nulterminate n (PIPE l r) b = nulterminate n r (nulterminate n l b)"
| "nulterminate n (LIST l r) b = nulterminate n r (nulterminate n l b)"
| "nulterminate n (BACK c) b = nulterminate n c b"

definition parsecmd :: "byte list \<Rightarrow> (cmd \<times> byte list) res option" where
  "parsecmd s =
     obind (parseline (4 * length s + 4) s) (\<lambda>(c, s').
       case peek s' [] of (s', _) \<Rightarrow>
         if s' \<noteq> [] then Some (panic ''syntax'')
         else oret (c, nulterminate (length s) c (s @ [0])))"

section \<open>The parser ends\<close>

text \<open>What a parser leaves is no longer than what it was given, and its messages are those of the syntax errors.\<close>

definition syntax_errors :: "string set" where
  "syntax_errors = {''syntax'', ''syntax - missing )'', ''missing file for redirection'', ''too many args''}"

definition sane :: "byte list \<Rightarrow> (cmd \<times> byte list) res \<Rightarrow> bool" where
  "sane s r \<longleftrightarrow> (case r of Inl e \<Rightarrow> e \<in> Panic ` syntax_errors | Inr (c, s') \<Rightarrow> length s' \<le> length s)"

lemma sane_mono: "sane s r \<Longrightarrow> length s \<le> length t \<Longrightarrow> sane t r"
  by (auto simp: sane_def split: sum.splits)

lemma parseredirs_sane: "sane s (parseredirs c s)"
proof (induction c s rule: parseredirs.induct)
  case (1 c s)
  obtain s1 p where p: "peek s [lt, gt] = (s1, p)" by fastforce
  obtain tok q1 e1 s2 where g: "gettoken s1 = (tok, q1, e1, s2)" by (metis prod_cases4)
  obtain t q eq s3 where g2: "gettoken s2 = (t, q, eq, s3)" by (metis prod_cases4)
  have len: "length s1 \<le> length s" "length s3 \<le> length s" using peek_shorter [OF p] gettoken_shorter [OF g] gettoken_shorter [OF g2] by simp_all
  show ?case
  proof (cases "p \<and> t = word_tok")
    case True
    then have "sane s3 (parseredirs (redir_of tok c q eq) s3)"
      using "1.IH" [OF p [symmetric] _ g [symmetric] refl refl g2 [symmetric] refl refl] by simp
    with True len show ?thesis using p g g2 by (simp add: parseredirs.simps [of c s] sane_mono)
  next
    case False
    then show ?thesis using p g g2 len by (auto simp: parseredirs.simps [of c s] sane_def syntax_errors_def)
  qed
qed

lemma parseargs_sane: "sane s (parseargs r argc s)"
proof (induction r argc s rule: parseargs.induct)
  case (1 r argc s)
  obtain s1 p where p: "peek s [bar, rpar, amp, semi] = (s1, p)" by fastforce
  obtain tok q eq s2 where g: "gettoken s1 = (tok, q, eq, s2)" by (metis prod_cases4)
  have len: "length s1 \<le> length s" "length s2 \<le> length s" using peek_shorter [OF p] gettoken_shorter [OF g] by simp_all
  show ?case
  proof (cases "\<not> p \<and> tok = word_tok \<and> \<not> argc + 1 \<ge> MAXARGS")
    case True
    then have eq: "parseargs r argc s = andthen (parseredirs (add_arg r (q, eq)) s2) (\<lambda>(r, s3). parseargs r (argc + 1) s3)"
      using p g by (simp add: parseargs.simps [of r argc s])
    show ?thesis
    proof (cases "parseredirs (add_arg r (q, eq)) s2")
      case (Inl e)
      then show ?thesis using parseredirs_sane [of s2 "add_arg r (q, eq)"] by (simp add: eq sane_def)
    next
      case (Inr x)
      then obtain r' s3 where x: "parseredirs (add_arg r (q, eq)) s2 = Inr (r', s3)" by (cases x) auto
      have "sane s3 (parseargs r' (argc + 1) s3)"
        using "1.IH" [OF p [symmetric] _ g [symmetric] refl refl _ _ _ x refl] True by simp
      moreover have "length s3 \<le> length s" using parseredirs_length [OF x] len by simp
      ultimately show ?thesis by (simp add: eq x sane_mono)
    qed
  next
    case False
    then show ?thesis using p g len by (auto simp: parseargs.simps [of r argc s] sane_def syntax_errors_def)
  qed
qed

lemma parseback_shorter: "parseback c s = (c', s') \<Longrightarrow> length s' \<le> length s"
proof (induction c s rule: parseback.induct)
  case (1 c s)
  obtain s1 p where p: "peek s [amp] = (s1, p)" by fastforce
  obtain tok q eq s2 where g: "gettoken s1 = (tok, q, eq, s2)" by (metis prod_cases4)
  show ?case using "1.prems" "1.IH" [OF p [symmetric] _ g [symmetric] refl refl] p g peek_shorter [OF p] gettoken_shorter [OF g]
    by (auto simp: parseback.simps [of c s] split: if_splits)
qed

definition returns_sane :: "byte list \<Rightarrow> (cmd \<times> byte list) res option \<Rightarrow> bool" where
  "returns_sane s m \<longleftrightarrow> (\<exists>r. m = Some r \<and> sane s r)"

lemma returns_saneI: "sane s r \<Longrightarrow> returns_sane s (Some r)"
  by (simp add: returns_sane_def)

lemma returns_sane_bind:
  assumes "returns_sane s m" and "\<And>c s'. length s' \<le> length s \<Longrightarrow> returns_sane s (k (c, s'))"
  shows "returns_sane s (obind m k)"
proof -
  obtain r where r: "m = Some r" "sane s r" using assms(1) by (auto simp: returns_sane_def)
  show ?thesis
  proof (cases r)
    case (Inl e)
    then show ?thesis using r by (simp add: returns_sane_def)
  next
    case (Inr x)
    then show ?thesis using r assms(2) by (cases x) (simp add: sane_def)
  qed
qed

lemma returns_sane_mono: "returns_sane s m \<Longrightarrow> length s \<le> length t \<Longrightarrow> returns_sane t m"
  by (auto simp: returns_sane_def sane_mono)

lemma peek_rest: "peek s toks = (s', True) \<Longrightarrow> peek s' toks = (s', True)"
  by (auto simp: peek_def Let_def)

lemma parsers_end:
  "4 * length s + 4 \<le> f \<Longrightarrow> returns_sane s (parseline f s)"
  "4 * length s + 3 \<le> f \<Longrightarrow> returns_sane s (parsepipe f s)"
  "4 * length s + 2 \<le> f \<Longrightarrow> returns_sane s (parseexec f s)"
  "4 * length s + 1 \<le> f \<Longrightarrow> snd (peek s [lpar]) \<Longrightarrow> returns_sane s (parseblock f s)"
proof (induction f arbitrary: s)
  case (Suc f)
  { case 1
    have step: "returns_sane s (case parseback c t of (c, s) \<Rightarrow> case peek s [semi] of (s, p) \<Rightarrow>
        if p then case gettoken s of (_, _, _, s) \<Rightarrow> obind (parseline f s) (\<lambda>(r, s). oret (LIST c r, s)) else oret (c, s))"
      if t: "length t \<le> length s" for c t
    proof -
      obtain c1 t1 where b: "parseback c t = (c1, t1)" by fastforce
      obtain t2 p where p: "peek t1 [semi] = (t2, p)" by fastforce
      obtain tok q eq t3 where g: "gettoken t2 = (tok, q, eq, t3)" by (metis prod_cases4)
      have len: "length t1 \<le> length s" "length t2 \<le> length s" using parseback_shorter [OF b] peek_shorter [OF p] t by simp_all
      show ?thesis
      proof (cases p)
        case True
        then have t3: "length t3 < length s" using peek_gettoken [of t1 "[semi]"] p g len by fastforce
        then have "returns_sane t3 (parseline f t3)" using 1 by (intro Suc.IH) simp
        then have "returns_sane t3 (obind (parseline f t3) (\<lambda>(r, s). oret (LIST c1 r, s)))"
          by (rule returns_sane_bind) (simp add: returns_sane_def sane_def)
        then show ?thesis using True b p g t3 returns_sane_mono by simp
      next
        case False
        then show ?thesis using b p len by (simp add: returns_sane_def sane_def)
      qed
    qed
    have "returns_sane s (parsepipe f s)" using 1 by (intro Suc.IH) simp
    then show ?case unfolding parseline.simps by (rule returns_sane_bind) (use step in simp) }
  { case 2
    have step: "returns_sane s (case peek t [bar] of (s, p) \<Rightarrow>
        if p then case gettoken s of (_, _, _, s) \<Rightarrow> obind (parsepipe f s) (\<lambda>(r, s). oret (PIPE c r, s)) else oret (c, s))"
      if t: "length t \<le> length s" for c t
    proof -
      obtain t2 p where p: "peek t [bar] = (t2, p)" by fastforce
      obtain tok q eq t3 where g: "gettoken t2 = (tok, q, eq, t3)" by (metis prod_cases4)
      show ?thesis
      proof (cases p)
        case True
        then have t3: "length t3 < length s" using peek_gettoken [of t "[bar]"] p g t by fastforce
        then have "returns_sane t3 (parsepipe f t3)" using 2 by (intro Suc.IH) simp
        then have "returns_sane t3 (obind (parsepipe f t3) (\<lambda>(r, s). oret (PIPE c r, s)))"
          by (rule returns_sane_bind) (simp add: returns_sane_def sane_def)
        then show ?thesis using True p g t3 returns_sane_mono by simp
      next
        case False
        then show ?thesis using p t peek_shorter [OF p] by (simp add: returns_sane_def sane_def)
      qed
    qed
    have "returns_sane s (parseexec f s)" using 2 by (intro Suc.IH) simp
    then show ?case unfolding parsepipe.simps by (rule returns_sane_bind) (use step in simp) }
  { case 3
    obtain t p where p: "peek s [lpar] = (t, p)" by fastforce
    show ?case
    proof (cases p)
      case True
      have "length t \<le> length s" using p peek_shorter by simp
      moreover from this have "returns_sane t (parseblock f t)" using 3 True p peek_rest by (intro Suc.IH) auto
      ultimately show ?thesis using True p returns_sane_mono by simp
    next
      case False
      have "sane t (andthen (parseredirs (EXEC []) t) (\<lambda>(r, s). parseargs r 0 s))"
        using parseredirs_sane [of t "EXEC []"] parseargs_sane sane_mono by (fastforce simp: sane_def andthen_def split: sum.splits)
      then show ?thesis using False p peek_shorter [OF p] sane_mono by (auto intro: returns_saneI)
    qed }
  { case 4
    obtain t where p: "peek s [lpar] = (t, True)" using 4 by (cases "peek s [lpar]") auto
    obtain tok q eq t1 where g: "gettoken t = (tok, q, eq, t1)" by (metis prod_cases4)
    have t1: "length t1 < length s" using peek_gettoken [OF p _ g] by simp
    then have "returns_sane t1 (parseline f t1)" using 4 by (intro Suc.IH) simp
    then have "returns_sane t1 (obind (parseline f t1) (\<lambda>(c, s).
            case peek s [rpar] of (s, p) \<Rightarrow>
              if \<not> p then Some (panic ''syntax - missing )'')
              else case gettoken s of (_, _, _, s) \<Rightarrow> Some (parseredirs c s)))"
    proof (rule returns_sane_bind)
      fix c :: cmd and s' :: "byte list" assume s': "length s' \<le> length t1"
      obtain u p' where u: "peek s' [rpar] = (u, p')" by fastforce
      obtain tok' q' eq' v where v: "gettoken u = (tok', q', eq', v)" by (metis prod_cases4)
      have "length v \<le> length t1" using peek_shorter [OF u] gettoken_shorter [OF v] s' by simp
      then have "returns_sane t1 (Some (parseredirs c v))" using parseredirs_sane sane_mono returns_saneI by blast
      then show "returns_sane t1 ((\<lambda>(c, s). case peek s [rpar] of (s, p) \<Rightarrow>
              if \<not> p then Some (panic ''syntax - missing )'')
              else case gettoken s of (_, _, _, s) \<Rightarrow> Some (parseredirs c s)) (c, s'))"
        using u v by (auto simp: returns_sane_def sane_def syntax_errors_def)
    qed
    then show ?case using p g t1 returns_sane_mono by simp }
qed simp_all

section \<open>Tokens are delimited\<close>

definition word_char :: "byte \<Rightarrow> bool" where
  "word_char c \<longleftrightarrow> c \<notin> set whitespace \<and> c \<notin> set symbols"

definition tok_ok :: "byte list \<Rightarrow> byte list \<times> byte list \<Rightarrow> bool" where
  "tok_ok line t \<longleftrightarrow> suffix (fst t) line \<and>
     (\<exists>w. fst t = w @ snd t \<and> w \<noteq> [] \<and> (\<forall>c \<in> set w. word_char c) \<and> (snd t = [] \<or> \<not> word_char (hd (snd t))))"

fun toks :: "cmd \<Rightarrow> (byte list \<times> byte list) list" where
  "toks (EXEC args) = args"
| "toks (REDIR c q eq m fd) = toks c @ [(q, eq)]"
| "toks (PIPE l r) = toks l @ toks r"
| "toks (LIST l r) = toks l @ toks r"
| "toks (BACK c) = toks c"

definition cmd_ok :: "byte list \<Rightarrow> cmd \<Rightarrow> bool" where
  "cmd_ok line c \<longleftrightarrow> (\<forall>t \<in> set (toks c). tok_ok line t)"

lemma toks_add_arg: "set (toks (add_arg c a)) \<subseteq> insert a (set (toks c))"
  by (induction c a rule: add_arg.induct) auto

lemma skip_white_suffix: "suffix (skip_white s) s"
  unfolding skip_white_def by (rule suffix_dropWhile)

lemma gettoken_suffix: "gettoken s = (t, q, eq, s') \<Longrightarrow> suffix q s \<and> suffix eq q \<and> suffix s' eq"
  using skip_white_suffix suffix_dropWhile suffix_tl suffix_order.trans [OF suffix_tl suffix_tl]
  by (auto simp: gettoken_def Let_def split: if_splits)

lemma gettoken_tok_ok:
  assumes g: "gettoken s = (word_tok, q, eq, s')" and s: "suffix s line"
  shows "tok_ok line (q, eq)"
proof -
  let ?P = "\<lambda>c. c \<notin> set whitespace \<and> c \<notin> set symbols"
  have q: "q = skip_white s" and c: "deref q \<noteq> 0" "deref q \<notin> set symbols" and eq: "eq = dropWhile ?P q"
    using g by (auto simp: gettoken_def Let_def symbols_def split: if_splits)
  obtain c r where cr: "q = c # r" using c(1) by (cases q) (auto simp: deref_def)
  have "skip_white s = c # r" using q cr by metis
  then have "c \<notin> set whitespace" by (rule skip_white_hd)
  moreover have "c \<notin> set symbols" using c(2) unfolding cr by (simp add: deref_def)
  ultimately have w: "word_char c" by (simp add: word_char_def)
  have "q = takeWhile ?P q @ eq" by (simp add: eq)
  moreover have "takeWhile ?P q \<noteq> []" using w cr by (simp add: word_char_def)
  moreover have "\<forall>c \<in> set (takeWhile ?P q). word_char c" by (auto simp: word_char_def dest: set_takeWhileD)
  moreover have "eq = [] \<or> \<not> word_char (hd eq)" using hd_dropWhile [of ?P q] eq by (auto simp: word_char_def)
  moreover have "suffix q line" using q s skip_white_suffix suffix_order.trans by blast
  ultimately show ?thesis unfolding tok_ok_def by auto
qed

definition parsed :: "byte list \<Rightarrow> (cmd \<times> byte list) res \<Rightarrow> bool" where
  "parsed line r \<longleftrightarrow> (\<forall>c s. r = Inr (c, s) \<longrightarrow> cmd_ok line c \<and> suffix s line)"

lemma peek_suffix: "peek s ts = (s', p) \<Longrightarrow> suffix s line \<Longrightarrow> suffix s' line"
  using skip_white_suffix suffix_order.trans by (fastforce simp: peek_def Let_def)

lemma gettoken_rest: "gettoken s = (t, q, eq, s') \<Longrightarrow> suffix s line \<Longrightarrow> suffix s' line"
  using gettoken_suffix suffix_order.trans by metis

lemma parseredirs_parsed: "cmd_ok line c \<Longrightarrow> suffix s line \<Longrightarrow> parsed line (parseredirs c s)"
proof (induction c s rule: parseredirs.induct)
  case (1 c s)
  obtain s1 p where p: "peek s [lt, gt] = (s1, p)" by fastforce
  obtain tok q1 e1 s2 where g: "gettoken s1 = (tok, q1, e1, s2)" by (metis prod_cases4)
  obtain t q eq s3 where g2: "gettoken s2 = (t, q, eq, s3)" by (metis prod_cases4)
  have suf: "suffix s1 line" "suffix s2 line" "suffix s3 line"
    using peek_suffix [OF p "1.prems"(2)] gettoken_rest [OF g] gettoken_rest [OF g2] by simp_all
  show ?case
  proof (cases "p \<and> t = word_tok")
    case True
    then have "tok_ok line (q, eq)" using gettoken_tok_ok g2 suf(2) by simp
    then have "cmd_ok line (redir_of tok c q eq)" using "1.prems"(1) by (auto simp: cmd_ok_def redir_of_def)
    with "1.IH" [OF p [symmetric] _ g [symmetric] refl refl g2 [symmetric] refl refl] True suf
    show ?thesis using p g g2 by (simp add: parseredirs.simps [of c s])
  next
    case False
    then show ?thesis using p g g2 suf "1.prems" by (auto simp: parseredirs.simps [of c s] parsed_def)
  qed
qed

lemma parseargs_parsed: "cmd_ok line r \<Longrightarrow> suffix s line \<Longrightarrow> parsed line (parseargs r argc s)"
proof (induction r argc s rule: parseargs.induct)
  case (1 r argc s)
  obtain s1 p where p: "peek s [bar, rpar, amp, semi] = (s1, p)" by fastforce
  obtain tok q eq s2 where g: "gettoken s1 = (tok, q, eq, s2)" by (metis prod_cases4)
  have suf: "suffix s1 line" "suffix s2 line" using peek_suffix [OF p "1.prems"(2)] gettoken_rest [OF g] by simp_all
  show ?case
  proof (cases "\<not> p \<and> tok = word_tok \<and> \<not> argc + 1 \<ge> MAXARGS")
    case True
    then have eq: "parseargs r argc s = andthen (parseredirs (add_arg r (q, eq)) s2) (\<lambda>(r, s3). parseargs r (argc + 1) s3)"
      using p g by (simp add: parseargs.simps [of r argc s])
    have "tok_ok line (q, eq)" using True gettoken_tok_ok g suf(1) by simp
    then have "cmd_ok line (add_arg r (q, eq))" using "1.prems"(1) toks_add_arg by (fastforce simp: cmd_ok_def)
    then have red: "parsed line (parseredirs (add_arg r (q, eq)) s2)" using parseredirs_parsed suf(2) by blast
    show ?thesis
    proof (cases "parseredirs (add_arg r (q, eq)) s2")
      case (Inl e)
      then show ?thesis by (simp add: eq parsed_def)
    next
      case (Inr x)
      then obtain r' s3 where x: "parseredirs (add_arg r (q, eq)) s2 = Inr (r', s3)" by (cases x) auto
      have "parsed line (parseargs r' (argc + 1) s3)"
        using "1.IH" [OF p [symmetric] _ g [symmetric] refl refl _ _ _ x refl] True red x by (simp add: parsed_def)
      then show ?thesis by (simp add: eq x)
    qed
  next
    case False
    then show ?thesis using p g suf "1.prems" by (auto simp: parseargs.simps [of r argc s] parsed_def)
  qed
qed

lemma parseback_parsed: "cmd_ok line c \<Longrightarrow> suffix s line \<Longrightarrow> parseback c s = (c', s') \<Longrightarrow> cmd_ok line c' \<and> suffix s' line"
proof (induction c s rule: parseback.induct)
  case (1 c s)
  obtain s1 p where p: "peek s [amp] = (s1, p)" by fastforce
  obtain tok q eq s2 where g: "gettoken s1 = (tok, q, eq, s2)" by (metis prod_cases4)
  have suf: "suffix s1 line" "suffix s2 line" using peek_suffix [OF p "1.prems"(2)] gettoken_rest [OF g] by simp_all
  have "cmd_ok line (BACK c)" using "1.prems"(1) by (simp add: cmd_ok_def)
  with "1.prems" "1.IH" [OF p [symmetric] _ g [symmetric] refl refl] p g suf show ?case
    by (auto simp: parseback.simps [of c s] split: if_splits)
qed

definition yields :: "byte list \<Rightarrow> (cmd \<times> byte list) res option \<Rightarrow> bool" where
  "yields line m \<longleftrightarrow> (\<forall>c s. m = oret (c, s) \<longrightarrow> cmd_ok line c \<and> suffix s line)"

lemma yields_bind:
  assumes "yields line m" and "\<And>c s. cmd_ok line c \<Longrightarrow> suffix s line \<Longrightarrow> yields line (k (c, s))"
  shows "yields line (obind m k)"
  using assms unfolding yields_def obind_eq_oret by (metis surj_pair)

lemma parsed_yields: "parsed line r \<Longrightarrow> yields line (Some r)"
  by (simp add: parsed_def yields_def)

lemma yields_oret [simp]: "yields line (oret (c, s)) \<longleftrightarrow> cmd_ok line c \<and> suffix s line"
  by (simp add: yields_def)

lemma cmd_ok_simps [simp]:
  "cmd_ok line (PIPE l r) \<longleftrightarrow> cmd_ok line l \<and> cmd_ok line r" "cmd_ok line (LIST l r) \<longleftrightarrow> cmd_ok line l \<and> cmd_ok line r"
  "cmd_ok line (BACK c) \<longleftrightarrow> cmd_ok line c" "cmd_ok line (EXEC [])"
  by (auto simp: cmd_ok_def)

lemma parsers_parsed:
  "suffix s line \<Longrightarrow> yields line (parseline f s)"
  "suffix s line \<Longrightarrow> yields line (parsepipe f s)"
  "suffix s line \<Longrightarrow> yields line (parseexec f s)"
  "suffix s line \<Longrightarrow> yields line (parseblock f s)"
proof (induction f arbitrary: s)
  case 0
  { case 1 then show ?case by (simp add: yields_def) }
  { case 2 then show ?case by (simp add: yields_def) }
  { case 3 then show ?case by (simp add: yields_def) }
  { case 4 then show ?case by (simp add: yields_def) }
next
  case (Suc f)
  { case 1
    show ?case unfolding parseline.simps
    proof (rule yields_bind [OF Suc.IH(2) [OF 1]], unfold prod.case)
      fix c t assume ok: "cmd_ok line c" "suffix t line"
      obtain c1 s1 where b: "parseback c t = (c1, s1)" by fastforce
      obtain s2 p where p: "peek s1 [semi] = (s2, p)" by fastforce
      obtain tok q eq s3 where g: "gettoken s2 = (tok, q, eq, s3)" by (metis prod_cases4)
      have ok1: "cmd_ok line c1" "suffix s2 line" "suffix s3 line"
        using parseback_parsed [OF ok b] peek_suffix [OF p] gettoken_rest [OF g] by auto
      have "yields line (obind (parseline f s3) (\<lambda>(r, s). oret (LIST c1 r, s)))"
        by (rule yields_bind [OF Suc.IH(1) [OF ok1(3)]]) (use ok1 in simp)
      then show "yields line (case parseback c t of (c, s) \<Rightarrow> case peek s [semi] of (s, p) \<Rightarrow>
          if p then case gettoken s of (_, _, _, s) \<Rightarrow> obind (parseline f s) (\<lambda>(r, s). oret (LIST c r, s)) else oret (c, s))"
        using b p g ok1 by simp
    qed }
  { case 2
    show ?case unfolding parsepipe.simps
    proof (rule yields_bind [OF Suc.IH(3) [OF 2]], unfold prod.case)
      fix c t assume ok: "cmd_ok line c" "suffix t line"
      obtain s2 p where p: "peek t [bar] = (s2, p)" by fastforce
      obtain tok q eq s3 where g: "gettoken s2 = (tok, q, eq, s3)" by (metis prod_cases4)
      have ok1: "suffix s2 line" "suffix s3 line" using peek_suffix [OF p ok(2)] gettoken_rest [OF g] by auto
      have "yields line (obind (parsepipe f s3) (\<lambda>(r, s). oret (PIPE c r, s)))"
        by (rule yields_bind [OF Suc.IH(2) [OF ok1(2)]]) (use ok in simp)
      then show "yields line (case peek t [bar] of (s, p) \<Rightarrow>
          if p then case gettoken s of (_, _, _, s) \<Rightarrow> obind (parsepipe f s) (\<lambda>(r, s). oret (PIPE c r, s)) else oret (c, s))"
        using p g ok ok1 by simp
    qed }
  { case 3
    obtain t p where p: "peek s [lpar] = (t, p)" by fastforce
    have t: "suffix t line" using p 3 peek_suffix by blast
    have red: "parsed line (parseredirs (EXEC []) t)" using parseredirs_parsed [OF _ t] by simp
    have "parsed line (andthen (parseredirs (EXEC []) t) (\<lambda>(r, s). parseargs r 0 s))"
    proof (cases "parseredirs (EXEC []) t")
      case (Inl e)
      then show ?thesis by (simp add: parsed_def)
    next
      case (Inr x)
      obtain r0 s0 where x: "x = (r0, s0)" by fastforce
      then have "cmd_ok line r0" "suffix s0 line" using red Inr by (simp_all add: parsed_def)
      then show ?thesis using Inr x parseargs_parsed by simp
    qed
    then show ?case using p Suc.IH(4) [OF t] by (simp add: parsed_yields) }
  { case 4
    obtain t p where p: "peek s [lpar] = (t, p)" by fastforce
    obtain tok q eq t1 where g: "gettoken t = (tok, q, eq, t1)" by (metis prod_cases4)
    have t1: "suffix t1 line" using peek_suffix [OF p 4] gettoken_rest [OF g] by blast
    have "yields line (obind (parseline f t1) (\<lambda>(c, s). case peek s [rpar] of (s, p) \<Rightarrow>
        if \<not> p then Some (panic ''syntax - missing )'') else case gettoken s of (_, _, _, s) \<Rightarrow> Some (parseredirs c s)))"
    proof (rule yields_bind [OF Suc.IH(1) [OF t1]], unfold prod.case)
      fix c t2 assume ok: "cmd_ok line c" "suffix t2 line"
      obtain u p' where u: "peek t2 [rpar] = (u, p')" by fastforce
      obtain tok' q' eq' v where v: "gettoken u = (tok', q', eq', v)" by (metis prod_cases4)
      have "suffix v line" using peek_suffix [OF u ok(2)] gettoken_rest [OF v] by blast
      then have "yields line (Some (parseredirs c v))" using parsed_yields parseredirs_parsed ok(1) by blast
      then show "yields line (case peek t2 [rpar] of (s, p) \<Rightarrow>
        if \<not> p then Some (panic ''syntax - missing )'') else case gettoken s of (_, _, _, s) \<Rightarrow> Some (parseredirs c s))"
        using u v by (simp add: yields_def)
    qed
    then show ?case using p g by (simp add: yields_def) }
qed

section \<open>Terminating the tokens\<close>

lemma length_nulterminate [simp]: "length (nulterminate n c b) = length b"
proof -
  have "length (fold (\<lambda>(q, eq). put_nul n eq) args b) = length b" for args b
    by (induction args arbitrary: b) (auto simp: put_nul_def)
  then show ?thesis by (induction c arbitrary: b) (auto simp: put_nul_def)
qed

lemma nulterminate_fold: "nulterminate n c b = fold (\<lambda>(q, eq). put_nul n eq) (toks c) b"
  by (induction c arbitrary: b) auto

lemma put_nuls_nth:
  "i < length b \<Longrightarrow> fold (\<lambda>(q, eq). put_nul n eq) ts b ! i = (if \<exists>t \<in> set ts. i = n - length (snd t) then 0 else b ! i)"
proof (induction ts arbitrary: b)
  case (Cons t ts)
  then show ?case by (cases t; cases "i = n - length (snd t)") (simp_all add: put_nul_def)
qed simp

lemma nulterminate_nth:
  "i < length b \<Longrightarrow> nulterminate n c b ! i = (if \<exists>t \<in> set (toks c). i = n - length (snd t) then 0 else b ! i)"
  by (simp add: nulterminate_fold put_nuls_nth)

definition cstr_at :: "byte list \<Rightarrow> nat \<Rightarrow> byte list" where
  "cstr_at b i = takeWhile (\<lambda>c. c \<noteq> 0) (drop i b)"

lemma suffix_nth: "suffix q line \<Longrightarrow> j < length q \<Longrightarrow> line ! (length line - length q + j) = q ! j"
  by (auto simp: suffix_def nth_append)

lemma terminated_string:
  assumes ok: "cmd_ok line c" and nz: "0 \<notin> set line" and t: "(w @ eq, eq) \<in> set (toks c)" and w: "\<forall>c \<in> set w. word_char c"
  shows "cstr_at (nulterminate (length line) c (line @ [0])) (length line - length (w @ eq)) = w"
proof -
  let ?n = "length line" and ?b = "nulterminate (length line) c (line @ [0])"
  have suf: "suffix (w @ eq) line" using ok t by (auto simp: cmd_ok_def tok_ok_def)
  then have len: "length w + length eq \<le> ?n" by (auto simp: suffix_def)
  have char: "?b ! (?n - length (w @ eq) + j) = w ! j \<and> w ! j \<noteq> 0" if j: "j < length w" for j
  proof -
    let ?i = "?n - length (w @ eq) + j"
    have i: "?i < ?n" using j len by simp
    have wj: "line ! ?i = w ! j" using suffix_nth [OF suf, of j] j by (simp add: nth_append)
    have "?i \<noteq> ?n - length (snd t')" if t': "t' \<in> set (toks c)" for t'
    proof
      assume e: "?i = ?n - length (snd t')"
      have "tok_ok line t'" using ok t' by (simp add: cmd_ok_def)
      then obtain v where v: "suffix (fst t') line" "fst t' = v @ snd t'" "snd t' = [] \<or> \<not> word_char (hd (snd t'))" by (auto simp: tok_ok_def)
      have ne: "snd t' \<noteq> []" using e i by auto
      have "suffix (snd t') line" using v(1,2) suffix_def by (metis append_assoc)
      then have "line ! ?i = snd t' ! 0" using suffix_nth [of "snd t'" line 0] ne e by simp
      then have "\<not> word_char (w ! j)" using wj v(3) ne by (simp add: hd_conv_nth)
      then show False using w j by simp
    qed
    then have "?b ! ?i = w ! j" using nulterminate_nth [of ?i "line @ [0]" ?n c] i wj by (auto simp: nth_append)
    moreover have "w ! j \<in> set line" using i wj nth_mem by metis
    ultimately show ?thesis using nz by metis
  qed
  have last: "?b ! (?n - length (w @ eq) + length w) = 0"
  proof -
    have "\<exists>t' \<in> set (toks c). ?n - length eq = ?n - length (snd t')" using t by (intro bexI [of _ "(w @ eq, eq)"]) simp_all
    then have "?b ! (?n - length eq) = 0" using nulterminate_nth [of "?n - length eq" "line @ [0]" ?n c] by simp
    moreover have "?n - length (w @ eq) + length w = ?n - length eq" using len by simp
    ultimately show ?thesis by simp
  qed
  let ?i = "?n - length (w @ eq)"
  have take: "take (length w) (drop ?i ?b) = w"
    by (rule nth_equalityI) (use char len in simp_all)
  have "?i + length w < length ?b" using len by simp
  then have "drop (length w) (drop ?i ?b) = 0 # drop (Suc (?i + length w)) ?b"
    using last Cons_nth_drop_Suc [of "?i + length w" ?b] by (simp add: add.commute)
  with take have d: "drop ?i ?b = w @ 0 # drop (Suc (?i + length w)) ?b" by (metis append_take_drop_id)
  have "\<forall>x \<in> set w. x \<noteq> 0" using char by (auto simp: in_set_conv_nth)
  then show ?thesis unfolding cstr_at_def d by (subst takeWhile_append2) simp_all
qed

section \<open>Printing commands\<close>

text \<open>Commands with their words instead of pointers, and the syntax of a command at each level of the grammar.\<close>

datatype ast =
    Exec "byte list list"
  | Redir ast "byte list" u32 nat
  | Pipe ast ast
  | List ast ast
  | Back ast

fun ast_of :: "cmd \<Rightarrow> ast" where
  "ast_of (EXEC args) = Exec (map (\<lambda>(q, eq). take (length q - length eq) q) args)"
| "ast_of (REDIR c q eq m fd) = Redir (ast_of c) (take (length q - length eq) q) m fd"
| "ast_of (PIPE l r) = Pipe (ast_of l) (ast_of r)"
| "ast_of (LIST l r) = List (ast_of l) (ast_of r)"
| "ast_of (BACK c) = Back (ast_of c)"

definition word_ok :: "byte list \<Rightarrow> bool" where
  "word_ok w \<longleftrightarrow> w \<noteq> [] \<and> (\<forall>c \<in> set w. word_char c \<and> c \<noteq> 0)"

fun ast_ok :: "ast \<Rightarrow> bool" where
  "ast_ok (Exec ws) \<longleftrightarrow> (\<forall>w \<in> set ws. word_ok w) \<and> length ws < MAXARGS"
| "ast_ok (Redir c w m fd) \<longleftrightarrow> ast_ok c \<and> word_ok w \<and> (m = rd_mode \<and> fd = 0 \<or> m = wr_mode \<and> fd = 1)"
| "ast_ok (Pipe l r) \<longleftrightarrow> ast_ok l \<and> ast_ok r"
| "ast_ok (List l r) \<longleftrightarrow> ast_ok l \<and> ast_ok r"
| "ast_ok (Back c) \<longleftrightarrow> ast_ok c"

definition pr_word :: "byte list \<Rightarrow> byte list" where
  "pr_word w = w @ [32]"

definition pr_redir :: "byte list \<Rightarrow> nat \<Rightarrow> byte list" where
  "pr_redir w fd = (if fd = 0 then lt else gt) # pr_word w"

definition parens :: "bool \<Rightarrow> byte list \<Rightarrow> byte list" where
  "parens b s = (if b then lpar # s @ [rpar] else s)"

text \<open>Level 0 is that of \<^verbatim>\<open>parseexec\<close>, 1 that of \<^verbatim>\<open>parsepipe\<close>, 2 a pipe with ampersands, 3 that of \<^verbatim>\<open>parseline\<close>.\<close>

fun pr :: "nat \<Rightarrow> ast \<Rightarrow> byte list" where
  "pr k (Exec ws) = concat (map pr_word ws)"
| "pr k (Redir c w m fd) = pr 0 c @ pr_redir w fd"
| "pr k (Pipe l r) = parens (k < 1) (pr 0 l @ bar # pr 1 r)"
| "pr k (Back c) = parens (k < 2) (pr 2 c @ [amp])"
| "pr k (List l r) = parens (k < 3) (pr 2 l @ semi # pr 3 r)"

section \<open>Parsing what was printed\<close>

lemma byte_facts [simp]:
  "lt \<notin> set whitespace" "bar \<notin> set whitespace" "gt \<notin> set whitespace" "amp \<notin> set whitespace" "semi \<notin> set whitespace"
  "lpar \<notin> set whitespace" "rpar \<notin> set whitespace" "32 \<in> set whitespace"
  "\<not> word_char lt" "\<not> word_char bar" "\<not> word_char gt" "\<not> word_char amp" "\<not> word_char semi" "\<not> word_char lpar" "\<not> word_char rpar" "\<not> word_char 32"
  by (simp_all add: whitespace_def symbols_def word_char_def)

definition solid :: "byte list \<Rightarrow> bool" where
  "solid s \<longleftrightarrow> s = [] \<or> hd s \<notin> set whitespace"

lemma skip_solid: "solid s \<Longrightarrow> skip_white s = s"
  by (cases s) (auto simp: solid_def skip_white_def)

lemma solid_simps [simp]: "solid []" "solid (c # s) \<longleftrightarrow> c \<notin> set whitespace"
  by (simp_all add: solid_def)

lemma solid_append: "solid s \<Longrightarrow> solid t \<Longrightarrow> solid (s @ t)"
  by (cases s) auto

lemma skip_space: "solid s \<Longrightarrow> skip_white (32 # s) = s"
  using skip_solid by (simp add: skip_white_def)

lemma peek_solid: "solid s \<Longrightarrow> peek s ts = (s, s \<noteq> [] \<and> hd s \<in> set ts)"
  by (cases s) (auto simp: peek_def skip_solid deref_def)

lemma gettoken_symbol:
  "c = bar \<or> c = lpar \<or> c = rpar \<or> c = semi \<or> c = amp \<or> c = lt \<Longrightarrow> solid s \<Longrightarrow> gettoken (c # s) = (c, c # s, s, s)"
  by (auto simp: gettoken_def skip_solid deref_def)

lemma gettoken_gt: "s \<noteq> [] \<Longrightarrow> hd s \<noteq> gt \<Longrightarrow> solid s \<Longrightarrow> gettoken (gt # s) = (gt, gt # s, s, s)"
  by (cases s) (auto simp: gettoken_def skip_solid deref_def)

lemma word_ok_cons: "word_ok w \<Longrightarrow> \<exists>c r. w = c # r \<and> word_char c \<and> c \<noteq> 0 \<and> c \<notin> set whitespace \<and> c \<notin> set symbols"
  by (cases w) (auto simp: word_ok_def word_char_def)

lemma solid_word: "word_ok w \<Longrightarrow> solid (w @ s)"
  using word_ok_cons by fastforce

lemma gettoken_print_word:
  assumes "word_ok w" "solid s"
  shows "gettoken (w @ 32 # s) = (word_tok, w @ 32 # s, 32 # s, s)"
proof -
  obtain c r where c: "w = c # r" "c \<noteq> 0" "c \<notin> set whitespace" "c \<notin> set symbols" using word_ok_cons [OF assms(1)] by blast
  have "dropWhile (\<lambda>c. c \<notin> set whitespace \<and> c \<notin> set symbols) (w @ 32 # s) = 32 # s"
    using assms(1) by (subst dropWhile_append2) (auto simp: word_ok_def word_char_def)
  moreover have "skip_white (w @ 32 # s) = w @ 32 # s" using skip_solid solid_word assms(1) by blast
  ultimately show ?thesis using c assms(2) by (auto simp: gettoken_def deref_def skip_space symbols_def)
qed

type_synonym redir = "byte list \<times> u32 \<times> nat"

definition redirs_ok :: "redir list \<Rightarrow> bool" where
  "redirs_ok rs \<longleftrightarrow> (\<forall>(w, m, fd) \<in> set rs. word_ok w \<and> (m = rd_mode \<and> fd = 0 \<or> m = wr_mode \<and> fd = 1))"

definition pr_redirs :: "redir list \<Rightarrow> byte list" where
  "pr_redirs rs = concat (map (\<lambda>(w, m, fd). pr_redir w fd) rs)"

definition wrap :: "ast \<Rightarrow> redir list \<Rightarrow> ast" where
  "wrap c rs = foldl (\<lambda>c (w, m, fd). Redir c w m fd) c rs"

lemma solid_redirs: "solid s \<Longrightarrow> solid (pr_redirs rs @ s)"
  by (cases rs) (auto simp: pr_redirs_def pr_redir_def)

text \<open>A rest of the line that ends a list of redirections.\<close>

definition calm :: "byte list \<Rightarrow> bool" where
  "calm s \<longleftrightarrow> solid s \<and> (s = [] \<or> hd s \<noteq> lt \<and> hd s \<noteq> gt)"

lemma parseredirs_print:
  "redirs_ok rs \<Longrightarrow> calm s \<Longrightarrow> \<exists>c'. parseredirs c (pr_redirs rs @ s) = ret (c', s) \<and> ast_of c' = wrap (ast_of c) rs"
proof (induction rs arbitrary: c)
  case Nil
  then show ?case by (auto simp: parseredirs.simps [of c s] peek_solid calm_def pr_redirs_def wrap_def)
next
  case (Cons r rs)
  obtain w m fd where r: "r = (w, m, fd)" by (metis prod_cases3)
  let ?s = "pr_redirs rs @ s" and ?t = "w @ 32 # pr_redirs rs @ s" and ?c = "if fd = 0 then lt else gt"
  have w: "word_ok w" "m = rd_mode \<and> fd = 0 \<or> m = wr_mode \<and> fd = 1" and rs: "redirs_ok rs" using Cons.prems(1) by (auto simp: redirs_ok_def r)
  have solid: "solid ?s" "solid ?t" "?t \<noteq> []" using Cons.prems(2) solid_redirs solid_word w(1) by (auto simp: calm_def)
  have "hd ?t \<noteq> gt" using word_ok_cons [OF w(1)] by (auto simp: symbols_def)
  then have g1: "gettoken (?c # ?t) = (?c, ?c # ?t, ?t, ?t)" using gettoken_gt solid(2,3) gettoken_symbol by auto
  have p: "peek (?c # ?t) [lt, gt] = (?c # ?t, True)" by (simp add: peek_solid)
  have "parseredirs c (pr_redirs (r # rs) @ s) = parseredirs (redir_of ?c c ?t (32 # ?s)) ?s"
  proof -
    have "pr_redirs (r # rs) @ s = ?c # ?t" by (simp add: pr_redirs_def pr_redir_def pr_word_def r)
    then show ?thesis using gettoken_print_word [OF w(1) solid(1)] g1 p by (simp only:, subst parseredirs.simps) simp
  qed
  moreover have "redir_of ?c c ?t (32 # ?s) = REDIR c ?t (32 # ?s) m fd" using w(2) by (auto simp: redir_of_def)
  moreover obtain c' where "parseredirs (REDIR c ?t (32 # ?s) m fd) ?s = ret (c', s)" "ast_of c' = wrap (ast_of (REDIR c ?t (32 # ?s) m fd)) rs"
    using Cons.IH [OF rs Cons.prems(2)] by blast
  ultimately show ?case by (simp add: wrap_def r)
qed

definition stops :: "byte set \<Rightarrow> byte list \<Rightarrow> bool" where
  "stops A s \<longleftrightarrow> s = [] \<or> hd s \<in> A"

lemma stops_solid: "stops {bar, rpar, amp, semi} s \<Longrightarrow> solid s \<and> calm s"
  by (cases s) (auto simp: stops_def calm_def)

lemma parseargs_stop: "stops {bar, rpar, amp, semi} s \<Longrightarrow> parseargs c n s = ret (c, s)"
  using stops_solid [of s]
  by (cases s; subst parseargs.simps) (auto simp: stops_def peek_solid gettoken_def skip_solid deref_def)

lemma parseargs_print:
  assumes rest: "stops {bar, rpar, amp, semi} rest" and rs: "redirs_ok rs"
  shows "\<forall>w \<in> set ws. word_ok w \<Longrightarrow> length args + length ws < MAXARGS \<Longrightarrow> ws \<noteq> [] \<or> rs = [] \<Longrightarrow>
    \<exists>c'. parseargs (EXEC args) (length args) (concat (map pr_word ws) @ pr_redirs rs @ rest) = ret (c', rest) \<and>
      ast_of c' = wrap (Exec (map (\<lambda>(q, eq). take (length q - length eq) q) args @ ws)) rs"
proof (induction ws arbitrary: args)
  case Nil
  then show ?case using parseargs_stop [OF rest] by (simp add: pr_redirs_def wrap_def)
next
  case (Cons w ws)
  let ?s = "concat (map pr_word ws) @ pr_redirs rs @ rest" and ?n = "length args"
  have w: "word_ok w" using Cons.prems(1) by simp
  have ne: "calm ?s" if "ws \<noteq> []"
  proof -
    obtain v vs where v: "ws = v # vs" using \<open>ws \<noteq> []\<close> by (cases ws) auto
    then have "word_ok v" using Cons.prems(1) by simp
    then show ?thesis using word_ok_cons [of v] by (auto simp: v pr_word_def calm_def symbols_def)
  qed
  have "solid (pr_redirs rs @ rest)" using solid_redirs stops_solid [OF rest] by blast
  then have "solid ?s" using ne by (cases "ws = []") (simp_all add: calm_def)
  note calm = this ne
  obtain x r where x: "w = x # r" "x \<notin> set symbols" "x \<notin> set whitespace" using word_ok_cons [OF w] by blast
  have p: "peek (w @ 32 # ?s) [bar, rpar, amp, semi] = (w @ 32 # ?s, False)" using x by (simp add: peek_solid symbols_def)
  let ?args = "args @ [(w @ 32 # ?s, 32 # ?s)]"
  have step: "parseargs (EXEC args) ?n (pr_word w @ ?s) = andthen (parseredirs (EXEC ?args) ?s) (\<lambda>(r, s3). parseargs r (?n + 1) s3)"
    using p gettoken_print_word [OF w calm(1)] Cons.prems(2)
    by (subst parseargs.simps) (simp add: pr_word_def)
  show ?case
  proof (cases "ws = []")
    case False
    have "parseredirs (EXEC ?args) ?s = ret (EXEC ?args, ?s)"
      using calm(2) [OF False] by (auto simp: parseredirs.simps [of "EXEC ?args" ?s] peek_solid calm_def)
    then show ?thesis using step Cons.IH [of ?args] Cons.prems False by simp
  next
    case True
    obtain c' where "parseredirs (EXEC ?args) ?s = ret (c', rest)" "ast_of c' = wrap (ast_of (EXEC ?args)) rs"
      using parseredirs_print [OF rs, of rest "EXEC ?args"] stops_solid [OF rest] True by auto
    then show ?thesis using step True parseargs_stop [OF rest] by simp
  qed
qed

text \<open>The four levels: a printed command is parsed back, with any rest that may follow at that level.\<close>

definition exec_back :: "ast \<Rightarrow> bool" where
  "exec_back c \<longleftrightarrow> (\<forall>rs rest. redirs_ok rs \<longrightarrow> stops {bar, rpar, amp, semi} rest \<longrightarrow>
     (\<exists>d f0. ast_of d = wrap c rs \<and> (\<forall>f \<ge> f0. parseexec f (pr 0 c @ pr_redirs rs @ rest) = oret (d, rest))))"

definition pipe_back :: "ast \<Rightarrow> bool" where
  "pipe_back c \<longleftrightarrow> (\<forall>rest. stops {rpar, amp, semi} rest \<longrightarrow>
     (\<exists>d f0. ast_of d = c \<and> (\<forall>f \<ge> f0. parsepipe f (pr 1 c @ rest) = oret (d, rest))))"

definition amp_back :: "ast \<Rightarrow> bool" where
  "amp_back c \<longleftrightarrow> (\<forall>n rest. stops {rpar, semi} rest \<longrightarrow>
     (\<exists>d f0. ast_of d = (Back ^^ n) c \<and>
       (\<forall>f \<ge> f0. obind (parsepipe f (pr 2 c @ replicate n amp @ rest)) (\<lambda>(c, s). oret (parseback c s)) = oret (d, rest))))"

definition line_back :: "ast \<Rightarrow> bool" where
  "line_back c \<longleftrightarrow> (\<forall>rest. stops {rpar} rest \<longrightarrow>
     (\<exists>d f0. ast_of d = c \<and> (\<forall>f \<ge> f0. parseline f (pr 3 c @ rest) = oret (d, rest))))"

lemma stops_mono: "stops A s \<Longrightarrow> A \<subseteq> B \<Longrightarrow> stops B s"
  by (auto simp: stops_def)

lemma stops_peek: "stops A s \<Longrightarrow> A \<subseteq> {bar, rpar, amp, semi} \<Longrightarrow> set ts \<inter> A = {} \<Longrightarrow> peek s ts = (s, False)"
proof -
  assume a: "stops A s" "A \<subseteq> {bar, rpar, amp, semi}" "set ts \<inter> A = {}"
  have "solid s" using stops_solid [OF stops_mono [OF a(1,2)]] by simp
  then have "peek s ts = (s, s \<noteq> [] \<and> hd s \<in> set ts)" by (rule peek_solid)
  then show ?thesis using a(1,3) by (auto simp: stops_def)
qed

lemma solid_pr: "ast_ok c \<Longrightarrow> solid s \<Longrightarrow> solid (pr k c @ s)"
proof (induction c arbitrary: k s)
  case (Exec ws)
  then show ?case by (cases ws) (auto simp: pr_word_def dest: word_ok_cons)
next
  case (Redir c w m fd)
  then show ?case by (simp add: pr_redir_def)
qed (auto simp: parens_def)

lemma pipe_of_exec: "exec_back c \<Longrightarrow> pr 1 c = pr 0 c \<Longrightarrow> pipe_back c"
  unfolding pipe_back_def
proof (intro allI impI)
  fix rest assume e: "exec_back c" "pr 1 c = pr 0 c" and s: "stops {rpar, amp, semi} rest"
  have "stops {bar, rpar, amp, semi} rest" using s by (rule stops_mono) auto
  then obtain d f0 where d: "ast_of d = c" "\<And>f. f \<ge> f0 \<Longrightarrow> parseexec f (pr 0 c @ rest) = oret (d, rest)"
    using e(1) [unfolded exec_back_def, rule_format, of "[]" rest] by (auto simp: redirs_ok_def pr_redirs_def wrap_def)
  have "parsepipe f (pr 1 c @ rest) = oret (d, rest)" if "f \<ge> Suc f0" for f
    using that d(2) stops_peek [OF s, of "[bar]"] e(2) by (cases f) auto
  then show "\<exists>d f0. ast_of d = c \<and> (\<forall>f \<ge> f0. parsepipe f (pr 1 c @ rest) = oret (d, rest))" using d(1) by blast
qed

lemma parseback_amps:
  "stops {rpar, semi} rest \<Longrightarrow> parseback c (replicate n amp @ rest) = ((BACK ^^ n) c, rest)"
proof (induction n arbitrary: c)
  case 0
  then show ?case using stops_peek [of "{rpar, semi}" rest "[amp]"] by (simp add: parseback.simps [of c rest])
next
  case (Suc n)
  have "solid (replicate n amp @ rest)" using Suc.prems stops_solid [OF stops_mono] by (cases n) auto
  then have "parseback c (replicate (Suc n) amp @ rest) = parseback (BACK c) (replicate n amp @ rest)"
    by (subst parseback.simps) (simp add: peek_solid gettoken_symbol)
  then show ?case using Suc by (simp add: funpow_swap1)
qed

lemma ast_of_backs: "ast_of ((BACK ^^ n) c) = (Back ^^ n) (ast_of c)"
  by (induction n) auto

lemma amp_of_pipe: "pipe_back c \<Longrightarrow> pr 2 c = pr 1 c \<Longrightarrow> amp_back c"
  unfolding amp_back_def
proof (intro allI impI)
  fix n rest assume e: "pipe_back c" "pr 2 c = pr 1 c" and s: "stops {rpar, semi} rest"
  have "stops {rpar, amp, semi} (replicate n amp @ rest)" using s by (cases n) (auto simp: stops_def)
  then obtain d f0 where d: "ast_of d = c" "\<And>f. f \<ge> f0 \<Longrightarrow> parsepipe f (pr 1 c @ replicate n amp @ rest) = oret (d, replicate n amp @ rest)"
    using e(1) unfolding pipe_back_def by blast
  then show "\<exists>d f0. ast_of d = (Back ^^ n) c \<and>
       (\<forall>f \<ge> f0. obind (parsepipe f (pr 2 c @ replicate n amp @ rest)) (\<lambda>(c, s). oret (parseback c s)) = oret (d, rest))"
    using parseback_amps [OF s, of d n] e(2) by (intro exI [of _ "(BACK ^^ n) d"] exI [of _ f0]) (simp add: ast_of_backs)
qed

lemma line_step:
  assumes "obind (parsepipe f s) (\<lambda>(c, s). oret (parseback c s)) = oret (d, t)"
  shows "parseline (Suc f) s = (case peek t [semi] of (s, p) \<Rightarrow>
         if p then case gettoken s of (_, _, _, s) \<Rightarrow> obind (parseline f s) (\<lambda>(r, s). oret (LIST d r, s)) else oret (d, s))"
  using assms by (auto simp: obind_eq_oret)

lemma line_of_amp: "amp_back c \<Longrightarrow> pr 3 c = pr 2 c \<Longrightarrow> line_back c"
  unfolding line_back_def
proof (intro allI impI)
  fix rest assume e: "amp_back c" "pr 3 c = pr 2 c" and s: "stops {rpar} rest"
  have "stops {rpar, semi} rest" using s by (rule stops_mono) auto
  then obtain d f0 where d: "ast_of d = c" "\<And>f. f \<ge> f0 \<Longrightarrow> obind (parsepipe f (pr 2 c @ rest)) (\<lambda>(c, s). oret (parseback c s)) = oret (d, rest)"
    using e(1) [unfolded amp_back_def, rule_format, of rest 0] by auto
  have "parseline f (pr 3 c @ rest) = oret (d, rest)" if "f \<ge> Suc f0" for f
    using that line_step [OF d(2)] stops_peek [OF s, of "[semi]"] e(2) by (cases f) auto
  then show "\<exists>d f0. ast_of d = c \<and> (\<forall>f \<ge> f0. parseline f (pr 3 c @ rest) = oret (d, rest))" using d(1) by blast
qed

lemma exec_of_line:
  assumes l: "line_back c" and p: "pr 0 c = lpar # pr 3 c @ [rpar]" and ok: "ast_ok c"
  shows "exec_back c"
  unfolding exec_back_def
proof (intro allI impI)
  fix rs rest assume rs: "redirs_ok rs" and s: "stops {bar, rpar, amp, semi} rest"
  let ?t = "pr_redirs rs @ rest"
  have t: "solid ?t" "calm rest" using solid_redirs stops_solid [OF s] by auto
  have "stops {rpar} (rpar # ?t)" by (simp add: stops_def)
  then obtain d f0 where d: "ast_of d = c" "\<And>f. f \<ge> f0 \<Longrightarrow> parseline f (pr 3 c @ rpar # ?t) = oret (d, rpar # ?t)"
    using l unfolding line_back_def by meson
  obtain d' where d': "parseredirs d ?t = ret (d', rest)" "ast_of d' = wrap c rs" using parseredirs_print [OF rs t(2), of d] d(1) by blast
  have so: "solid (pr 3 c @ rpar # ?t)" using solid_pr [OF ok] by simp
  have "parseexec f (pr 0 c @ ?t) = oret (d', rest)" if ge: "f \<ge> Suc (Suc f0)" for f
  proof -
    obtain f' where f: "f = Suc (Suc f')" "f' \<ge> f0" using Suc_le_D [OF ge] ge Suc_le_D by fastforce
    let ?u = "pr 3 c @ rpar # ?t"
    have p1: "peek (lpar # ?u) [lpar] = (lpar # ?u, True)" "peek (rpar # ?t) [rpar] = (rpar # ?t, True)" by (simp_all add: peek_solid)
    have g: "gettoken (lpar # ?u) = (lpar, lpar # ?u, ?u, ?u)" "gettoken (rpar # ?t) = (rpar, rpar # ?t, ?t, ?t)"
      using so t(1) by (simp_all add: gettoken_symbol)
    have "parseblock (Suc f') (lpar # ?u) = oret (d', rest)" using d(2) [OF f(2)] d'(1) by (simp add: p1 g del: append_assoc append.simps)
    then show ?thesis using f p p1(1) by simp
  qed
  then show "\<exists>d f0. ast_of d = wrap c rs \<and> (\<forall>f \<ge> f0. parseexec f (pr 0 c @ pr_redirs rs @ rest) = oret (d, rest))"
    using d'(2) by blast
qed

lemma exec_back_Exec:
  assumes ok: "ast_ok (Exec ws)"
  shows "exec_back (Exec ws)"
  unfolding exec_back_def
proof (intro allI impI)
  fix rs rest assume rs: "redirs_ok rs" and s: "stops {bar, rpar, amp, semi} rest"
  let ?t = "concat (map pr_word ws) @ pr_redirs rs @ rest"
  have ws: "\<forall>w \<in> set ws. word_ok w" "length ws < MAXARGS" using ok by auto
  have calm: "calm rest" "solid (pr_redirs rs @ rest)" using stops_solid [OF s] solid_redirs by auto
  have "solid ?t" using solid_pr [OF ok calm(2), of 0] by simp
  moreover have "?t = [] \<or> hd ?t \<noteq> lpar"
  proof (cases ws)
    case (Cons w vs)
    then show ?thesis using word_ok_cons [of w] ws(1) by (auto simp: pr_word_def symbols_def)
  next
    case Nil
    then show ?thesis using s by (cases rs) (auto simp: pr_redirs_def pr_redir_def stops_def split: prod.splits)
  qed
  ultimately have p: "peek ?t [lpar] = (?t, False)" using peek_solid [of ?t "[lpar]"] by auto
  have "\<exists>d. andthen (parseredirs (EXEC []) ?t) (\<lambda>(r, s). parseargs r 0 s) = ret (d, rest) \<and> ast_of d = wrap (Exec ws) rs"
  proof (cases "ws = []")
    case True
    then show ?thesis using parseredirs_print [OF rs calm(1), of "EXEC []"] parseargs_stop [OF s] by auto
  next
    case False
    then obtain w vs where w: "ws = w # vs" by (cases ws) auto
    then have "calm ?t" using word_ok_cons [of w] ws(1) by (auto simp: pr_word_def calm_def symbols_def)
    then have "parseredirs (EXEC []) ?t = ret (EXEC [], ?t)" using parseredirs_print [of "[]" ?t "EXEC []"] peek_solid [of ?t "[lt, gt]"]
      by (subst parseredirs.simps) (auto simp: calm_def)
    then show ?thesis using parseargs_print [OF s rs ws(1), of "[]"] ws(2) False by simp
  qed
  then obtain d where d: "ast_of d = wrap (Exec ws) rs"
    "andthen (parseredirs (EXEC []) ?t) (\<lambda>(r, s). parseargs r 0 s) = ret (d, rest)" by blast
  have "parseexec f ?t = oret (d, rest)" if "f \<ge> 1" for f
    using that d(2) p by (cases f) auto
  then show "\<exists>d f0. ast_of d = wrap (Exec ws) rs \<and> (\<forall>f \<ge> f0. parseexec f (pr 0 (Exec ws) @ pr_redirs rs @ rest) = oret (d, rest))"
    using d(1) by (intro exI [of _ d] exI [of _ 1]) simp
qed

lemma exec_back_Redir:
  assumes e: "exec_back c" and ok: "ast_ok (Redir c w m fd)"
  shows "exec_back (Redir c w m fd)"
  unfolding exec_back_def
proof (intro allI impI)
  fix rs rest assume rs: "redirs_ok rs" and s: "stops {bar, rpar, amp, semi} rest"
  have "redirs_ok ((w, m, fd) # rs)" using ok rs by (simp add: redirs_ok_def)
  moreover have "wrap c ((w, m, fd) # rs) = wrap (Redir c w m fd) rs" by (simp add: wrap_def)
  moreover have "pr 0 c @ pr_redirs ((w, m, fd) # rs) @ rest = pr 0 (Redir c w m fd) @ pr_redirs rs @ rest" by (simp add: pr_redirs_def)
  ultimately show "\<exists>d f0. ast_of d = wrap (Redir c w m fd) rs \<and>
      (\<forall>f \<ge> f0. parseexec f (pr 0 (Redir c w m fd) @ pr_redirs rs @ rest) = oret (d, rest))"
    using e s unfolding exec_back_def by metis
qed

lemma pipe_back_Pipe:
  assumes l: "exec_back l" and r: "pipe_back r" and ok: "ast_ok r"
  shows "pipe_back (Pipe l r)"
  unfolding pipe_back_def
proof (intro allI impI)
  fix rest assume s: "stops {rpar, amp, semi} rest"
  let ?u = "pr 1 r @ rest"
  obtain d2 f2 where d2: "ast_of d2 = r" "\<And>f. f \<ge> f2 \<Longrightarrow> parsepipe f ?u = oret (d2, rest)" using r s unfolding pipe_back_def by meson
  have "stops {bar, rpar, amp, semi} (bar # ?u)" by (simp add: stops_def)
  then obtain d1 f1 where d1: "ast_of d1 = l" "\<And>f. f \<ge> f1 \<Longrightarrow> parseexec f (pr 0 l @ bar # ?u) = oret (d1, bar # ?u)"
    using l [unfolded exec_back_def, rule_format, of "[]" "bar # ?u"] by (auto simp: redirs_ok_def pr_redirs_def wrap_def)
  have "solid rest" using stops_solid [OF stops_mono [OF s]] by auto
  then have "solid ?u" using solid_pr ok by blast
  then have g: "peek (bar # ?u) [bar] = (bar # ?u, True)" "gettoken (bar # ?u) = (bar, bar # ?u, ?u, ?u)"
    by (simp_all add: peek_solid gettoken_symbol)
  have "parsepipe f (pr 1 (Pipe l r) @ rest) = oret (PIPE d1 d2, rest)" if "f \<ge> Suc (max f1 f2)" for f
    using that d1(2) d2(2) g by (cases f) (auto simp: parens_def)
  then show "\<exists>d f0. ast_of d = Pipe l r \<and> (\<forall>f \<ge> f0. parsepipe f (pr 1 (Pipe l r) @ rest) = oret (d, rest))"
    using d1(1) d2(1) by (intro exI [of _ "PIPE d1 d2"] exI [of _ "Suc (max f1 f2)"]) simp
qed

lemma amp_back_Back: "amp_back c \<Longrightarrow> amp_back (Back c)"
  unfolding amp_back_def
proof (intro allI impI)
  fix n rest
  assume e: "\<forall>n rest. stops {rpar, semi} rest \<longrightarrow> (\<exists>d f0. ast_of d = (Back ^^ n) c \<and>
       (\<forall>f \<ge> f0. obind (parsepipe f (pr 2 c @ replicate n amp @ rest)) (\<lambda>(c, s). oret (parseback c s)) = oret (d, rest)))"
    and s: "stops {rpar, semi} rest"
  have "pr 2 (Back c) @ replicate n amp @ rest = pr 2 c @ replicate (Suc n) amp @ rest" by (simp add: parens_def)
  moreover have "(Back ^^ n) (Back c) = (Back ^^ Suc n) c" by (simp add: funpow_swap1)
  ultimately show "\<exists>d f0. ast_of d = (Back ^^ n) (Back c) \<and>
       (\<forall>f \<ge> f0. obind (parsepipe f (pr 2 (Back c) @ replicate n amp @ rest)) (\<lambda>(c, s). oret (parseback c s)) = oret (d, rest))"
    using e s by metis
qed

lemma line_back_List:
  assumes l: "amp_back l" and r: "line_back r" and ok: "ast_ok r"
  shows "line_back (List l r)"
  unfolding line_back_def
proof (intro allI impI)
  fix rest assume s: "stops {rpar} rest"
  let ?u = "pr 3 r @ rest"
  obtain d2 f2 where d2: "ast_of d2 = r" "\<And>f. f \<ge> f2 \<Longrightarrow> parseline f ?u = oret (d2, rest)" using r s unfolding line_back_def by meson
  have "stops {rpar, semi} (semi # ?u)" by (simp add: stops_def)
  then obtain d1 f1 where d1: "ast_of d1 = l"
    "\<And>f. f \<ge> f1 \<Longrightarrow> obind (parsepipe f (pr 2 l @ semi # ?u)) (\<lambda>(c, s). oret (parseback c s)) = oret (d1, semi # ?u)"
    using l [unfolded amp_back_def, rule_format, of "semi # ?u" 0] by auto
  have "solid rest" using stops_solid [OF stops_mono [OF s]] by auto
  then have "solid ?u" using solid_pr ok by blast
  then have g: "peek (semi # ?u) [semi] = (semi # ?u, True)" "gettoken (semi # ?u) = (semi, semi # ?u, ?u, ?u)"
    by (simp_all add: peek_solid gettoken_symbol)
  have "parseline f (pr 3 (List l r) @ rest) = oret (LIST d1 d2, rest)" if "f \<ge> Suc (max f1 f2)" for f
    using that line_step [OF d1(2)] d2(2) g by (cases f) (auto simp: parens_def)
  then show "\<exists>d f0. ast_of d = List l r \<and> (\<forall>f \<ge> f0. parseline f (pr 3 (List l r) @ rest) = oret (d, rest))"
    using d1(1) d2(1) by (intro exI [of _ "LIST d1 d2"] exI [of _ "Suc (max f1 f2)"]) simp
qed

lemma print_parse: "ast_ok c \<Longrightarrow> exec_back c \<and> pipe_back c \<and> amp_back c \<and> line_back c"
proof (induction c)
  case (Exec ws)
  then show ?case by (simp add: exec_back_Exec pipe_of_exec amp_of_pipe line_of_amp)
next
  case (Redir c w m fd)
  then have "exec_back (Redir c w m fd)" by (intro exec_back_Redir) auto
  then show ?case by (simp add: pipe_of_exec amp_of_pipe line_of_amp)
next
  case (Pipe l r)
  then have p: "pipe_back (Pipe l r)" by (intro pipe_back_Pipe) auto
  then have a: "amp_back (Pipe l r)" by (rule amp_of_pipe) (simp add: parens_def)
  then have i: "line_back (Pipe l r)" by (rule line_of_amp) (simp add: parens_def)
  have "exec_back (Pipe l r)" by (rule exec_of_line [OF i _ Pipe.prems]) (simp add: parens_def)
  with p a i show ?case by simp
next
  case (List l r)
  then have i: "line_back (List l r)" by (intro line_back_List) auto
  have e: "exec_back (List l r)" by (rule exec_of_line [OF i _ List.prems]) (simp add: parens_def)
  then have p: "pipe_back (List l r)" by (rule pipe_of_exec) (simp add: parens_def)
  then have "amp_back (List l r)" by (rule amp_of_pipe) (simp add: parens_def)
  with e p i show ?case by simp
next
  case (Back c)
  then have a: "amp_back (Back c)" by (intro amp_back_Back) auto
  then have i: "line_back (Back c)" by (rule line_of_amp) (simp add: parens_def)
  have e: "exec_back (Back c)" by (rule exec_of_line [OF i _ Back.prems]) (simp add: parens_def)
  then have "pipe_back (Back c)" by (rule pipe_of_exec) (simp add: parens_def)
  with e a i show ?case by simp
qed

section \<open>More fuel changes nothing\<close>

lemma obind_more:
  assumes "obind m k = Some r" and "\<And>x. m = Some x \<Longrightarrow> m' = Some x" and "\<And>x y. k x = Some y \<Longrightarrow> k' x = Some y"
  shows "obind m' k' = Some r"
  using assms by (cases m) (auto simp: obind_def split: sum.splits)

lemma parsers_more:
  "parseline f s = Some r \<Longrightarrow> parseline (Suc f) s = Some r"
  "parsepipe f s = Some r \<Longrightarrow> parsepipe (Suc f) s = Some r"
  "parseexec f s = Some r \<Longrightarrow> parseexec (Suc f) s = Some r"
  "parseblock f s = Some r \<Longrightarrow> parseblock (Suc f) s = Some r"
proof (induction f arbitrary: s r)
  case (Suc f)
  have more: "obind m (\<lambda>(r, s). oret (K r, s)) = Some y \<Longrightarrow> (\<And>x. m = Some x \<Longrightarrow> m' = Some x) \<Longrightarrow> obind m' (\<lambda>(r, s). oret (K r, s)) = Some y"
    for m m' :: "(cmd \<times> byte list) res option" and K and y :: "(cmd \<times> byte list) res" by (erule obind_more) auto
  { case 1
    then show ?case unfolding parseline.simps(2) [of f s] parseline.simps(2) [of "Suc f" s]
      by (rule obind_more) (auto simp del: parseline.simps parsepipe.simps split: prod.splits if_splits intro: Suc.IH more [OF _ Suc.IH(1)]) }
  { case 2
    then show ?case unfolding parsepipe.simps(2) [of f s] parsepipe.simps(2) [of "Suc f" s]
      by (rule obind_more) (auto simp del: parsepipe.simps parseexec.simps split: prod.splits if_splits intro: Suc.IH more [OF _ Suc.IH(2)]) }
  { case 3
    then show ?case using Suc.IH(4) unfolding parseexec.simps(2) [of f s] parseexec.simps(2) [of "Suc f" s] by (auto simp del: parseblock.simps split: prod.splits if_splits) }
  { case 4
    then show ?case unfolding parseblock.simps(2) [of f s] parseblock.simps(2) [of "Suc f" s]
      by (auto simp del: parseline.simps split: prod.splits if_splits elim!: obind_more [OF _ Suc.IH(1)]) }
qed simp_all

lemma parseline_more: "parseline f s = Some r \<Longrightarrow> f \<le> f' \<Longrightarrow> parseline f' s = Some r"
proof -
  assume "parseline f s = Some r" "f \<le> f'"
  from this(2,1) show ?thesis by (induction rule: dec_induct) (auto intro: parsers_more(1) simp del: parseline.simps)
qed

section \<open>Properties\<close>

text \<open>
  C26. The parser ends on every line: it returns a command or stops with one of its messages for syntax errors, and
  never with the internal one of \<^verbatim>\<open>parseblock\<close>.
\<close>

theorem parsecmd_ends:
  "\<exists>r. parsecmd line = Some r \<and> (\<forall>e. r = Inl e \<longrightarrow> e \<in> Panic ` syntax_errors)"
proof -
  obtain r where r: "parseline (4 * length line + 4) line = Some r" "sane line r"
    using parsers_end(1) [of line "4 * length line + 4"] by (auto simp: returns_sane_def)
  show ?thesis
  proof (cases r)
    case (Inl e)
    then show ?thesis using r by (auto simp: parsecmd_def sane_def)
  next
    case (Inr x)
    then show ?thesis using r by (cases x) (auto simp: parsecmd_def syntax_errors_def split: prod.split)
  qed
qed

theorem parsecmd_ends_witness: "\<exists>r. parsecmd [40] = Some r \<and> (\<forall>e. r = Inl e \<longrightarrow> e \<in> Panic ` syntax_errors)"
  by (rule parsecmd_ends)

text \<open>
  NUL-terminating the tokens in place never damages one of them: after a successful parse every argument and file
  name of the command, read as a C string from its pointer into the line, is exactly its token, which
  is not empty and has no blank or symbol.
\<close>

theorem parsecmd_strings:
  assumes "parsecmd line = oret (c, b)" and "0 \<notin> set line" and "(q, eq) \<in> set (toks c)"
  shows "length eq < length q \<and> cstr_at b (length line - length q) = take (length q - length eq) q \<and>
    (\<forall>x \<in> set (take (length q - length eq) q). word_char x)"
proof -
  obtain s where s: "parseline (4 * length line + 4) line = oret (c, s)" "b = nulterminate (length line) c (line @ [0])"
  proof -
    assume k: "\<And>s. parseline (4 * length line + 4) line = oret (c, s) \<Longrightarrow> b = nulterminate (length line) c (line @ [0]) \<Longrightarrow> thesis"
    obtain c' s where p: "parseline (4 * length line + 4) line = oret (c', s)"
      and e: "(case peek s [] of (s', _) \<Rightarrow> if s' \<noteq> [] then Some (panic ''syntax'')
         else oret (c', nulterminate (length line) c' (line @ [0]))) = oret (c, b)"
      using assms(1) unfolding parsecmd_def obind_eq_oret by auto
    have "c' = c \<and> b = nulterminate (length line) c (line @ [0])" using e by (auto split: prod.splits if_splits)
    then show thesis using k p by simp
  qed
  have "yields line (parseline (4 * length line + 4) line)" by (rule parsers_parsed(1)) simp
  then have ok: "cmd_ok line c" using s(1) by simp
  then have "tok_ok line (q, eq)" using assms(3) by (simp add: cmd_ok_def)
  then obtain w where w: "q = w @ eq" "w \<noteq> []" "\<forall>x \<in> set w. word_char x" by (auto simp: tok_ok_def)
  then show ?thesis using terminated_string [OF ok assms(2), of w eq] assms(3) s(2) by simp
qed

text \<open>
  C11. The parser reads back every command tree: printing a tree with the blanks, operators and parentheses the grammar
  asks for and parsing the line gives the same tree, for every nesting of pipes, lists, background commands and
  redirections with valid words and at most nine arguments per program.
\<close>

theorem parsecmd_print:
  assumes "ast_ok c"
  shows "\<exists>d b. parsecmd (pr 3 c) = oret (d, b) \<and> ast_of d = c"
proof -
  let ?s = "pr 3 c" and ?f = "4 * length (pr 3 c) + 4"
  have "line_back c" using print_parse assms by blast
  then obtain d f0 where d: "ast_of d = c" "\<And>f. f \<ge> f0 \<Longrightarrow> parseline f ?s = oret (d, [])"
    unfolding line_back_def stops_def by (metis append_Nil2)
  obtain r where r: "parseline ?f ?s = Some r" using parsers_end(1) [of ?s ?f] by (auto simp: returns_sane_def)
  then have "parseline (max f0 ?f) ?s = Some r" by (rule parseline_more) simp
  then have "r = ret (d, [])" using d(2) [of "max f0 ?f"] by simp
  then show ?thesis using r d(1) by (simp add: parsecmd_def peek_solid)
qed

text \<open>The line \<^verbatim>\<open>(l&)>o | w\<close>.\<close>

definition ast_demo :: ast where
  "ast_demo = Pipe (Redir (Back (Exec [[108]])) [111] wr_mode 1) (Exec [[119]])"

theorem parsecmd_print_witness:
  "pr 3 ast_demo = [40, 108, 32, 38, 41, 62, 111, 32, 124, 119, 32] \<and>
   (\<exists>d b. parsecmd [40, 108, 32, 38, 41, 62, 111, 32, 124, 119, 32] = oret (d, b) \<and> ast_of d = ast_demo)"
proof -
  have "ast_ok ast_demo" by (simp add: ast_demo_def word_ok_def word_char_def whitespace_def symbols_def MAXARGS_def)
  moreover have "pr 3 ast_demo = [40, 108, 32, 38, 41, 62, 111, 32, 124, 119, 32]"
    by (simp add: ast_demo_def parens_def pr_word_def pr_redir_def)
  ultimately show ?thesis using parsecmd_print by metis
qed

lemma parsecmd_demo:
  "parsecmd [108, 60, 102] = oret (REDIR (EXEC [([108, 60, 102], [60, 102])]) [102] [] 0 0, [108, 0, 102, 0])"
  by code_simp

theorem parsecmd_strings_witness:
  "\<exists>c. parsecmd [108, 60, 102] = oret (c, [108, 0, 102, 0]) \<and> cstr_at [108, 0, 102, 0] 0 = [108] \<and> cstr_at [108, 0, 102, 0] 2 = [102]"
proof -
  have "length [60 :: byte, 102] < length [108 :: byte, 60, 102] \<and> cstr_at [108, 0, 102, 0] (length [108 :: byte, 60, 102] - length [108 :: byte, 60, 102]) = take 1 [108, 60, 102]"
    using parsecmd_strings [OF parsecmd_demo, of "[108, 60, 102]" "[60, 102]"] by simp
  moreover have "cstr_at [108, 0, 102, 0] (length [108 :: byte, 60, 102] - length [102 :: byte]) = take 1 [102]"
    using parsecmd_strings [OF parsecmd_demo, of "[102]" "[]"] by simp
  ultimately show ?thesis using parsecmd_demo by (simp add: numeral_2_eq_2)
qed

end
