(* ===== verification/Fscheck.thy ===== *)
theory Fscheck
  imports Dir
begin

text \<open>
  The checker for file system images, \<^verbatim>\<open>linux/fsChecker.c\<close>. An image is the list of its blocks, \<open>q\<close> the superblock in
  the global \<^verbatim>\<open>sb\<close>. A check returns \<open>True\<close> for 1 and \<open>False\<close> for -1. The program stops with \<^verbatim>\<open>exit(1)\<close> when a
  block cannot be read, the outcome \<open>Panic ''read''\<close>; an access outside one of its arrays, which is undefined in
  C, is the outcome \<open>Panic ''out of bounds''\<close>.
\<close>

section \<open>Reading the image\<close>

type_synonym image = "block list"

text \<open>The offset \<^verbatim>\<open>sec * BSIZE\<close> is computed on 32 bits.\<close>

definition rsect :: "image \<Rightarrow> u32 \<Rightarrow> block res" where
  "rsect img sec = (let n = unat (sec * 512) div 512 in if n < length img then ret (img ! n) else panic ''read'')"

definition rinode :: "image \<Rightarrow> superblock \<Rightarrow> u32 \<Rightarrow> dinode res" where
  "rinode img q i = andthen (rsect img (IBLOCK i q)) (\<lambda>buf. ret (get_dinode buf (dinode_off i)))"

definition DPB :: nat where [layout_consts]: "DPB = 32"

definition dirents :: "block \<Rightarrow> byte list list" where
  "dirents buf = map (\<lambda>j. take 16 (drop (16 * j) buf)) [0..<DPB]"

text \<open>The search of \<^verbatim>\<open>getInum\<close> through a list of block addresses.\<close>

fun search_blocks :: "image \<Rightarrow> byte list \<Rightarrow> u32 list \<Rightarrow> u16 option res" where
  "search_blocks img name [] = ret None"
| "search_blocks img name (a # as) =
     (if a = 0 then search_blocks img name as
      else andthen (rsect img a) (\<lambda>buf.
        case find (\<lambda>de. namecmp name (de_name de) = 0) (dirents buf) of
          Some de \<Rightarrow> ret (Some (de_inum de))
        | None \<Rightarrow> search_blocks img name as))"

definition indirect :: "image \<Rightarrow> dinode \<Rightarrow> u32 list res" where
  "indirect img d =
     (if daddrs d ! NDIRECT \<noteq> 0 then andthen (rsect img (daddrs d ! NDIRECT)) (\<lambda>buf. ret (get_words buf 0 NINDIRECT)) else ret [])"

definition getInum :: "image \<Rightarrow> superblock \<Rightarrow> u32 \<Rightarrow> byte list \<Rightarrow> int res" where
  "getInum img q i name =
     andthen (rinode img q i) (\<lambda>d.
       if dtype d \<noteq> T_DIR then ret 0
       else andthen (search_blocks img name (take NDIRECT (daddrs d))) (\<lambda>r.
         case r of
           Some n \<Rightarrow> ret (int (unat n))
         | None \<Rightarrow> andthen (indirect img d) (\<lambda>as.
             andthen (search_blocks img name as) (\<lambda>r. case r of Some n \<Rightarrow> ret (int (unat n)) | None \<Rightarrow> ret (-1)))))"

section \<open>The checks\<close>

text \<open>A loop that ends with -1 at the first element that fails.\<close>

fun check_each :: "('a \<Rightarrow> bool res) \<Rightarrow> 'a list \<Rightarrow> bool res" where
  "check_each f [] = ret True"
| "check_each f (x # xs) = andthen (f x) (\<lambda>ok. if ok then check_each f xs else ret False)"

abbreviation inodes :: "superblock \<Rightarrow> nat list" where
  "inodes q \<equiv> [0..<unat (sb_ninodes q)]"

text \<open>\<^verbatim>\<open>checkBadInode\<close>: the message it prints, if any.\<close>

fun checkBadInode_loop :: "image \<Rightarrow> superblock \<Rightarrow> nat list \<Rightarrow> string option res" where
  "checkBadInode_loop img q [] = ret None"
| "checkBadInode_loop img q (i # is) =
     andthen (rinode img q (of_nat i)) (\<lambda>d.
       if dtype d \<noteq> 0 \<and> dtype d \<noteq> T_DIR \<and> dtype d \<noteq> T_FILE \<and> dtype d \<noteq> T_DEV then ret (Some ''ERROR: bad inode.'')
       else if dtype d \<noteq> 0 \<and> i = 1 \<and> dtype d \<noteq> T_DIR then ret (Some ''ERROR: root directory does not exist.'')
       else checkBadInode_loop img q is)"

definition checkBadInode :: "image \<Rightarrow> superblock \<Rightarrow> string option res" where
  "checkBadInode img q = checkBadInode_loop img q (inodes q)"

definition bad_addr :: "superblock \<Rightarrow> u32 \<Rightarrow> bool" where
  "bad_addr q a \<longleftrightarrow> (a < BBLOCK (sb_size q) q \<or> a > sb_size q - 1) \<and> a \<noteq> 0"

definition checkValidAddr :: "image \<Rightarrow> superblock \<Rightarrow> bool res" where
  "checkValidAddr img q = check_each (\<lambda>i.
     andthen (rinode img q (of_nat i)) (\<lambda>d.
       if \<exists>a \<in> set (daddrs d). bad_addr q a then ret False
       else andthen (indirect img d) (\<lambda>as. ret (\<forall>a \<in> set as. \<not> bad_addr q a)))) (inodes q)"

definition getBit :: "image \<Rightarrow> superblock \<Rightarrow> u32 \<Rightarrow> bool res" where
  "getBit img q a = andthen (rsect img (BBLOCK a q)) (\<lambda>buf. ret (bit (buf ! (unat a mod BPB div 8)) (unat a mod 8)))"

definition bump :: "u32 list \<Rightarrow> nat \<Rightarrow> u32 list res" where
  "bump counts i = (if i < length counts then ret (counts[i := counts ! i + 1]) else panic ''out of bounds'')"

fun mark_addrs :: "image \<Rightarrow> superblock \<Rightarrow> u32 list \<Rightarrow> u32 list \<Rightarrow> (bool \<times> u32 list) res" where
  "mark_addrs img q counts [] = ret (True, counts)"
| "mark_addrs img q counts (a # as) =
     (if a = 0 then mark_addrs img q counts as
      else andthen (bump counts (unat a)) (\<lambda>counts.
           andthen (getBit img q a) (\<lambda>b. if b then mark_addrs img q counts as else ret (False, counts))))"

text \<open>The body of \<^verbatim>\<open>checkBitmap\<close> for one inode; the indirect block itself is counted without looking at its bit.\<close>

definition mark_inode :: "image \<Rightarrow> superblock \<Rightarrow> u32 list \<Rightarrow> dinode \<Rightarrow> (bool \<times> u32 list) res" where
  "mark_inode img q counts d =
     (if dtype d = 0 then ret (True, counts)
      else andthen (mark_addrs img q counts (take NDIRECT (daddrs d))) (\<lambda>(ok, counts).
        if \<not> ok then ret (False, counts)
        else if daddrs d ! NDIRECT \<noteq> 0
        then andthen (bump counts (unat (daddrs d ! NDIRECT))) (\<lambda>counts.
             andthen (indirect img d) (\<lambda>as. mark_addrs img q counts as))
        else ret (True, counts)))"

fun checkBitmap_loop :: "image \<Rightarrow> superblock \<Rightarrow> u32 list \<Rightarrow> nat list \<Rightarrow> (bool \<times> u32 list) res" where
  "checkBitmap_loop img q counts [] = ret (True, counts)"
| "checkBitmap_loop img q counts (i # is) =
     andthen (rinode img q (of_nat i)) (\<lambda>d.
     andthen (mark_inode img q counts d) (\<lambda>(ok, counts).
       if ok then checkBitmap_loop img q counts is else ret (False, counts)))"

definition checkBitmap :: "image \<Rightarrow> superblock \<Rightarrow> u32 list \<Rightarrow> (bool \<times> u32 list) res" where
  "checkBitmap img q counts = checkBitmap_loop img q counts (inodes q)"

definition checkUsedBlock :: "image \<Rightarrow> superblock \<Rightarrow> u32 list \<Rightarrow> bool res" where
  "checkUsedBlock img q counts =
     andthen (rsect img (sb_bmapstart q)) (\<lambda>buf.
       check_each (\<lambda>i. if i div 8 < BSIZE then ret (\<not> (bit (buf ! (i div 8)) (i mod 8) \<and> counts ! i = 0)) else panic ''out of bounds'')
         [unat (sb_bmapstart q + 1)..<unat (sb_size q)])"

definition checkDirFormat :: "image \<Rightarrow> superblock \<Rightarrow> byte list \<Rightarrow> bool res" where
  "checkDirFormat img q name = check_each (\<lambda>i.
     andthen (rinode img q (of_nat i)) (\<lambda>d.
       if dtype d \<noteq> T_DIR then ret True
       else andthen (getInum img q (of_nat i) name) (\<lambda>n. ret (n \<noteq> -1)))) (inodes q)"

abbreviation dot :: "byte list" where "dot \<equiv> [0x2e]"
abbreviation dotdot :: "byte list" where "dotdot \<equiv> [0x2e, 0x2e]"

text \<open>The entries of one directory block in \<^verbatim>\<open>checkParentDir\<close>; \<^verbatim>\<open>inum\<close> is unsigned, so that -1 is not the parent.\<close>

definition parent_block :: "image \<Rightarrow> superblock \<Rightarrow> nat \<Rightarrow> u32 \<Rightarrow> bool res" where
  "parent_block img q i a =
     (if a = 0 then ret True
      else andthen (rsect img a) (\<lambda>buf.
        check_each (\<lambda>de. andthen (getInum img q (ucast (de_inum de)) dotdot) (\<lambda>n. ret (\<not> (n \<noteq> 0 \<and> n \<noteq> int i)))) (dirents buf)))"

definition checkParentDir :: "image \<Rightarrow> superblock \<Rightarrow> bool res" where
  "checkParentDir img q = check_each (\<lambda>i.
     andthen (rinode img q (of_nat i)) (\<lambda>d.
       if dtype d \<noteq> T_DIR then ret True
       else andthen (check_each (parent_block img q i) (take NDIRECT (daddrs d))) (\<lambda>ok.
         if \<not> ok then ret False
         else andthen (indirect img d) (\<lambda>as. check_each (parent_block img q i) as)))) (inodes q)"

definition checkUsedTimes :: "superblock \<Rightarrow> u32 list \<Rightarrow> bool" where
  "checkUsedTimes q counts = (\<forall>c \<in> set counts. \<not> c > 1)"

text \<open>Counting the entries of the blocks of a directory in \<^verbatim>\<open>checkInodeRef\<close>.\<close>

fun count_entries :: "u32 list \<Rightarrow> byte list list \<Rightarrow> u32 list res" where
  "count_entries ins [] = ret ins"
| "count_entries ins (de # des) =
     (if de_inum de \<noteq> 0 \<and> namecmp dotdot (de_name de) \<noteq> 0 \<and> namecmp dot (de_name de) \<noteq> 0
      then andthen (bump ins (unat (de_inum de))) (\<lambda>ins. count_entries ins des)
      else count_entries ins des)"

fun count_blocks :: "image \<Rightarrow> u32 list \<Rightarrow> u32 list \<Rightarrow> u32 list res" where
  "count_blocks img ins [] = ret ins"
| "count_blocks img ins (a # as) =
     (if a = 0 then count_blocks img ins as
      else andthen (rsect img a) (\<lambda>buf. andthen (count_entries ins (dirents buf)) (\<lambda>ins. count_blocks img ins as)))"

text \<open>
  \<^verbatim>\<open>checkInodeRef\<close>: the inner loop over all inodes uses the variable \<^verbatim>\<open>i\<close> of the outer one, which therefore ends with the
  first directory.
\<close>

fun checkInodeRef_loop :: "image \<Rightarrow> superblock \<Rightarrow> u32 list \<Rightarrow> nat list \<Rightarrow> (bool \<times> u32 list) res" where
  "checkInodeRef_loop img q ins [] = ret (True, ins)"
| "checkInodeRef_loop img q ins (i # is) =
     andthen (rinode img q (of_nat i)) (\<lambda>d.
       if dtype d \<noteq> T_DIR then checkInodeRef_loop img q ins is
       else andthen (count_blocks img ins (take NDIRECT (daddrs d))) (\<lambda>ins.
            andthen (indirect img d) (\<lambda>as.
            andthen (count_blocks img ins as) (\<lambda>ins.
            andthen (check_each (\<lambda>k. andthen (rinode img q (of_nat k)) (\<lambda>d. ret (\<not> (dtype d \<noteq> 0 \<and> ins ! k = 0)))) [2..<unat (sb_ninodes q)])
              (\<lambda>ok. ret (ok, ins))))))"

definition checkInodeRef :: "image \<Rightarrow> superblock \<Rightarrow> u32 list \<Rightarrow> (bool \<times> u32 list) res" where
  "checkInodeRef img q ins = checkInodeRef_loop img q ins (inodes q)"

definition checekValidDir :: "image \<Rightarrow> superblock \<Rightarrow> u32 list \<Rightarrow> bool res" where
  "checekValidDir img q ins = check_each (\<lambda>i.
     if ins ! i > 0 then andthen (rinode img q (of_nat i)) (\<lambda>d. ret (dtype d \<noteq> 0)) else ret True) (inodes q)"

text \<open>\<^verbatim>\<open>inode.nlink != ins[i]\<close>: the signed link count is converted to unsigned.\<close>

definition checkBadLinks :: "image \<Rightarrow> superblock \<Rightarrow> u32 list \<Rightarrow> bool res" where
  "checkBadLinks img q ins = check_each (\<lambda>i.
     andthen (rinode img q (of_nat i)) (\<lambda>d. ret (dtype d \<noteq> T_FILE \<or> scast (dnlink d) = ins ! i))) (inodes q)"

definition checkExtraLink :: "image \<Rightarrow> superblock \<Rightarrow> u32 list \<Rightarrow> bool res" where
  "checkExtraLink img q ins = check_each (\<lambda>i.
     andthen (rinode img q (of_nat i)) (\<lambda>d. ret (dtype d \<noteq> T_DIR \<or> \<not> ins ! i > 1))) (inodes q)"

section \<open>The program\<close>

text \<open>One step of \<^verbatim>\<open>main\<close>: end with the message when a check fails.\<close>

definition require :: "bool \<Rightarrow> string \<Rightarrow> string option res \<Rightarrow> string option res" where
  "require ok msg k = (if ok then k else ret (Some msg))"

text \<open>\<^verbatim>\<open>main\<close> on an image: the error message, or \<open>None\<close> when all tests passed.\<close>

definition fschecker :: "image \<Rightarrow> string option res" where
  "fschecker img =
     andthen (rsect img 1) (\<lambda>buf.
     let q = get_sb buf
     in andthen (rsect img (sb_bmapstart q)) (\<lambda>_.
        andthen (checkBadInode img q) (\<lambda>msg.
        if msg \<noteq> None then ret msg
        else andthen (checkValidAddr img q) (\<lambda>ok. require ok ''ERROR: bad address in inode.'' (
             andthen (checkDirFormat img q dot) (\<lambda>ok. require ok ''ERROR: directory not properly formatted.'' (
             andthen (checkDirFormat img q dotdot) (\<lambda>ok. require ok ''ERROR: directory not properly formatted.'' (
             andthen (checkParentDir img q) (\<lambda>ok. require ok ''ERROR: bad address in inode.'' (
             andthen (checkBitmap img q (replicate (unat (sb_size q)) 0)) (\<lambda>(ok, counts).
               require ok ''ERROR: address used by inode but marked free in bitmap.'' (
             andthen (checkUsedBlock img q counts) (\<lambda>ok. require ok ''ERROR: bitmap marks block in use but it is not in use.'' (
             require (checkUsedTimes q counts) ''ERROR: address used more than once.'' (
             andthen (checekValidDir img q (replicate (unat (sb_ninodes q)) 0)) (\<lambda>ok.
               require ok ''ERROR: inode referred to in directory but marked free.'' (
             andthen (checkInodeRef img q (replicate (unat (sb_ninodes q)) 0)) (\<lambda>(ok, ins).
               require ok ''ERROR: inode marked use but not found in a directory.'' (
             andthen (checkBadLinks img q ins) (\<lambda>ok. require ok ''ERROR: bad reference count for file.'' (
             andthen (checkExtraLink img q ins) (\<lambda>ok. require ok ''directory appears more than once in file system.'' (
               ret None))))))))))))))))))))))))"

section \<open>What the loops establish\<close>

lemma check_each_True: "check_each f xs = ret True \<longleftrightarrow> (\<forall>x \<in> set xs. f x = ret True)"
  by (induction xs) (auto simp: res_simps split: if_splits)

lemma check_each_inode: "check_each f (inodes q) = ret True \<Longrightarrow> i < unat (sb_ninodes q) \<Longrightarrow> f i = ret True"
  by (simp add: check_each_True)

definition nonzero :: "u32 list \<Rightarrow> u32 list" where
  "nonzero as = filter (\<lambda>a. a \<noteq> 0) as"

definition inode_of :: "image \<Rightarrow> superblock \<Rightarrow> nat \<Rightarrow> dinode" where
  "inode_of img q i = projr (rinode img q (of_nat i))"

definition indirect_of :: "image \<Rightarrow> dinode \<Rightarrow> u32 list" where
  "indirect_of img d = projr (indirect img d)"

text \<open>The blocks an inode uses: direct blocks, the indirect block and the blocks it lists.\<close>

definition blocks_of :: "image \<Rightarrow> dinode \<Rightarrow> u32 list" where
  "blocks_of img d = nonzero (take NDIRECT (daddrs d)) @
     (if daddrs d ! NDIRECT \<noteq> 0 then daddrs d ! NDIRECT # nonzero (indirect_of img d) else [])"

definition used_blocks :: "image \<Rightarrow> superblock \<Rightarrow> nat list \<Rightarrow> u32 list" where
  "used_blocks img q is = concat (map (\<lambda>i. if dtype (inode_of img q i) = 0 then [] else blocks_of img (inode_of img q i)) is)"

definition occ :: "u32 list \<Rightarrow> nat \<Rightarrow> nat" where
  "occ as j = length (filter (\<lambda>a. unat a = j) as)"

lemma occ_simps [simp]: "occ [] j = 0" "occ (a # as) j = (if unat a = j then 1 else 0) + occ as j" "occ (as @ bs) j = occ as j + occ bs j"
  by (simp_all add: occ_def)

lemma occ_le: "occ as j \<le> length as"
  by (simp add: occ_def)

lemma occ_pos: "a \<in> set as \<Longrightarrow> 0 < occ as (unat a)"
  by (auto simp: occ_def filter_empty_conv)

lemma distinct_occ: "(\<And>a. a \<in> set as \<Longrightarrow> occ as (unat a) \<le> 1) \<Longrightarrow> distinct as"
proof (induction as)
  case (Cons a as)
  have "a \<notin> set as" using Cons.prems [of a] occ_pos [of a as] by auto
  moreover have "occ as (unat b) \<le> 1" if "b \<in> set as" for b using Cons.prems [of b] that by (simp split: if_splits)
  ultimately show ?case using Cons.IH by simp
qed simp

definition counted :: "u32 list \<Rightarrow> u32 list \<Rightarrow> u32 list \<Rightarrow> bool" where
  "counted c as c' \<longleftrightarrow> length c' = length c \<and> (\<forall>a \<in> set as. unat a < length c) \<and> (\<forall>j < length c. c' ! j = c ! j + of_nat (occ as j))"

lemma counted_nil [simp]: "counted c [] c"
  by (simp add: counted_def)

lemma counted_append: "counted c as c1 \<Longrightarrow> counted c1 bs c2 \<Longrightarrow> counted c (as @ bs) c2"
  by (auto simp: counted_def)

lemma bump_counted: "bump c (unat a) = ret c' \<Longrightarrow> counted c [a] c'"
  by (auto simp: bump_def counted_def nth_list_update split: if_splits)

lemma mark_addrs_counted:
  "mark_addrs img q c as = ret (True, c') \<Longrightarrow> counted c (nonzero as) c' \<and> (\<forall>a \<in> set (nonzero as). getBit img q a = ret True)"
proof (induction img q c as rule: mark_addrs.induct)
  case (2 img q c a as)
  show ?case
  proof (cases "a = 0")
    case True
    then show ?thesis using 2 by (simp add: nonzero_def)
  next
    case False
    then obtain c1 where c1: "bump c (unat a) = ret c1" "getBit img q a = ret True" "mark_addrs img q c1 as = ret (True, c')"
      using "2.prems" by (auto simp: res_simps split: if_splits)
    then have IH: "counted c1 (nonzero as) c'" "\<forall>a \<in> set (nonzero as). getBit img q a = ret True" using "2.IH"(2) [OF False c1(1,2)] by auto
    have "counted c ([a] @ nonzero as) c'" using counted_append [OF bump_counted [OF c1(1)] IH(1)] .
    then show ?thesis using IH(2) c1(2) False by (simp add: nonzero_def)
  qed
qed (simp add: nonzero_def)

lemma mark_inode_counted:
  assumes "mark_inode img q c d = ret (True, c')"
  shows "counted c (if dtype d = 0 then [] else blocks_of img d) c' \<and>
    (dtype d \<noteq> 0 \<longrightarrow> (\<forall>a \<in> set (nonzero (take NDIRECT (daddrs d))). getBit img q a = ret True) \<and>
      (daddrs d ! NDIRECT \<noteq> 0 \<longrightarrow> (\<forall>a \<in> set (nonzero (indirect_of img d)). getBit img q a = ret True)))"
proof (cases "dtype d = 0")
  case True
  then show ?thesis using assms by (simp add: mark_inode_def)
next
  case False
  then obtain c1 where c1: "mark_addrs img q c (take NDIRECT (daddrs d)) = ret (True, c1)"
    using assms by (auto simp: mark_inode_def res_simps split: if_splits)
  note m1 = mark_addrs_counted [OF c1]
  show ?thesis
  proof (cases "daddrs d ! NDIRECT = 0")
    case True
    then show ?thesis using assms False c1 m1 by (simp add: mark_inode_def blocks_of_def)
  next
    case ind: False
    then obtain c2 as where c2: "bump c1 (unat (daddrs d ! NDIRECT)) = ret c2" "indirect img d = ret as" "mark_addrs img q c2 as = ret (True, c')"
      using assms False c1 by (auto simp: mark_inode_def res_simps)
    note m2 = mark_addrs_counted [OF c2(3)]
    have "counted c (nonzero (take NDIRECT (daddrs d)) @ [daddrs d ! NDIRECT] @ nonzero as) c'"
      using counted_append [OF conjunct1 [OF m1] counted_append [OF bump_counted [OF c2(1)] conjunct1 [OF m2]]] .
    then show ?thesis using m1 m2 c2(2) ind False by (simp add: blocks_of_def indirect_of_def)
  qed
qed

lemma checkBitmap_loop_counted:
  "checkBitmap_loop img q c is = ret (True, c') \<Longrightarrow> counted c (used_blocks img q is) c' \<and>
    (\<forall>i \<in> set is. let d = inode_of img q i in dtype d \<noteq> 0 \<longrightarrow>
      (\<forall>a \<in> set (nonzero (take NDIRECT (daddrs d))). getBit img q a = ret True) \<and>
      (daddrs d ! NDIRECT \<noteq> 0 \<longrightarrow> (\<forall>a \<in> set (nonzero (indirect_of img d)). getBit img q a = ret True)))"
proof (induction img q c "is" rule: checkBitmap_loop.induct)
  case (2 img q c i "is")
  then obtain d c1 where d: "rinode img q (of_nat i) = ret d" "mark_inode img q c d = ret (True, c1)" "checkBitmap_loop img q c1 is = ret (True, c')"
    by (auto simp: res_simps split: if_splits)
  have i: "inode_of img q i = d" using d(1) by (simp add: inode_of_def)
  note m = mark_inode_counted [OF d(2)] and IH = "2.IH" [OF d(1,2) refl, simplified, OF d(3)]
  have "counted c (used_blocks img q (i # is)) c'"
    using counted_append [OF conjunct1 [OF m] conjunct1 [OF IH]] i by (cases "dtype d = 0") (simp_all add: used_blocks_def)
  then show ?case using m IH i by (simp add: Let_def)
qed (simp add: used_blocks_def)

lemma checkBadInode_loop_types:
  "checkBadInode_loop img q is = ret None \<Longrightarrow> i \<in> set is \<Longrightarrow>
    \<exists>d. rinode img q (of_nat i) = ret d \<and> (dtype d = 0 \<or> dtype d = T_DIR \<or> dtype d = T_FILE \<or> dtype d = T_DEV)"
  by (induction img q "is" rule: checkBadInode_loop.induct) (auto simp: res_simps split: if_splits)

lemma fschecker_accepts:
  assumes "fschecker img = ret None" "rsect img 1 = ret buf" "q = get_sb buf"
  obtains counts where "checkBadInode img q = ret None" "checkValidAddr img q = ret True" "checkDirFormat img q dot = ret True"
    "checkDirFormat img q dotdot = ret True" "checkParentDir img q = ret True"
    "checkBitmap img q (replicate (unat (sb_size q)) 0) = ret (True, counts)" "checkUsedBlock img q counts = ret True" "checkUsedTimes q counts"
  using assms by (auto simp: fschecker_def res_simps require_def Let_def split: if_splits prod.splits)

lemma blocks_of_length: "length (daddrs d) = NDIRECT + 1 \<Longrightarrow> length (indirect_of img d) \<le> NINDIRECT \<Longrightarrow> length (blocks_of img d) \<le> 141"
proof -
  assume d: "length (daddrs d) = NDIRECT + 1" and i: "length (indirect_of img d) \<le> NINDIRECT"
  have "length (nonzero xs) \<le> length xs" for xs by (simp add: nonzero_def)
  from this [of "take NDIRECT (daddrs d)"] this [of "indirect_of img d"] show ?thesis using d i by (simp add: blocks_of_def layout_consts)
qed

lemma rinode_length: "rinode img q i = ret d \<Longrightarrow> length (daddrs d) = NDIRECT + 1"
  by (auto simp: rinode_def res_simps get_dinode_def get_words_def)

lemma indirect_length: "indirect img d = ret as \<Longrightarrow> length as \<le> NINDIRECT"
  by (auto simp: indirect_def res_simps get_words_def split: if_splits)

lemma used_blocks_length:
  assumes "\<And>i. i \<in> set is \<Longrightarrow> \<exists>d as. rinode img q (of_nat i) = ret d \<and> indirect img d = ret as"
  shows "length (used_blocks img q is) \<le> 141 * length is"
  using assms
proof (induction "is")
  case (Cons i "is")
  obtain d as where d: "rinode img q (of_nat i) = ret d" "indirect img d = ret as" using Cons.prems [of i] by auto
  then have "length (blocks_of img d) \<le> 141"
    using blocks_of_length rinode_length indirect_length by (simp add: indirect_of_def)
  moreover have "length (used_blocks img q is) \<le> 141 * length is" using Cons.IH Cons.prems by simp
  ultimately show ?case using d(1) by (simp add: used_blocks_def inode_of_def)
qed (simp add: used_blocks_def)

lemma of_nat_small_u32: "n < 4294967296 \<Longrightarrow> \<not> (of_nat n :: u32) > 1 \<Longrightarrow> n \<le> 1"
  by (simp add: word_less_nat_alt)

lemma search_blocks_Some:
  "search_blocks img name as = ret (Some n) \<Longrightarrow> \<exists>a \<in> set as. a \<noteq> 0 \<and> (\<exists>buf. rsect img a = ret buf \<and> (\<exists>de \<in> set (dirents buf). de_inum de = n))"
proof (induction img name as rule: search_blocks.induct)
  case (2 img name a as)
  show ?case
  proof (cases "a = 0")
    case True
    then show ?thesis using 2 by auto
  next
    case False
    then obtain buf where buf: "rsect img a = ret buf" using "2.prems" by (auto simp: res_simps)
    show ?thesis
    proof (cases "find (\<lambda>de. namecmp name (de_name de) = 0) (dirents buf)")
      case None
      then show ?thesis using False buf "2.prems" "2.IH"(2) [OF False buf None] by auto
    next
      case (Some de)
      then have "de \<in> set (dirents buf)" by (auto simp: find_Some_iff)
      then show ?thesis using False buf "2.prems" Some by auto
    qed
  qed
qed simp

section \<open>Properties\<close>

text \<open>
  C12. An image the checker accepts is consistent in these respects: every inode can be read and has a valid
  type; every block address it holds, direct or in its indirect block, lies between the bitmap and the
  end of the image; every data block of an inode in use is marked in the bitmap; no block is used twice, by one or by
  two inodes, as data or as indirect block; and every block marked in the first bitmap block is used.
\<close>

theorem fschecker_sound:
  assumes "fschecker img = ret None" "rsect img 1 = ret buf" "q = get_sb buf" "unat (sb_ninodes q) < 30000000"
  shows "(\<forall>i < unat (sb_ninodes q). \<exists>d as. rinode img q (of_nat i) = ret d \<and> indirect img d = ret as \<and>
      (dtype d = 0 \<or> dtype d = T_DIR \<or> dtype d = T_FILE \<or> dtype d = T_DEV) \<and>
      (\<forall>a \<in> set (daddrs d) \<union> set as. a \<noteq> 0 \<longrightarrow> BBLOCK (sb_size q) q \<le> a \<and> a \<le> sb_size q - 1) \<and>
      (dtype d \<noteq> 0 \<longrightarrow> (\<forall>a \<in> set (take NDIRECT (daddrs d)) \<union> set as. a \<noteq> 0 \<longrightarrow> getBit img q a = ret True))) \<and>
    distinct (used_blocks img q (inodes q)) \<and>
    (\<forall>map_block. rsect img (sb_bmapstart q) = ret map_block \<longrightarrow>
      (\<forall>b. unat (sb_bmapstart q + 1) \<le> b \<and> b < unat (sb_size q) \<and> bit (map_block ! (b div 8)) (b mod 8) \<longrightarrow>
        b \<in> unat ` set (used_blocks img q (inodes q))))"
proof -
  obtain counts where c: "checkBadInode img q = ret None" "checkValidAddr img q = ret True"
    "checkBitmap img q (replicate (unat (sb_size q)) 0) = ret (True, counts)" "checkUsedBlock img q counts = ret True" "checkUsedTimes q counts"
    by (rule fschecker_accepts [OF assms(1-3)])
  let ?u = "used_blocks img q (inodes q)"
  note b = checkBitmap_loop_counted [OF c(3) [unfolded checkBitmap_def]]
  have inode: "\<exists>d as. rinode img q (of_nat i) = ret d \<and> indirect img d = ret as \<and>
      (dtype d = 0 \<or> dtype d = T_DIR \<or> dtype d = T_FILE \<or> dtype d = T_DEV) \<and>
      (\<forall>a \<in> set (daddrs d) \<union> set as. \<not> bad_addr q a)" if i: "i < unat (sb_ninodes q)" for i
  proof -
    obtain d where d: "rinode img q (of_nat i) = ret d" "dtype d = 0 \<or> dtype d = T_DIR \<or> dtype d = T_FILE \<or> dtype d = T_DEV"
      using checkBadInode_loop_types [OF c(1) [unfolded checkBadInode_def], of i] i by auto
    have "(if \<exists>a \<in> set (daddrs d). bad_addr q a then ret False
       else andthen (indirect img d) (\<lambda>as. ret (\<forall>a \<in> set as. \<not> bad_addr q a))) = ret True"
      using check_each_inode [OF c(2) [unfolded checkValidAddr_def] i] d(1) by simp
    then obtain as where "indirect img d = ret as" "\<forall>a \<in> set (daddrs d) \<union> set as. \<not> bad_addr q a"
      by (auto simp: res_simps split: if_splits)
    with d show ?thesis by blast
  qed
  have len: "length ?u < 4294967296"
    using used_blocks_length [of "inodes q" img q] inode assms(4) by fastforce
  have small: "occ ?u j < 4294967296" for j using occ_le [of ?u j] len by simp
  have count: "length counts = unat (sb_size q)" "\<And>a. a \<in> set ?u \<Longrightarrow> unat a < unat (sb_size q)"
    "\<And>j. j < unat (sb_size q) \<Longrightarrow> counts ! j = of_nat (occ ?u j)" using b by (auto simp: counted_def)
  have "distinct ?u"
  proof (rule distinct_occ)
    fix a assume "a \<in> set ?u"
    then have "unat a < length counts" using count by simp
    then have "\<not> counts ! unat a > 1" using c(5) nth_mem unfolding checkUsedTimes_def by blast
    then show "occ ?u (unat a) \<le> 1" using of_nat_small_u32 small count \<open>unat a < length counts\<close> by simp
  qed
  moreover have "\<exists>d as. rinode img q (of_nat i) = ret d \<and> indirect img d = ret as \<and>
      (dtype d = 0 \<or> dtype d = T_DIR \<or> dtype d = T_FILE \<or> dtype d = T_DEV) \<and>
      (\<forall>a \<in> set (daddrs d) \<union> set as. a \<noteq> 0 \<longrightarrow> BBLOCK (sb_size q) q \<le> a \<and> a \<le> sb_size q - 1) \<and>
      (dtype d \<noteq> 0 \<longrightarrow> (\<forall>a \<in> set (take NDIRECT (daddrs d)) \<union> set as. a \<noteq> 0 \<longrightarrow> getBit img q a = ret True))"
    if i: "i < unat (sb_ninodes q)" for i
  proof -
    obtain d as where d: "rinode img q (of_nat i) = ret d" "indirect img d = ret as"
      "dtype d = 0 \<or> dtype d = T_DIR \<or> dtype d = T_FILE \<or> dtype d = T_DEV" "\<forall>a \<in> set (daddrs d) \<union> set as. \<not> bad_addr q a"
      using inode [OF i] by blast
    have "dtype d \<noteq> 0 \<Longrightarrow> \<forall>a \<in> set (take NDIRECT (daddrs d)) \<union> set as. a \<noteq> 0 \<longrightarrow> getBit img q a = ret True"
      using conjunct2 [OF b] i d(1,2) by (auto simp: Let_def inode_of_def indirect_of_def nonzero_def indirect_def split: if_splits)
    moreover have "\<forall>a \<in> set (daddrs d) \<union> set as. a \<noteq> 0 \<longrightarrow> BBLOCK (sb_size q) q \<le> a \<and> a \<le> sb_size q - 1"
      using d(4) unfolding bad_addr_def by (meson not_less)
    ultimately show ?thesis using d(1-3) by blast
  qed
  moreover have "j \<in> unat ` set ?u"
    if m: "rsect img (sb_bmapstart q) = ret map_block"
      and j: "unat (sb_bmapstart q + 1) \<le> j \<and> j < unat (sb_size q) \<and> bit (map_block ! (j div 8)) (j mod 8)" for map_block j
  proof -
    have "\<not> (bit (map_block ! (j div 8)) (j mod 8) \<and> counts ! j = 0)"
      using c(4) m j by (auto simp: checkUsedBlock_def check_each_True split: if_splits)
    then have "(of_nat (occ ?u j) :: u32) \<noteq> 0" using j count by simp
    then have "occ ?u j \<noteq> 0" by (cases "occ ?u j = 0") simp_all
    then show ?thesis by (auto simp: occ_def filter_empty_conv)
  qed
  ultimately show ?thesis by blast
qed

text \<open>
  C39. The checker accepts no image with a subdirectory: for every directory of an accepted image whose entry \<^verbatim>\<open>.\<close> names
  itself, the entry \<^verbatim>\<open>..\<close> names the directory itself or no inode, because the entries \<^verbatim>\<open>.\<close> and \<^verbatim>\<open>..\<close> are
  taken for children whose parent must be the directory.
\<close>

theorem fschecker_rejects_subdirectories:
  assumes "fschecker img = ret None" "rsect img 1 = ret buf" "q = get_sb buf"
    and "i < unat (sb_ninodes q)" "rinode img q (of_nat i) = ret d" "dtype d = T_DIR" "getInum img q (of_nat i) dot = ret (int i)"
  shows "getInum img q (of_nat i) dotdot = ret 0 \<or> getInum img q (of_nat i) dotdot = ret (int i)"
proof -
  have p: "checkParentDir img q = ret True" by (rule fschecker_accepts [OF assms(1-3)])
  obtain as where as: "check_each (parent_block img q i) (take NDIRECT (daddrs d)) = ret True" "indirect img d = ret as"
    "check_each (parent_block img q i) as = ret True"
    using check_each_inode [OF p [unfolded checkParentDir_def] assms(4)] assms(5,6) by (auto simp: res_simps split: if_splits)
  have "\<exists>n. (search_blocks img dot (take NDIRECT (daddrs d)) = ret (Some n) \<or> search_blocks img dot as = ret (Some n)) \<and> unat n = i"
  proof -
    have u: "uint y = int i \<Longrightarrow> unat y = i" for y :: u16 by (metis nat_int unat_eq_nat_uint)
    show ?thesis using assms(5-7) as(2) by (auto simp: getInum_def res_simps split: option.splits dest!: u)
  qed
  then obtain n where n: "search_blocks img dot (take NDIRECT (daddrs d)) = ret (Some n) \<or> search_blocks img dot as = ret (Some n)" "unat n = i" by blast
  then obtain a buf' de where a: "a \<in> set (take NDIRECT (daddrs d)) \<union> set as" "a \<noteq> 0" "rsect img a = ret buf'" "de \<in> set (dirents buf')" "de_inum de = n"
    using search_blocks_Some by blast
  have "parent_block img q i a = ret True" using as a(1) by (auto simp: check_each_True)
  then have "andthen (getInum img q (ucast n) dotdot) (\<lambda>n. ret (\<not> (n \<noteq> 0 \<and> n \<noteq> int i))) = ret True"
    using a(2-5) by (auto simp: parent_block_def check_each_True)
  moreover have "(ucast n :: u32) = of_nat i" unfolding n(2) [symmetric] by simp
  ultimately show ?thesis by (auto simp: res_simps)
qed

text \<open>
  An image of five blocks with nothing but the root directory: superblock, inode block, bitmap, and
  the block of the directory with the entries \<^verbatim>\<open>.\<close> and \<^verbatim>\<open>..\<close>.
\<close>

definition img_demo :: image where
  "img_demo = [[], put_words (replicate BSIZE 0) 0 [5, 1, 2, 0, 2, 2, 3],
     put_dinode (replicate BSIZE 0) 64 \<lparr>dtype = T_DIR, dmajor = 0, dminor = 0, dnlink = 1, dsize = 32, daddrs = 4 # replicate 12 0\<rparr>,
     0x1f # replicate 511 0, dirent 1 dot @ dirent 1 dotdot @ replicate 480 0]"

definition q_demo :: superblock where
  "q_demo = \<lparr>sb_size = 5, sb_nblocks = 1, sb_ninodes = 2, sb_nlog = 0, sb_logstart = 2, sb_inodestart = 2, sb_bmapstart = 3\<rparr>"

definition root_demo :: dinode where
  "root_demo = \<lparr>dtype = T_DIR, dmajor = 0, dminor = 0, dnlink = 1, dsize = 32, daddrs = 4 # replicate 12 0\<rparr>"

lemma demo_blocks:
  "rsect img_demo 1 = ret (img_demo ! 1)" "rsect img_demo 3 = ret (img_demo ! 3)" "rsect img_demo 4 = ret (img_demo ! 4)"
  by (simp_all add: rsect_def img_demo_def)

lemma demo_sb: "get_sb (img_demo ! 1) = q_demo" by code_simp

lemma demo_inodes: "checkBadInode img_demo q_demo = ret None" "rinode img_demo q_demo 1 = ret root_demo"
  "rinode img_demo q_demo 0 = ret \<lparr>dtype = 0, dmajor = 0, dminor = 0, dnlink = 0, dsize = 0, daddrs = replicate 13 0\<rparr>"
  by code_simp+

lemma demo_addrs: "checkValidAddr img_demo q_demo = ret True" by code_simp

lemma demo_inums: "getInum img_demo q_demo 1 dot = ret 1" "getInum img_demo q_demo 1 dotdot = ret 1" "getInum img_demo q_demo 0 dotdot = ret 0"
  by code_simp+

lemma demo_entries: "map de_inum (dirents (img_demo ! 4)) = [1, 1] @ replicate 30 0" by code_simp

lemma demo_bitmap: "checkBitmap img_demo q_demo (replicate 5 0) = ret (True, [0, 0, 0, 0, 1])" by code_simp

lemma demo_used: "checkUsedBlock img_demo q_demo [0, 0, 0, 0, 1] = ret True" by code_simp

lemma demo_refs: "checkInodeRef img_demo q_demo (replicate 2 0) = ret (True, [0, 0])" by code_simp

lemma demo_list: "inodes q_demo = [0, 1]"
  by (simp add: q_demo_def upt_conv_Cons)

lemma demo_parent: "checkParentDir img_demo q_demo = ret True"
proof -
  have "check_each (\<lambda>de. andthen (getInum img_demo q_demo (ucast (de_inum de)) dotdot) (\<lambda>n. ret (\<not> (n \<noteq> 0 \<and> n \<noteq> int 1)))) (dirents (img_demo ! 4)) = ret True"
    unfolding check_each_True
  proof
    fix de assume "de \<in> set (dirents (img_demo ! 4))"
    then have "de_inum de \<in> set (map de_inum (dirents (img_demo ! 4)))" by simp
    then have "de_inum de = 0 \<or> de_inum de = 1" unfolding demo_entries by auto
    then show "andthen (getInum img_demo q_demo (ucast (de_inum de)) dotdot) (\<lambda>n. ret (\<not> (n \<noteq> 0 \<and> n \<noteq> int 1))) = ret True"
      using demo_inums by auto
  qed
  then have "parent_block img_demo q_demo 1 4 = ret True" using demo_blocks(3) by (simp add: parent_block_def)
  moreover have "parent_block img_demo q_demo 1 0 = ret True" by (simp add: parent_block_def)
  moreover have "take NDIRECT (daddrs root_demo) = 4 # replicate 11 0" by (simp add: root_demo_def layout_consts)
  ultimately have "check_each (parent_block img_demo q_demo 1) (take NDIRECT (daddrs root_demo)) = ret True" by (simp add: check_each_True)
  moreover have "indirect img_demo root_demo = ret []" by (simp add: indirect_def root_demo_def layout_consts nth_Cons')
  moreover have "dtype root_demo = T_DIR" by (simp add: root_demo_def)
  ultimately show ?thesis unfolding checkParentDir_def demo_list
    using demo_inodes(2,3) by (simp add: T_DIR_def)
qed

lemma img_demo_accepted: "fschecker img_demo = ret None"
proof -
  have f: "checkDirFormat img_demo q_demo dot = ret True" "checkDirFormat img_demo q_demo dotdot = ret True"
    unfolding checkDirFormat_def demo_list using demo_inodes(2,3) demo_inums by (simp_all add: root_demo_def layout_consts)
  have l: "checekValidDir img_demo q_demo [0, 0] = ret True" "checkBadLinks img_demo q_demo [0, 0] = ret True" "checkExtraLink img_demo q_demo [0, 0] = ret True"
    unfolding checekValidDir_def checkBadLinks_def checkExtraLink_def demo_list
    using demo_inodes(2,3) by (simp_all add: root_demo_def layout_consts)
  have z: "replicate (unat (sb_size q_demo)) 0 = replicate 5 (0 :: u32)" "replicate (unat (sb_ninodes q_demo)) 0 = replicate 2 (0 :: u32)"
    "replicate 2 (0 :: u32) = [0, 0]" "sb_bmapstart q_demo = 3" by (simp_all add: q_demo_def) (simp add: numeral_2_eq_2)
  have t: "checkUsedTimes q_demo [0, 0, 0, 0, 1]" by (simp add: checkUsedTimes_def)
  show ?thesis unfolding fschecker_def demo_blocks(1) andthen_Inr Let_def demo_sb z(1,2,4)
    using demo_blocks(2) demo_inodes(1) demo_addrs f demo_parent demo_bitmap demo_used demo_refs l t z(3) by (simp add: require_def)
qed

theorem fschecker_sound_witness:
  "fschecker img_demo = ret None \<and> distinct (used_blocks img_demo q_demo (inodes q_demo)) \<and>
   (\<exists>d as. rinode img_demo q_demo (of_nat 1) = ret d \<and> indirect img_demo d = ret as)"
proof -
  have n: "unat (sb_ninodes q_demo) = 2" by (simp add: q_demo_def)
  note s = fschecker_sound [OF img_demo_accepted demo_blocks(1) demo_sb [symmetric]]
  have "1 < unat (sb_ninodes q_demo)" "unat (sb_ninodes q_demo) < 30000000" using n by simp_all
  then show ?thesis using s img_demo_accepted by blast
qed

theorem fschecker_rejects_subdirectories_witness:
  "fschecker img_demo = ret None \<and> getInum img_demo q_demo (of_nat 1) dot = ret (int 1) \<and>
   (getInum img_demo q_demo (of_nat 1) dotdot = ret 0 \<or> getInum img_demo q_demo (of_nat 1) dotdot = ret (int 1))"
proof -
  have i: "1 < unat (sb_ninodes q_demo)" "rinode img_demo q_demo (of_nat 1) = ret root_demo" "dtype root_demo = T_DIR"
    "getInum img_demo q_demo (of_nat 1) dot = ret (int 1)"
    using demo_inodes(2) demo_inums(1) by (simp_all add: q_demo_def root_demo_def)
  from fschecker_rejects_subdirectories [OF img_demo_accepted demo_blocks(1) demo_sb [symmetric] i] show ?thesis
    using img_demo_accepted i(4) by blast
qed

end
