(* ===== verification/Uvm.thy ===== *)
theory Uvm
  imports Vm
begin

text \<open>
  User address spaces, for \<^verbatim>\<open>vm.c\<close> of part 1. An address space is a page directory together with the pages it
  owns: the directory itself, its page tables, and the frames of its user pages below a limit. Every routine
  keeps these pages apart from each other and from the free list, and moves pages only between the two.
  What the process sees is the partial function \<open>uview\<close> from addresses to permissions and bytes; the
  theorems say how the routines change it.
\<close>

section \<open>Memory outside a set of pages\<close>

definition same_but :: "u32 set \<Rightarrow> mem \<Rightarrow> mem \<Rightarrow> bool" where
  "same_but P m m' \<longleftrightarrow> (\<forall>a. (\<forall>v \<in> P. 4096 \<le> unat (a - v)) \<longrightarrow> m' a = m a)"

lemma same_but_refl [simp]: "same_but P m m"
  by (simp add: same_but_def)

lemma same_but_trans: "same_but P m m' \<Longrightarrow> same_but P m' m'' \<Longrightarrow> same_but P m m''"
  by (simp add: same_but_def)

lemma same_but_mono: "same_but P m m' \<Longrightarrow> P \<subseteq> Q \<Longrightarrow> same_but Q m m'"
  by (auto simp: same_but_def)

lemma same_but_outside: "same_outside v m m' \<Longrightarrow> v \<in> P \<Longrightarrow> same_but P m m'"
  by (auto simp: same_but_def same_outside_def)

lemma same_but_byte:
  assumes "same_but P m m'" and "\<forall>v \<in> P. aligned v" and "aligned q" and "q \<notin> P" and "i < 4096"
  shows "m' (q + of_nat i) = m (q + of_nat i)"
proof -
  have "4096 \<le> unat (q + of_nat i - v)" if "v \<in> P" for v
    using assms that by (intro other_page) (auto simp: aligned_mod)
  then show ?thesis using assms(1) by (simp add: same_but_def)
qed

lemma same_but_slot:
  assumes "same_but P m m'" and "\<forall>v \<in> P. aligned v" and "aligned q" and "q \<notin> P" and "j < 1024"
  shows "load32 m' (slot q j) = load32 m (slot q j)"
proof -
  have "m' (slot q j + of_nat b) = m (slot q j + of_nat b)" if "b < 4" for b
    using same_but_byte [OF assms(1-4), of "4 * j + b"] assms(5) that by (simp add: slot_def add.assoc)
  from this [of 0] this [of 1] this [of 2] this [of 3] show ?thesis by (simp add: load32_def)
qed

section \<open>The pages of an address space\<close>

definition tables :: "mem \<Rightarrow> u32 \<Rightarrow> u32 set" where
  "tables m d = {table_at m d i | i. i < 1024 \<and> has_table m d i}"

definition mapped :: "mem \<Rightarrow> u32 \<Rightarrow> u32 \<Rightarrow> bool" where
  "mapped m d va \<longleftrightarrow> present (pte_of m d va)"

definition frame :: "mem \<Rightarrow> u32 \<Rightarrow> u32 \<Rightarrow> u32" where
  "frame m d va = P2V (PTE_ADDR (pte_of m d va))"

definition frames :: "mem \<Rightarrow> u32 \<Rightarrow> nat \<Rightarrow> u32 set" where
  "frames m d lim = {frame m d va | va. unat va < lim \<and> mapped m d va}"

text \<open>The number of the page of an address, and what the process sees there.\<close>

abbreviation pn :: "u32 \<Rightarrow> nat" where
  "pn va \<equiv> unat va div 4096"

definition uview :: "mem \<Rightarrow> u32 \<Rightarrow> u32 \<rightharpoonup> u32 \<times> byte" where
  "uview m d va =
     (if mapped m d va then Some (PTE_FLAGS (pte_of m d va), m (frame m d va + of_nat (unat va mod 4096))) else None)"

definition uspace :: "u32 \<Rightarrow> nat \<Rightarrow> kmem \<Rightarrow> u32 list \<Rightarrow> u32 \<Rightarrow> bool" where
  "uspace kend lim s xs d \<longleftrightarrow> pt_ok kend s xs d \<and>
     (\<forall>v \<in> frames (ram s) d lim. \<not> bad_page kend v \<and> v \<notin> set xs \<and> v \<noteq> d \<and> v \<notin> tables (ram s) d) \<and>
     (\<forall>va vb. unat va < lim \<longrightarrow> unat vb < lim \<longrightarrow> mapped (ram s) d va \<longrightarrow> mapped (ram s) d vb \<longrightarrow>
        frame (ram s) d va = frame (ram s) d vb \<longrightarrow> pn va = pn vb)"

definition region :: "mem \<Rightarrow> u32 \<Rightarrow> nat \<Rightarrow> u32 set" where
  "region m d lim = insert d (tables m d \<union> frames m d lim)"

lemma pn_pte: "pn va = pn vb \<Longrightarrow> pte_of m d va = pte_of m d vb"
  using same_page_iff [of va vb] by (simp add: pte_of_def)

lemma tableI: "i < 1024 \<Longrightarrow> has_table m d i \<Longrightarrow> table_at m d i \<in> tables m d"
  by (auto simp: tables_def)

lemma tables_cong:
  assumes "\<And>i. i < 1024 \<Longrightarrow> has_table m' d i = has_table m d i" "\<And>i. i < 1024 \<Longrightarrow> table_at m' d i = table_at m d i"
  shows "tables m' d = tables m d"
  using assms unfolding tables_def by metis

lemma frameI: "unat va < lim \<Longrightarrow> mapped m d va \<Longrightarrow> frame m d va \<in> frames m d lim"
  by (auto simp: frames_def)

lemma uspaceD:
  assumes "uspace kend lim s xs d"
  shows "pt_ok kend s xs d" "v \<in> frames (ram s) d lim \<Longrightarrow> \<not> bad_page kend v"
    "v \<in> frames (ram s) d lim \<Longrightarrow> v \<notin> set xs" "v \<in> frames (ram s) d lim \<Longrightarrow> v \<noteq> d"
    "v \<in> frames (ram s) d lim \<Longrightarrow> v \<notin> tables (ram s) d"
    "unat va < lim \<Longrightarrow> unat vb < lim \<Longrightarrow> mapped (ram s) d va \<Longrightarrow> mapped (ram s) d vb \<Longrightarrow>
        frame (ram s) d va = frame (ram s) d vb \<Longrightarrow> pn va = pn vb"
  using assms unfolding uspace_def by blast+

lemma pt_ok_tables:
  assumes "pt_ok kend s xs d" and "t \<in> tables (ram s) d"
  shows "\<not> bad_page kend t" "t \<notin> set xs" "t \<noteq> d"
  using assms by (auto simp: tables_def pt_ok_def)

lemma pt_ok_pages: "pt_ok kend s xs d \<Longrightarrow> x \<in> set xs \<Longrightarrow> \<not> bad_page kend x"
  by (auto simp: pt_ok_def free_pages_def)

lemma region_pages:
  assumes "uspace kend lim s xs d" and "v \<in> region (ram s) d lim"
  shows "\<not> bad_page kend v" "aligned v" "v \<notin> set xs"
proof -
  show b: "\<not> bad_page kend v"
    using assms uspaceD [OF assms(1)] pt_ok_tables(1) pt_okD(2) by (auto simp: region_def)
  show "aligned v" using page_facts(1) [OF b] .
  show "v \<notin> set xs"
    using assms uspaceD [OF assms(1)] pt_ok_tables(2) pt_okD(3) by (auto simp: region_def)
qed

text \<open>Writing outside the directory and the tables changes no translation.\<close>

lemma pt_ok_same:
  assumes ok: "pt_ok kend s xs d" and fp: "free_pages kend s' ys" "d \<notin> set ys" "tables (ram s) d \<inter> set ys = {}"
    and E: "\<And>i. i < 1024 \<Longrightarrow> has_table (ram s') d i = has_table (ram s) d i" "\<And>i. i < 1024 \<Longrightarrow> table_at (ram s') d i = table_at (ram s) d i"
  shows "pt_ok kend s' ys d"
  unfolding pt_ok_def
proof (intro conjI allI impI)
  show "free_pages kend s' ys" "\<not> bad_page kend d" "d \<notin> set ys" using fp pt_okD(2) [OF ok] by auto
  fix i assume i: "i < 1024" "has_table (ram s') d i"
  then have t: "has_table (ram s) d i" "table_at (ram s') d i = table_at (ram s) d i" using E by auto
  show "\<not> bad_page kend (table_at (ram s') d i)" "table_at (ram s') d i \<noteq> d" using pt_okD(4,6) [OF ok i(1) t(1)] t(2) by auto
  show "table_at (ram s') d i \<notin> set ys" using tableI [OF i(1) t(1)] t(2) fp(3) by auto
  fix j assume "j < 1024" "has_table (ram s') d j" "table_at (ram s') d i = table_at (ram s') d j"
  then show "i = j" using pt_okD(7) [OF ok i(1) _ t(1)] t(2) E by auto
qed

lemma entries_same:
  assumes "same_but P m m'" and "\<forall>v \<in> P. aligned v" and "aligned d" and "\<forall>t \<in> tables m d. aligned t"
    and "d \<notin> P" and "tables m d \<inter> P = {}"
  shows "i < 1024 \<Longrightarrow> has_table m' d i = has_table m d i" "i < 1024 \<Longrightarrow> table_at m' d i = table_at m d i"
    "tables m' d = tables m d" "pte_of m' d va = pte_of m d va"
proof -
  have e: "load32 m' (slot d i) = load32 m (slot d i)" if "i < 1024" for i
    using same_but_slot [OF assms(1-3,5) that] .
  then show h: "i < 1024 \<Longrightarrow> has_table m' d i = has_table m d i" and t: "i < 1024 \<Longrightarrow> table_at m' d i = table_at m d i" for i
    by (simp_all add: has_table_def table_at_def)
  then show "tables m' d = tables m d" by (rule tables_cong)
  show "pte_of m' d va = pte_of m d va"
  proof (cases "has_table m d (unat (PDX va))")
    case True
    then have "table_at m d (unat (PDX va)) \<in> tables m d" using PDX_less by (rule tableI [rotated])
    then have "load32 m' (slot (table_at m d (unat (PDX va))) (unat (PTX va))) = load32 m (slot (table_at m d (unat (PDX va))) (unat (PTX va)))"
      using same_but_slot [OF assms(1,2) _ _ PTX_less] assms(4,6) by blast
    then show ?thesis using True h [OF PDX_less] t [OF PDX_less] by (simp add: pte_of_def)
  next
    case False
    then show ?thesis using h [OF PDX_less, of va] by (simp add: pte_of_def)
  qed
qed

lemma entries_views:
  assumes "\<And>va. pte_of m' d va = pte_of m d va"
  shows "mapped m' d = mapped m d" "frame m' d = frame m d" "frames m' d = frames m d"
  using assms by (auto simp: fun_eq_iff mapped_def frame_def frames_def)

text \<open>An address space that another routine does not touch.\<close>

lemma uspace_frame:
  assumes sp: "uspace kend lim s xs d" and ch: "same_but P (ram s) (ram s')" "\<forall>v \<in> P. aligned v"
    and dj: "region (ram s) d lim \<inter> P = {}" and fp: "free_pages kend s' ys" "region (ram s) d lim \<inter> set ys = {}"
  shows "uspace kend lim s' ys d" "region (ram s') d lim = region (ram s) d lim"
    and "pte_of (ram s') d va = pte_of (ram s) d va" "unat va < lim \<Longrightarrow> uview (ram s') d va = uview (ram s) d va"
proof -
  note D = uspaceD [OF sp]
  have al: "aligned d" "\<forall>t \<in> tables (ram s) d. aligned t" using region_pages(2) [OF sp] by (auto simp: region_def)
  have out: "d \<notin> P" "tables (ram s) d \<inter> P = {}" using dj by (auto simp: region_def)
  note E = entries_same [OF ch al out]
  show pte: "pte_of (ram s') d va = pte_of (ram s) d va" for va by (rule E(4))
  note V = entries_views [OF pte]
  show "region (ram s') d lim = region (ram s) d lim" by (simp add: region_def V E(3))
  have "pt_ok kend s' ys d"
    using fp dj E(1,2) by (intro pt_ok_same [OF D(1)]) (auto simp: region_def)
  then show "uspace kend lim s' ys d"
    using D(2,4-6) fp(2) unfolding uspace_def V E(3) region_def by blast
  show "uview (ram s') d va = uview (ram s) d va" if va: "unat va < lim" for va
  proof (cases "mapped (ram s) d va")
    case True
    have "frame (ram s) d va \<in> region (ram s) d lim" using frameI [OF va True] by (simp add: region_def)
    then have "ram s' (frame (ram s) d va + of_nat (unat va mod 4096)) = ram s (frame (ram s) d va + of_nat (unat va mod 4096))"
      by (intro same_but_byte [OF ch]) (use region_pages(2) [OF sp] dj in auto)
    then show ?thesis by (simp add: uview_def V pte)
  qed (simp add: uview_def V)
qed

section \<open>Adding and removing a page\<close>

lemma walk_alloc_changes:
  assumes ok: "pt_ok kend s (x # xs) d" and h: "\<not> has_table (ram s) d (unat (PDX va))" and w: "walkpgdir s d va True = (p, s')"
  shows "same_but {x, d} (ram s) (ram s')"
proof -
  obtain s1 where s1: "kalloc s = (x, s1)" "x \<noteq> 0" "ram s1 = ram s" using kalloc_Cons [OF pt_okD(1) [OF ok]] by blast
  have al: "aligned d" using page_facts(1) [OF pt_okD(2) [OF ok]] .
  let ?m = "memset (ram s) x 0 PGSIZE"
  have "ram s' = store32 ?m (slot d (unat (PDX va))) (V2P x OR PTE_P OR PTE_W OR PTE_U)"
    using w h s1 by (auto simp: walkpgdir_def has_table_def slot_def Let_def)
  moreover have "same_but {x, d} (ram s) ?m" by (rule same_but_outside [OF same_outside_memset]) simp
  moreover have "same_but {x, d} ?m (store32 ?m (slot d (unat (PDX va))) w)" for w
    using same_outside_slot [OF al PDX_less] by (rule same_but_outside) simp
  ultimately show ?thesis by (simp add: same_but_trans)
qed

text \<open>The step of a walk in an address space: a new table comes from the free list.\<close>

definition walked :: "u32 \<Rightarrow> kmem \<Rightarrow> u32 list \<Rightarrow> u32 \<Rightarrow> u32 \<Rightarrow> kmem \<Rightarrow> u32 list \<Rightarrow> bool" where
  "walked kend s xs d va s' xs' \<longleftrightarrow> pt_ok kend s' xs' d \<and> has_table (ram s') d (unat (PDX va)) \<and>
     (\<forall>va'. pte_of (ram s') d va' = pte_of (ram s) d va') \<and> set xs' \<subseteq> set xs \<and>
     tables (ram s) d \<subseteq> tables (ram s') d \<and> set xs' \<union> tables (ram s') d = set xs \<union> tables (ram s) d \<and>
     same_but (insert d (set xs)) (ram s) (ram s')"

lemma walk_region:
  assumes ok: "pt_ok kend s xs d"
  obtains (full) "walkpgdir s d va True = (0, s)" "xs = []"
  | (entry) s' xs' where "walkpgdir s d va True = (slot (table_at (ram s') d (unat (PDX va))) (unat (PTX va)), s')"
      "walked kend s xs d va s' xs'" "slot (table_at (ram s') d (unat (PDX va))) (unat (PTX va)) \<noteq> 0"
proof (cases "has_table (ram s) d (unat (PDX va))")
  case True
  have "slot (table_at (ram s) d (unat (PDX va))) (unat (PTX va)) \<noteq> 0"
    using slot_nonzero [OF pt_okD(4) [OF ok PDX_less True] PTX_less] .
  then show thesis using entry [of s xs] walk_present [OF True] ok True by (simp add: walked_def)
next
  case False
  show thesis
  proof (cases xs)
    case Nil
    then show thesis using full walk_cases [OF ok, of va] False walk_present kalloc_Nil [of kend s] pt_okD(1) [OF ok]
      by (auto simp: walkpgdir_def has_table_def slot_def Let_def)
  next
    case (Cons x ys)
    let ?d = "unat (PDX va)"
    obtain s' where s': "walkpgdir s d va True = (slot x (unat (PTX va)), s')" "pt_ok kend s' ys d"
        "has_table (ram s') d ?d" "table_at (ram s') d ?d = x" "\<forall>va'. pte_of (ram s') d va' = pte_of (ram s) d va'"
        "\<forall>i < 1024. has_table (ram s') d i = (i = ?d \<or> has_table (ram s) d i) \<and>
           (i \<noteq> ?d \<longrightarrow> table_at (ram s') d i = table_at (ram s) d i)"
      using walk_alloc [OF ok [unfolded Cons] False] by metis
    have nz: "slot x (unat (PTX va)) \<noteq> 0" using slot_nonzero [OF pt_okD(4) [OF s'(2) PDX_less s'(3)] PTX_less] s'(4) by simp
    have tb: "tables (ram s') d = insert x (tables (ram s) d)"
    proof (intro set_eqI iffI)
      fix t assume "t \<in> tables (ram s') d"
      then show "t \<in> insert x (tables (ram s) d)" using s'(4,6) unfolding tables_def by blast
    next
      fix t assume "t \<in> insert x (tables (ram s) d)"
      then show "t \<in> tables (ram s') d"
        using s'(3,4,6) PDX_less [of va] False unfolding tables_def by (smt (verit) insert_iff mem_Collect_eq)
    qed
    have "same_but (insert d (set xs)) (ram s) (ram s')"
      using walk_alloc_changes [OF ok [unfolded Cons] False s'(1)] by (rule same_but_mono) (simp add: Cons)
    then have "walked kend s xs d va s' ys" using s' tb by (auto simp: walked_def Cons)
    then show thesis using entry [of s' ys] s'(1,4) nz by simp
  qed
qed

text \<open>Mapping one page: the part of \<^verbatim>\<open>mappages\<close> that the routines on user memory use.\<close>

definition mapped_page :: "u32 \<Rightarrow> kmem \<Rightarrow> u32 list \<Rightarrow> u32 \<Rightarrow> u32 \<Rightarrow> u32 \<Rightarrow> kmem \<Rightarrow> u32 list \<Rightarrow> bool" where
  "mapped_page kend s xs d a e s' xs' \<longleftrightarrow> pt_ok kend s' xs' d \<and>
     (\<forall>va. pte_of (ram s') d va = (if pn va = pn a then e else pte_of (ram s) d va)) \<and> set xs' \<subseteq> set xs \<and>
     tables (ram s) d \<subseteq> tables (ram s') d \<and> set xs' \<union> tables (ram s') d = set xs \<union> tables (ram s) d \<and>
     same_but (insert d (set xs \<union> tables (ram s) d)) (ram s) (ram s')"

lemma mappages_single:
  assumes al: "aligned a"
  shows "mappages s d a PGSIZE pa perm = mappages_loop s d a a pa perm"
proof -
  have "unat (PGROUNDDOWN a) = unat a" using al unfolding unat_PGROUNDDOWN aligned_def by auto
  then have r: "PGROUNDDOWN a = a" by (simp only: word_unat_eq_iff)
  have "unat (a + 4095) = unat a + 4095" using aligned_bound [OF al, of 4095] by simp
  then have "unat (PGROUNDDOWN (a + 4095)) = unat a" using al unfolding unat_PGROUNDDOWN aligned_def by (elim dvdE) simp
  then have "PGROUNDDOWN (a + PGSIZE - 1) = a" by (simp add: PGSIZE_def word_unat_eq_iff add.commute)
  then show ?thesis by (simp add: mappages_def r)
qed

lemma mappages_page:
  assumes ok: "pt_ok kend s xs d" and al: "aligned a" and np: "\<not> present (pte_of (ram s) d a)"
  shows "(mappages s d a PGSIZE pa perm = Some (Inr (-1, s)) \<and> xs = []) \<or>
    (\<exists>s' xs'. mappages s d a PGSIZE pa perm = Some (Inr (0, s')) \<and> mapped_page kend s xs d a (pa OR perm OR PTE_P) s' xs')"
proof -
  note m = mappages_single [OF al]
  show ?thesis
  proof (rule walk_region [OF ok, of a])
    assume "walkpgdir s d a True = (0, s)" "xs = []"
    then show ?thesis by (simp add: m mappages_loop.simps)
  next
    fix s1 :: kmem and xs1 let ?t = "table_at (ram s1) d (unat (PDX a))" let ?p = "slot ?t (unat (PTX a))"
    assume w: "walkpgdir s d a True = (?p, s1)" "walked kend s xs d a s1 xs1" "?p \<noteq> 0"
    let ?s = "s1\<lparr>ram := store32 (ram s1) ?p (pa OR perm OR PTE_P)\<rparr>"
    have w2: "pt_ok kend s1 xs1 d" "has_table (ram s1) d (unat (PDX a))" "\<And>va. pte_of (ram s1) d va = pte_of (ram s) d va"
      using w(2) by (auto simp: walked_def)
    have run: "mappages s d a PGSIZE pa perm = Some (Inr (0, ?s))"
      using w np w2 pte_at_slot [OF w2(2)] by (simp add: m mappages_loop.simps)
    note st = set_pte [OF w2(1,2), where w = "pa OR perm OR PTE_P"]
    have tb: "tables (ram ?s) d = tables (ram s1) d" by (rule tables_cong) (use st(3,4) in auto)
    have "?t \<in> tables (ram s1) d" using w2(2) PDX_less by (rule tableI [rotated])
    then have t: "?t \<in> insert d (set xs \<union> tables (ram s) d)" using w(2) by (auto simp: walked_def)
    have "same_but (insert d (set xs \<union> tables (ram s) d)) (ram s1) (ram ?s)"
      using same_but_outside [OF same_outside_slot [OF page_facts(1) [OF pt_okD(4) [OF w2(1) PDX_less w2(2)]] PTX_less] t] by simp
    moreover have "same_but (insert d (set xs \<union> tables (ram s) d)) (ram s) (ram s1)"
      using w(2) by (auto simp: walked_def elim: same_but_mono)
    ultimately have "same_but (insert d (set xs \<union> tables (ram s) d)) (ram s) (ram ?s)" using same_but_trans by blast
    then have "mapped_page kend s xs d a (pa OR perm OR PTE_P) ?s xs1"
      unfolding mapped_page_def tb using st(1,2) w2(3) w(2) by (simp add: walked_def)
    then show ?thesis using run by blast
  qed
qed

lemma page_entry:
  assumes "aligned x" and "perm AND 0xFFF = perm"
  shows "PTE_ADDR (V2P x OR perm OR PTE_P) = V2P x" "present (V2P x OR perm OR PTE_P)" "PTE_FLAGS (V2P x OR perm OR PTE_P) = perm OR PTE_P"
proof -
  have low: "\<not> bit (V2P x) n" if "n < 12" for n
  proof -
    have "4096 dvd unat (V2P x)"
      using assms(1) by (auto simp: aligned_def V2P_def KERNBASE_def unat_diff_u32 word_le_nat_alt)
    then have "take_bit 12 (V2P x) = 0" by (simp add: take_bit_eq_mod word_unat_eq_iff unat_mod)
    then have "\<not> bit (take_bit 12 (V2P x)) n" by simp
    then show ?thesis using that by (simp add: bit_take_bit_iff)
  qed
  have m: "(0xFFF :: u32) = mask 12" "PTE_P = mask 1" by (simp_all add: mask_eq_exp_minus_1 PTE_P_def)
  have pb: "bit perm n \<Longrightarrow> n < 12" for n
    using arg_cong [OF assms(2), of "\<lambda>w. bit w n"] unfolding m(1) by (simp add: bit_simps)
  show "PTE_ADDR (V2P x OR perm OR PTE_P) = V2P x"
    unfolding PTE_ADDR_def m by (rule bit_word_eqI) (use pb low in \<open>auto simp: bit_simps\<close>)
  have "bit ((V2P x OR perm OR PTE_P) AND PTE_P) 0" unfolding m(2) by (simp add: bit_simps)
  then show "present (V2P x OR perm OR PTE_P)" by auto
  show "PTE_FLAGS (V2P x OR perm OR PTE_P) = perm OR PTE_P"
    unfolding PTE_FLAGS_def m by (rule bit_word_eqI) (use pb low in \<open>auto simp: bit_simps\<close>)
qed

lemma P2V_V2P [simp]: "P2V (V2P x) = x"
  by (simp add: P2V_def V2P_def)

lemma uview_same:
  assumes "uspace kend lim s xs d" and "same_but P (ram s) m'" "\<forall>v \<in> P. aligned v" and "pte_of m' d va = pte_of (ram s) d va"
    and "unat va < lim" and "mapped (ram s) d va \<Longrightarrow> frame (ram s) d va \<notin> P"
  shows "uview m' d va = uview (ram s) d va"
proof (cases "mapped (ram s) d va")
  case True
  have "aligned (frame (ram s) d va)"
    using region_pages(2) [OF assms(1)] frameI [OF assms(5) True] by (simp add: region_def)
  then have "m' (frame (ram s) d va + of_nat (unat va mod 4096)) = ram s (frame (ram s) d va + of_nat (unat va mod 4096))"
    by (intro same_but_byte [OF assms(2,3)]) (use assms(6) True in auto)
  then show ?thesis using assms(4) by (simp add: uview_def mapped_def frame_def)
qed (use assms(4) in \<open>simp add: uview_def mapped_def\<close>)

text \<open>A page \<open>x\<close> that belongs to nobody is added at \<open>a\<close>.\<close>

lemma add_page:
  assumes sp: "uspace kend lim s xs d" and mp: "mapped_page kend s xs d a (V2P x OR perm OR PTE_P) s' xs'"
    and x: "\<not> bad_page kend x" "x \<notin> set xs" "x \<notin> region (ram s) d lim"
    and a: "unat a < lim" "\<not> mapped (ram s) d a" and perm: "perm AND 0xFFF = perm"
  shows "uspace kend lim s' xs' d" "set xs' \<union> region (ram s') d lim = insert x (set xs \<union> region (ram s) d lim)"
    and "unat va < lim \<Longrightarrow> uview (ram s') d va =
      (if pn va = pn a then Some (perm OR PTE_P, ram s (x + of_nat (unat va mod 4096))) else uview (ram s) d va)"
proof -
  note D = uspaceD [OF sp] and E = page_entry [OF page_facts(1) [OF x(1)] perm]
  let ?P = "insert d (set xs \<union> tables (ram s) d)"
  have M: "pt_ok kend s' xs' d" "\<And>va. pte_of (ram s') d va = (if pn va = pn a then V2P x OR perm OR PTE_P else pte_of (ram s) d va)"
      "set xs' \<subseteq> set xs" "tables (ram s) d \<subseteq> tables (ram s') d" "set xs' \<union> tables (ram s') d = set xs \<union> tables (ram s) d"
      "same_but ?P (ram s) (ram s')"
    using mp by (auto simp: mapped_page_def)
  have mapd: "mapped (ram s') d va \<longleftrightarrow> pn va = pn a \<or> mapped (ram s) d va" for va by (simp add: mapped_def M(2) E(2))
  have frm: "frame (ram s') d va = (if pn va = pn a then x else frame (ram s) d va)" for va
    by (simp add: frame_def M(2) E(1) P2V_V2P)
  have old: "pn va \<noteq> pn a" if "mapped (ram s) d va" for va using a(2) that pn_pte [of va a] by (auto simp: mapped_def)
  have fr: "frames (ram s') d lim = insert x (frames (ram s) d lim)"
  proof
    show "frames (ram s') d lim \<subseteq> insert x (frames (ram s) d lim)" unfolding frames_def mapd frm by auto
    have "x \<in> frames (ram s') d lim" using frameI [OF a(1), of "ram s'" d] by (simp add: mapd frm)
    moreover have "frame (ram s) d va \<in> frames (ram s') d lim" if "unat va < lim" "mapped (ram s) d va" for va
      using frameI [OF that(1), of "ram s'" d] that(2) old [OF that(2)] by (simp add: mapd frm)
    ultimately show "insert x (frames (ram s) d lim) \<subseteq> frames (ram s') d lim" by (auto simp: frames_def)
  qed
  have xf: "frame (ram s) d va \<noteq> x" if "unat va < lim" "mapped (ram s) d va" for va
    using frameI [OF that] x(3) by (auto simp: region_def)
  have "x \<noteq> d" "x \<notin> tables (ram s') d" "x \<notin> set xs'" using x M(3,5) by (auto simp: region_def)
  moreover have "v \<notin> set xs'" "v \<notin> tables (ram s') d" if "v \<in> frames (ram s) d lim" for v
    using D(3,5) [OF that] M(3,5) by auto
  moreover have "pn va = pn vb" if "unat va < lim" "unat vb < lim" "mapped (ram s') d va" "mapped (ram s') d vb"
    "frame (ram s') d va = frame (ram s') d vb" for va vb
    using that D(6) [of va vb] xf [of va] xf [of vb] unfolding mapd frm by (auto split: if_splits)
  ultimately show "uspace kend lim s' xs' d"
    unfolding uspace_def fr using M(1) x(1) D(2,4) by blast
  show "set xs' \<union> region (ram s') d lim = insert x (set xs \<union> region (ram s) d lim)"
    unfolding region_def fr using M(5) by auto
  have al: "\<forall>v \<in> ?P. aligned v"
    using region_pages(2) [OF sp] pt_ok_pages [OF D(1)] page_facts(1) by (auto simp: region_def)
  show "uview (ram s') d va = (if pn va = pn a then Some (perm OR PTE_P, ram s (x + of_nat (unat va mod 4096))) else uview (ram s) d va)"
    if va: "unat va < lim" for va
  proof (cases "pn va = pn a")
    case True
    have "ram s' (x + of_nat (unat va mod 4096)) = ram s (x + of_nat (unat va mod 4096))"
      by (intro same_but_byte [OF M(6) al page_facts(1) [OF x(1)]]) (use x in \<open>auto simp: region_def\<close>)
    then show ?thesis using True E(3) M(2) by (simp add: uview_def mapd frm)
  next
    case False
    have "frame (ram s) d va \<notin> ?P" if "mapped (ram s) d va" using D(3-5) [OF frameI [OF va that]] by auto
    then show ?thesis using False uview_same [OF sp M(6) al _ va] M(2) by simp
  qed
qed

text \<open>The page at \<open>a\<close> is given back to the free list and its entry cleared, as in the loop of \<^verbatim>\<open>deallocuvm\<close>.\<close>

abbreviation pte_slot :: "mem \<Rightarrow> u32 \<Rightarrow> u32 \<Rightarrow> u32" where
  "pte_slot m d a \<equiv> slot (table_at m d (unat (PDX a))) (unat (PTX a))"

lemma mapped_table: "mapped m d a \<Longrightarrow> has_table m d (unat (PDX a))"
  by (auto simp: mapped_def pte_of_def split: if_splits)

lemma remove_page:
  assumes sp: "uspace kend lim s xs d" and a: "unat a < lim" "mapped (ram s) d a"
  shows "\<exists>s1. kfree kend s (frame (ram s) d a) = Inr s1 \<and>
    (let s' = s1\<lparr>ram := store32 (ram s1) (pte_slot (ram s) d a) 0\<rparr> in
     uspace kend lim s' (frame (ram s) d a # xs) d \<and>
     (\<forall>va. pte_of (ram s') d va = (if pn va = pn a then 0 else pte_of (ram s) d va)) \<and>
     insert (frame (ram s) d a) (region (ram s') d lim) = region (ram s) d lim \<and> tables (ram s') d = tables (ram s) d \<and>
     same_but (region (ram s) d lim) (ram s) (ram s') \<and>
     (\<forall>va. unat va < lim \<longrightarrow> pn va \<noteq> pn a \<longrightarrow> uview (ram s') d va = uview (ram s) d va))"
proof -
  let ?v = "frame (ram s) d a" and ?P = "insert (frame (ram s) d a) (tables (ram s) d)"
  note D = uspaceD [OF sp] and v = frameI [OF a]
  have vr: "?v \<in> region (ram s) d lim" using v by (simp add: region_def)
  have "?v \<noteq> 0" using page_facts(2) [OF D(2) [OF v]] by auto
  then obtain s1 where s1: "kfree kend s ?v = Inr s1" "free_pages kend s1 (?v # xs)" "same_outside ?v (ram s) (ram s1)"
    using kfree_free_pages [OF pt_okD(1) [OF D(1)] D(2,3) [OF v]] by blast
  have al: "aligned d" "\<forall>t \<in> tables (ram s) d. aligned t" "\<forall>v \<in> {?v}. aligned v"
    using region_pages(2) [OF sp] vr by (auto simp: region_def)
  have "same_but {?v} (ram s) (ram s1)" using same_but_outside [OF s1(3)] by simp
  from entries_same [OF this al(3,1,2)] D(4,5) [OF v]
  have E: "\<And>i. i < 1024 \<Longrightarrow> has_table (ram s1) d i = has_table (ram s) d i" "\<And>i. i < 1024 \<Longrightarrow> table_at (ram s1) d i = table_at (ram s) d i"
      "tables (ram s1) d = tables (ram s) d" "\<And>va. pte_of (ram s1) d va = pte_of (ram s) d va"
    by auto
  have ok1: "pt_ok kend s1 (?v # xs) d"
    using s1(2) pt_okD(3) [OF D(1)] pt_ok_tables(2) [OF D(1)] D(4,5) [OF v] E(1,2) by (intro pt_ok_same [OF D(1)]) auto
  have h: "has_table (ram s1) d (unat (PDX a))" using mapped_table [OF a(2)] E(1) [OF PDX_less] by blast
  let ?s = "s1\<lparr>ram := store32 (ram s1) (pte_slot (ram s) d a) 0\<rparr>"
  note st = set_pte [OF ok1 h, where w = 0, unfolded E(2) [OF PDX_less]]
  have tb: "tables (ram ?s) d = tables (ram s) d" using st(3,4) E(1,2) by (intro tables_cong) auto
  have pte: "pte_of (ram ?s) d va = (if pn va = pn a then 0 else pte_of (ram s) d va)" for va using st(2) E(4) by simp
  have mapd: "mapped (ram ?s) d va \<longleftrightarrow> pn va \<noteq> pn a \<and> mapped (ram s) d va" for va unfolding mapped_def pte by simp
  have frm: "frame (ram ?s) d va = frame (ram s) d va" if "pn va \<noteq> pn a" for va unfolding frame_def pte using that by simp
  have fr: "frames (ram ?s) d lim \<union> {?v} = frames (ram s) d lim" "?v \<notin> frames (ram ?s) d lim"
  proof -
    have "frame (ram s) d vb \<in> frames (ram ?s) d lim \<union> {?v}" if vb: "unat vb < lim" "mapped (ram s) d vb" for vb
    proof (cases "pn vb = pn a")
      case True
      then show ?thesis using pn_pte [OF True, of "ram s" d] by (simp add: frame_def)
    next
      case False
      then show ?thesis using frameI [OF vb(1), of "ram ?s" d] vb mapd frm by auto
    qed
    then have "frames (ram s) d lim \<subseteq> frames (ram ?s) d lim \<union> {?v}" unfolding frames_def [of "ram s"] by blast
    moreover have w: "w \<in> frames (ram s) d lim \<and> w \<noteq> ?v" if wf: "w \<in> frames (ram ?s) d lim" for w
    proof -
      obtain va where va: "unat va < lim" "mapped (ram ?s) d va" "w = frame (ram ?s) d va" using wf unfolding frames_def by blast
      then have o: "mapped (ram s) d va" "pn va \<noteq> pn a" "w = frame (ram s) d va" using mapd frm by auto
      then show ?thesis using frameI [OF va(1) o(1)] D(6) [OF va(1) a(1) o(1) a(2)] by auto
    qed
    ultimately show "frames (ram ?s) d lim \<union> {?v} = frames (ram s) d lim" "?v \<notin> frames (ram ?s) d lim"
      using v by blast+
  qed
  have us: "uspace kend lim ?s (?v # xs) d"
    unfolding uspace_def tb
  proof (intro conjI ballI allI impI)
    show "pt_ok kend ?s (?v # xs) d" by (rule st(1))
    fix w assume "w \<in> frames (ram ?s) d lim"
    then have w: "w \<in> frames (ram s) d lim" "w \<noteq> ?v" using fr by auto
    then show "\<not> bad_page kend w" "w \<notin> set (?v # xs)" "w \<noteq> d" "w \<notin> tables (ram s) d" using D(2-5) by auto
  next
    fix va vb assume u: "unat va < lim" "unat vb < lim" "mapped (ram ?s) d va" "mapped (ram ?s) d vb" "frame (ram ?s) d va = frame (ram ?s) d vb"
    then show "pn va = pn vb" using D(6) [OF u(1,2)] frm unfolding mapd by auto
  qed
  have rg: "insert ?v (region (ram ?s) d lim) = region (ram s) d lim" unfolding region_def tb using fr(1) by auto
  have t: "table_at (ram s) d (unat (PDX a)) \<in> tables (ram s) d" using mapped_table [OF a(2)] by (intro tableI) (simp_all add: PDX_less)
  have "same_but ?P (ram s) (ram s1)" using same_but_outside [OF s1(3)] by simp
  moreover have "same_but ?P (ram s1) (ram ?s)"
    using same_but_outside [OF same_outside_slot [OF _ PTX_less]] al(2) t by auto
  ultimately have sb: "same_but ?P (ram s) (ram ?s)" by (rule same_but_trans)
  have alP: "\<forall>v \<in> ?P. aligned v" using al by auto
  have "same_but (region (ram s) d lim) (ram s) (ram ?s)" using sb by (rule same_but_mono) (use vr in \<open>auto simp: region_def\<close>)
  moreover have "uview (ram ?s) d va = uview (ram s) d va" if "unat va < lim" "pn va \<noteq> pn a" for va
  proof (rule uview_same [OF sp sb alP])
    show "frame (ram s) d va \<notin> ?P" if m: "mapped (ram s) d va"
      using D(5) [OF frameI [OF \<open>unat va < lim\<close> m]] D(6) [OF \<open>unat va < lim\<close> a(1) m a(2)] \<open>pn va \<noteq> pn a\<close> by auto
  qed (use that pte in auto)
  ultimately show ?thesis
    unfolding Let_def using s1(1) us pte rg tb by (intro exI [of _ s1]) blast
qed

section \<open>Shrinking and freeing an address space\<close>

text \<open>All pages that start in \<open>[lo, hi)\<close> have been given back, everything else is as before.\<close>

definition in_pages :: "nat \<Rightarrow> nat \<Rightarrow> u32 \<Rightarrow> bool" where
  "in_pages lo hi va \<longleftrightarrow> lo \<le> 4096 * pn va \<and> 4096 * pn va < hi"

lemma one_page: "aligned a \<Longrightarrow> in_pages (unat a) (unat a + 4096) va \<longleftrightarrow> pn va = pn a"
  unfolding aligned_def in_pages_def by (elim dvdE) auto

lemma in_pages_step:
  assumes "aligned a" and "unat a < hi"
  shows "in_pages (unat a) hi va \<longleftrightarrow> pn va = pn a \<or> in_pages (unat a + 4096) hi va"
    and "pn va = pn a \<Longrightarrow> \<not> in_pages (unat a + 4096) hi va"
proof -
  obtain m where "unat a = 4096 * m" using assms(1) unfolding aligned_def by (elim dvdE)
  then show "in_pages (unat a) hi va \<longleftrightarrow> pn va = pn a \<or> in_pages (unat a + 4096) hi va"
    "pn va = pn a \<Longrightarrow> \<not> in_pages (unat a + 4096) hi va"
    using assms(2) by (auto simp: in_pages_def)
qed

definition shrunk :: "u32 \<Rightarrow> nat \<Rightarrow> kmem \<Rightarrow> u32 list \<Rightarrow> u32 \<Rightarrow> nat \<Rightarrow> nat \<Rightarrow> kmem \<Rightarrow> u32 list \<Rightarrow> bool" where
  "shrunk kend lim s xs d lo hi s' ys \<longleftrightarrow> uspace kend lim s' ys d \<and>
     set ys \<union> region (ram s') d lim = set xs \<union> region (ram s) d lim \<and> region (ram s') d lim \<subseteq> region (ram s) d lim \<and>
     tables (ram s') d = tables (ram s) d \<and> same_but (region (ram s) d lim) (ram s) (ram s') \<and>
     (\<forall>va. if in_pages lo hi va then \<not> mapped (ram s') d va else pte_of (ram s') d va = pte_of (ram s) d va) \<and>
     (\<forall>va. unat va < lim \<longrightarrow> \<not> in_pages lo hi va \<longrightarrow> uview (ram s') d va = uview (ram s) d va)"

lemma shrunk_refl: "uspace kend lim s xs d \<Longrightarrow> hi \<le> lo \<Longrightarrow> shrunk kend lim s xs d lo hi s xs"
  by (auto simp: shrunk_def in_pages_def)

lemma shrunk_skip:
  assumes sh: "shrunk kend lim s xs d mid hi s' ys" and "lo \<le> mid"
    and none: "\<And>va. lo \<le> 4096 * pn va \<Longrightarrow> 4096 * pn va < mid \<Longrightarrow> \<not> mapped (ram s) d va"
  shows "shrunk kend lim s xs d lo hi s' ys"
proof -
  have sub: "in_pages mid hi va \<Longrightarrow> in_pages lo hi va" for va using assms(2) by (simp add: in_pages_def)
  have "\<not> mapped (ram s') d va" if "in_pages lo hi va" for va
  proof (cases "in_pages mid hi va")
    case False
    then have "pte_of (ram s') d va = pte_of (ram s) d va" "\<not> mapped (ram s) d va"
      using sh none [of va] that by (auto simp: shrunk_def in_pages_def)
    then show ?thesis by (simp add: mapped_def)
  qed (use sh in \<open>simp add: shrunk_def\<close>)
  then show ?thesis using sh sub unfolding shrunk_def by meson
qed

lemma shrunk_page:
  assumes sp: "uspace kend lim s xs d" and a: "aligned a" "unat a < lim" "unat a < hi" and al: "\<forall>v \<in> region (ram s) d lim. aligned v"
    and s1: "uspace kend lim s1 (v # xs) d" "\<forall>va. pte_of (ram s1) d va = (if pn va = pn a then 0 else pte_of (ram s) d va)"
      "insert v (region (ram s1) d lim) = region (ram s) d lim" "same_but (region (ram s) d lim) (ram s) (ram s1)"
      "tables (ram s1) d = tables (ram s) d"
      "\<forall>va. unat va < lim \<longrightarrow> pn va \<noteq> pn a \<longrightarrow> uview (ram s1) d va = uview (ram s) d va"
    and sh: "shrunk kend lim s1 (v # xs) d (unat a + 4096) hi s' ys"
  shows "shrunk kend lim s xs d (unat a) hi s' ys"
proof -
  note iff = in_pages_step(1) [OF a(1,3)] and not = in_pages_step(2) [OF a(1,3)]
  note S = sh [unfolded shrunk_def]
  have "same_but (region (ram s) d lim) (ram s1) (ram s')" using S s1(3) by (auto elim: same_but_mono)
  with s1(4) have sb: "same_but (region (ram s) d lim) (ram s) (ram s')" by (rule same_but_trans)
  have "if in_pages (unat a) hi va then \<not> mapped (ram s') d va else pte_of (ram s') d va = pte_of (ram s) d va" for va
    using S s1(2) not [of va] unfolding iff mapped_def by (auto split: if_splits)
  moreover have "uview (ram s') d va = uview (ram s) d va" if "unat va < lim" "\<not> in_pages (unat a) hi va" for va
    using S s1(6) that unfolding iff by auto
  ultimately show ?thesis unfolding shrunk_def using S sb s1(3,5) by auto
qed

lemma next_table:
  assumes "unat a < 2147483648"
  shows "unat (PGADDR (PDX a + 1) 0 0) = 4194304 * (unat a div 4194304 + 1)"
proof -
  have "unat a div 4194304 < 512" using assms by (simp add: less_mult_imp_div_less)
  then have "unat (PDX a + 1) = unat a div 4194304 + 1" by (subst unat_add_small) (simp_all add: PDX_nat)
  then show ?thesis
    using \<open>unat a div 4194304 < 512\<close> by (simp add: PGADDR_def push_bit_eq_mult unat_word_ariths PDX_nat)
qed

lemma table_gap:
  assumes "\<not> has_table m d (unat (PDX a))" and "aligned a"
    and "unat a \<le> 4096 * pn va" and "4096 * pn va < 4194304 * (unat a div 4194304 + 1)"
  shows "\<not> mapped m d va"
proof -
  have "pn va div 1024 = unat a div 4096 div 1024" using assms(2-4) unfolding aligned_def by (elim dvdE) simp
  then have "PDX va = PDX a" by (simp add: word_unat_eq_iff PDX_nat div_mult2_eq [symmetric])
  then show ?thesis using mapped_table [of m d va] assms(1) by auto
qed

lemma page_gap:
  assumes "\<not> mapped m d a" and "aligned a" and "unat a \<le> 4096 * pn va" and "4096 * pn va < unat a + 4096"
  shows "\<not> mapped m d va"
  using assms(1,3,4) pn_pte [of va a m d] assms(2) unfolding aligned_def mapped_def by (elim dvdE) auto

lemma deallocuvm_loop_runs:
  assumes kend: "KERNBASE < kend" and hi: "unat oldsz \<le> lim" "lim \<le> 2147483648"
  shows "uspace kend lim s xs d \<Longrightarrow> aligned a \<Longrightarrow>
    \<exists>s' ys. deallocuvm_loop kend s d a oldsz = Some (Inr s') \<and> shrunk kend lim s xs d (unat a) (unat oldsz) s' ys"
proof (induction "unat oldsz - unat a" arbitrary: s xs a rule: less_induct)
  case less
  note sp = less.prems(1) and D = uspaceD [OF less.prems(1)]
  show ?case
  proof (cases "a < oldsz")
    case False
    then show ?thesis using shrunk_refl [OF sp] by (subst deallocuvm_loop.simps) (auto simp: word_less_nat_alt not_less)
  next
    case lt: True
    then have a: "unat a < unat oldsz" "unat a < lim" using hi by (auto simp: word_less_nat_alt)
    have nx: "unat (a + PGSIZE) = unat a + 4096" using a hi by (subst unat_add_small) (auto simp: PGSIZE_def)
    have al: "aligned (a + PGSIZE)" using less.prems(2) by (simp add: aligned_def nx)
    have pr: "unat oldsz - unat (a + PGSIZE) < unat oldsz - unat a" using a nx by simp
    show ?thesis
    proof (cases "has_table (ram s) d (unat (PDX a))")
      case False
      let ?n = "PGADDR (PDX a + 1) 0 0"
      have n: "unat ?n = 4194304 * (unat a div 4194304 + 1)" using a hi by (intro next_table) simp
      have "unat a < unat ?n" using n by (simp add: less_mult_imp_div_less mult.commute dividend_less_times_div)
      moreover have "aligned ?n" unfolding aligned_def n by (simp add: dvd_mult2)
      ultimately obtain s' ys where r: "deallocuvm_loop kend s d ?n oldsz = Some (Inr s')" "shrunk kend lim s xs d (unat ?n) (unat oldsz) s' ys"
        using less.hyps [of ?n s xs] sp a(1) by (metis diff_less_mono2)
      have "shrunk kend lim s xs d (unat a) (unat oldsz) s' ys"
        using shrunk_skip [OF r(2)] table_gap [OF False less.prems(2)] \<open>unat a < unat ?n\<close> n by simp
      moreover have "walkpgdir s d a False = (0, s)" using False by (simp add: walkpgdir_def has_table_def slot_def Let_def)
      ultimately show ?thesis using lt r(1) by (subst deallocuvm_loop.simps) auto
    next
      case h: True
      have w: "walkpgdir s d a False = (pte_slot (ram s) d a, s)" "pte_slot (ram s) d a \<noteq> 0" "load32 (ram s) (pte_slot (ram s) d a) = pte_of (ram s) d a"
        using walk_present [OF h] slot_nonzero [OF pt_okD(4) [OF D(1) PDX_less h] PTX_less] pte_at_slot [OF h] by auto
      show ?thesis
      proof (cases "mapped (ram s) d a")
        case False
        obtain s' ys where r: "deallocuvm_loop kend s d (a + PGSIZE) oldsz = Some (Inr s')"
            "shrunk kend lim s xs d (unat (a + PGSIZE)) (unat oldsz) s' ys"
          using less.hyps [OF pr sp al] by blast
        have "shrunk kend lim s xs d (unat a) (unat oldsz) s' ys"
          using shrunk_skip [OF r(2)] page_gap [OF False less.prems(2)] nx by simp
        then show ?thesis using lt w False r(1) by (subst deallocuvm_loop.simps) (auto simp: mapped_def)
      next
        case True
        let ?v = "frame (ram s) d a"
        obtain s1 where s1: "kfree kend s ?v = Inr s1"
            "uspace kend lim (s1\<lparr>ram := store32 (ram s1) (pte_slot (ram s) d a) 0\<rparr>) (?v # xs) d"
            "\<forall>va. pte_of (store32 (ram s1) (pte_slot (ram s) d a) 0) d va = (if pn va = pn a then 0 else pte_of (ram s) d va)"
            "insert ?v (region (store32 (ram s1) (pte_slot (ram s) d a) 0) d lim) = region (ram s) d lim"
            "tables (store32 (ram s1) (pte_slot (ram s) d a) 0) d = tables (ram s) d"
            "same_but (region (ram s) d lim) (ram s) (store32 (ram s1) (pte_slot (ram s) d a) 0)"
            "\<forall>va. unat va < lim \<longrightarrow> pn va \<noteq> pn a \<longrightarrow> uview (store32 (ram s1) (pte_slot (ram s) d a) 0) d va = uview (ram s) d va"
          using remove_page [OF sp a(2) True] unfolding Let_def by auto
        let ?s = "s1\<lparr>ram := store32 (ram s1) (pte_slot (ram s) d a) 0\<rparr>"
        obtain s' ys where r: "deallocuvm_loop kend ?s d (a + PGSIZE) oldsz = Some (Inr s')"
            "shrunk kend lim ?s (?v # xs) d (unat a + 4096) (unat oldsz) s' ys"
          using less.hyps [OF pr s1(2) al] unfolding nx by blast
        have "shrunk kend lim s xs d (unat a) (unat oldsz) s' ys"
          using s1 r(2) region_pages(2) [OF sp] by (intro shrunk_page [OF sp less.prems(2) a(2,1)]) auto
        moreover have "PTE_ADDR (pte_of (ram s) d a) \<noteq> 0"
          using D(2) [OF frameI [OF a(2) True]] kend by (auto simp: frame_def P2V_def bad_page_def)
        ultimately show ?thesis using lt w True s1(1) r(1) by (subst deallocuvm_loop.simps) (auto simp: mapped_def frame_def)
      qed
    qed
  qed
qed

lemma deallocuvm_runs:
  assumes "KERNBASE < kend" and "unat oldsz \<le> lim" "lim \<le> 2147483648" and "uspace kend lim s xs d" and "newsz < oldsz"
  shows "\<exists>s' ys. deallocuvm kend s d oldsz newsz = Some (Inr (newsz, s')) \<and>
    shrunk kend lim s xs d (unat (PGROUNDUP newsz)) (unat oldsz) s' ys"
proof -
  have "unat newsz + 4095 < 4294967296" using assms(2,3,5) by (simp add: word_less_nat_alt)
  then have "aligned (PGROUNDUP newsz)" by (simp add: aligned_def unat_PGROUNDUP)
  from deallocuvm_loop_runs [OF assms(1-4) this] show ?thesis using assms(5) by (auto simp: deallocuvm_def)
qed

text \<open>The end of the private part of an address space; above it are the shared pages.\<close>

definition ULIM :: nat where
  "ULIM = 2147467264"

lemma ULIM_eq: "unat (KERNBASE - of_nat NSHAREPAGE * PGSIZE) = ULIM"
  by (simp add: ULIM_def KERNBASE_def NSHAREPAGE_def PGSIZE_def)

definition tables_from :: "mem \<Rightarrow> u32 \<Rightarrow> nat \<Rightarrow> u32 set" where
  "tables_from m d i = {table_at m d j | j. i \<le> j \<and> j < 1024 \<and> has_table m d j}"

lemma tables_from_step:
  "i < 1024 \<Longrightarrow> tables_from m d i = (if has_table m d i then insert (table_at m d i) (tables_from m d (Suc i)) else tables_from m d (Suc i))"
  unfolding tables_from_def by (auto simp: Suc_le_eq le_less)

lemma tables_from_all: "tables_from m d 0 = tables m d"
  by (auto simp: tables_from_def tables_def)

lemma freevm_tables_runs:
  assumes "free_pages kend s xs" and "\<not> bad_page kend d"
    and "\<forall>t \<in> tables_from (ram s) d i. \<not> bad_page kend t \<and> t \<notin> set xs \<and> t \<noteq> d"
    and "inj_on (table_at (ram s) d) {j. i \<le> j \<and> j < 1024 \<and> has_table (ram s) d j}"
  shows "\<exists>s' ys. freevm_tables kend s d i = Some (Inr s') \<and> free_pages kend s' ys \<and> set ys = set xs \<union> tables_from (ram s) d i \<and>
    same_but (tables_from (ram s) d i) (ram s) (ram s')"
  using assms
proof (induction "1024 - i" arbitrary: s xs i)
  case 0
  then have "tables_from (ram s) d i = {}" by (auto simp: tables_from_def)
  then show ?case using 0 by (subst freevm_tables.simps) auto
next
  case (Suc n)
  then have i: "i < 1024" "n = 1024 - Suc i" by auto
  let ?t = "table_at (ram s) d i"
  show ?case
  proof (cases "has_table (ram s) d i")
    case False
    then have "\<not> present (load32 (ram s) (d + 4 * of_nat i))" by (simp add: has_table_def slot_def)
    then have f: "freevm_tables kend s d i = freevm_tables kend s d (Suc i)" using i by (subst freevm_tables.simps) simp
    have "tables_from (ram s) d i = tables_from (ram s) d (Suc i)" using tables_from_step [OF i(1)] False by simp
    moreover have "inj_on (table_at (ram s) d) {j. Suc i \<le> j \<and> j < 1024 \<and> has_table (ram s) d j}"
      using Suc.prems(4) by (rule inj_on_subset) auto
    ultimately show ?thesis unfolding f using Suc.hyps(1) [OF i(2) Suc.prems(1,2)] Suc.prems(3) by simp
  next
    case True
    have tf: "tables_from (ram s) d i = insert ?t (tables_from (ram s) d (Suc i))" using tables_from_step [OF i(1)] True by simp
    then have t: "\<not> bad_page kend ?t" "?t \<notin> set xs" "?t \<noteq> d" using Suc.prems(3) by auto
    moreover have "?t \<noteq> 0" using page_facts(2) [OF t(1)] by auto
    ultimately obtain s1 where s1: "kfree kend s ?t = Inr s1" "free_pages kend s1 (?t # xs)" "same_outside ?t (ram s) (ram s1)"
      using kfree_free_pages [OF Suc.prems(1)] by blast
    have "load32 (ram s1) (slot d j) = load32 (ram s) (slot d j)" if "j < 1024" for j
      using load32_outside_slot [OF page_facts(1) [OF Suc.prems(2)] page_facts(1) [OF t(1)] t(3) [symmetric] that s1(3)] .
    then have E: "has_table (ram s1) d j = has_table (ram s) d j" "table_at (ram s1) d j = table_at (ram s) d j" if "j < 1024" for j
      using that by (simp_all add: has_table_def table_at_def)
    have tf1: "tables_from (ram s1) d (Suc i) = tables_from (ram s) d (Suc i)" unfolding tables_from_def using E by metis
    have new: "?t \<notin> tables_from (ram s) d (Suc i)"
      using inj_onD [OF Suc.prems(4)] True i(1) unfolding tables_from_def by fastforce
    have "\<forall>u \<in> tables_from (ram s1) d (Suc i). \<not> bad_page kend u \<and> u \<notin> set (?t # xs) \<and> u \<noteq> d"
      using Suc.prems(3) new unfolding tf tf1 by auto
    moreover have "inj_on (table_at (ram s1) d) {j. Suc i \<le> j \<and> j < 1024 \<and> has_table (ram s1) d j}"
      using inj_onD [OF Suc.prems(4)] E by (intro inj_onI) auto
    ultimately obtain s' ys where r: "freevm_tables kend s1 d (Suc i) = Some (Inr s')" "free_pages kend s' ys"
        "set ys = set (?t # xs) \<union> tables_from (ram s) d (Suc i)" "same_but (tables_from (ram s) d (Suc i)) (ram s1) (ram s')"
      using Suc.hyps(1) [OF i(2) s1(2) Suc.prems(2)] unfolding tf1 by blast
    have "same_but (tables_from (ram s) d i) (ram s) (ram s')"
      using same_but_trans [OF same_but_outside [OF s1(3), of "tables_from (ram s) d i"] same_but_mono [OF r(4)]] unfolding tf by auto
    moreover have "freevm_tables kend s d i = Some (Inr s')"
      using i(1) True s1(1) r(1) by (subst freevm_tables.simps) (simp add: has_table_def slot_def table_at_def)
    ultimately show ?thesis using r(2,3) unfolding tf by auto
  qed
qed

lemma freevm_runs:
  assumes "KERNBASE < kend" and sp: "uspace kend ULIM s xs d"
  shows "\<exists>s' ys. freevm kend s d = Some (Inr s') \<and> free_pages kend s' ys \<and> set ys = set xs \<union> region (ram s) d ULIM \<and>
    same_but (region (ram s) d ULIM) (ram s) (ram s')"
proof -
  have "0 < KERNBASE - of_nat NSHAREPAGE * PGSIZE" by (simp add: KERNBASE_def NSHAREPAGE_def PGSIZE_def)
  moreover have "PGROUNDUP 0 = 0" by (simp add: PGROUNDUP_def PGSIZE_def)
  ultimately obtain s1 ys where s1: "deallocuvm kend s d (KERNBASE - of_nat NSHAREPAGE * PGSIZE) 0 = Some (Inr (0, s1))"
      "shrunk kend ULIM s xs d 0 ULIM s1 ys"
    using deallocuvm_runs [OF assms(1) _ _ sp, of "KERNBASE - of_nat NSHAREPAGE * PGSIZE" 0] by (auto simp: ULIM_eq) (auto simp: ULIM_def)
  have sp1: "uspace kend ULIM s1 ys d" using s1(2) by (simp add: shrunk_def)
  note D = uspaceD(1) [OF sp1] pt_okD [OF uspaceD(1) [OF sp1]]
  have "\<not> mapped (ram s1) d va" if "unat va < ULIM" for va
    using s1(2) that by (auto simp: shrunk_def in_pages_def dest: spec [of _ va])
  then have "frames (ram s1) d ULIM = {}" by (auto simp: frames_def)
  then have rg: "region (ram s1) d ULIM = insert d (tables (ram s1) d)" by (simp add: region_def)
  obtain s2 zs where s2: "freevm_tables kend s1 d 0 = Some (Inr s2)" "free_pages kend s2 zs" "set zs = set ys \<union> tables (ram s1) d"
      "same_but (tables (ram s1) d) (ram s1) (ram s2)"
    using freevm_tables_runs [OF D(2,3), of 0] pt_ok_tables [OF D(1)] D(8) unfolding tables_from_all inj_on_def by auto
  have d: "d \<notin> set zs" "d \<noteq> 0" using s2(3) D(4) pt_ok_tables(3) [OF D(1)] page_facts(2) [OF D(3)] by auto
  obtain s3 where s3: "kfree kend s2 d = Inr s3" "free_pages kend s3 (d # zs)" "same_outside d (ram s2) (ram s3)"
    using kfree_free_pages [OF s2(2) D(3) d] by blast
  have "region (ram s1) d ULIM \<subseteq> region (ram s) d ULIM" using s1(2) by (simp add: shrunk_def)
  then have "same_but (region (ram s) d ULIM) (ram s1) (ram s2)" "same_but (region (ram s) d ULIM) (ram s2) (ram s3)"
    using same_but_mono [OF s2(4)] same_but_outside [OF s3(3)] unfolding rg by auto
  then have "same_but (region (ram s) d ULIM) (ram s) (ram s3)"
    using s1(2) same_but_trans unfolding shrunk_def by metis
  moreover have "set (d # zs) = set xs \<union> region (ram s) d ULIM"
    using s1(2) s2(3) rg by (auto simp: shrunk_def)
  moreover have "freevm kend s d = Some (Inr s3)" using d(2) s1(1) s2(1) s3(1) by (simp add: freevm_def)
  ultimately show ?thesis using s3(2) by blast
qed

section \<open>Growing an address space\<close>

text \<open>A page taken from the free list and filled; the address space does not notice.\<close>

lemma take_page:
  assumes sp: "uspace kend lim s (x # xs) d" and m: "same_outside x (ram s) m"
  shows "\<exists>s1. kalloc s = (x, s1) \<and> x \<noteq> 0 \<and> ram s1 = ram s \<and> uspace kend lim (s1\<lparr>ram := m\<rparr>) xs d \<and>
    region m d lim = region (ram s) d lim \<and> (\<forall>va. pte_of m d va = pte_of (ram s) d va) \<and>
    (\<forall>va. unat va < lim \<longrightarrow> uview m d va = uview (ram s) d va) \<and> \<not> bad_page kend x \<and> x \<notin> set xs \<and> x \<notin> region (ram s) d lim"
proof -
  note D = pt_okD(1) [OF uspaceD(1) [OF sp]]
  obtain s1 where s1: "kalloc s = (x, s1)" "x \<noteq> 0" "free_pages kend s1 xs" "ram s1 = ram s" using kalloc_Cons [OF D] by blast
  have x: "\<not> bad_page kend x" "x \<notin> set xs" using D by (auto simp: free_pages_def)
  have xr: "x \<notin> region (ram s) d lim" "region (ram s) d lim \<inter> set xs = {}" using region_pages(3) [OF sp] by auto
  have fp: "free_pages kend (s1\<lparr>ram := m\<rparr>) xs" using free_pages_change [OF s1(3) x] m s1(4) by simp
  have "same_but {x} (ram s) m" using same_but_outside [OF m] by simp
  then show ?thesis
    using uspace_frame [OF sp, of "{x}" "s1\<lparr>ram := m\<rparr>" xs] fp xr x s1 page_facts(1) [OF x(1)] by auto
qed

definition enlarged :: "u32 \<Rightarrow> nat \<Rightarrow> kmem \<Rightarrow> u32 list \<Rightarrow> u32 \<Rightarrow> nat \<Rightarrow> nat \<Rightarrow> kmem \<Rightarrow> u32 list \<Rightarrow> bool" where
  "enlarged kend lim s xs d lo hi s' ys \<longleftrightarrow> uspace kend lim s' ys d \<and>
     set ys \<union> region (ram s') d lim = set xs \<union> region (ram s) d lim \<and> same_but (set xs \<union> region (ram s) d lim) (ram s) (ram s') \<and>
     (\<forall>va. \<not> in_pages lo hi va \<longrightarrow> pte_of (ram s') d va = pte_of (ram s) d va) \<and>
     (\<forall>va. unat va < lim \<longrightarrow> uview (ram s') d va = (if in_pages lo hi va then Some (PTE_W OR PTE_U OR PTE_P, 0) else uview (ram s) d va))"

text \<open>Growing gave up: nothing is mapped in the range, and only page tables may have been added.\<close>

definition gave_up :: "u32 \<Rightarrow> nat \<Rightarrow> kmem \<Rightarrow> u32 list \<Rightarrow> u32 \<Rightarrow> nat \<Rightarrow> nat \<Rightarrow> kmem \<Rightarrow> u32 list \<Rightarrow> bool" where
  "gave_up kend lim s xs d lo hi s' ys \<longleftrightarrow> uspace kend lim s' ys d \<and>
     set ys \<union> region (ram s') d lim = set xs \<union> region (ram s) d lim \<and> same_but (set xs \<union> region (ram s) d lim) (ram s) (ram s') \<and>
     (\<forall>va. if in_pages lo hi va then \<not> mapped (ram s') d va else pte_of (ram s') d va = pte_of (ram s) d va) \<and>
     (\<forall>va. unat va < lim \<longrightarrow> \<not> in_pages lo hi va \<longrightarrow> uview (ram s') d va = uview (ram s) d va)"

lemma grow_page:
  assumes sp: "uspace kend lim s (x # xs) d" and a: "aligned a" "unat a < lim" "\<not> mapped (ram s) d a"
  obtains (mapped) s1 s' ys where "kalloc s = (x, s1)" "x \<noteq> 0"
      "mappages (s1\<lparr>ram := memset (ram s1) x 0 PGSIZE\<rparr>) d a PGSIZE (V2P x) (PTE_W OR PTE_U) = Some (Inr (0, s'))"
      "enlarged kend lim s (x # xs) d (unat a) (unat a + 4096) s' ys"
  | (no_table) s1 s' where "kalloc s = (x, s1)" "x \<noteq> 0" "xs = []" "s' = s1\<lparr>ram := memset (ram s1) x 0 PGSIZE\<rparr>"
      "mappages s' d a PGSIZE (V2P x) (PTE_W OR PTE_U) = Some (Inr (-1, s'))" "\<not> bad_page kend x"
      "uspace kend lim s' [] d" "region (ram s') d lim = region (ram s) d lim" "x \<notin> region (ram s) d lim"
      "\<And>va. pte_of (ram s') d va = pte_of (ram s) d va" "same_but {x} (ram s) (ram s')"
      "\<And>va. unat va < lim \<Longrightarrow> uview (ram s') d va = uview (ram s) d va"
proof -
  let ?m = "memset (ram s) x 0 PGSIZE" and ?perm = "PTE_W OR PTE_U"
  obtain s1 where s1: "kalloc s = (x, s1)" "x \<noteq> 0" "ram s1 = ram s" and S: "uspace kend lim (s1\<lparr>ram := ?m\<rparr>) xs d"
      "region ?m d lim = region (ram s) d lim" "\<And>va. pte_of ?m d va = pte_of (ram s) d va"
      "\<And>va. unat va < lim \<Longrightarrow> uview ?m d va = uview (ram s) d va" and x: "\<not> bad_page kend x" "x \<notin> set xs" "x \<notin> region (ram s) d lim"
    using take_page [OF sp same_outside_memset] by metis
  let ?s = "s1\<lparr>ram := ?m\<rparr>"
  have sb: "same_but {x} (ram s) ?m" using same_but_outside [OF same_outside_memset] by simp
  have np: "\<not> present (pte_of (ram ?s) d a)" using a(3) S(3) by (simp add: mapped_def)
  consider "mappages ?s d a PGSIZE (V2P x) ?perm = Some (Inr (-1, ?s))" "xs = []"
    | s' xs' where "mappages ?s d a PGSIZE (V2P x) ?perm = Some (Inr (0, s'))" "mapped_page kend ?s xs d a (V2P x OR ?perm OR PTE_P) s' xs'"
    using mappages_page [OF uspaceD(1) [OF S(1)] a(1) np] by blast
  then show thesis
  proof cases
    case 1
    then show thesis using no_table [of s1 ?s] s1 x S sb by simp
  next
    case (2 s' xs')
    have perm: "?perm AND 0xFFF = ?perm" by (simp add: PTE_W_def PTE_U_def)
    have "x \<notin> region (ram ?s) d lim" "\<not> mapped (ram ?s) d a" using x(3) S(2) np by (simp_all add: mapped_def)
    note A = add_page [OF S(1) 2(2) x(1,2) this(1) a(2) this(2) perm]
    have zero: "?m (x + of_nat i) = 0" if "i < 4096" for i
      using that by (simp add: memset_filled filled_def PGSIZE_def)
    have "same_but (set (x # xs) \<union> region (ram s) d lim) ?m (ram s')"
      using 2(2) uspaceD(1) [OF S(1)] S(2) by (auto simp: mapped_page_def region_def elim!: same_but_mono)
    with same_but_mono [OF sb] have "same_but (set (x # xs) \<union> region (ram s) d lim) (ram s) (ram s')"
      by (rule same_but_trans) simp
    moreover have "pte_of (ram s') d va = pte_of (ram s) d va" if "pn va \<noteq> pn a" for va
      using 2(2) S(3) that by (simp add: mapped_page_def)
    ultimately have "enlarged kend lim s (x # xs) d (unat a) (unat a + 4096) s' xs'"
      unfolding enlarged_def one_page [OF a(1)] using A(1,2) A(3) S(2,4) zero by (auto simp: or.assoc)
    then show thesis using mapped [of s1 s' xs'] s1 2(1) by simp
  qed
qed

lemma enlarged_none: "uspace kend lim s xs d \<Longrightarrow> hi \<le> lo \<Longrightarrow> enlarged kend lim s xs d lo hi s xs"
  by (auto simp: enlarged_def in_pages_def)

lemma enlarged_step:
  assumes g: "enlarged kend lim s xs d (unat a) (unat a + 4096) s1 ys" and a: "aligned a" "unat a < hi"
    and h: "enlarged kend lim s1 ys d (unat a + 4096) hi s' zs"
  shows "enlarged kend lim s xs d (unat a) hi s' zs"
  unfolding enlarged_def in_pages_step(1) [OF a]
  using g h in_pages_step(2) [OF a] same_but_trans [of "set xs \<union> region (ram s) d lim"] unfolding enlarged_def one_page [OF a(1)] by auto

lemma gave_up_step:
  assumes g: "enlarged kend lim s xs d (unat a) (unat a + 4096) s1 ys" and lo: "lo \<le> unat a" "aligned a" "unat a < hi"
    and h: "gave_up kend lim s1 ys d lo hi s' zs"
  shows "gave_up kend lim s xs d lo hi s' zs"
proof -
  have sub: "pn va = pn a \<Longrightarrow> in_pages lo hi va" for va
    using lo in_pages_step(1) [OF lo(2,3), of va] by (auto simp: in_pages_def)
  note G = g [unfolded enlarged_def one_page [OF lo(2)]] and H = h [unfolded gave_up_def]
  have "same_but (set xs \<union> region (ram s) d lim) (ram s) (ram s')"
    using G H same_but_trans [of "set xs \<union> region (ram s) d lim"] by auto
  moreover have "if in_pages lo hi va then \<not> mapped (ram s') d va else pte_of (ram s') d va = pte_of (ram s) d va" for va
    using G H sub [of va] by auto
  moreover have "uview (ram s') d va = uview (ram s) d va" if "unat va < lim" "\<not> in_pages lo hi va" for va
    using G H sub [of va] that by auto
  ultimately show ?thesis unfolding gave_up_def using G H by auto
qed

lemma gave_up_shrunk:
  assumes sh: "shrunk kend lim s1 zs d lo hi s' ys"
    and s1: "region (ram s1) d lim = region (ram s) d lim" "\<And>va. pte_of (ram s1) d va = pte_of (ram s) d va"
      "\<And>va. unat va < lim \<Longrightarrow> uview (ram s1) d va = uview (ram s) d va"
      "same_but (set xs) (ram s) (ram s1)" "set zs \<subseteq> set xs"
    and s2: "uspace kend lim s2 ws d" "set ws \<union> region (ram s2) d lim = set xs \<union> region (ram s) d lim"
      "same_but (set xs) (ram s') (ram s2)" "\<And>va. pte_of (ram s2) d va = pte_of (ram s') d va"
      "\<And>va. unat va < lim \<Longrightarrow> uview (ram s2) d va = uview (ram s') d va"
  shows "gave_up kend lim s xs d lo hi s2 ws"
proof -
  let ?R = "set xs \<union> region (ram s) d lim"
  note S = sh [unfolded shrunk_def]
  have "same_but ?R (ram s) (ram s1)" "same_but ?R (ram s1) (ram s')" "same_but ?R (ram s') (ram s2)"
    using S s1(1,4) s2(3) by (auto elim: same_but_mono)
  then have "same_but ?R (ram s) (ram s2)" by (meson same_but_trans)
  moreover have "if in_pages lo hi va then \<not> mapped (ram s2) d va else pte_of (ram s2) d va = pte_of (ram s) d va" for va
    using S s1(2) s2(4) unfolding mapped_def by metis
  moreover have "uview (ram s2) d va = uview (ram s) d va" if "unat va < lim" "\<not> in_pages lo hi va" for va
    using S s1(3) s2(5) that by simp
  ultimately show ?thesis unfolding gave_up_def using s2(1,2) by blast
qed

text \<open>Out of pages for a table: the page that was just taken goes back last.\<close>

lemma give_back:
  assumes sp: "uspace kend lim s ys d" and x: "\<not> bad_page kend x" "x \<notin> set ys" "x \<notin> region (ram s) d lim"
  shows "\<exists>s'. kfree kend s x = Inr s' \<and> uspace kend lim s' (x # ys) d \<and> region (ram s') d lim = region (ram s) d lim \<and>
    same_but {x} (ram s) (ram s') \<and> (\<forall>va. pte_of (ram s') d va = pte_of (ram s) d va) \<and>
    (\<forall>va. unat va < lim \<longrightarrow> uview (ram s') d va = uview (ram s) d va)"
proof -
  have "x \<noteq> 0" using page_facts(2) [OF x(1)] by auto
  then obtain s' where s': "kfree kend s x = Inr s'" "free_pages kend s' (x # ys)" "same_outside x (ram s) (ram s')"
    using kfree_free_pages [OF pt_okD(1) [OF uspaceD(1) [OF sp]] x(1,2)] by blast
  have "same_but {x} (ram s) (ram s')" using same_but_outside [OF s'(3)] by simp
  then show ?thesis
    using uspace_frame [OF sp, of "{x}" s' "x # ys"] s' x region_pages(3) [OF sp] page_facts(1) [OF x(1)] by auto
qed

lemma allocuvm_loop_runs:
  assumes kend: "KERNBASE < kend" and hi: "unat newsz \<le> lim" "lim \<le> 2147483648" and old: "oldsz < newsz"
  shows "uspace kend lim s xs d \<Longrightarrow> aligned a \<Longrightarrow> unat (PGROUNDUP oldsz) \<le> unat a \<Longrightarrow>
    \<forall>va. in_pages (unat a) (unat newsz) va \<longrightarrow> \<not> mapped (ram s) d va \<Longrightarrow>
    \<exists>r s' ys. allocuvm_loop kend s d oldsz newsz a = Some (Inr (r, s')) \<and>
      (r = newsz \<and> enlarged kend lim s xs d (unat a) (unat newsz) s' ys \<or>
       r = 0 \<and> gave_up kend lim s xs d (unat (PGROUNDUP oldsz)) (unat newsz) s' ys)"
proof (induction "unat newsz - unat a" arbitrary: s xs a rule: less_induct)
  case less
  note sp = less.prems(1)
  let ?lo = "unat (PGROUNDUP oldsz)" and ?hi = "unat newsz"
  show ?case
  proof (cases "a < newsz")
    case False
    then show ?thesis using enlarged_none [OF sp] by (subst allocuvm_loop.simps) (auto simp: word_less_nat_alt not_less)
  next
    case lt: True
    then have a: "unat a < ?hi" "unat a < lim" using hi by (auto simp: word_less_nat_alt)
    have nx: "unat (a + PGSIZE) = unat a + 4096" using a hi by (subst unat_add_small) (auto simp: PGSIZE_def)
    have al: "aligned (a + PGSIZE)" using less.prems(2) by (simp add: aligned_def nx)
    have pr: "?hi - unat (a + PGSIZE) < ?hi - unat a" using a nx by simp
    have na: "\<not> mapped (ram s) d a"
      using less.prems(2,4) a(1) unfolding aligned_def in_pages_def by (elim dvdE) auto
    show ?thesis
    proof (cases xs)
      case Nil
      then have k: "kalloc s = (0, s)" using kalloc_Nil pt_okD(1) [OF uspaceD(1) [OF sp]] by simp
      obtain s' ys where sh: "deallocuvm kend s d newsz oldsz = Some (Inr (oldsz, s'))" "shrunk kend lim s xs d ?lo ?hi s' ys"
        using deallocuvm_runs [OF kend hi sp old] by blast
      have "gave_up kend lim s xs d ?lo ?hi s' ys"
        using sh(2) by (auto simp: shrunk_def gave_up_def elim: same_but_mono)
      then show ?thesis using lt k sh(1) by (subst allocuvm_loop.simps) auto
    next
      case (Cons x xs')
      show ?thesis
      proof (rule grow_page [OF sp [unfolded Cons] less.prems(2) a(2) na])
        fix s1 s2 ys
        assume m: "kalloc s = (x, s1)" "x \<noteq> 0" "enlarged kend lim s (x # xs') d (unat a) (unat a + 4096) s2 ys"
          "mappages (s1\<lparr>ram := memset (ram s1) x 0 PGSIZE\<rparr>) d a PGSIZE (V2P x) (PTE_W OR PTE_U) = Some (Inr (0, s2))"
        have "\<forall>va. in_pages (unat a + 4096) ?hi va \<longrightarrow> \<not> mapped (ram s2) d va"
          using m(3) less.prems(4) in_pages_step [OF less.prems(2) a(1)] unfolding enlarged_def one_page [OF less.prems(2)] mapped_def by metis
        then obtain r s' zs where r: "allocuvm_loop kend s2 d oldsz newsz (a + PGSIZE) = Some (Inr (r, s'))"
            "r = newsz \<and> enlarged kend lim s2 ys d (unat a + 4096) ?hi s' zs \<or> r = 0 \<and> gave_up kend lim s2 ys d ?lo ?hi s' zs"
          using less.hyps [OF pr _ al, of s2 ys] m(3) less.prems(3) unfolding nx enlarged_def [of _ _ s] by (metis trans_le_add1)
        have "allocuvm_loop kend s d oldsz newsz a = Some (Inr (r, s'))" using lt m r(1) by (subst allocuvm_loop.simps) simp
        then show ?thesis
          using r(2) enlarged_step [OF m(3) less.prems(2) a(1)] gave_up_step [OF m(3) less.prems(3,2) a(1)] unfolding Cons by blast
      next
        fix s1 s2
        assume k: "kalloc s = (x, s1)" "x \<noteq> 0" "xs' = []" "s2 = s1\<lparr>ram := memset (ram s1) x 0 PGSIZE\<rparr>"
          "mappages s2 d a PGSIZE (V2P x) (PTE_W OR PTE_U) = Some (Inr (-1, s2))" "\<not> bad_page kend x"
          "uspace kend lim s2 [] d" "region (ram s2) d lim = region (ram s) d lim" "x \<notin> region (ram s) d lim"
          "\<And>va. pte_of (ram s2) d va = pte_of (ram s) d va" "same_but {x} (ram s) (ram s2)"
          "\<And>va. unat va < lim \<Longrightarrow> uview (ram s2) d va = uview (ram s) d va"
        obtain s3 ys where sh: "deallocuvm kend s2 d newsz oldsz = Some (Inr (oldsz, s3))" "shrunk kend lim s2 [] d ?lo ?hi s3 ys"
          using deallocuvm_runs [OF kend hi k(7) old] by blast
        have "set ys \<union> region (ram s3) d lim = region (ram s) d lim" "uspace kend lim s3 ys d" using sh(2) k(8) by (auto simp: shrunk_def)
        then obtain s' where f: "kfree kend s3 x = Inr s'" "uspace kend lim s' (x # ys) d" "region (ram s') d lim = region (ram s3) d lim"
            "same_but {x} (ram s3) (ram s')" "\<And>va. pte_of (ram s') d va = pte_of (ram s3) d va"
            "\<And>va. unat va < lim \<Longrightarrow> uview (ram s') d va = uview (ram s3) d va"
          using give_back [of kend lim s3 ys d x] k(6,9) by blast
        have "gave_up kend lim s xs d ?lo ?hi s' (x # ys)"
          using \<open>set ys \<union> _ = _\<close> k(3,8,10-) f by (intro gave_up_shrunk [OF sh(2)]) (auto simp: Cons)
        then show ?thesis using lt k(1,2,4,5) sh(1) f(1) by (subst allocuvm_loop.simps) auto
      qed
    qed
  qed
qed

text \<open>An empty address space.\<close>

lemma fresh_uspace:
  assumes "free_pages kend s (x # xs)"
  obtains s1 s2 where "kalloc s = (x, s1)" "x \<noteq> 0" "s2 = s1\<lparr>ram := memset (ram s1) x 0 PGSIZE\<rparr>" "ram s1 = ram s"
    "uspace kend lim s2 xs x" "region (ram s2) x lim = {x}" "\<And>va. pte_of (ram s2) x va = 0" "same_but {x} (ram s) (ram s2)"
proof -
  obtain s1 where s1: "kalloc s = (x, s1)" "x \<noteq> 0" "ram s1 = ram s" using kalloc_Cons [OF assms] by blast
  let ?s = "s1\<lparr>ram := memset (ram s1) x 0 PGSIZE\<rparr>"
  have x: "\<not> bad_page kend x" using assms by (auto simp: free_pages_def)
  have ok: "pt_ok kend ?s xs x" "\<And>va. pte_of (ram ?s) x va = 0" using fresh_pgdir [OF assms] s1(1) by auto
  have "\<not> has_table (ram ?s) x i" if "i < 1024" for i
    using load32_zero_page [OF page_facts(1) [OF x] that] by (simp add: has_table_def)
  then have "tables (ram ?s) x = {}" by (auto simp: tables_def)
  moreover have fr: "frames (ram ?s) x lim = {}" by (simp only: frames_def mapped_def ok(2)) simp
  ultimately have "region (ram ?s) x lim = {x}" by (simp add: region_def)
  moreover have "uspace kend lim ?s xs x" unfolding uspace_def fr mapped_def ok(2) using ok(1) by simp
  moreover have "same_but {x} (ram s) (ram ?s)" using same_but_outside [OF same_outside_memset] s1(3) by simp
  ultimately show thesis using that [OF s1(1,2) refl s1(3)] ok(2) by blast
qed

end
