(* ===== verification/Uspace.thy ===== *)
theory Uspace
  imports Uvm
begin

text \<open>
  What the system calls on memory do to an address space, \<^verbatim>\<open>growproc\<close> of \<^verbatim>\<open>proc.c\<close> and the routines of \<^verbatim>\<open>vm.c\<close> in part 1:
  growing, shrinking and freeing, in terms of the pages a process owns and the bytes it sees.
\<close>

section \<open>Growing and shrinking a process\<close>

text \<open>\<^verbatim>\<open>growproc\<close>; the size of the process after adding \<^verbatim>\<open>n\<close> wraps around at 32 bits.\<close>

definition growproc_pages :: "u32 \<Rightarrow> kmem \<Rightarrow> vmproc \<Rightarrow> int \<Rightarrow> (int \<times> vmproc \<times> kmem) res option" where
  "growproc_pages kend s p n =
     (if n > 0 then
        obind (allocuvm kend s (vpgdir p) (vsz p) (vsz p + of_int n)) (\<lambda>(sz, s).
          if sz = 0 then oret (-1, p, s) else oret (0, p\<lparr>vsz := sz\<rparr>, s))
      else if n < 0 then
        obind (deallocuvm kend s (vpgdir p) (vsz p) (vsz p + of_int n)) (\<lambda>(sz, s).
          if sz = 0 then oret (-1, p, s) else oret (0, p\<lparr>vsz := sz\<rparr>, s))
      else oret (0, p, s))"

lemma allocuvm_runs:
  assumes "KERNBASE < kend" and "unat newsz \<le> lim" "lim \<le> 2147483648" "unat newsz < 2147483648" and sp: "uspace kend lim s xs d"
    and "oldsz \<le> newsz" and "\<forall>va. in_pages (unat (PGROUNDUP oldsz)) (unat newsz) va \<longrightarrow> \<not> mapped (ram s) d va"
  shows "\<exists>r s' ys. allocuvm kend s d oldsz newsz = Some (Inr (r, s')) \<and>
    (r = newsz \<and> enlarged kend lim s xs d (unat (PGROUNDUP oldsz)) (unat newsz) s' ys \<or>
     r = 0 \<and> gave_up kend lim s xs d (unat (PGROUNDUP oldsz)) (unat newsz) s' ys)"
proof -
  have k: "\<not> newsz \<ge> KERNBASE" using assms(4) by (simp add: KERNBASE_def word_le_nat_alt)
  have "unat oldsz + 4095 < 4294967296" using assms(4,6) by (simp add: word_le_nat_alt)
  then have u: "unat (PGROUNDUP oldsz) = (unat oldsz + 4095) div 4096 * 4096" using unat_PGROUNDUP by simp
  show ?thesis
  proof (cases "oldsz < newsz")
    case True
    have "aligned (PGROUNDUP oldsz)" by (simp add: aligned_def u)
    moreover have "\<not> newsz < oldsz" using True by simp
    ultimately show ?thesis
      using allocuvm_loop_runs [OF assms(1-3) True sp _ _ assms(7)] k by (simp add: allocuvm_def)
  next
    case False
    then have eq: "newsz = oldsz" using assms(6) by simp
    have le: "unat newsz \<le> unat (PGROUNDUP oldsz)" unfolding u eq by linarith
    then have "allocuvm_loop kend s d oldsz newsz (PGROUNDUP oldsz) = Some (Inr (newsz, s))"
      by (subst allocuvm_loop.simps) (simp add: word_less_nat_alt not_less)
    then show ?thesis using k assms(6) enlarged_none [OF sp le] by (auto simp: allocuvm_def)
  qed
qed

lemma uview_None: "uview m d va = None \<longleftrightarrow> \<not> mapped m d va"
  by (simp add: uview_def)

text \<open>A process has no private page beyond its size.\<close>

definition fits :: "kmem \<Rightarrow> vmproc \<Rightarrow> bool" where
  "fits s p \<longleftrightarrow> (\<forall>va. unat va < ULIM \<longrightarrow> mapped (ram s) (vpgdir p) va \<longrightarrow> 4096 * pn va < unat (vsz p))"

lemma round_up:
  fixes sz :: u32
  assumes "unat sz \<le> ULIM"
  shows "4096 * k < unat (PGROUNDUP sz) \<longleftrightarrow> 4096 * k < unat sz" and "unat sz \<le> unat (PGROUNDUP sz)"
proof -
  have u: "unat (PGROUNDUP sz) = (unat sz + 4095) div 4096 * 4096" using assms unat_PGROUNDUP [of sz] by (simp add: ULIM_def)
  show "4096 * k < unat (PGROUNDUP sz) \<longleftrightarrow> 4096 * k < unat sz" unfolding u
    using less_eq_div_iff_mult_less_eq [of 4096 "Suc k" "unat sz + 4095"] by (auto simp: Suc_le_eq)
  show "unat sz \<le> unat (PGROUNDUP sz)" unfolding u by linarith
qed

lemma add_size:
  fixes sz :: u32
  assumes "0 < int (unat sz) + n" and "int (unat sz) + n < 4294967296"
  shows "int (unat (sz + of_int n)) = int (unat sz) + n"
proof -
  have "int (unat (sz + of_int n)) = (int (unat sz) + n) mod 4294967296"
    by (simp add: uint_word_ariths uint_word_of_int mod_add_right_eq)
  then show ?thesis using assms by simp
qed

text \<open>What the process sees after its size went from \<open>old\<close> to \<open>new\<close>.\<close>

definition resized :: "(u32 \<rightharpoonup> u32 \<times> byte) \<Rightarrow> nat \<Rightarrow> nat \<Rightarrow> u32 \<rightharpoonup> u32 \<times> byte" where
  "resized view old new va =
     (if 4096 * pn va \<ge> old \<and> 4096 * pn va < new then Some (PTE_W OR PTE_U OR PTE_P, 0)
      else if 4096 * pn va \<ge> new then None else view va)"

lemma fits_view:
  assumes "fits s p" and "unat va < ULIM" and "\<not> 4096 * pn va < unat (vsz p)"
  shows "uview (ram s) (vpgdir p) va = None"
  using assms by (auto simp: fits_def uview_def)

lemma fits_range:
  assumes "fits s p" and "unat (vsz p) \<le> ULIM" and "unat hi \<le> ULIM" and "in_pages (unat (PGROUNDUP (vsz p))) (unat hi) va"
  shows "\<not> mapped (ram s) (vpgdir p) va"
proof
  assume m: "mapped (ram s) (vpgdir p) va"
  let ?b = "of_nat (4096 * pn va) :: u32"
  have b: "4096 * pn va < ULIM" "\<not> 4096 * pn va < unat (vsz p)"
    using assms(3,4) round_up(1) [OF assms(2), of "pn va"] by (auto simp: in_pages_def)
  then have u: "unat ?b = 4096 * pn va" by (intro unat_of_nat_u32) (simp add: ULIM_def)
  then have e: "pn ?b = pn va" by simp
  then have "mapped (ram s) (vpgdir p) ?b" using m pn_pte [OF e] by (simp add: mapped_def del: of_nat_mult)
  then have "4096 * pn ?b < unat (vsz p)" using assms(1) b(1) u unfolding fits_def by metis
  then show False using b(2) e by simp
qed

text \<open>
  The outcomes of a call with \<open>n\<close>: the pages of the process and the free list together are still the same, no page
  belongs to both, and either the process has the new size and sees its memory resized, or the call failed and
  the process sees what it saw before.
\<close>

definition grow_outcome :: "u32 \<Rightarrow> kmem \<Rightarrow> u32 list \<Rightarrow> vmproc \<Rightarrow> int \<Rightarrow> int \<times> vmproc \<times> kmem \<Rightarrow> bool" where
  "grow_outcome kend s xs p n = (\<lambda>(r, p', s').
     (\<exists>ys. uspace kend ULIM s' ys (vpgdir p) \<and>
        set ys \<union> region (ram s') (vpgdir p) ULIM = set xs \<union> region (ram s) (vpgdir p) ULIM) \<and> fits s' p' \<and>
     (r = 0 \<and> p' = p\<lparr>vsz := vsz p + of_int n\<rparr> \<and>
        (\<forall>va. unat va < ULIM \<longrightarrow> uview (ram s') (vpgdir p) va = resized (uview (ram s) (vpgdir p)) (unat (vsz p)) (unat (vsz p')) va) \<or>
      r = -1 \<and> p' = p \<and> (\<forall>va. unat va < ULIM \<longrightarrow> uview (ram s') (vpgdir p) va = uview (ram s) (vpgdir p) va)))"

lemma fits_resized:
  assumes "\<And>va. unat va < ULIM \<Longrightarrow> uview (ram s') (vpgdir p) va = resized view old (unat new) va" and "old \<le> unat new \<or> unat new \<le> old"
  shows "fits s' (p\<lparr>vsz := new\<rparr>)"
  unfolding fits_def
proof (intro allI impI)
  fix va assume va: "unat va < ULIM" and m: "mapped (ram s') (vpgdir (p\<lparr>vsz := new\<rparr>)) va"
  then have "resized view old (unat new) va \<noteq> None" using assms(1) [OF va] uview_None [of "ram s'" "vpgdir p" va] by simp
  then show "4096 * pn va < unat (vsz (p\<lparr>vsz := new\<rparr>))" by (simp add: resized_def split: if_splits)
qed

lemma grow_view:
  assumes "KERNBASE < kend" and sp: "uspace kend ULIM s xs (vpgdir p)" and f: "fits s p" "unat (vsz p) \<le> ULIM"
    and n: "0 < n" "int (unat (vsz p)) + n \<le> int ULIM"
  shows "\<exists>out. growproc_pages kend s p n = Some (Inr out) \<and> grow_outcome kend s xs p n out"
proof -
  let ?new = "vsz p + of_int n" and ?d = "vpgdir p" and ?lo = "unat (PGROUNDUP (vsz p))"
  have new: "int (unat ?new) = int (unat (vsz p)) + n"
    by (rule add_size) (use n in \<open>linarith, simp add: ULIM_def\<close>)
  then have le: "unat ?new \<le> ULIM" "unat (vsz p) < unat ?new" using n by linarith+
  have pg: "in_pages ?lo (unat ?new) va \<longleftrightarrow> \<not> 4096 * pn va < unat (vsz p) \<and> 4096 * pn va < unat ?new" for va
    using round_up(1) [OF f(2), of "pn va"] by (auto simp: in_pages_def)
  obtain r s' ys where r: "allocuvm kend s ?d (vsz p) ?new = Some (Inr (r, s'))"
      "r = ?new \<and> enlarged kend ULIM s xs ?d ?lo (unat ?new) s' ys \<or> r = 0 \<and> gave_up kend ULIM s xs ?d ?lo (unat ?new) s' ys"
    using allocuvm_runs [OF assms(1) le(1) _ _ sp, of "vsz p"] fits_range [OF f le(1)] le by (auto simp: word_le_nat_alt ULIM_def)
  have nz: "?new \<noteq> 0" using le(2) by auto
  from r(2) show ?thesis
  proof (elim disjE conjE)
    assume g: "r = ?new" "enlarged kend ULIM s xs ?d ?lo (unat ?new) s' ys"
    have view: "uview (ram s') ?d va = resized (uview (ram s) ?d) (unat (vsz p)) (unat ?new) va" if "unat va < ULIM" for va
      using g(2) that fits_view [OF f(1) that] le(2) unfolding enlarged_def pg resized_def by auto
    have "grow_outcome kend s xs p n (0, p\<lparr>vsz := ?new\<rparr>, s')"
      using g(2) view fits_resized [OF view] le(2) unfolding grow_outcome_def enlarged_def by auto
    then show ?thesis using r(1) g(1) n(1) nz by (simp add: growproc_pages_def)
  next
    assume g: "r = 0" "gave_up kend ULIM s xs ?d ?lo (unat ?new) s' ys"
    have view: "uview (ram s') ?d va = uview (ram s) ?d va" if va: "unat va < ULIM" for va
    proof (cases "in_pages ?lo (unat ?new) va")
      case True
      then have "\<not> mapped (ram s') ?d va" using g(2) by (simp add: gave_up_def)
      then show ?thesis using True fits_view [OF f(1) va] unfolding pg by (simp add: uview_def)
    qed (use g(2) va in \<open>simp add: gave_up_def\<close>)
    have "fits s' p" using f(1) view unfolding fits_def by (metis uview_None)
    then have "grow_outcome kend s xs p n (-1, p, s')"
      using g(2) view unfolding grow_outcome_def gave_up_def by auto
    then show ?thesis using r(1) g(1) n(1) by (simp add: growproc_pages_def)
  qed
qed

lemma shrink_view:
  assumes "KERNBASE < kend" and sp: "uspace kend ULIM s xs (vpgdir p)" and f: "fits s p" "unat (vsz p) \<le> ULIM"
    and n: "n < 0" "0 < int (unat (vsz p)) + n"
  shows "\<exists>out. growproc_pages kend s p n = Some (Inr out) \<and> grow_outcome kend s xs p n out"
proof -
  let ?new = "vsz p + of_int n" and ?d = "vpgdir p"
  have new: "int (unat ?new) = int (unat (vsz p)) + n"
    by (rule add_size) (use n unat_lt_2p32 [of "vsz p"] in linarith)+
  then have lt: "0 < unat ?new" "unat ?new < unat (vsz p)" using n by linarith+
  then have le: "unat ?new \<le> ULIM" using f(2) by simp
  obtain s' ys where r: "deallocuvm kend s ?d (vsz p) ?new = Some (Inr (?new, s'))"
      "shrunk kend ULIM s xs ?d (unat (PGROUNDUP ?new)) (unat (vsz p)) s' ys"
    using deallocuvm_runs [OF assms(1) f(2) _ sp, of ?new] lt(2) by (auto simp: word_less_nat_alt ULIM_def)
  have pg: "in_pages (unat (PGROUNDUP ?new)) (unat (vsz p)) va \<longleftrightarrow> \<not> 4096 * pn va < unat ?new \<and> 4096 * pn va < unat (vsz p)" for va
    using round_up(1) [OF le, of "pn va"] by (auto simp: in_pages_def)
  have view: "uview (ram s') ?d va = resized (uview (ram s) ?d) (unat (vsz p)) (unat ?new) va" if va: "unat va < ULIM" for va
  proof (cases "in_pages (unat (PGROUNDUP ?new)) (unat (vsz p)) va")
    case True
    then have "\<not> mapped (ram s') ?d va" using r(2) by (simp add: shrunk_def)
    then show ?thesis using True uview_None [of "ram s'" ?d va] unfolding pg resized_def by simp
  next
    case False
    then have "uview (ram s') ?d va = uview (ram s) ?d va" using r(2) va by (simp add: shrunk_def)
    then show ?thesis using False fits_view [OF f(1) va] lt(2) unfolding pg resized_def by auto
  qed
  have nz: "?new \<noteq> 0" using lt(1) by (metis less_irrefl unat_0)
  have "grow_outcome kend s xs p n (0, p\<lparr>vsz := ?new\<rparr>, s')"
    using r(2) view fits_resized [OF view] lt(2) unfolding grow_outcome_def shrunk_def by auto
  then show ?thesis using r(1) n(1) nz by (simp add: growproc_pages_def)
qed

lemma shrunk_frees:
  assumes sp: "uspace kend lim s xs d" and sh: "shrunk kend lim s xs d lo hi s' ys"
    and va: "unat va < lim" "mapped (ram s) d va" "in_pages lo hi va"
  shows "frame (ram s) d va \<in> set ys" "\<not> mapped (ram s') d va"
proof -
  note S = sh [unfolded shrunk_def] and D = uspaceD [OF sp] and f = frameI [OF va(1,2)]
  show "\<not> mapped (ram s') d va" using S va(3) by simp
  have "frame (ram s) d va \<noteq> frame (ram s') d vb" if vb: "unat vb < lim" "mapped (ram s') d vb" for vb
  proof
    assume e: "frame (ram s) d va = frame (ram s') d vb"
    have "pte_of (ram s') d vb = pte_of (ram s) d vb" "\<not> in_pages lo hi vb" using S vb(2) by meson+
    then have "pn va = pn vb" using D(6) [OF va(1) vb(1) va(2)] vb(2) e by (simp add: mapped_def frame_def)
    then show False using va(3) \<open>\<not> in_pages lo hi vb\<close> by (simp add: in_pages_def)
  qed
  then have "frame (ram s) d va \<notin> frames (ram s') d lim" by (auto simp: frames_def)
  then have "frame (ram s) d va \<notin> region (ram s') d lim" using D(4,5) [OF f] S by (auto simp: region_def)
  then show "frame (ram s) d va \<in> set ys" using S f by (auto simp: region_def)
qed

section \<open>Properties\<close>


lemma empty_space_demo:
  obtains s where "uspace 0x80100000 ULIM s [0x80200000] 0x80201000" "\<And>va. pte_of (ram s) 0x80201000 va = 0"
    "region (ram s) 0x80201000 ULIM = {0x80201000}"
  using two_free_pages fresh_uspace by metis


text \<open>
  C15. \<^verbatim>\<open>freevm\<close> gives back exactly the pages of the address space: it returns without a panic, afterwards the
  free list consists of the pages that were free before, the page directory, its page tables and all
  frames of private pages, each once; memory outside these pages is unchanged. So nothing leaks, nothing
  is freed twice, and the pages above the private part, which other processes share, are not freed.
\<close>

theorem freevm_frees_exactly:
  assumes "KERNBASE < kend" and "uspace kend ULIM s xs d"
  shows "\<exists>s' ys. freevm kend s d = Some (Inr s') \<and> free_pages kend s' ys \<and> distinct ys \<and>
    set ys = set xs \<union> ({d} \<union> tables (ram s) d \<union> frames (ram s) d ULIM) \<and> same_but (region (ram s) d ULIM) (ram s) (ram s')"
  using freevm_runs [OF assms] by (auto simp: region_def free_pages_def)

theorem freevm_frees_exactly_witness:
  "\<exists>s s' ys. freevm 0x80100000 s 0x80201000 = Some (Inr s') \<and> free_pages 0x80100000 s' ys \<and> set ys = {0x80200000, 0x80201000}"
proof -
  obtain s where s: "uspace 0x80100000 ULIM s [0x80200000] 0x80201000" "region (ram s) 0x80201000 ULIM = {0x80201000}" using empty_space_demo by metis
  obtain s' ys where "freevm 0x80100000 s 0x80201000 = Some (Inr s')" "free_pages 0x80100000 s' ys"
      "set ys = set [0x80200000] \<union> region (ram s) 0x80201000 ULIM"
    using freevm_frees_exactly [OF _ s(1)] unfolding region_def by (auto simp: KERNBASE_def)
  then show ?thesis using s(2) by (intro exI [of _ s] exI [of _ s'] exI [of _ ys]) auto
qed

text \<open>
  C37. A failed \<^verbatim>\<open>growproc\<close> gives away a page that processes share: \<^verbatim>\<open>allocuvm\<close> accepts every size below
  \<^verbatim>\<open>KERNBASE\<close>, and when it runs out of memory it releases everything up to the requested size, which includes
  the shared pages mapped just below \<^verbatim>\<open>KERNBASE\<close>. The call returns -1, the process still has the page in its
  array \<^verbatim>\<open>shared_page\<close>, but the page is on the free list, to be handed out again while others use it.
\<close>

theorem growproc_frees_shared_page:
  assumes "KERNBASE < kend" and "uspace kend 2147483648 s [] (vpgdir p)" and "i < NSHAREPAGE"
    and "mapped (ram s) (vpgdir p) (shmem_va i)" and "0 < n" and "unat (PGROUNDUP (vsz p)) \<le> unat (shmem_va i)"
    and "int (unat (shmem_va i)) < int (unat (vsz p)) + n" and "int (unat (vsz p)) + n < 2147483648"
  shows "\<exists>s' ys. growproc_pages kend s p n = Some (Inr (-1, p, s')) \<and> free_pages kend s' ys \<and>
    frame (ram s) (vpgdir p) (shmem_va i) \<in> set ys \<and> \<not> mapped (ram s') (vpgdir p) (shmem_va i)"
proof -
  let ?new = "vsz p + of_int n" and ?d = "vpgdir p" and ?lo = "unat (PGROUNDUP (vsz p))"
  note sp = assms(2)
  have new: "int (unat ?new) = int (unat (vsz p)) + n" by (rule add_size) (use assms(5,8) in linarith)+
  then have le: "unat ?new < 2147483648" "vsz p < ?new" "unat (shmem_va i) < unat ?new"
    unfolding word_less_nat_alt using assms(5,7,8) by linarith+
  obtain s' ys where r: "deallocuvm kend s ?d ?new (vsz p) = Some (Inr (vsz p, s'))" "shrunk kend 2147483648 s [] ?d ?lo (unat ?new) s' ys"
    using deallocuvm_runs [OF assms(1) _ _ sp le(2)] le(1) by auto
  have "4096 * pn (shmem_va i) = unat (shmem_va i)"
    using shmem_va_facts(2) [OF assms(3)] unat_PGROUNDDOWN [of "shmem_va i"] by simp
  then have "in_pages ?lo (unat ?new) (shmem_va i)" using le(3) assms(6) by (simp add: in_pages_def)
  from shrunk_frees [OF sp r(2) _ assms(4) this] le
  have f: "frame (ram s) ?d (shmem_va i) \<in> set ys" "\<not> mapped (ram s') ?d (shmem_va i)" by auto
  have "kalloc s = (0, s)" using kalloc_Nil pt_okD(1) [OF uspaceD(1) [OF sp]] by blast
  moreover have "PGROUNDUP (vsz p) < ?new" using le(3) assms(6) by (simp add: word_less_nat_alt)
  ultimately have "allocuvm_loop kend s ?d (vsz p) ?new (PGROUNDUP (vsz p)) = Some (Inr (0, s'))"
    using r(1) by (subst allocuvm_loop.simps) simp
  moreover have "\<not> KERNBASE \<le> ?new" "\<not> ?new < vsz p" using le by (simp_all add: KERNBASE_def word_le_nat_alt)
  ultimately have "growproc_pages kend s p n = Some (Inr (-1, p, s'))"
    using assms(5) by (simp add: growproc_pages_def allocuvm_def)
  moreover have "free_pages kend s' ys" using r(2) uspaceD(1) pt_okD(1) unfolding shrunk_def by blast
  ultimately show ?thesis using f by blast
qed

lemma shared_page_demo:
  "\<exists>s. uspace 0x80100000 2147483648 s [] 0x80202000 \<and> mapped (ram s) 0x80202000 (shmem_va 0)"
proof -
  let ?k = "0x80100000 :: u32" and ?d = "0x80202000 :: u32" and ?x = "0x80201000 :: u32" and ?t = "0x80200000 :: u32" and ?a = "shmem_va 0" and ?L = "2147483648 :: nat"
  obtain s0 where "free_pages ?k s0 [?x, ?t]" using two_free_pages by blast
  moreover have "\<not> bad_page ?k ?d" by (simp add: bad_page_def PGSIZE_def V2P_def PHYSTOP_def KERNBASE_def)
  ultimately obtain s1 where "free_pages ?k s1 [?d, ?x, ?t]"
    using kmem.free_page [of ?k s0 "[?x, ?t]" ?d] by auto
  then obtain s2 where s2: "uspace ?k ?L s2 [?x, ?t] ?d" "region (ram s2) ?d ?L = {?d}" "\<And>va. pte_of (ram s2) ?d va = 0"
    using fresh_uspace by metis
  have a: "aligned ?a" "unat ?a < ?L" "\<not> mapped (ram s2) ?d ?a"
    using s2(3) by (simp_all add: mapped_def shmem_va_def aligned_def KERNBASE_def PGSIZE_def)
  obtain s ys where g: "enlarged ?k ?L s2 [?x, ?t] ?d (unat ?a) (unat ?a + 4096) s ys"
    by (rule grow_page [OF s2(1) a]) auto
  have u: "uspace ?k ?L s ys ?d" "set ys \<union> region (ram s) ?d ?L = {?x, ?t, ?d}" using g s2(2) by (auto simp: enlarged_def)
  have "uview (ram s) ?d ?a \<noteq> None" using g a(2) one_page [OF a(1)] by (auto simp: enlarged_def)
  then have m: "mapped (ram s) ?d ?a" by (simp add: uview_None)
  let ?T = "table_at (ram s) ?d (unat (PDX ?a))" and ?F = "frame (ram s) ?d ?a"
  have TF: "?T \<in> tables (ram s) ?d" "?F \<in> frames (ram s) ?d ?L" using mapped_table [OF m] frameI [OF a(2) m] by (auto intro: tableI simp: PDX_less)
  then have R: "?T \<in> region (ram s) ?d ?L" "?F \<in> region (ram s) ?d ?L" "?T \<noteq> ?d" "?F \<noteq> ?d" "?F \<noteq> ?T"
    using uspaceD [OF u(1)] pt_ok_tables(3) [OF uspaceD(1) [OF u(1)] TF(1)] by (auto simp: region_def)
  have "?T \<in> {?x, ?t, ?d}" "?F \<in> {?x, ?t, ?d}" unfolding u(2) [symmetric] using R(1,2) by simp_all
  then have "?T = ?x \<and> ?F = ?t \<or> ?T = ?t \<and> ?F = ?x" using R(3-5) unfolding insert_iff empty_iff by metis
  then have "{?x, ?t} \<subseteq> region (ram s) ?d ?L" using R(1,2) by auto
  then have "{?x, ?t, ?d} \<subseteq> region (ram s) ?d ?L" by (simp add: region_def)
  moreover have "set ys \<subseteq> {?x, ?t, ?d}" unfolding u(2) [symmetric] by (rule Un_upper1)
  ultimately have "set ys \<subseteq> region (ram s) ?d ?L" by (rule subset_trans [rotated])
  moreover have "set ys \<inter> region (ram s) ?d ?L = {}" using region_pages(3) [OF u(1)] by auto
  ultimately have "set ys = {}" by (simp add: Int_absorb2)
  then show ?thesis using u(1) m by auto
qed

theorem growproc_frees_shared_page_witness:
  "\<exists>s s' ys. growproc_pages 0x80100000 s \<lparr>vsz = 0x2000, vpgdir = 0x80202000, shared_page = [shmem_va 0, 0, 0, 0]\<rparr> 0x7FFFDFFF =
      Some (Inr (-1, \<lparr>vsz = 0x2000, vpgdir = 0x80202000, shared_page = [shmem_va 0, 0, 0, 0]\<rparr>, s')) \<and>
    frame (ram s) 0x80202000 (shmem_va 0) \<in> set ys \<and> free_pages 0x80100000 s' ys"
proof -
  obtain s where s: "uspace 0x80100000 2147483648 s [] 0x80202000" "mapped (ram s) 0x80202000 (shmem_va 0)" using shared_page_demo by blast
  let ?p = "\<lparr>vsz = 0x2000, vpgdir = 0x80202000, shared_page = [shmem_va 0, 0, 0, 0]\<rparr>"
  have "unat (shmem_va 0) = 2147479552" using shmem_va_facts(1) [of 0] by (simp add: NSHAREPAGE_def)
  moreover have "PGROUNDUP 0x2000 = 0x2000" by (simp add: PGROUNDUP_def PGSIZE_def)
  ultimately show ?thesis
    using growproc_frees_shared_page [of "0x80100000" s ?p 0 "0x7FFFDFFF"] s by (auto simp: KERNBASE_def NSHAREPAGE_def)
qed

end
