(* ===== verification/Kvm.thy ===== *)
theory Kvm
  imports Uvm
begin

text \<open>
  The kernel half of an address space, \<^verbatim>\<open>setupkvm\<close> of \<^verbatim>\<open>vm.c\<close> in part 1: mapping above the user pages neither
  disturbs them nor loses a page, and a directory that \<^verbatim>\<open>setupkvm\<close> returns maps every range of \<^verbatim>\<open>kmap\<close>.
\<close>

section \<open>Mapping above the limit\<close>

definition space_kept :: "u32 \<Rightarrow> nat \<Rightarrow> kmem \<Rightarrow> u32 list \<Rightarrow> u32 \<Rightarrow> kmem \<Rightarrow> u32 list \<Rightarrow> bool" where
  "space_kept kend lim s xs d s' ys \<longleftrightarrow> uspace kend lim s' ys d \<and>
     set ys \<union> region (ram s') d lim = set xs \<union> region (ram s) d lim \<and> same_but (set xs \<union> region (ram s) d lim) (ram s) (ram s') \<and>
     (\<forall>va. unat va < lim \<longrightarrow> pte_of (ram s') d va = pte_of (ram s) d va \<and> uview (ram s') d va = uview (ram s) d va)"

lemma space_kept_refl: "uspace kend lim s xs d \<Longrightarrow> space_kept kend lim s xs d s xs"
  by (simp add: space_kept_def)

lemma space_kept_trans: "space_kept kend lim s xs d s1 ys \<Longrightarrow> space_kept kend lim s1 ys d s2 zs \<Longrightarrow> space_kept kend lim s xs d s2 zs"
  using same_but_trans [of "set xs \<union> region (ram s) d lim"] by (auto simp: space_kept_def)

lemma map_above:
  assumes sp: "uspace kend lim s xs d" and mp: "mapped_page kend s xs d a e s' xs'"
    and a: "lim \<le> unat a" "4096 dvd lim"
  shows "space_kept kend lim s xs d s' xs'"
proof -
  let ?P = "insert d (set xs \<union> tables (ram s) d)"
  note D = uspaceD [OF sp]
  have M: "pt_ok kend s' xs' d" "\<And>va. pte_of (ram s') d va = (if pn va = pn a then e else pte_of (ram s) d va)"
      "set xs' \<subseteq> set xs" "set xs' \<union> tables (ram s') d = set xs \<union> tables (ram s) d" "same_but ?P (ram s) (ram s')"
    using mp by (auto simp: mapped_page_def)
  have "pn va \<noteq> pn a" if "unat va < lim" for va
  proof -
    obtain k where "lim = 4096 * k" using a(2) by (elim dvdE)
    then have "pn va < k" "k \<le> pn a" using that a(1) by (simp_all add: less_mult_imp_div_less mult.commute less_eq_div_iff_mult_less_eq)
    then show ?thesis by simp
  qed
  then have pte: "pte_of (ram s') d va = pte_of (ram s) d va" if "unat va < lim" for va using M(2) that by simp
  then have mf: "mapped (ram s') d va = mapped (ram s) d va" "frame (ram s') d va = frame (ram s) d va" if "unat va < lim" for va
    using that by (simp_all add: mapped_def frame_def)
  then have fr: "frames (ram s') d lim = frames (ram s) d lim" unfolding frames_def by metis
  have us: "uspace kend lim s' xs' d"
    unfolding uspace_def fr
  proof (intro conjI ballI allI impI)
    fix v assume v: "v \<in> frames (ram s) d lim"
    show "\<not> bad_page kend v" "v \<notin> set xs'" "v \<noteq> d" "v \<notin> tables (ram s') d" using D(2-5) [OF v] M(3,4) by auto
  next
    fix va vb assume u: "unat va < lim" "unat vb < lim" "mapped (ram s') d va" "mapped (ram s') d vb" "frame (ram s') d va = frame (ram s') d vb"
    then show "pn va = pn vb" using D(6) [OF u(1,2)] mf by auto
  qed (rule M(1))
  have al: "\<forall>v \<in> ?P. aligned v"
    using region_pages(2) [OF sp] pt_ok_pages [OF D(1)] page_facts(1) by (auto simp: region_def)
  have "uview (ram s') d va = uview (ram s) d va" if va: "unat va < lim" for va
  proof (rule uview_same [OF sp M(5) al pte [OF va] va])
    show "frame (ram s) d va \<notin> ?P" if "mapped (ram s) d va" using D(3-5) [OF frameI [OF va that]] by auto
  qed
  moreover have "same_but (set xs \<union> region (ram s) d lim) (ram s) (ram s')"
    using M(5) by (rule same_but_mono) (auto simp: region_def)
  ultimately show ?thesis using us pte M(4) by (auto simp: space_kept_def region_def fr)
qed

lemma mappages_loop_unroll:
  assumes "aligned a" and "a \<noteq> l"
  shows "mappages_loop s d a l pa perm = obind (mappages s d a PGSIZE pa perm) (\<lambda>(r, s1).
    if r < 0 then oret (-1, s1) else mappages_loop s1 d (a + PGSIZE) l (pa + PGSIZE) perm)"
  using assms(2) unfolding mappages_single [OF assms(1)]
  by (simp add: mappages_loop.simps [of s d a l] mappages_loop.simps [of s d a a] Let_def split: prod.split)

text \<open>A run of pages above the limit: pages for tables may run out, but nothing is lost.\<close>

lemma mappages_loop_kept:
  assumes "uspace kend lim s xs d" and "aligned a" and "unat a + 4096 * n < 4294967296" and "lim \<le> unat a" and dvd: "4096 dvd lim"
    and "\<forall>k \<le> n. \<not> mapped (ram s) d (page_k a k)"
  shows "\<exists>c s' ys. mappages_loop s d a (page_k a n) pa perm = Some (Inr (c, s')) \<and> (c = 0 \<or> c = -1) \<and> space_kept kend lim s xs d s' ys"
  using assms(1-4,6)
proof (induction n arbitrary: s xs a pa)
  case 0
  show ?case
    using mappages_page [OF uspaceD(1) [OF "0.prems"(1)] "0.prems"(2), of pa perm] "0.prems"(5) space_kept_refl [OF "0.prems"(1)]
      map_above [OF "0.prems"(1) _ "0.prems"(4) dvd] by (fastforce simp: mapped_def mappages_single [OF "0.prems"(2)])
next
  case (Suc n)
  have ne: "a \<noteq> page_k a (Suc n)" using covers_later(2) [OF Suc.prems(2,3), of n] by (metis order_refl page_k_Suc)
  have nx: "unat (a + PGSIZE) = unat a + 4096" using Suc.prems(3) by (subst unat_add_small) (simp_all add: PGSIZE_def)
  then have al: "aligned (a + PGSIZE)" "unat (a + PGSIZE) + 4096 * n < 4294967296" "lim \<le> unat (a + PGSIZE)"
    using Suc.prems(2-4) by (simp_all add: aligned_def)
  have np: "\<not> present (pte_of (ram s) d a)" using Suc.prems(5) by (auto simp: mapped_def dest: spec [of _ 0])
  note unroll = mappages_loop_unroll [OF Suc.prems(2) ne]
  from mappages_page [OF uspaceD(1) [OF Suc.prems(1)] Suc.prems(2) np, of pa perm] show ?case
  proof (elim disjE conjE exE)
    assume "mappages s d a PGSIZE pa perm = Some (Inr (-1, s))"
    then show ?case using space_kept_refl [OF Suc.prems(1)] unfolding unroll by auto
  next
    fix s1 xs1 assume m: "mappages s d a PGSIZE pa perm = Some (Inr (0, s1))" "mapped_page kend s xs d a (pa OR perm OR PTE_P) s1 xs1"
    note k1 = map_above [OF Suc.prems(1) m(2) Suc.prems(4) dvd]
    have "\<not> mapped (ram s1) d (page_k (a + PGSIZE) k)" if "k \<le> n" for k
      using m(2) Suc.prems(5) covers_later(2) [OF Suc.prems(2,3) that] that unfolding page_k_Suc [symmetric] mapped_page_def mapped_def by auto
    then obtain c s' ys where r: "mappages_loop s1 d (a + PGSIZE) (page_k (a + PGSIZE) n) (pa + PGSIZE) perm = Some (Inr (c, s'))"
        "c = 0 \<or> c = -1" "space_kept kend lim s1 xs1 d s' ys"
      using Suc.IH [OF _ al] k1 unfolding space_kept_def [of _ _ s] by blast
    have "mappages_loop s d a (page_k a (Suc n)) pa perm = mappages_loop s1 d (a + PGSIZE) (page_k a (Suc n)) (pa + PGSIZE) perm"
      unfolding unroll m(1) by simp
    also have "\<dots> = Some (Inr (c, s'))" using r(1) by (simp only: page_k_Suc)
    finally show ?case using r(2) space_kept_trans [OF k1 r(3)] by blast
  qed
qed

lemma mappages_range:
  assumes "aligned v" and "unat sz = 4096 * Suc n" and "unat v + 4096 * Suc n \<le> 4294967296"
  shows "mappages s d v sz pa perm = mappages_loop s d v (page_k v n) pa perm"
proof -
  have pos: "0 < sz" using assms(2) by (simp add: word_less_nat_alt)
  have "unat (sz - 1) = 4096 * Suc n - 1" using assms(2) pos by (simp add: unat_minus_one)
  then have u: "unat (v + (sz - 1)) = unat v + (4096 * Suc n - 1)" using assms(3) by (subst unat_add_small) auto
  obtain m where m: "unat v = 4096 * m" using assms(1) unfolding aligned_def by (elim dvdE)
  have le: "unat v \<le> unat (v + (sz - 1))" unfolding u by simp
  have "unat (PGROUNDDOWN v) = unat v" unfolding unat_PGROUNDDOWN m by simp
  then have r: "PGROUNDDOWN v = v" by (simp only: word_unat_eq_iff)
  have "unat (v + (sz - 1)) div 4096 - unat v div 4096 = n" unfolding u m by simp
  from page_bounds(3) [OF le, unfolded this r] show ?thesis by (simp add: mappages_def r add_diff_eq)
qed

lemma page_k_nat:
  assumes "unat v + 4096 * n \<le> 4294967296" and "k < n"
  shows "unat (page_k v k) = unat v + 4096 * k"
proof -
  have "unat (of_nat (4096 * k) :: u32) = 4096 * k" using assms by (intro unat_of_nat_u32) simp
  then show ?thesis using assms by (subst unat_add_small) auto
qed

lemma map_range:
  assumes sp: "uspace kend ULIM s xs d" and v: "aligned v" "ULIM \<le> unat v" "unat v + unat sz \<le> 4294967296"
    and sz: "unat sz = 4096 * Suc n" and np: "\<forall>va. unat v \<le> unat va \<longrightarrow> \<not> mapped (ram s) d va"
  shows "\<exists>c s' ys. mappages s d v sz pa perm = Some (Inr (c, s')) \<and> (c = 0 \<or> c = -1) \<and> space_kept kend ULIM s xs d s' ys \<and>
    (\<forall>va. unat va < unat v \<or> unat v + unat sz \<le> unat va \<longrightarrow> pte_of (ram s') d va = pte_of (ram s) d va) \<and>
    (c = 0 \<longrightarrow> (\<forall>k \<le> n. pte_of (ram s') d (page_k v k) = page_k pa k OR perm OR PTE_P))"
proof -
  note bd = v(3) [unfolded sz]
  have lt: "unat v + 4096 * n < 4294967296" using bd by simp
  have pk: "unat (page_k v k) = unat v + 4096 * k" if "k \<le> n" for k using page_k_nat [OF bd] that by simp
  have "4096 dvd ULIM" by (simp add: ULIM_def)
  moreover have "\<forall>k \<le> n. \<not> mapped (ram s) d (page_k v k)" using np pk by simp
  ultimately obtain c s' ys where r: "mappages s d v sz pa perm = Some (Inr (c, s'))" "c = 0 \<or> c = -1" "space_kept kend ULIM s xs d s' ys"
    using mappages_loop_kept [OF sp v(1) lt v(2)] mappages_range [OF v(1) sz bd] by metis
  have run: "mapped_run kend s d v n pa perm (Inr (c, s'))"
    using mappages_loop_runs [OF uspaceD(1) [OF sp] v(1) lt, of pa perm] r(1) mappages_range [OF v(1) sz bd] by auto
  have "\<not> covers v n va" if "unat va < unat v \<or> unat v + unat sz \<le> unat va" for va
  proof
    assume "covers v n va"
    then obtain k where k: "k \<le> n" "pn va = pn (page_k v k)" by (auto simp: covers_def)
    obtain m where m: "unat v = 4096 * m" using v(1) unfolding aligned_def by (elim dvdE)
    have "pn va = m + k" using k pk m by simp
    then show False using that k(1) unfolding m sz by (auto simp: less_mult_imp_div_less div_less_iff_less_mult)
  qed
  then show ?thesis using r run by (auto simp: mapped_run_def)
qed

section \<open>Setting up the kernel half\<close>

text \<open>The ranges of a table such as \<^verbatim>\<open>kmap\<close>, ascending from \<open>lo\<close>, and that a directory maps one of them.\<close>

fun kranges :: "nat \<Rightarrow> (u32 \<times> u32 \<times> u32 \<times> u32) list \<Rightarrow> bool" where
  "kranges lo [] \<longleftrightarrow> True"
| "kranges lo ((v, ps, pe, perm) # ks) \<longleftrightarrow> lo \<le> unat v \<and> aligned v \<and> pe \<noteq> ps \<and> aligned (pe - ps) \<and>
     unat v + unat (pe - ps) \<le> 4294967296 \<and> kranges (unat v + unat (pe - ps)) ks"

definition kmapped :: "mem \<Rightarrow> u32 \<Rightarrow> u32 \<times> u32 \<times> u32 \<times> u32 \<Rightarrow> bool" where
  "kmapped m d = (\<lambda>(v, ps, pe, perm). \<forall>k. 4096 * k < unat (pe - ps) \<longrightarrow> pte_of m d (page_k v k) = page_k ps k OR perm OR PTE_P)"

lemma setupkvm_maps_runs:
  assumes kend: "KERNBASE < kend"
  shows "uspace kend ULIM s xs d \<Longrightarrow> kranges lo ks \<Longrightarrow> ULIM \<le> lo \<Longrightarrow> \<forall>va. lo \<le> unat va \<longrightarrow> \<not> mapped (ram s) d va \<Longrightarrow>
    \<exists>r s' ys. setupkvm_maps kend s d ks = Some (Inr (r, s')) \<and> same_but (set xs \<union> region (ram s) d ULIM) (ram s) (ram s') \<and>
      (r = 0 \<and> free_pages kend s' ys \<and> set ys = set xs \<union> region (ram s) d ULIM \<or>
       r = d \<and> space_kept kend ULIM s xs d s' ys \<and> (\<forall>va. unat va < lo \<longrightarrow> pte_of (ram s') d va = pte_of (ram s) d va) \<and>
         (\<forall>e \<in> set ks. kmapped (ram s') d e))"
proof (induction ks arbitrary: s xs lo)
  case Nil
  then show ?case using space_kept_refl [OF Nil(1)] by auto
next
  case (Cons e ks)
  obtain v ps pe perm where e: "e = (v, ps, pe, perm)" by (cases e)
  let ?sz = "pe - ps" and ?R = "set xs \<union> region (ram s) d ULIM"
  have K: "lo \<le> unat v" "aligned v" "unat ?sz \<noteq> 0" "4096 dvd unat ?sz" "unat v + unat ?sz \<le> 4294967296" "kranges (unat v + unat ?sz) ks"
    using Cons.prems(2) unfolding e by (auto simp: unat_eq_0 aligned_def)
  then obtain n where n: "unat ?sz = 4096 * Suc n" by (metis dvdE mult_0_right not0_implies_Suc)
  have lo: "ULIM \<le> unat v" "\<forall>va. unat v \<le> unat va \<longrightarrow> \<not> mapped (ram s) d va" "ULIM \<le> unat v + unat ?sz"
    using K(1) Cons.prems(3,4) by auto
  obtain c s1 zs where m: "mappages s d v ?sz ps perm = Some (Inr (c, s1))" "c = 0 \<or> c = -1" "space_kept kend ULIM s xs d s1 zs"
      "\<forall>va. unat va < unat v \<or> unat v + unat ?sz \<le> unat va \<longrightarrow> pte_of (ram s1) d va = pte_of (ram s) d va"
      "c = 0 \<longrightarrow> (\<forall>k \<le> n. pte_of (ram s1) d (page_k v k) = page_k ps k OR perm OR PTE_P)"
    using map_range [OF Cons.prems(1) K(2) lo(1) K(5) n lo(2), of ps perm] by blast
  have S: "uspace kend ULIM s1 zs d" "set zs \<union> region (ram s1) d ULIM = ?R" "same_but ?R (ram s) (ram s1)"
    using m(3) by (auto simp: space_kept_def)
  show ?case
  proof (cases "c = 0")
    case False
    obtain s' ys where f: "freevm kend s1 d = Some (Inr s')" "free_pages kend s' ys" "set ys = ?R"
        "same_but (region (ram s1) d ULIM) (ram s1) (ram s')"
      using freevm_runs [OF kend S(1)] S(2) by blast
    have "same_but ?R (ram s) (ram s')" using S(2) by (intro same_but_trans [OF S(3) same_but_mono [OF f(4)]]) auto
    then show ?thesis using f(1-3) m(1,2) False by (auto simp: e)
  next
    case True
    have np: "\<forall>va. unat v + unat ?sz \<le> unat va \<longrightarrow> \<not> mapped (ram s1) d va"
      using m(4) lo(2) by (auto simp: mapped_def)
    obtain r s' ys where r: "setupkvm_maps kend s1 d ks = Some (Inr (r, s'))" "same_but ?R (ram s1) (ram s')"
        "r = 0 \<and> free_pages kend s' ys \<and> set ys = ?R \<or>
         r = d \<and> space_kept kend ULIM s1 zs d s' ys \<and> (\<forall>va. unat va < unat v + unat ?sz \<longrightarrow> pte_of (ram s') d va = pte_of (ram s1) d va) \<and>
           (\<forall>e \<in> set ks. kmapped (ram s') d e)"
      using Cons.IH [OF S(1) K(6) lo(3) np] unfolding S(2) by blast
    have run: "setupkvm_maps kend s d (e # ks) = Some (Inr (r, s'))" "same_but ?R (ram s) (ram s')"
      using m(1) True r(1) same_but_trans [OF S(3) r(2)] by (simp_all add: e)
    from r(3) show ?thesis
    proof (elim disjE conjE)
      assume k: "r = d" "space_kept kend ULIM s1 zs d s' ys" "\<forall>va. unat va < unat v + unat ?sz \<longrightarrow> pte_of (ram s') d va = pte_of (ram s1) d va"
        "\<forall>e \<in> set ks. kmapped (ram s') d e"
      have "kmapped (ram s') d e"
        unfolding kmapped_def e
      proof (clarify)
        fix k assume "4096 * k < unat ?sz"
        then have "k < Suc n" using n by simp
        then show "pte_of (ram s') d (page_k v k) = page_k ps k OR perm OR PTE_P"
          using k(3) m(5) True page_k_nat [OF K(5) [unfolded n]] n by simp
      qed
      moreover have "\<forall>va. unat va < lo \<longrightarrow> pte_of (ram s') d va = pte_of (ram s) d va" using k(3) m(4) K(1) by auto
      ultimately show ?thesis using run k(1,4) space_kept_trans [OF m(3) k(2)] by auto
    qed (use run in auto)
  qed
qed

text \<open>Where the linker puts the kernel's data: page-aligned, above the kernel's text and below the end of memory.\<close>

definition kdata_ok :: "u32 \<Rightarrow> bool" where
  "kdata_ok kdata \<longleftrightarrow> aligned kdata \<and> KERNLINK < kdata \<and> kdata < P2V PHYSTOP"

lemma kmap_ranges:
  assumes "kdata_ok kdata"
  shows "kranges 2147483648 (kmap kdata)"
proof -
  obtain m where m: "unat kdata = 4096 * m" using assms unfolding kdata_ok_def aligned_def by (elim conjE dvdE)
  have lt: "0x80100000 < unat kdata" "unat kdata < 0x8E000000"
    using assms by (simp_all add: kdata_ok_def KERNLINK_def KERNBASE_def EXTMEM_def P2V_def PHYSTOP_def word_less_nat_alt)
  have tx: "unat (V2P kdata - V2P KERNLINK) = unat kdata - 0x80100000"
    using lt by (simp add: V2P_def KERNLINK_def KERNBASE_def EXTMEM_def unat_diff_u32 word_le_nat_alt)
  have dt: "unat (PHYSTOP - V2P kdata) = 0x8E000000 - unat kdata"
    using lt by (simp add: V2P_def PHYSTOP_def KERNBASE_def unat_diff_u32 word_le_nat_alt)
  have "V2P kdata \<noteq> V2P KERNLINK" "PHYSTOP \<noteq> V2P kdata" using tx dt lt by auto
  moreover have "aligned (V2P kdata - V2P KERNLINK)" "aligned (PHYSTOP - V2P kdata)" "aligned kdata"
    unfolding aligned_def tx dt m by (auto intro: dvd_diff_nat)
  moreover have "aligned KERNLINK" "aligned KERNBASE" "aligned DEVSPACE" "aligned (EXTMEM - 0)" "aligned (0 - DEVSPACE)"
    by (simp_all add: aligned_def KERNLINK_def KERNBASE_def EXTMEM_def DEVSPACE_def)
  ultimately show ?thesis
    using lt unfolding kmap_def kranges.simps tx dt
    by (simp add: KERNLINK_def KERNBASE_def EXTMEM_def DEVSPACE_def)
qed

lemma setupkvm_runs:
  assumes "KERNBASE < kend" and kd: "kdata_ok kdata" and fp: "free_pages kend s xs"
  shows "\<exists>d s' ys. setupkvm kend kdata s = Some (Inr (d, s')) \<and> same_but (set xs) (ram s) (ram s') \<and>
    (d = 0 \<and> free_pages kend s' ys \<and> set ys = set xs \<or>
     d \<noteq> 0 \<and> uspace kend ULIM s' ys d \<and> set ys \<union> region (ram s') d ULIM = set xs \<and>
       (\<forall>va. unat va < 2147483648 \<longrightarrow> pte_of (ram s') d va = 0) \<and> (\<forall>e \<in> set (kmap kdata). kmapped (ram s') d e))"
proof (cases xs)
  case Nil
  then show ?thesis using fp kalloc_Nil [of kend s] by (auto simp: setupkvm_def)
next
  case (Cons x zs)
  obtain s1 s2 where f: "kalloc s = (x, s1)" "x \<noteq> 0" "s2 = s1\<lparr>ram := memset (ram s1) x 0 PGSIZE\<rparr>" "uspace kend ULIM s2 zs x"
      "region (ram s2) x ULIM = {x}" "\<And>va. pte_of (ram s2) x va = 0" "same_but {x} (ram s) (ram s2)"
    using fresh_uspace [OF fp [unfolded Cons]] by metis
  have np: "\<forall>va. 2147483648 \<le> unat va \<longrightarrow> \<not> mapped (ram s2) x va" by (simp add: mapped_def f(6))
  obtain r s' ys where r: "setupkvm_maps kend s2 x (kmap kdata) = Some (Inr (r, s'))" "same_but (set xs) (ram s2) (ram s')"
      "r = 0 \<and> free_pages kend s' ys \<and> set ys = set xs \<or>
       r = x \<and> space_kept kend ULIM s2 zs x s' ys \<and> (\<forall>va. unat va < 2147483648 \<longrightarrow> pte_of (ram s') x va = pte_of (ram s2) x va) \<and>
         (\<forall>e \<in> set (kmap kdata). kmapped (ram s') x e)"
    using setupkvm_maps_runs [OF assms(1) f(4) kmap_ranges [OF kd] _ np] unfolding f(5) by (auto simp: Cons ULIM_def)
  have "\<not> P2V PHYSTOP > DEVSPACE" by (simp add: P2V_def PHYSTOP_def KERNBASE_def DEVSPACE_def)
  then have run: "setupkvm kend kdata s = Some (Inr (r, s'))" using f(1-3) r(1) by (simp add: setupkvm_def)
  have sb: "same_but (set xs) (ram s) (ram s')" using same_but_trans [OF same_but_mono [OF f(7)] r(2)] by (simp add: Cons)
  from r(3) show ?thesis
  proof (elim disjE conjE)
    assume k: "r = x" "space_kept kend ULIM s2 zs x s' ys" "\<forall>va. unat va < 2147483648 \<longrightarrow> pte_of (ram s') x va = pte_of (ram s2) x va"
      "\<forall>e \<in> set (kmap kdata). kmapped (ram s') x e"
    have "\<forall>va. unat va < 2147483648 \<longrightarrow> pte_of (ram s') x va = 0" using k(3) by (simp add: f(6))
    then show ?thesis using run sb k(1,2,4) f(2,5) by (auto simp: space_kept_def Cons)
  qed (use run sb in auto)
qed

end
