(* ===== verification/Ucopy.thy ===== *)
theory Ucopy
  imports Kvm Uspace
begin

text \<open>
  Copying an address space for \<^verbatim>\<open>fork\<close>, \<^verbatim>\<open>copyuvm\<close> of \<^verbatim>\<open>vm.c\<close> in part 1: parent and child are two address spaces with
  no page in common but the shared ones, and the child sees what the parent sees.
\<close>

section \<open>Two address spaces\<close>

text \<open>Work on the address space \<open>d\<close> and the free list does not touch another address space \<open>p\<close>.\<close>

lemma pool_aligned: "uspace kend lim s xs d \<Longrightarrow> \<forall>v \<in> set xs \<union> region (ram s) d lim. aligned v"
  using region_pages(2) pt_ok_pages [OF uspaceD(1)] page_facts(1) by blast

lemma other_space:
  assumes p: "uspace kend ULIM s xs p" and d: "uspace kend ULIM s xs d" "region (ram s) p ULIM \<inter> region (ram s) d ULIM = {}"
    and s': "uspace kend ULIM s' ys d" "set ys \<union> region (ram s') d ULIM = set xs \<union> region (ram s) d ULIM"
      "same_but (set xs \<union> region (ram s) d ULIM) (ram s) (ram s')"
  shows "uspace kend ULIM s' ys p" "region (ram s') p ULIM = region (ram s) p ULIM" "region (ram s') p ULIM \<inter> region (ram s') d ULIM = {}"
    and "pte_of (ram s') p va = pte_of (ram s) p va" "unat va < ULIM \<Longrightarrow> uview (ram s') p va = uview (ram s) p va"
proof -
  have dj: "region (ram s) p ULIM \<inter> (set xs \<union> region (ram s) d ULIM) = {}" using region_pages(3) [OF p] d(2) by auto
  then have ys: "region (ram s) p ULIM \<inter> set ys = {}" using s'(2) by blast
  note F = uspace_frame [OF p s'(3) pool_aligned [OF d(1)] dj pt_okD(1) [OF uspaceD(1) [OF s'(1)]] ys]
  show "uspace kend ULIM s' ys p" "region (ram s') p ULIM = region (ram s) p ULIM" "pte_of (ram s') p va = pte_of (ram s) p va"
    "unat va < ULIM \<Longrightarrow> uview (ram s') p va = uview (ram s) p va" by (rule F; assumption)+
  show "region (ram s') p ULIM \<inter> region (ram s') d ULIM = {}" unfolding F(2) using dj s'(2) by blast
qed

section \<open>Copying pages\<close>

definition copied :: "u32 \<Rightarrow> kmem \<Rightarrow> u32 list \<Rightarrow> u32 \<Rightarrow> u32 \<Rightarrow> nat \<Rightarrow> nat \<Rightarrow> kmem \<Rightarrow> u32 list \<Rightarrow> bool" where
  "copied kend s xs p d lo hi s' ys \<longleftrightarrow> uspace kend ULIM s' ys d \<and>
     set ys \<union> region (ram s') d ULIM = set xs \<union> region (ram s) d ULIM \<and> same_but (set xs \<union> region (ram s) d ULIM) (ram s) (ram s') \<and>
     (\<forall>va. \<not> in_pages lo hi va \<longrightarrow> pte_of (ram s') d va = pte_of (ram s) d va) \<and>
     (\<forall>va. unat va < ULIM \<longrightarrow> uview (ram s') d va = (if in_pages lo hi va then uview (ram s) p va else uview (ram s) d va))"

lemma page_copy:
  assumes "\<not> bad_page kend x" and "\<not> bad_page kend v" and "x \<noteq> v"
  shows "same_outside x m (memmove m x v PGSIZE)" "i < 4096 \<Longrightarrow> memmove m x v PGSIZE (x + of_nat i) = m (v + of_nat i)"
proof -
  have top: "unat w + 4096 < 4294967296" if "\<not> bad_page kend w" for w
  proof -
    have "unat (V2P w) < 234881024" using that by (simp add: bad_page_def PHYSTOP_def word_le_nat_alt not_le)
    then show ?thesis using page_facts(2) [OF that] by (simp add: V2P_def KERNBASE_def unat_diff_u32 word_le_nat_alt)
  qed
  have e: "memmove m x v PGSIZE = moved m x v 4096"
    using memmove_correct [of v PGSIZE x m] top [OF assms(1)] top [OF assms(2)] by (simp add: PGSIZE_def)
  then show "same_outside x m (memmove m x v PGSIZE)" by (simp add: same_outside_def moved_def)
  show "memmove m x v PGSIZE (x + of_nat i) = m (v + of_nat i)" if "i < 4096" using that by (simp add: e moved_def)
qed

lemma flags_mask: "PTE_FLAGS e AND 0xFFF = PTE_FLAGS e" "present e \<Longrightarrow> PTE_FLAGS e OR PTE_P = PTE_FLAGS e"
proof -
  show "PTE_FLAGS e AND 0xFFF = PTE_FLAGS e" by (simp add: PTE_FLAGS_def and.assoc)
  assume "present e"
  then have "bit (e AND 1) 0" unfolding PTE_P_def by (simp add: and_one_eq odd_iff_mod_2_eq_one bit_0 split: if_splits)
  then have b: "bit e 0" by (simp add: bit_simps)
  show "PTE_FLAGS e OR PTE_P = PTE_FLAGS e"
    by (rule bit_word_eqI) (use b in \<open>auto simp: PTE_FLAGS_def PTE_P_def bit_simps\<close>)
qed

text \<open>One round of the loop of \<^verbatim>\<open>copyuvm\<close> for a page \<open>a\<close> the parent has and the child has not.\<close>

lemma copy_page:
  assumes d: "uspace kend ULIM s (x # xs) d" and p: "uspace kend ULIM s (x # xs) p" "region (ram s) p ULIM \<inter> region (ram s) d ULIM = {}"
    and a: "aligned a" "unat a < ULIM" "\<not> mapped (ram s) d a" "mapped (ram s) p a"
  defines "e \<equiv> pte_of (ram s) p a"
  obtains (mapped) s1 s' ys where "kalloc s = (x, s1)" "x \<noteq> 0"
      "mappages (s1\<lparr>ram := memmove (ram s1) x (P2V (PTE_ADDR e)) PGSIZE\<rparr>) d a PGSIZE (V2P x) (PTE_FLAGS e) = Some (Inr (0, s'))"
      "copied kend s (x # xs) p d (unat a) (unat a + 4096) s' ys"
  | (no_table) s1 s2 s' where "kalloc s = (x, s1)" "x \<noteq> 0" "s2 = s1\<lparr>ram := memmove (ram s1) x (P2V (PTE_ADDR e)) PGSIZE\<rparr>"
      "mappages s2 d a PGSIZE (V2P x) (PTE_FLAGS e) = Some (Inr (-1, s2))" "kfree kend s2 x = Inr s'"
      "uspace kend ULIM s' (x # xs) d" "region (ram s') d ULIM = region (ram s) d ULIM" "same_but {x} (ram s) (ram s')"
proof -
  let ?v = "frame (ram s) p a" and ?m = "memmove (ram s) x (frame (ram s) p a) PGSIZE"
  have ve: "?v = P2V (PTE_ADDR e)" "present e" using a(4) by (simp_all add: frame_def e_def mapped_def)
  have v: "\<not> bad_page kend ?v" "?v \<noteq> x" using uspaceD(2,3) [OF p(1) frameI [OF a(2,4)]] by auto
  have bx: "\<not> bad_page kend x" using pt_ok_pages [OF uspaceD(1) [OF d]] by simp
  note C = page_copy [OF bx v(1) v(2) [symmetric], where m = "ram s"]
  obtain s1 where s1: "kalloc s = (x, s1)" "x \<noteq> 0" "ram s1 = ram s" and S: "uspace kend ULIM (s1\<lparr>ram := ?m\<rparr>) xs d"
      "region ?m d ULIM = region (ram s) d ULIM" "\<And>va. pte_of ?m d va = pte_of (ram s) d va"
      "\<And>va. unat va < ULIM \<Longrightarrow> uview ?m d va = uview (ram s) d va" and x: "x \<notin> set xs" "x \<notin> region (ram s) d ULIM"
    using take_page [OF d C(1)] by metis
  let ?s = "s1\<lparr>ram := ?m\<rparr>" and ?perm = "PTE_FLAGS e" and ?R = "set (x # xs) \<union> region (ram s) d ULIM"
  have sb: "same_but {x} (ram s) ?m" using same_but_outside [OF C(1)] by simp
  have np: "\<not> present (pte_of (ram ?s) d a)" "\<not> mapped (ram ?s) d a" "x \<notin> region (ram ?s) d ULIM" using a(3) S(2,3) x(2) by (simp_all add: mapped_def)
  consider "mappages ?s d a PGSIZE (V2P x) ?perm = Some (Inr (-1, ?s))"
    | s' xs' where "mappages ?s d a PGSIZE (V2P x) ?perm = Some (Inr (0, s'))" "mapped_page kend ?s xs d a (V2P x OR ?perm OR PTE_P) s' xs'"
    using mappages_page [OF uspaceD(1) [OF S(1)] a(1) np(1)] by blast
  then show thesis
  proof cases
    case 1
    obtain s' where "kfree kend ?s x = Inr s'" "uspace kend ULIM s' (x # xs) d" "region (ram s') d ULIM = region (ram ?s) d ULIM" "same_but {x} (ram ?s) (ram s')"
      using give_back [OF S(1) bx x(1) np(3)] by blast
    then show thesis using no_table [of s1 ?s s'] 1 s1 S(2) same_but_trans [OF sb] ve(1) by simp
  next
    case (2 s' xs')
    note A = add_page [OF S(1) 2(2) bx x(1) np(3) a(2) np(2) flags_mask(1)]
    have "same_but ?R ?m (ram s')"
      using 2(2) S(2) by (auto simp: mapped_page_def region_def elim!: same_but_mono)
    with same_but_mono [OF sb] have sb': "same_but ?R (ram s) (ram s')" by (rule same_but_trans) simp
    have "uview (ram s) p va = Some (?perm OR PTE_P, ?m (x + of_nat (unat va mod 4096)))" if "pn va = pn a" for va
      using a(4) C(2) pn_pte [OF that, of "ram s" p] flags_mask(2) [OF ve(2)] by (simp add: uview_def mapped_def frame_def e_def)
    moreover have "pte_of (ram s') d va = pte_of (ram s) d va" if "pn va \<noteq> pn a" for va
      using 2(2) S(3) that by (simp add: mapped_page_def)
    ultimately have "copied kend s (x # xs) p d (unat a) (unat a + 4096) s' xs'"
      unfolding copied_def one_page [OF a(1)] using A S(2,4) sb' by auto
    then show thesis using mapped [of s1 s' xs'] s1 2(1) ve(1) by simp
  qed
qed

lemma copied_step:
  assumes c: "copied kend s xs p d (unat a) (unat a + 4096) s1 ys" and a: "aligned a" "unat a < hi"
    and h: "copied kend s1 ys p d (unat a + 4096) hi s' zs" and pv: "\<And>va. unat va < ULIM \<Longrightarrow> uview (ram s1) p va = uview (ram s) p va"
  shows "copied kend s xs p d (unat a) hi s' zs"
  unfolding copied_def in_pages_step(1) [OF a]
  using c h pv in_pages_step(2) [OF a] same_but_trans [of "set xs \<union> region (ram s) d ULIM"] unfolding copied_def one_page [OF a(1)] by auto

lemma copy_pages_runs:
  assumes hi: "unat sz \<le> ULIM"
  shows "uspace kend ULIM s xs d \<Longrightarrow> uspace kend ULIM s xs p \<Longrightarrow> region (ram s) p ULIM \<inter> region (ram s) d ULIM = {} \<Longrightarrow> aligned a \<Longrightarrow>
    \<forall>va. in_pages (unat a) (unat sz) va \<longrightarrow> mapped (ram s) p va \<and> \<not> mapped (ram s) d va \<Longrightarrow>
    \<exists>good s' ys. copy_pages kend s p d a sz = Some (Inr (good, s')) \<and> uspace kend ULIM s' ys d \<and>
      set ys \<union> region (ram s') d ULIM = set xs \<union> region (ram s) d ULIM \<and> same_but (set xs \<union> region (ram s) d ULIM) (ram s) (ram s') \<and>
      (good \<longrightarrow> copied kend s xs p d (unat a) (unat sz) s' ys)"
proof (induction "unat sz - unat a" arbitrary: s xs a rule: less_induct)
  case less
  note d = less.prems(1) and p = less.prems(2,3) and al = less.prems(4)
  show ?case
  proof (cases "a < sz")
    case False
    then have "copied kend s xs p d (unat a) (unat sz) s xs" using d by (auto simp: copied_def in_pages_def word_less_nat_alt)
    then show ?thesis using False d by (subst copy_pages.simps) auto
  next
    case lt: True
    then have a: "unat a < unat sz" "unat a < ULIM" using hi by (auto simp: word_less_nat_alt)
    have nx: "unat (a + PGSIZE) = unat a + 4096" using a by (subst unat_add_small) (auto simp: PGSIZE_def ULIM_def)
    have al': "aligned (a + PGSIZE)" and pr: "unat sz - unat (a + PGSIZE) < unat sz - unat a" using al a nx by (simp_all add: aligned_def)
    have m: "mapped (ram s) p a" "\<not> mapped (ram s) d a" using less.prems(5) in_pages_step(1) [OF al a(1), of a] by auto
    have w: "walkpgdir s p a False = (pte_slot (ram s) p a, s)" "pte_slot (ram s) p a \<noteq> 0" "load32 (ram s) (pte_slot (ram s) p a) = pte_of (ram s) p a"
      using walk_present [OF mapped_table [OF m(1)]] slot_nonzero [OF pt_okD(4) [OF uspaceD(1) [OF p(1)] PDX_less mapped_table [OF m(1)]] PTX_less]
        pte_at_slot [OF mapped_table [OF m(1)]] by auto
    have pres: "present (pte_of (ram s) p a)" using m(1) by (simp add: mapped_def)
    show ?thesis
    proof (cases xs)
      case Nil
      then have "kalloc s = (0, s)" using kalloc_Nil pt_okD(1) [OF uspaceD(1) [OF d]] by simp
      then show ?thesis using lt w pres d by (subst copy_pages.simps) auto
    next
      case (Cons x zs)
      show ?thesis
      proof (rule copy_page [OF d [unfolded Cons] p [unfolded Cons] al a(2) m(2,1)])
        fix s1 s2 ys
        assume k: "kalloc s = (x, s1)" "x \<noteq> 0" "copied kend s (x # zs) p d (unat a) (unat a + 4096) s2 ys"
          "mappages (s1\<lparr>ram := memmove (ram s1) x (P2V (PTE_ADDR (pte_of (ram s) p a))) PGSIZE\<rparr>) d a PGSIZE (V2P x) (PTE_FLAGS (pte_of (ram s) p a)) = Some (Inr (0, s2))"
        have c: "uspace kend ULIM s2 ys d" "set ys \<union> region (ram s2) d ULIM = set xs \<union> region (ram s) d ULIM"
            "same_but (set xs \<union> region (ram s) d ULIM) (ram s) (ram s2)" using k(3) by (auto simp: copied_def Cons)
        note O = other_space [OF p(1) d p(2) c]
        have "\<forall>va. in_pages (unat a + 4096) (unat sz) va \<longrightarrow> mapped (ram s2) p va \<and> \<not> mapped (ram s2) d va"
          using less.prems(5) k(3) in_pages_step [OF al a(1)] O(4) unfolding copied_def one_page [OF al] mapped_def by metis
        then obtain good s' ws where r: "copy_pages kend s2 p d (a + PGSIZE) sz = Some (Inr (good, s'))" "uspace kend ULIM s' ws d"
            "set ws \<union> region (ram s') d ULIM = set ys \<union> region (ram s2) d ULIM" "same_but (set ys \<union> region (ram s2) d ULIM) (ram s2) (ram s')"
            "good \<longrightarrow> copied kend s2 ys p d (unat a + 4096) (unat sz) s' ws"
          using less.hyps [OF pr c(1) O(1,3) al'] unfolding nx by blast
        have "copy_pages kend s p d a sz = Some (Inr (good, s'))" using lt w pres k r(1) by (subst copy_pages.simps) simp
        moreover have "good \<longrightarrow> copied kend s xs p d (unat a) (unat sz) s' ws"
          using copied_step [OF k(3) al a(1) _ O(5)] r(5) unfolding Cons by blast
        ultimately show ?thesis using r(2-4) same_but_trans [OF c(3)] unfolding c(2) by blast
      next
        fix s1 s2 s'
        assume k: "kalloc s = (x, s1)" "x \<noteq> 0" "s2 = s1\<lparr>ram := memmove (ram s1) x (P2V (PTE_ADDR (pte_of (ram s) p a))) PGSIZE\<rparr>"
          "mappages s2 d a PGSIZE (V2P x) (PTE_FLAGS (pte_of (ram s) p a)) = Some (Inr (-1, s2))" "kfree kend s2 x = Inr s'"
          "uspace kend ULIM s' (x # zs) d" "region (ram s') d ULIM = region (ram s) d ULIM" "same_but {x} (ram s) (ram s')"
        have "copy_pages kend s p d a sz = Some (Inr (False, s'))" using lt w pres k(1-5) by (subst copy_pages.simps) simp
        moreover have "same_but (set xs \<union> region (ram s) d ULIM) (ram s) (ram s')" using same_but_mono [OF k(8)] by (simp add: Cons)
        ultimately show ?thesis using k(6,7) unfolding Cons by blast
      qed
    qed
  qed
qed

section \<open>Shared pages of the child\<close>

lemma shmem_va_page:
  assumes "j < NSHAREPAGE"
  shows "aligned (shmem_va j)" "ULIM \<le> unat (shmem_va j)" "unat (shmem_va j) < 2147483648" "pn (shmem_va j) = 524287 - j"
proof -
  note u = shmem_va_facts(1) [OF assms]
  have "unat (shmem_va j) = 4096 * (524287 - j)" unfolding u using assms by (simp add: NSHAREPAGE_def)
  then show "aligned (shmem_va j)" "pn (shmem_va j) = 524287 - j" by (simp_all add: aligned_def)
  show "ULIM \<le> unat (shmem_va j)" "unat (shmem_va j) < 2147483648" using u assms by (simp_all add: ULIM_def NSHAREPAGE_def)
qed

definition shared_ok :: "u32 list \<Rightarrow> bool" where
  "shared_ok ps \<longleftrightarrow> length ps = NSHAREPAGE \<and> (\<forall>j < NSHAREPAGE. ps ! j = 0 \<or> ps ! j = shmem_va j)"

lemma copy_shared_runs:
  assumes ps: "shared_ok ps"
  shows "uspace kend ULIM s xs d \<Longrightarrow> i + n = NSHAREPAGE \<Longrightarrow> length child = NSHAREPAGE \<Longrightarrow>
    \<forall>j. i \<le> j \<and> j < NSHAREPAGE \<longrightarrow> \<not> mapped (ram s) d (shmem_va j) \<Longrightarrow>
    \<exists>good child' g' s' ys. copy_shared s g d ps child i n = Some (Inr (good, child', g', s')) \<and> space_kept kend ULIM s xs d s' ys \<and>
      (\<forall>va. (\<forall>j. i \<le> j \<and> j < NSHAREPAGE \<longrightarrow> pn va \<noteq> pn (shmem_va j)) \<longrightarrow> pte_of (ram s') d va = pte_of (ram s) d va) \<and>
      (good \<longrightarrow> (\<forall>j. i \<le> j \<and> j < NSHAREPAGE \<and> ps ! j \<noteq> 0 \<longrightarrow>
         pte_of (ram s') d (shmem_va j) = V2P (sm_addr g ! j) OR (PTE_W OR PTE_U) OR PTE_P))"
proof (induction n arbitrary: s xs i child g)
  case 0
  show ?case
    by (rule exI [of _ True], rule exI [of _ child], rule exI [of _ g], rule exI [of _ s], rule exI [of _ xs])
      (use space_kept_refl [OF "0.prems"(1)] "0.prems"(2) in auto)
next
  case (Suc n)
  have i: "i < NSHAREPAGE" "Suc i + n = NSHAREPAGE" using Suc.prems(2) by auto
  note sva = shmem_va_page [OF i(1)]
  show ?case
  proof (cases "ps ! i = 0")
    case True
    have "\<forall>j. Suc i \<le> j \<and> j < NSHAREPAGE \<longrightarrow> \<not> mapped (ram s) d (shmem_va j)" using Suc.prems(4) by simp
    then obtain good child' g' s' ys where r: "copy_shared s g d ps child (Suc i) n = Some (Inr (good, child', g', s'))" "space_kept kend ULIM s xs d s' ys"
        "\<forall>va. (\<forall>j. Suc i \<le> j \<and> j < NSHAREPAGE \<longrightarrow> pn va \<noteq> pn (shmem_va j)) \<longrightarrow> pte_of (ram s') d va = pte_of (ram s) d va"
        "good \<longrightarrow> (\<forall>j. Suc i \<le> j \<and> j < NSHAREPAGE \<and> ps ! j \<noteq> 0 \<longrightarrow>
           pte_of (ram s') d (shmem_va j) = V2P (sm_addr g ! j) OR (PTE_W OR PTE_U) OR PTE_P)"
      using Suc.IH [OF Suc.prems(1) i(2) Suc.prems(3), of g] by blast
    have "good \<longrightarrow> (\<forall>j. i \<le> j \<and> j < NSHAREPAGE \<and> ps ! j \<noteq> 0 \<longrightarrow>
        pte_of (ram s') d (shmem_va j) = V2P (sm_addr g ! j) OR (PTE_W OR PTE_U) OR PTE_P)"
      using r(4) True by (metis Suc_leI le_neq_implies_less)
    moreover have "\<forall>va. (\<forall>j. i \<le> j \<and> j < NSHAREPAGE \<longrightarrow> pn va \<noteq> pn (shmem_va j)) \<longrightarrow> pte_of (ram s') d va = pte_of (ram s) d va"
      using r(3) by (meson Suc_leD)
    moreover have "copy_shared s g d ps child i (Suc n) = Some (Inr (good, child', g', s'))" using True r(1) by simp
    ultimately show ?thesis using r(2) by blast
  next
    case False
    let ?ch = "child[i := ps ! i]" and ?e = "V2P (sm_addr g ! i) OR (PTE_W OR PTE_U) OR PTE_P"
    let ?g = "g\<lparr>sm_counts := (sm_counts g)[i := sm_counts g ! i + 1]\<rparr>"
    have v: "?ch ! i = shmem_va i" using ps i(1) False Suc.prems(3) by (auto simp: shared_ok_def)
    have np: "\<not> present (pte_of (ram s) d (shmem_va i))" using Suc.prems(4) i(1) by (simp add: mapped_def)
    from mappages_page [OF uspaceD(1) [OF Suc.prems(1)] sva(1) np, of "V2P (sm_addr g ! i)" "PTE_W OR PTE_U"] show ?thesis
    proof (elim disjE conjE exE)
      assume "mappages s d (shmem_va i) PGSIZE (V2P (sm_addr g ! i)) (PTE_W OR PTE_U) = Some (Inr (-1, s))"
      then have "copy_shared s g d ps child i (Suc n) = Some (Inr (False, ?ch, g, s))" using False v by simp
      then show ?thesis using space_kept_refl [OF Suc.prems(1)] by blast
    next
      fix s1 xs1 assume m: "mappages s d (shmem_va i) PGSIZE (V2P (sm_addr g ! i)) (PTE_W OR PTE_U) = Some (Inr (0, s1))"
        "mapped_page kend s xs d (shmem_va i) ?e s1 xs1"
      have k1: "space_kept kend ULIM s xs d s1 xs1" using map_above [OF Suc.prems(1) m(2) sva(2)] by (simp add: ULIM_def)
      have pte: "pte_of (ram s1) d va = (if pn va = pn (shmem_va i) then ?e else pte_of (ram s) d va)" for va
        using m(2) by (simp add: mapped_page_def)
      have dif: "pn (shmem_va j) \<noteq> pn (shmem_va i)" if "Suc i \<le> j" "j < NSHAREPAGE" for j
        using that shmem_va_page(4) [OF i(1)] shmem_va_page(4) [OF that(2)] by (simp add: NSHAREPAGE_def)
      have "\<forall>j. Suc i \<le> j \<and> j < NSHAREPAGE \<longrightarrow> \<not> mapped (ram s1) d (shmem_va j)"
        using Suc.prems(4) dif by (auto simp: mapped_def pte)
      then obtain good child' g' s' ys where r: "copy_shared s1 ?g d ps ?ch (Suc i) n = Some (Inr (good, child', g', s'))"
          "space_kept kend ULIM s1 xs1 d s' ys"
          "\<forall>va. (\<forall>j. Suc i \<le> j \<and> j < NSHAREPAGE \<longrightarrow> pn va \<noteq> pn (shmem_va j)) \<longrightarrow> pte_of (ram s') d va = pte_of (ram s1) d va"
          "good \<longrightarrow> (\<forall>j. Suc i \<le> j \<and> j < NSHAREPAGE \<and> ps ! j \<noteq> 0 \<longrightarrow>
             pte_of (ram s') d (shmem_va j) = V2P (sm_addr g ! j) OR (PTE_W OR PTE_U) OR PTE_P)"
        using Suc.IH [of s1 xs1 "Suc i" ?ch ?g] k1 i(2) Suc.prems(3) unfolding space_kept_def [of _ _ s] by auto
      have "copy_shared s g d ps child i (Suc n) = Some (Inr (good, child', g', s'))" using False v m(1) r(1) by simp
      moreover have "pte_of (ram s') d (shmem_va i) = ?e" using r(3) dif pte by metis
      then have "good \<longrightarrow> (\<forall>j. i \<le> j \<and> j < NSHAREPAGE \<and> ps ! j \<noteq> 0 \<longrightarrow>
          pte_of (ram s') d (shmem_va j) = V2P (sm_addr g ! j) OR (PTE_W OR PTE_U) OR PTE_P)"
        using r(4) by (metis Suc_leI le_neq_implies_less)
      moreover have "\<forall>va. (\<forall>j. i \<le> j \<and> j < NSHAREPAGE \<longrightarrow> pn va \<noteq> pn (shmem_va j)) \<longrightarrow> pte_of (ram s') d va = pte_of (ram s) d va"
        using r(3) pte i(1) by auto
      ultimately show ?thesis using space_kept_trans [OF k1 r(2)] by blast
    qed
  qed
qed

section \<open>The copy\<close>

text \<open>The address space of a process of size \<open>sz\<close>: page zero is not mapped, all others up to the size are.\<close>

definition image :: "u32 \<Rightarrow> kmem \<Rightarrow> u32 list \<Rightarrow> u32 \<Rightarrow> u32 \<Rightarrow> bool" where
  "image kend s xs p sz \<longleftrightarrow> uspace kend ULIM s xs p \<and> unat sz \<le> ULIM \<and>
     (\<forall>va. unat va < ULIM \<longrightarrow> (mapped (ram s) p va \<longleftrightarrow> in_pages 4096 (unat sz) va))"

lemma in_pages_below: "in_pages lo hi va \<Longrightarrow> hi \<le> ULIM \<Longrightarrow> unat va < ULIM"
  using div_less_iff_less_mult [of 4096 "unat va" 524284] by (simp add: in_pages_def ULIM_def)

lemma parent_kept:
  assumes p: "uspace kend ULIM s xs p" and "same_but (set xs) (ram s) (ram s')" and "free_pages kend s' ys" and "set ys \<subseteq> set xs"
  shows "uspace kend ULIM s' ys p" "region (ram s') p ULIM = region (ram s) p ULIM"
    and "pte_of (ram s') p va = pte_of (ram s) p va" "unat va < ULIM \<Longrightarrow> uview (ram s') p va = uview (ram s) p va"
proof -
  have al: "\<forall>v \<in> set xs. aligned v" using pool_aligned [OF p] by blast
  have dj: "region (ram s) p ULIM \<inter> set xs = {}" "region (ram s) p ULIM \<inter> set ys = {}" using region_pages(3) [OF p] assms(4) by auto
  note F = uspace_frame [OF p assms(2) al dj(1) assms(3) dj(2)]
  show "uspace kend ULIM s' ys p" "region (ram s') p ULIM = region (ram s) p ULIM" "pte_of (ram s') p va = pte_of (ram s) p va"
    "unat va < ULIM \<Longrightarrow> uview (ram s') p va = uview (ram s) p va" by (rule F; assumption)+
qed

lemma kmapped_same:
  assumes "kmapped m d e" and "e \<in> set ks" and "kranges lo ks" and "\<And>va. lo \<le> unat va \<Longrightarrow> pte_of m' d va = pte_of m d va"
  shows "kmapped m' d e"
proof -
  obtain v ps pe perm where e: "e = (v, ps, pe, perm)" by (cases e)
  have v: "lo \<le> unat v \<and> aligned (pe - ps) \<and> unat v + unat (pe - ps) \<le> 4294967296" using assms(2,3) unfolding e
    by (induction ks arbitrary: lo) (auto, meson le_add1 order_trans)
  have "lo \<le> unat (page_k v k)" if "4096 * k < unat (pe - ps)" for k
  proof -
    obtain n where "unat (pe - ps) = 4096 * n" using v unfolding aligned_def by (elim conjE dvdE)
    then show ?thesis using page_k_nat [of v n k] v that by simp
  qed
  then show ?thesis using assms(1,4) by (simp add: kmapped_def e)
qed

text \<open>A failed step throws the child away again: every page is back on the free list.\<close>

lemma discard_child:
  assumes "KERNBASE < kend" and "uspace kend ULIM s2 zs d" and "set zs \<union> region (ram s2) d ULIM = set xs" and "same_but (set xs) (ram s) (ram s2)"
  shows "\<exists>s' ys. freevm kend s2 d = Some (Inr s') \<and> free_pages kend s' ys \<and> set ys = set xs \<and> same_but (set xs) (ram s) (ram s')"
proof -
  obtain s' ys where f: "freevm kend s2 d = Some (Inr s')" "free_pages kend s' ys" "set ys = set zs \<union> region (ram s2) d ULIM"
      "same_but (region (ram s2) d ULIM) (ram s2) (ram s')"
    using freevm_runs [OF assms(1,2)] by blast
  have "same_but (set xs) (ram s2) (ram s')" using f(4) by (rule same_but_mono) (use assms(3) in auto)
  with assms(4) have "same_but (set xs) (ram s) (ram s')" by (rule same_but_trans)
  then show ?thesis using f(1-3) assms(3) by auto
qed

definition child_of :: "u32 \<Rightarrow> u32 \<Rightarrow> kmem \<Rightarrow> u32 list \<Rightarrow> shm \<Rightarrow> u32 \<Rightarrow> u32 list \<Rightarrow> u32 \<Rightarrow> kmem \<Rightarrow> u32 list \<Rightarrow> bool" where
  "child_of kend kdata s xs g p ps d s' ys \<longleftrightarrow> uspace kend ULIM s' ys d \<and> set ys \<union> region (ram s') d ULIM = set xs \<and>
     (\<forall>va. unat va < ULIM \<longrightarrow> uview (ram s') d va = uview (ram s) p va) \<and>
     (\<forall>j < NSHAREPAGE. ps ! j \<noteq> 0 \<longrightarrow> pte_of (ram s') d (shmem_va j) = V2P (sm_addr g ! j) OR (PTE_W OR PTE_U) OR PTE_P) \<and>
     (\<forall>e \<in> set (kmap kdata). kmapped (ram s') d e)"

lemma share_child:
  assumes kd: "kdata_ok kdata" and ps: "shared_ok ps" "length child = NSHAREPAGE"
    and c: "uspace kend ULIM s2 ys d" "set ys \<union> region (ram s2) d ULIM = set xs" "\<And>va. unat va < ULIM \<Longrightarrow> uview (ram s2) d va = uview (ram s) p va"
      "\<And>va. ULIM \<le> unat va \<Longrightarrow> unat va < 2147483648 \<Longrightarrow> \<not> mapped (ram s2) d va" "\<And>e. e \<in> set (kmap kdata) \<Longrightarrow> kmapped (ram s2) d e"
  shows "\<exists>good child' g' s3 ws. copy_shared s2 g d ps child 0 NSHAREPAGE = Some (Inr (good, child', g', s3)) \<and>
    uspace kend ULIM s3 ws d \<and> set ws \<union> region (ram s3) d ULIM = set xs \<and> same_but (set xs) (ram s2) (ram s3) \<and>
    (good \<longrightarrow> child_of kend kdata s xs g p ps d s3 ws)"
proof -
  have np: "\<forall>j. 0 \<le> j \<and> j < NSHAREPAGE \<longrightarrow> \<not> mapped (ram s2) d (shmem_va j)" using c(4) shmem_va_page(2,3) by simp
  obtain good child' g' s3 ws where h: "copy_shared s2 g d ps child 0 NSHAREPAGE = Some (Inr (good, child', g', s3))"
      "space_kept kend ULIM s2 ys d s3 ws"
      "\<forall>va. (\<forall>j. 0 \<le> j \<and> j < NSHAREPAGE \<longrightarrow> pn va \<noteq> pn (shmem_va j)) \<longrightarrow> pte_of (ram s3) d va = pte_of (ram s2) d va"
      "good \<longrightarrow> (\<forall>j. 0 \<le> j \<and> j < NSHAREPAGE \<and> ps ! j \<noteq> 0 \<longrightarrow> pte_of (ram s3) d (shmem_va j) = V2P (sm_addr g ! j) OR (PTE_W OR PTE_U) OR PTE_P)"
    using copy_shared_runs [OF ps(1) c(1) _ ps(2) np, of NSHAREPAGE g] by auto
  have H: "uspace kend ULIM s3 ws d" "set ws \<union> region (ram s3) d ULIM = set xs" "same_but (set xs) (ram s2) (ram s3)"
      "\<And>va. unat va < ULIM \<Longrightarrow> uview (ram s3) d va = uview (ram s2) d va"
    using h(2) c(2) by (auto simp: space_kept_def)
  have "pte_of (ram s3) d va = pte_of (ram s2) d va" if "2147483648 \<le> unat va" for va
  proof -
    have "pn va \<noteq> pn (shmem_va j)" if "j < NSHAREPAGE" for j
      using \<open>2147483648 \<le> unat va\<close> shmem_va_page(4) [OF that] div_le_mono [of 2147483648 "unat va" 4096] by simp
    then show ?thesis using h(3) by simp
  qed
  then have "\<forall>e \<in> set (kmap kdata). kmapped (ram s3) d e" using kmapped_same [OF c(5) _ kmap_ranges [OF kd]] by blast
  then have "good \<longrightarrow> child_of kend kdata s xs g p ps d s3 ws" using H c(3) h(4) by (simp add: child_of_def)
  then show ?thesis using h(1) H(1-3) by blast
qed

lemma copy_private:
  assumes im: "image kend s xs p sz" and sb: "same_but (set xs) (ram s) (ram s1)"
    and K: "uspace kend ULIM s1 zs d" "set zs \<union> region (ram s1) d ULIM = set xs" "\<And>va. unat va < 2147483648 \<Longrightarrow> \<not> mapped (ram s1) d va"
  shows "\<exists>good s2 ys. copy_pages kend s1 p d PGSIZE sz = Some (Inr (good, s2)) \<and> uspace kend ULIM s2 ys d \<and>
    set ys \<union> region (ram s2) d ULIM = set xs \<and> same_but (set xs) (ram s) (ram s2) \<and>
    (good \<longrightarrow> (\<forall>va. unat va < ULIM \<longrightarrow> uview (ram s2) d va = uview (ram s) p va) \<and>
      (\<forall>va. ULIM \<le> unat va \<longrightarrow> pte_of (ram s2) d va = pte_of (ram s1) d va))"
proof -
  have p: "uspace kend ULIM s xs p" and sz: "unat sz \<le> ULIM" and mp: "\<And>va. unat va < ULIM \<Longrightarrow> mapped (ram s) p va \<longleftrightarrow> in_pages 4096 (unat sz) va"
    using im by (auto simp: image_def)
  have "set zs \<subseteq> set xs" using K(2) by auto
  note P = parent_kept [OF p sb pt_okD(1) [OF uspaceD(1) [OF K(1)]] this]
  have P1: "uspace kend ULIM s1 zs p" "region (ram s1) p ULIM \<inter> region (ram s1) d ULIM = {}"
    using P(1,2) K(2) region_pages(3) [OF p] by auto
  have al: "aligned PGSIZE" "unat PGSIZE = 4096" by (simp_all add: aligned_def PGSIZE_def)
  have "\<forall>va. in_pages (unat PGSIZE) (unat sz) va \<longrightarrow> mapped (ram s1) p va \<and> \<not> mapped (ram s1) d va"
  proof (intro allI impI)
    fix va assume i: "in_pages (unat PGSIZE) (unat sz) va"
    then have va: "unat va < ULIM" using in_pages_below sz by blast
    then show "mapped (ram s1) p va \<and> \<not> mapped (ram s1) d va"
      using i al(2) mp K(3) [of va] P(3) [of va] by (auto simp: mapped_def ULIM_def)
  qed
  then obtain good s2 ys where c: "copy_pages kend s1 p d PGSIZE sz = Some (Inr (good, s2))" "uspace kend ULIM s2 ys d"
      "set ys \<union> region (ram s2) d ULIM = set xs" "same_but (set xs) (ram s1) (ram s2)" "good \<longrightarrow> copied kend s1 zs p d 4096 (unat sz) s2 ys"
    using copy_pages_runs [OF sz K(1) P1 al(1)] unfolding al(2) K(2) by blast
  have "uview (ram s2) d va = uview (ram s) p va" if good and va: "unat va < ULIM" for va
    using c(5) that P(4) [OF va] K(3) [of va] mp [OF va] uview_None [of "ram s" p va] uview_None [of "ram s1" d va]
    by (auto simp: copied_def ULIM_def)
  moreover have "pte_of (ram s2) d va = pte_of (ram s1) d va" if good "ULIM \<le> unat va" for va
    using c(5) that in_pages_below [OF _ sz, of 4096 va] by (auto simp: copied_def)
  ultimately show ?thesis using c(1-3) same_but_trans [OF sb c(4)] by blast
qed

lemma copyuvm_runs:
  assumes kend: "KERNBASE < kend" and kd: "kdata_ok kdata" and im: "image kend s xs p sz"
    and ps: "shared_ok ps" and ch: "length child = NSHAREPAGE"
  shows "\<exists>d child' g' s' ys. copyuvm kend kdata s g p sz child ps = Some (Inr (d, child', g', s')) \<and>
    free_pages kend s' ys \<and> same_but (set xs) (ram s) (ram s') \<and>
    (d = 0 \<and> set ys = set xs \<or> d \<noteq> 0 \<and> child_of kend kdata s xs g p ps d s' ys)"
proof -
  have p: "uspace kend ULIM s xs p" using im by (simp add: image_def)
  obtain d s1 zs where k: "setupkvm kend kdata s = Some (Inr (d, s1))" "same_but (set xs) (ram s) (ram s1)"
      "d = 0 \<and> free_pages kend s1 zs \<and> set zs = set xs \<or>
       d \<noteq> 0 \<and> uspace kend ULIM s1 zs d \<and> set zs \<union> region (ram s1) d ULIM = set xs \<and>
         (\<forall>va. unat va < 2147483648 \<longrightarrow> pte_of (ram s1) d va = 0) \<and> (\<forall>e \<in> set (kmap kdata). kmapped (ram s1) d e)"
    using setupkvm_runs [OF kend kd pt_okD(1) [OF uspaceD(1) [OF p]]] by blast
  show ?thesis
  proof (cases "d = 0")
    case True
    then show ?thesis using k by (auto simp: copyuvm_def)
  next
    case False
    then have K: "uspace kend ULIM s1 zs d" "set zs \<union> region (ram s1) d ULIM = set xs" "\<And>va. unat va < 2147483648 \<Longrightarrow> \<not> mapped (ram s1) d va"
        "\<And>e. e \<in> set (kmap kdata) \<Longrightarrow> kmapped (ram s1) d e" using k(3) by (auto simp: mapped_def)
    obtain good s2 ys where c: "copy_pages kend s1 p d PGSIZE sz = Some (Inr (good, s2))" "uspace kend ULIM s2 ys d"
        "set ys \<union> region (ram s2) d ULIM = set xs" "same_but (set xs) (ram s) (ram s2)"
        "good \<longrightarrow> (\<forall>va. unat va < ULIM \<longrightarrow> uview (ram s2) d va = uview (ram s) p va) \<and> (\<forall>va. ULIM \<le> unat va \<longrightarrow> pte_of (ram s2) d va = pte_of (ram s1) d va)"
      using copy_private [OF im k(2) K(1-3)] by blast
    show ?thesis
    proof (cases good)
      case False
      obtain s' ws where "freevm kend s2 d = Some (Inr s')" "free_pages kend s' ws" "set ws = set xs" "same_but (set xs) (ram s) (ram s')"
        using discard_child [OF kend c(2-4)] by blast
      then show ?thesis using k(1) \<open>d \<noteq> 0\<close> c(1) False by (auto simp: copyuvm_def)
    next
      case True
      have "kmapped (ram s2) d e" if "e \<in> set (kmap kdata)" for e
        using kmapped_same [OF K(4) [OF that] that kmap_ranges [OF kd]] c(5) True by (auto simp: ULIM_def)
      then obtain good' child' g' s3 ws where h: "copy_shared s2 g d ps child 0 NSHAREPAGE = Some (Inr (good', child', g', s3))"
          "uspace kend ULIM s3 ws d" "set ws \<union> region (ram s3) d ULIM = set xs" "same_but (set xs) (ram s2) (ram s3)"
          "good' \<longrightarrow> child_of kend kdata s xs g p ps d s3 ws"
        using share_child [OF kd ps ch c(2,3)] c(5) True K(3) by (metis mapped_def)
      have sb3: "same_but (set xs) (ram s) (ram s3)" using c(4) h(4) by (rule same_but_trans)
      show ?thesis
      proof (cases good')
        case False
        obtain s' vs where "freevm kend s3 d = Some (Inr s')" "free_pages kend s' vs" "set vs = set xs" "same_but (set xs) (ram s) (ram s')"
          using discard_child [OF kend h(2,3) sb3] by blast
        then show ?thesis using k(1) \<open>d \<noteq> 0\<close> c(1) True h(1) False by (auto simp: copyuvm_def)
      next
        case good': True
        have "copyuvm kend kdata s g p sz child ps = Some (Inr (d, child', g', s3))"
          using k(1) \<open>d \<noteq> 0\<close> c(1) True h(1) good' by (simp add: copyuvm_def)
        then show ?thesis using \<open>d \<noteq> 0\<close> sb3 pt_okD(1) [OF uspaceD(1) [OF h(2)]] h(5) good' by blast
      qed
    qed
  qed
qed

text \<open>
  C16. \<^verbatim>\<open>copyuvm\<close> copies an address space: for a process whose pages are exactly those from the second page up to its
  size, it always returns. If it succeeds, the child sees at every private address the same byte with the
  same permissions as the parent, has the parent's shared pages mapped to the same frames and the kernel
  mapped as \<^verbatim>\<open>kmap\<close> says, and owns pages that were free before and that the parent does not own; if it fails,
  all pages are free again. In both cases what the parent sees and owns is unchanged.
\<close>

theorem copyuvm_copies:
  assumes "KERNBASE < kend" and "kdata_ok kdata" and "image kend s xs p sz" and "shared_ok ps" and "length child = NSHAREPAGE"
  shows "\<exists>d child' g' s' ys. copyuvm kend kdata s g p sz child ps = Some (Inr (d, child', g', s')) \<and>
    image kend s' ys p sz \<and> region (ram s') p ULIM = region (ram s) p ULIM \<and>
    (\<forall>va. unat va < ULIM \<longrightarrow> uview (ram s') p va = uview (ram s) p va) \<and>
    (d = 0 \<and> set ys = set xs \<or>
     d \<noteq> 0 \<and> child_of kend kdata s xs g p ps d s' ys \<and> image kend s' ys d sz \<and> region (ram s') p ULIM \<inter> region (ram s') d ULIM = {})"
proof -
  have p: "uspace kend ULIM s xs p" using assms(3) by (simp add: image_def)
  obtain d child' g' s' ys where r: "copyuvm kend kdata s g p sz child ps = Some (Inr (d, child', g', s'))"
      "free_pages kend s' ys" "same_but (set xs) (ram s) (ram s')" "d = 0 \<and> set ys = set xs \<or> d \<noteq> 0 \<and> child_of kend kdata s xs g p ps d s' ys"
    using copyuvm_runs [OF assms] by blast
  then have "set ys \<subseteq> set xs" by (auto simp: child_of_def)
  note P = parent_kept [OF p r(3,2) this]
  have "image kend s' ys p sz" using assms(3) P(1,3) by (simp add: image_def mapped_def)
  moreover have "image kend s' ys d sz \<and> region (ram s') p ULIM \<inter> region (ram s') d ULIM = {}" if "child_of kend kdata s xs g p ps d s' ys"
  proof -
    have "mapped (ram s') d va \<longleftrightarrow> mapped (ram s) p va" if "unat va < ULIM" for va
      using \<open>child_of kend kdata s xs g p ps d s' ys\<close> that uview_None [of "ram s'" d va] uview_None [of "ram s" p va] by (simp add: child_of_def)
    then show ?thesis using that assms(3) P(2) region_pages(3) [OF p] by (auto simp: image_def child_of_def)
  qed
  ultimately show ?thesis using r(1,4) P(2,4) by blast
qed

theorem copyuvm_copies_witness:
  "\<exists>s d child' g' s' ys. copyuvm 0x80100000 0x80108000 s \<lparr>sm_counts = [0, 0, 0, 0], sm_addr = []\<rparr> 0x80201000 0x1000 [0, 0, 0, 0] [0, 0, 0, 0] =
      Some (Inr (d, child', g', s')) \<and> image 0x80100000 s' ys 0x80201000 0x1000"
proof -
  obtain s where s: "uspace 0x80100000 ULIM s [0x80200000] 0x80201000" "\<And>va. pte_of (ram s) 0x80201000 va = 0" using empty_space_demo by metis
  have "image 0x80100000 s [0x80200000] 0x80201000 0x1000" using s by (simp add: image_def mapped_def in_pages_def ULIM_def)
  moreover have "kdata_ok 0x80108000" by (simp add: kdata_ok_def aligned_def KERNLINK_def KERNBASE_def EXTMEM_def P2V_def PHYSTOP_def)
  moreover have "shared_ok [0, 0, 0, 0]" by (simp add: shared_ok_def NSHAREPAGE_def less_Suc_eq numeral_eq_Suc)
  ultimately show ?thesis
    using copyuvm_copies [of "0x80100000" "0x80108000" s "[0x80200000]" "0x80201000" "0x1000" "[0, 0, 0, 0]" "[0, 0, 0, 0]"
        "\<lparr>sm_counts = [0, 0, 0, 0], sm_addr = []\<rparr>"]
    by (auto simp: KERNBASE_def NSHAREPAGE_def) (metis (no_types))+
qed

end
