(* ===== verification/Devs.thy ===== *)
theory Devs
  imports Dir
begin

text \<open>
  The table of device drivers, \<^verbatim>\<open>devsw\<close>, through the routines of \<^verbatim>\<open>fs.c\<close> that a path lookup and a read use: none of
  them changes it. With drivers that deliver at most what they were asked for, so does \<^verbatim>\<open>readi\<close>.
\<close>

named_theorems devs_same

lemma devs_upd [simp]: "dev_read (upd_inode ip f s) = dev_read s" "dev_read (bdrop s b) = dev_read s" "dev_read (bstore s b d) = dev_read s"
  "dev_read (idup s ip) = dev_read s"
  by (simp_all add: upd_inode_def bdrop_def bstore_def idup_def)

lemma devs_bhold [devs_same]: "bhold s b = Inr s' \<Longrightarrow> dev_read s' = dev_read s"
  by (auto simp: bhold_def split: if_splits)

lemma devs_readsb [devs_same]: "readsb s = Inr s' \<Longrightarrow> dev_read s' = dev_read s"
  by (auto simp: readsb_def res_simps dest!: devs_same)

lemma devs_bzero [devs_same]: "bzero s b = Inr s' \<Longrightarrow> dev_read s' = dev_read s"
  by (auto simp: bzero_def res_simps dest!: devs_same)

lemma devs_balloc_loop [devs_same]: "balloc_loop s sz b = Inr (r, s') \<Longrightarrow> dev_read s' = dev_read s"
proof (induction "sz - b" arbitrary: s b rule: less_induct)
  case less
  note run = less.prems [unfolded balloc_loop.simps [of s sz b] Let_def]
  then have b: "b < sz" by (simp split: if_splits del: balloc_loop.simps)
  obtain s1 where s1: "bhold s (BBLOCK (of_nat b) (sb s)) = Inr s1" using run b by (auto simp: res_simps simp del: balloc_loop.simps)
  show ?case
  proof (cases "free_bit (disk s1 (BBLOCK (of_nat b) (sb s))) b sz 0")
    case None
    then have "balloc_loop (bdrop s1 (BBLOCK (of_nat b) (sb s))) sz (b + BPB) = Inr (r, s')" using run b s1 by (simp del: balloc_loop.simps)
    then show ?thesis using less.hyps [of "b + BPB"] b devs_bhold [OF s1] by (simp add: BPB_def BSIZE_def del: balloc_loop.simps)
  next
    case (Some bi)
    then show ?thesis using run b s1 by (auto simp: res_simps simp del: balloc_loop.simps dest!: devs_bzero devs_bhold)
  qed
qed

lemma devs_balloc [devs_same]: "balloc s = Inr (r, s') \<Longrightarrow> dev_read s' = dev_read s"
  unfolding balloc_def by (rule devs_balloc_loop)

lemma devs_bfree [devs_same]: "bfree s b = Inr s' \<Longrightarrow> dev_read s' = dev_read s"
  by (auto simp: bfree_def Let_def res_simps split: if_splits dest!: devs_same)

lemma devs_iget [devs_same]: "iget s d i = Inr (r, s') \<Longrightarrow> dev_read s' = dev_read s"
  by (auto simp: iget_def split: option.splits)

lemma devs_iupdate [devs_same]: "iupdate s ip = Inr s' \<Longrightarrow> dev_read s' = dev_read s"
  by (auto simp: iupdate_def Let_def res_simps dest!: devs_same)

lemma devs_ilock [devs_same]: "ilock s ip = Inr s' \<Longrightarrow> dev_read s' = dev_read s"
  by (auto simp: ilock_def Let_def res_simps split: if_splits dest!: devs_same)

lemma devs_iunlock [devs_same]: "iunlock s ip = Inr s' \<Longrightarrow> dev_read s' = dev_read s"
  by (auto simp: iunlock_def split: if_splits)

lemma devs_itrunc_direct [devs_same]: "itrunc_direct s ip js = Inr s' \<Longrightarrow> dev_read s' = dev_read s"
  by (induction js arbitrary: s) (auto simp: Let_def res_simps split: if_splits dest!: devs_bfree)

lemma devs_itrunc_indirect [devs_same]: "itrunc_indirect s b js = Inr s' \<Longrightarrow> dev_read s' = dev_read s"
  by (induction js arbitrary: s) (auto simp: Let_def res_simps split: if_splits dest!: devs_bfree)

lemma devs_itrunc [devs_same]: "itrunc s ip = Inr s' \<Longrightarrow> dev_read s' = dev_read s"
  by (auto simp: itrunc_def Let_def res_simps split: if_splits dest!: devs_same)

lemma devs_iput [devs_same]: "iput s ip = Inr s' \<Longrightarrow> dev_read s' = dev_read s"
  by (auto simp: iput_def Let_def res_simps split: if_splits dest!: devs_same)

lemma devs_iunlockput [devs_same]: "iunlockput s ip = Inr s' \<Longrightarrow> dev_read s' = dev_read s"
  by (auto simp: iunlockput_def res_simps dest!: devs_same)

lemma devs_bmap [devs_same]: "bmap s ip n = Inr (r, s') \<Longrightarrow> dev_read s' = dev_read s"
  by (auto simp: bmap_def Let_def res_simps split: if_splits dest!: devs_same)

lemma devs_checked_addr [devs_same]: "checked_addr s ip b = Inr (r, s') \<Longrightarrow> dev_read s' = dev_read s"
  by (auto simp: checked_addr_def Let_def res_simps split: if_splits option.splits dest!: devs_same)

lemma readi_loop_devs:
  "readi_loop s ip off n tot dst = Inr (r, bs, s') \<Longrightarrow> length dst \<le> tot \<Longrightarrow> tot \<le> n \<Longrightarrow> dev_read s' = dev_read s \<and> length bs \<le> n"
proof (induction "n - tot" arbitrary: s off tot dst rule: less_induct)
  case less
  note run = less.prems(1) [unfolded readi_loop.simps [of s ip off n tot dst] Let_def]
  show ?case
  proof (cases "tot < n")
    case False
    then show ?thesis using run less.prems(2,3) by (simp del: readi_loop.simps)
  next
    case True
    let ?m = "dmin (n - tot) (BSIZE - off mod BSIZE)"
    obtain bno s1 b s2 s3 where o: "bmap s ip (off div BSIZE) = Inr (bno, s1)" "bmap s1 ip (off div BSIZE) = Inr (b, s2)" "bhold s2 b = Inr s3"
      using run True by (auto simp: res_simps simp del: readi_loop.simps)
    then have d: "dev_read s3 = dev_read s" by (auto dest!: devs_same)
    show ?thesis
    proof (cases "itype (inode_at s3 ip) = T_CHECKED")
      case checked: True
      then show ?thesis
        using run True o d less.prems(2,3) by (auto simp: res_simps simp del: readi_loop.simps split: if_splits dest!: devs_checked_addr)
    next
      case False
      let ?dst = "dst @ take ?m (drop (off mod BSIZE) (disk s3 b))"
      have r: "readi_loop (bdrop s3 b) ip (off + ?m) n (tot + ?m) ?dst = Inr (r, bs, s')"
        using run True o False by (simp del: readi_loop.simps if_split)
      have m: "0 < ?m" "tot + ?m \<le> n" using True by (auto simp: BSIZE_def)
      have "n - (tot + ?m) < n - tot" "length ?dst \<le> tot + ?m" using m True less.prems(2) by auto
      from less.hyps [OF this(1) r this(2) m(2)] d show ?thesis by simp
    qed
  qed
qed

definition devs_ok :: "fs \<Rightarrow> bool" where
  "devs_ok s \<longleftrightarrow> (\<forall>i f n. dev_read s i = Some f \<longrightarrow> length (snd (f n)) \<le> unat n)"

lemma readi_devs:
  assumes "readi s ip off n = Inr (r, bs, s')"
  shows "dev_read s' = dev_read s" "devs_ok s \<Longrightarrow> length bs \<le> unat n"
proof -
  have "dev_read s' = dev_read s \<and> (devs_ok s \<longrightarrow> length bs \<le> unat n)"
  proof (cases "itype (inode_at s ip) = T_DEV")
    case True
    then show ?thesis
      using assms by (auto simp: readi_def Let_def devs_ok_def split: if_splits option.splits prod.splits) (metis snd_conv)
  next
    case False
    let ?n = "if off + n > isize (inode_at s ip) then isize (inode_at s ip) - off else n"
    show ?thesis
    proof (cases "off > isize (inode_at s ip) \<or> off + n < off")
      case bad: True
      then show ?thesis using assms False by (auto simp: readi_def Let_def)
    next
      case ok: False
      have "unat ?n \<le> unat n" using ok by (auto simp: unat_diff_u32 word_less_nat_alt word_le_nat_alt unat_word_ariths not_less split: if_splits)
      moreover have "readi_loop s ip (unat off) (unat ?n) 0 [] = Inr (r, bs, s')"
        using assms False ok by (simp add: readi_def Let_def del: readi_loop.simps)
      ultimately show ?thesis using readi_loop_devs [of s ip "unat off" "unat ?n" 0 "[]"] by force
    qed
  qed
  then show "dev_read s' = dev_read s" "devs_ok s \<Longrightarrow> length bs \<le> unat n" by auto
qed

lemmas devs_readi [devs_same] = readi_devs(1)

lemma devs_dirlookup_loop [devs_same]: "dirlookup_loop s dp name sz off = Inr (r, s') \<Longrightarrow> dev_read s' = dev_read s"
proof (induction "sz - off" arbitrary: s off rule: less_induct)
  case less
  note run = less.prems [unfolded dirlookup_loop.simps [of s dp name sz off]]
  show ?case
  proof (cases "off < sz")
    case True
    then obtain x de s1 where o: "readi s dp (of_nat off) 16 = Inr (x, de, s1)" using run by (auto simp: res_simps simp del: dirlookup_loop.simps)
    have next_loop: "dev_read s' = dev_read s" if "dirlookup_loop s1 dp name sz (off + 16) = Inr (r, s')"
      using less.hyps [OF _ that] True devs_readi [OF o] by simp
    show ?thesis
      using run True o next_loop by (auto simp: res_simps simp del: dirlookup_loop.simps split: if_splits dest!: devs_iget devs_readi)
  qed (use run in \<open>simp del: dirlookup_loop.simps\<close>)
qed

lemma devs_dirlookup [devs_same]: "dirlookup s dp name = Inr (r, s') \<Longrightarrow> dev_read s' = dev_read s"
  by (auto simp: dirlookup_def split: if_splits simp del: dirlookup_loop.simps dest!: devs_dirlookup_loop)

lemma devs_namex_loop [devs_same]: "namex_loop s ip path par name = Inr (r, s') \<Longrightarrow> dev_read s' = dev_read s"
proof (induction "length path" arbitrary: s ip path name rule: less_induct)
  case less
  note run = less.prems [unfolded namex_loop.simps [of s ip path par name]]
  show ?case
  proof (cases "skipelem path")
    case None
    then show ?thesis using run by (auto simp: res_simps simp del: namex_loop.simps split: if_splits dest!: devs_iput)
  next
    case (Some q)
    obtain e rest where q: "q = (e, rest)" by (cases q)
    have later: "dev_read s' = dev_read t" if "namex_loop t nip rest par e = Inr (r, s')" for t nip
      using less.hyps [OF _ that] skipelem_shorter [of path e rest] Some q by simp
    show ?thesis
      using run Some q later
      by (auto simp: res_simps simp del: namex_loop.simps split: if_splits option.splits dest!: devs_ilock devs_iunlockput devs_iunlock devs_dirlookup)
  qed
qed

lemma devs_namei [devs_same]: "namei s cwd path = Inr (r, s') \<Longrightarrow> dev_read s' = dev_read s"
  by (auto simp: namei_def namex_def res_simps simp del: namex_loop.simps split: if_splits dest!: devs_namex_loop devs_iget)

lemma devs_ok_same: "dev_read s' = dev_read s \<Longrightarrow> devs_ok s' = devs_ok s"
  by (simp add: devs_ok_def)

end
