(* ===== verification/Exec.thy ===== *)
theory Exec
  imports Ucopy Devs Sysfile
begin

text \<open>
  Loading a program, \<^verbatim>\<open>exec.c\<close> of part 1 with \<^verbatim>\<open>loaduvm\<close> and \<^verbatim>\<open>sys_exec\<close>. The file is read through the file system
  model, whose routines on files that are not \<^verbatim>\<open>T_CHECKED\<close> are those of part 1; the new address space is built in
  the page memory of the kernel state. The argument strings and the words of \<^verbatim>\<open>ustack\<close>, which the C code
  passes to \<^verbatim>\<open>copyout\<close> as pointers into the old user memory and the kernel stack, are lists of bytes.
\<close>

section \<open>Headers\<close>

definition ELF_MAGIC :: u32 where "ELF_MAGIC = 0x464C457F"
definition ELF_PROG_LOAD :: u32 where "ELF_PROG_LOAD = 1"
definition MAXARG :: nat where [layout_consts]: "MAXARG = 32"

text \<open>The fields of the two headers that \<^verbatim>\<open>exec\<close> uses.\<close>

record elfhdr =
  elf_magic :: u32
  elf_entry :: u32
  elf_phoff :: u32
  elf_phnum :: u16

record proghdr =
  ph_type :: u32
  ph_off :: u32
  ph_vaddr :: u32
  ph_filesz :: u32
  ph_memsz :: u32

definition get_elfhdr :: "byte list \<Rightarrow> elfhdr" where
  "get_elfhdr bs = \<lparr>elf_magic = get32 bs 0, elf_entry = get32 bs 24, elf_phoff = get32 bs 28, elf_phnum = get16 bs 44\<rparr>"

definition get_proghdr :: "byte list \<Rightarrow> proghdr" where
  "get_proghdr bs = \<lparr>ph_type = get32 bs 0, ph_off = get32 bs 4, ph_vaddr = get32 bs 8, ph_filesz = get32 bs 16, ph_memsz = get32 bs 20\<rparr>"

text \<open>The process as \<^verbatim>\<open>exec\<close> sees it: its memory, its name, and the saved instruction and stack pointers.\<close>

record eproc = vmproc +
  pname :: "byte list"
  peip :: u32
  pesp :: u32

section \<open>Loading segments\<close>

definition read_file :: "kfiles \<Rightarrow> nat \<Rightarrow> u32 \<Rightarrow> u32 \<Rightarrow> ((int \<times> byte list) \<times> kfiles) res" where
  "read_file k ip off n = on_fs (\<lambda>s. andthen (readi s ip off n) (\<lambda>(r, bs, s). ret ((r, bs), s))) k"

definition put_page :: "kfiles \<Rightarrow> u32 \<Rightarrow> byte list \<Rightarrow> kfiles" where
  "put_page k a bs = k\<lparr>pages := (pages k)\<lparr>ram := store_bytes (ram (pages k)) a bs\<rparr>\<rparr>"

text \<open>\<^verbatim>\<open>loaduvm\<close>; the return value of \<^verbatim>\<open>readi\<close> is compared as an unsigned number.\<close>

partial_function (option) loaduvm_loop :: "kfiles \<Rightarrow> u32 \<Rightarrow> u32 \<Rightarrow> nat \<Rightarrow> u32 \<Rightarrow> u32 \<Rightarrow> u32 \<Rightarrow> (int \<times> kfiles) res option" where
  "loaduvm_loop k d addr ip offset sz i =
     (if i < sz then
        let pte = fst (walkpgdir (pages k) d (addr + i) False)
        in if pte = 0 then Some (panic ''loaduvm: address should exist'')
           else let pa = PTE_ADDR (load32 (ram (pages k)) pte); n = (if sz - i < PGSIZE then sz - i else PGSIZE)
                in obind (Some (read_file k ip (offset + i) n)) (\<lambda>((r, bs), k).
                     let k = put_page k (P2V pa) bs
                     in if of_int r \<noteq> n then oret (-1, k) else loaduvm_loop k d addr ip offset sz (i + PGSIZE))
      else oret (0, k))"

definition loaduvm :: "kfiles \<Rightarrow> u32 \<Rightarrow> u32 \<Rightarrow> nat \<Rightarrow> u32 \<Rightarrow> u32 \<Rightarrow> (int \<times> kfiles) res option" where
  "loaduvm k d addr ip offset sz =
     (if addr mod PGSIZE \<noteq> 0 then Some (panic ''loaduvm: addr must be page aligned'')
      else loaduvm_loop k d addr ip offset sz 0)"

text \<open>The loop over the program headers: the size after the last segment, or nothing for \<^verbatim>\<open>goto bad\<close>.\<close>

fun load_segments :: "kfiles \<Rightarrow> nat \<Rightarrow> u32 \<Rightarrow> u32 \<Rightarrow> u32 \<Rightarrow> nat \<Rightarrow> (u32 option \<times> kfiles) res option" where
  "load_segments k ip d sz off 0 = oret (Some sz, k)"
| "load_segments k ip d sz off (Suc n) =
     obind (Some (read_file k ip off 32)) (\<lambda>((r, bs), k).
       if of_int r \<noteq> (32 :: u32) then oret (None, k)
       else let ph = get_proghdr bs
            in if ph_type ph \<noteq> ELF_PROG_LOAD then load_segments k ip d sz (off + 32) n
               else if ph_memsz ph < ph_filesz ph then oret (None, k)
               else if ph_vaddr ph + ph_memsz ph < ph_vaddr ph then oret (None, k)
               else obind (allocuvm (kend k) (pages k) d sz (ph_vaddr ph + ph_memsz ph)) (\<lambda>(sz, m).
                 let k = k\<lparr>pages := m\<rparr>
                 in if sz = 0 then oret (None, k)
                    else if ph_vaddr ph mod PGSIZE \<noteq> 0 then oret (None, k)
                    else obind (loaduvm k d (ph_vaddr ph) ip (ph_off ph) (ph_filesz ph)) (\<lambda>(r, k).
                      if r < 0 then oret (None, k) else load_segments k ip d sz (off + 32) n)))"

section \<open>The stack\<close>

partial_function (option) copyout_bytes :: "kmem \<Rightarrow> u32 \<Rightarrow> u32 \<Rightarrow> byte list \<Rightarrow> (int \<times> kmem) res option" where
  "copyout_bytes s d va bs =
     (if bs \<noteq> [] then
        let va0 = PGROUNDDOWN va; pa0 = uva2ka s d va0
        in if pa0 = 0 then oret (-1, s)
           else let n = min (unat (PGSIZE - (va - va0))) (length bs)
                in copyout_bytes (s\<lparr>ram := store_bytes (ram s) (pa0 + (va - va0)) (take n bs)\<rparr>) d (va0 + PGSIZE) (drop n bs)
      else oret (0, s))"

text \<open>The loop over the arguments: the stack pointer and the addresses of the strings pushed so far.\<close>

fun push_args :: "kmem \<Rightarrow> u32 \<Rightarrow> byte list list \<Rightarrow> u32 \<Rightarrow> u32 list \<Rightarrow> ((u32 \<times> u32 list) option \<times> kmem) res option" where
  "push_args s d [] sp us = oret (Some (sp, us), s)"
| "push_args s d (a # as) sp us =
     (if length us \<ge> MAXARG then oret (None, s)
      else let sp = (sp - of_nat (length a + 1)) AND NOT 3
           in obind (copyout_bytes s d sp (a @ [0])) (\<lambda>(r, s).
                if r < 0 then oret (None, s) else push_args s d as sp (us @ [sp])))"

definition word_bytes :: "u32 \<Rightarrow> byte list" where
  "word_bytes w = [ucast w, ucast (drop_bit 8 w), ucast (drop_bit 16 w), ucast (drop_bit 24 w)]"

text \<open>From the two stack pages to the final stack pointer: size and stack pointer, or nothing for \<^verbatim>\<open>goto bad\<close>.\<close>

definition exec_stack :: "u32 \<Rightarrow> kmem \<Rightarrow> u32 \<Rightarrow> u32 \<Rightarrow> byte list list \<Rightarrow> ((u32 \<times> u32) option \<times> kmem) res option" where
  "exec_stack kernel_end s d sz argv =
     (let sz = PGROUNDUP sz
      in obind (allocuvm kernel_end s d sz (sz + 2 * PGSIZE)) (\<lambda>(sz, s).
           if sz = 0 then oret (None, s)
           else obind (Some (clearpteu s d (sz - 2 * PGSIZE))) (\<lambda>s.
             obind (push_args s d argv sz []) (\<lambda>(r, s).
               case r of
                 None \<Rightarrow> oret (None, s)
               | Some (sp, us) \<Rightarrow>
                   let argc = of_nat (length us);
                       ustack = [0xffffffff, argc, sp - (argc + 1) * 4] @ us @ [0];
                       sp = sp - (3 + argc + 1) * 4
                   in obind (copyout_bytes s d sp (concat (map word_bytes ustack))) (\<lambda>(r, s).
                        if r < 0 then oret (None, s) else oret (Some (sz, sp), s))))))"

section \<open>exec\<close>

definition exec_bad :: "kfiles \<Rightarrow> u32 \<Rightarrow> nat option \<Rightarrow> eproc \<Rightarrow> (int \<times> eproc \<times> kfiles) res option" where
  "exec_bad k d ip p =
     obind (if d \<noteq> 0 then obind (freevm (kend k) (pages k) d) (\<lambda>m. oret (k\<lparr>pages := m\<rparr>)) else oret k) (\<lambda>k.
       case ip of
         None \<Rightarrow> oret (-1, p, k)
       | Some ip \<Rightarrow> obind (Some (on_fs' (\<lambda>s. iunlockput s ip) k)) (\<lambda>k. oret (-1, p, op_end k)))"

text \<open>The part of the path after its last slash.\<close>

definition last_elem :: "byte list \<Rightarrow> byte list" where
  "last_elem path = rev (takeWhile (\<lambda>c. c \<noteq> slash) (rev path))"

definition exec_commit :: "kfiles \<Rightarrow> u32 \<Rightarrow> u32 \<Rightarrow> u32 \<Rightarrow> u32 \<Rightarrow> byte list \<Rightarrow> eproc \<Rightarrow> (int \<times> eproc \<times> kfiles) res option" where
  "exec_commit k d sz sp entry path p =
     (let p' = p\<lparr>shared_page := map (\<lambda>_. 0) (shared_page p), pname := safestrcpy (cstr_of (last_elem path)) 16,
                vpgdir := d, vsz := sz, peip := entry, pesp := sp\<rparr>
      in obind (freevm (kend k) (pages k) (vpgdir p)) (\<lambda>m. oret (0, p', k\<lparr>pages := m\<rparr>)))"

definition exec :: "u32 \<Rightarrow> kfiles \<Rightarrow> nat \<Rightarrow> eproc \<Rightarrow> byte list \<Rightarrow> byte list list \<Rightarrow> (int \<times> eproc \<times> kfiles) res option" where
  "exec kdata k cw p path argv =
     obind (Some (on_fs (\<lambda>s. namei s cw path) (op_begin k))) (\<lambda>(r, k).
       case r of
         None \<Rightarrow> oret (-1, p, op_end k)
       | Some ip \<Rightarrow>
           obind (Some (on_fs' (\<lambda>s. ilock s ip) k)) (\<lambda>k.
           obind (Some (read_file k ip 0 52)) (\<lambda>((r, bs), k).
             let elf = get_elfhdr bs
             in if of_int r \<noteq> (52 :: u32) \<or> elf_magic elf \<noteq> ELF_MAGIC then exec_bad k 0 (Some ip) p
                else obind (setupkvm (kend k) kdata (pages k)) (\<lambda>(d, m).
                  let k = k\<lparr>pages := m\<rparr>
                  in if d = 0 then exec_bad k 0 (Some ip) p
                     else obind (load_segments k ip d PGSIZE (elf_phoff elf) (unat (elf_phnum elf))) (\<lambda>(sz, k).
                       case sz of
                         None \<Rightarrow> exec_bad k d (Some ip) p
                       | Some sz \<Rightarrow>
                           obind (Some (on_fs' (\<lambda>s. iunlockput s ip) k)) (\<lambda>k.
                             let k = op_end k
                             in obind (exec_stack (kend k) (pages k) d sz argv) (\<lambda>(r, m).
                                  let k = k\<lparr>pages := m\<rparr>
                                  in case r of
                                       None \<Rightarrow> exec_bad k d None p
                                     | Some (sz, sp) \<Rightarrow> exec_commit k d sz sp (elf_entry elf) path p)))))))"

text \<open>\<^verbatim>\<open>sys_exec\<close>: the argument pointers up to the first null one, each with its string; nothing for \<open>-1\<close>.\<close>

fun fetch_args :: "user \<Rightarrow> u32 \<Rightarrow> nat \<Rightarrow> nat \<Rightarrow> byte list list option" where
  "fetch_args u uargv i 0 = None"
| "fetch_args u uargv i (Suc n) =
     (case fetchint u (uargv + 4 * of_nat i) of
        None \<Rightarrow> None
      | Some uarg \<Rightarrow>
          if uarg = 0 then Some []
          else case fetchstr u uarg of
                 None \<Rightarrow> None
               | Some str \<Rightarrow> map_option ((#) str) (fetch_args u uargv (Suc i) n))"

definition sys_exec :: "u32 \<Rightarrow> kfiles \<Rightarrow> task \<Rightarrow> eproc \<Rightarrow> (int \<times> eproc \<times> kfiles) res option" where
  "sys_exec kdata k t p =
     (case (argstr (tuser t) 0, argint (tuser t) 1) of
        (Some path, Some uargv) \<Rightarrow>
          (case fetch_args (tuser t) uargv 0 MAXARG of
             None \<Rightarrow> oret (-1, p, k)
           | Some argv \<Rightarrow> exec kdata k (cwd t) p path argv)
      | _ \<Rightarrow> oret (-1, p, k))"

end
