(* ===== verification/Execload.thy ===== *)
theory Execload
  imports Exec
begin

text \<open>
  Loading segments keeps the address space under construction well formed: \<^verbatim>\<open>loaduvm\<close> and the loop over the program
  headers always return, on every image, and touch only pages of the new address space, free pages and physical page zero.
\<close>

section \<open>Limits\<close>

text \<open>There are too few pages of memory for an address space that reaches the shared pages.\<close>

lemma few_pages: "finite {v. \<not> bad_page ke v}" "card {v. \<not> bad_page ke v} \<le> 57344"
proof -
  let ?f = "\<lambda>v. unat (V2P v) div 4096"
  have v: "unat (V2P v) < 234881024" "4096 dvd unat (V2P v)" if "\<not> bad_page ke v" for v
  proof -
    show "unat (V2P v) < 234881024" using that by (simp add: bad_page_def PHYSTOP_def word_le_nat_alt not_le)
    show "4096 dvd unat (V2P v)" using page_facts [OF that] by (auto simp: aligned_def V2P_def KERNBASE_def unat_diff_u32 word_le_nat_alt)
  qed
  have inj: "inj_on ?f {v. \<not> bad_page ke v}"
  proof (rule inj_onI)
    fix v w assume "v \<in> {v. \<not> bad_page ke v}" "w \<in> {v. \<not> bad_page ke v}" "?f v = ?f w"
    then have "unat (V2P v) = unat (V2P w)" using v(2) by (metis dvd_mult_div_cancel mem_Collect_eq)
    then have "V2P v = V2P w" by (simp only: word_unat_eq_iff)
    then show "v = w" by (metis P2V_V2P)
  qed
  have sub: "?f ` {v. \<not> bad_page ke v} \<subseteq> {..<57344}" using v(1) by (auto simp: less_mult_imp_div_less)
  show "finite {v. \<not> bad_page ke v}" using inj_on_finite [OF inj sub] by simp
  show "card {v. \<not> bad_page ke v} \<le> 57344" using card_inj_on_le [OF inj sub] by simp
qed

lemma size_bound:
  assumes sp: "uspace ke lim s xs d" and m: "\<And>va. unat va < lim \<Longrightarrow> in_pages 4096 hi va \<Longrightarrow> mapped (ram s) d va" and lim: "234889216 < lim"
  shows "hi \<le> 234889216"
proof (rule ccontr)
  assume "\<not> hi \<le> 234889216"
  let ?N = "{1..57345 :: nat}" and ?va = "\<lambda>n. of_nat (4096 * n) :: u32"
  have u: "unat (?va n) = 4096 * n" if "n \<in> ?N" for n using that by (intro unat_of_nat_u32) simp
  have lt: "unat (?va n) < lim" if "n \<in> ?N" for n using u [OF that] that lim by simp
  have mp: "mapped (ram s) d (?va n)" if "n \<in> ?N" for n
    using m [OF lt [OF that]] u [OF that] that \<open>\<not> hi \<le> 234889216\<close> by (simp add: in_pages_def)
  have "inj_on (\<lambda>n. frame (ram s) d (?va n)) ?N"
  proof (rule inj_onI)
    fix a b assume ab: "a \<in> ?N" "b \<in> ?N" "frame (ram s) d (?va a) = frame (ram s) d (?va b)"
    then have "pn (?va a) = pn (?va b)" using uspaceD(6) [OF sp lt lt mp mp] by blast
    then show "a = b" using u [OF ab(1)] u [OF ab(2)] by simp
  qed
  moreover have "(\<lambda>n. frame (ram s) d (?va n)) ` ?N \<subseteq> {v. \<not> bad_page ke v}"
    using uspaceD(2) [OF sp frameI [OF lt mp]] by blast
  ultimately have "card ?N \<le> card {v. \<not> bad_page ke v}" using few_pages(1) card_inj_on_le by blast
  then show False using few_pages(2) [of ke] by simp
qed

section \<open>Address spaces under construction\<close>

abbreviation KTOP :: nat where
  "KTOP \<equiv> 2147483648"

text \<open>All pages from the second up to the size, below the kernel; nothing at page zero.\<close>

definition building :: "u32 \<Rightarrow> kmem \<Rightarrow> u32 list \<Rightarrow> u32 \<Rightarrow> u32 \<Rightarrow> bool" where
  "building ke s xs d sz \<longleftrightarrow> uspace ke KTOP s xs d \<and> 4096 \<le> unat sz \<and> pte_of (ram s) d 0 = 0 \<and>
     (\<forall>va. unat va < KTOP \<longrightarrow> (mapped (ram s) d va \<longleftrightarrow> in_pages 4096 (unat sz) va))"

lemma building_bound: "building ke s xs d sz \<Longrightarrow> unat sz \<le> 234889216"
  using size_bound [of ke KTOP s xs d "unat sz"] by (simp add: building_def)

lemma below_top: "in_pages lo hi va \<Longrightarrow> hi \<le> KTOP \<Longrightarrow> unat va < KTOP"
  using div_less_iff_less_mult [of 4096 "unat va" 524288] by (simp add: in_pages_def)

text \<open>Both limits see the same pages.\<close>

lemma building_ulim:
  assumes "building ke s xs d sz"
  shows "uspace ke ULIM s xs d" "region (ram s) d ULIM = region (ram s) d KTOP" "image ke s xs d sz"
proof -
  note b = building_bound [OF assms]
  have B: "uspace ke KTOP s xs d" "\<And>va. unat va < KTOP \<Longrightarrow> mapped (ram s) d va \<longleftrightarrow> in_pages 4096 (unat sz) va"
    using assms by (auto simp: building_def)
  have low: "unat va < ULIM" if "unat va < KTOP" "mapped (ram s) d va" for va
    using in_pages_below [of 4096 "unat sz" va] B(2) that b by (simp add: ULIM_def)
  then have "unat va < ULIM \<and> mapped (ram s) d va \<longleftrightarrow> unat va < KTOP \<and> mapped (ram s) d va" for va by (auto simp: ULIM_def)
  then have fr: "frames (ram s) d ULIM = frames (ram s) d KTOP" unfolding frames_def by simp
  show us: "uspace ke ULIM s xs d" using B(1) unfolding uspace_def fr by (simp add: ULIM_def)
  show "region (ram s) d ULIM = region (ram s) d KTOP" by (simp add: region_def fr)
  show "image ke s xs d sz" using us B(2) b by (simp add: image_def ULIM_def)
qed

text \<open>What a process sees after growing from \<open>sz\<close> to \<open>new\<close>: new pages of zeros, writable.\<close>

definition fresh_view :: "(u32 \<rightharpoonup> u32 \<times> byte) \<Rightarrow> u32 \<Rightarrow> u32 \<Rightarrow> (u32 \<rightharpoonup> u32 \<times> byte)" where
  "fresh_view f sz new = (\<lambda>va. if in_pages (unat (PGROUNDUP sz)) (unat new) va then Some (PTE_W OR PTE_U OR PTE_P, 0) else f va)"

lemma fresh_view_none:
  assumes "new < sz" and "unat sz \<le> ULIM"
  shows "fresh_view f sz new = f"
proof -
  have "\<not> in_pages (unat (PGROUNDUP sz)) (unat new) va" for va
    using round_up(2) [OF assms(2)] assms(1) by (auto simp: in_pages_def word_less_nat_alt)
  then show ?thesis by (simp add: fresh_view_def)
qed

lemma alloc_building:
  assumes ke: "KERNBASE < ke" and b: "building ke s xs d sz"
  shows "\<exists>r s' ys. allocuvm ke s d sz new = Some (Inr (r, s')) \<and> set ys \<union> region (ram s') d KTOP = set xs \<union> region (ram s) d KTOP \<and>
    same_but (set xs \<union> region (ram s) d KTOP) (ram s) (ram s') \<and>
    (r = 0 \<and> building ke s' ys d sz \<or> r \<noteq> 0 \<and> building ke s' ys d r \<and> r = (if new < sz then sz else new) \<and>
       (\<forall>va. unat va < KTOP \<longrightarrow> uview (ram s') d va = fresh_view (uview (ram s) d) sz new va))"
proof -
  have B: "uspace ke KTOP s xs d" "4096 \<le> unat sz" "pte_of (ram s) d 0 = 0" "\<And>va. unat va < KTOP \<Longrightarrow> mapped (ram s) d va \<longleftrightarrow> in_pages 4096 (unat sz) va"
    using b by (auto simp: building_def)
  consider "new \<ge> KERNBASE" | "new < sz" "new < KERNBASE" | "sz \<le> new" "new < KERNBASE" by fastforce
  then show ?thesis
  proof cases
    case 1
    then show ?thesis using b by (auto simp: allocuvm_def)
  next
    case 2
    moreover have "sz \<noteq> 0" using B(2) by auto
    ultimately have "allocuvm ke s d sz new = Some (Inr (sz, s))" by (simp add: allocuvm_def)
    moreover have "unat sz \<le> ULIM" using building_bound [OF b] by (simp add: ULIM_def)
    ultimately show ?thesis using b 2(1) \<open>sz \<noteq> 0\<close> fresh_view_none [OF 2(1)] by auto
  next
    case 3
    have new: "unat new < KTOP" "unat sz \<le> unat new" "new \<noteq> 0" using 3 B(2) by (auto simp: KERNBASE_def word_less_nat_alt word_le_nat_alt)
    let ?lo = "unat (PGROUNDUP sz)"
    have up: "4096 * k < ?lo \<longleftrightarrow> 4096 * k < unat sz" for k using round_up(1) building_bound [OF b] by (simp add: ULIM_def)
    have "4096 \<le> ?lo" using round_up(2) [of sz] building_bound [OF b] B(2) by (simp add: ULIM_def)
    then have zero: "\<not> in_pages ?lo (unat new) 0" by (simp add: in_pages_def)
    have np: "\<forall>va. in_pages ?lo (unat new) va \<longrightarrow> \<not> mapped (ram s) d va"
    proof (intro allI impI)
      fix va assume i: "in_pages ?lo (unat new) va"
      then have "unat va < KTOP" using below_top new(1) by (meson less_imp_le)
      then show "\<not> mapped (ram s) d va" using B(4) i up [of "pn va"] by (auto simp: in_pages_def)
    qed
    obtain r s' ys where r: "allocuvm ke s d sz new = Some (Inr (r, s'))"
        "r = new \<and> enlarged ke KTOP s xs d ?lo (unat new) s' ys \<or> r = 0 \<and> gave_up ke KTOP s xs d ?lo (unat new) s' ys"
      using allocuvm_runs [OF ke _ _ new(1) B(1) 3(1) np] new(1) by auto
    have un: "in_pages 4096 (unat new) va \<longleftrightarrow> in_pages 4096 (unat sz) va \<or> in_pages ?lo (unat new) va" for va
      using up [of "pn va"] new(2) \<open>4096 \<le> ?lo\<close> by (auto simp: in_pages_def)
    from r(2) show ?thesis
    proof (elim disjE conjE)
      assume g: "r = new" "enlarged ke KTOP s xs d ?lo (unat new) s' ys"
      have "mapped (ram s') d va \<longleftrightarrow> in_pages 4096 (unat new) va" if va: "unat va < KTOP" for va
      proof (cases "in_pages ?lo (unat new) va")
        case True
        then have "uview (ram s') d va \<noteq> None" using g(2) va by (simp add: enlarged_def)
        then show ?thesis using True uview_None [of "ram s'" d va] by (simp add: un)
      next
        case False
        then show ?thesis using g(2) B(4) [OF va] by (simp add: un enlarged_def mapped_def)
      qed
      then have "building ke s' ys d new" using g(2) B(2,3) new(2) zero by (simp add: building_def enlarged_def)
      then show ?thesis using r(1) g new(3) 3(1) by (auto simp: enlarged_def fresh_view_def)
    next
      assume g: "r = 0" "gave_up ke KTOP s xs d ?lo (unat new) s' ys"
      have "mapped (ram s') d va \<longleftrightarrow> in_pages 4096 (unat sz) va" if va: "unat va < KTOP" for va
        using g(2) B(4) [OF va] np unfolding gave_up_def mapped_def by metis
      then have "building ke s' ys d sz" using g(2) B(2,3) zero by (simp add: building_def gave_up_def)
      then show ?thesis using r(1) g by (auto simp: gave_up_def)
    qed
  qed
qed

section \<open>Writing into the new pages\<close>

text \<open>The pages are the same ones; only they and physical page zero may have changed.\<close>

definition same_pool :: "kmem \<Rightarrow> u32 list \<Rightarrow> u32 \<Rightarrow> kmem \<Rightarrow> u32 list \<Rightarrow> bool" where
  "same_pool s xs d s' ys \<longleftrightarrow> set ys \<union> region (ram s') d KTOP = set xs \<union> region (ram s) d KTOP \<and>
     same_but (insert KERNBASE (set xs \<union> region (ram s) d KTOP)) (ram s) (ram s')"

lemma same_pool_refl: "same_pool s xs d s xs"
  by (simp add: same_pool_def)

lemma same_pool_trans:
  assumes "same_pool s xs d s1 ys" and "same_pool s1 ys d s2 zs"
  shows "same_pool s xs d s2 zs"
proof -
  have e: "set ys \<union> region (ram s1) d KTOP = set xs \<union> region (ram s) d KTOP" using assms(1) by (simp add: same_pool_def)
  show ?thesis using assms same_but_trans unfolding same_pool_def e by blast
qed

lemma same_poolI: "set ys \<union> region (ram s') d KTOP = set xs \<union> region (ram s) d KTOP \<Longrightarrow>
    same_but (set xs \<union> region (ram s) d KTOP) (ram s) (ram s') \<Longrightarrow> same_pool s xs d s' ys"
  unfolding same_pool_def by (blast intro: same_but_mono)

lemma free_pages_outside:
  assumes "free_pages ke s xs" and "aligned v" and "v \<notin> set xs" and "same_outside v (ram s) m"
  shows "free_pages ke (s\<lparr>ram := m\<rparr>) xs"
proof -
  have "\<forall>x \<in> set xs. x mod PGSIZE = 0 \<and> x \<noteq> v" using assms(1,3) by (auto simp: free_pages_def bad_page_def)
  with assms show ?thesis using chain_same_outside [of "ram s" "freelist s" xs v m] by (simp add: free_pages_def aligned_mod)
qed

lemma write_page:
  assumes ke: "KERNBASE < ke" and b: "building ke s xs d sz" and v: "v \<in> frames (ram s) d KTOP \<or> v = KERNBASE"
    and m: "same_outside v (ram s) m"
  shows "building ke (s\<lparr>ram := m\<rparr>) xs d sz" "same_pool s xs d (s\<lparr>ram := m\<rparr>) xs" "pte_of m d va = pte_of (ram s) d va"
proof -
  have sp: "uspace ke KTOP s xs d" using b by (simp add: building_def)
  note D = uspaceD [OF sp]
  have bad: "bad_page ke KERNBASE" using ke by (simp add: bad_page_def)
  have out: "v \<noteq> d" "v \<notin> tables (ram s) d" "v \<notin> set xs"
    using v D(3-5) [of v] bad pt_okD(2) [OF D(1)] pt_ok_tables(1) [OF D(1)] pt_ok_pages [OF D(1)] by auto
  have "aligned KERNBASE" by (simp add: aligned_def KERNBASE_def)
  then have al: "aligned v" "aligned d" "\<forall>t \<in> tables (ram s) d. aligned t"
    using v D(2) page_facts(1) region_pages(2) [OF sp] by (auto simp: region_def)
  have P: "same_but {v} (ram s) m" "\<forall>w \<in> {v}. aligned w" "d \<notin> {v}" "tables (ram s) d \<inter> {v} = {}"
    using same_but_outside [OF m] al(1) out by auto
  note E = entries_same [OF P(1,2) al(2,3) P(3,4)]
  show pte: "pte_of m d va = pte_of (ram s) d va" for va by (rule E(4))
  note V = entries_views [OF pte]
  note tb = E(3)
  have "free_pages ke (s\<lparr>ram := m\<rparr>) xs" by (rule free_pages_outside [OF pt_okD(1) [OF D(1)] al(1) out(3) m])
  then have "pt_ok ke (s\<lparr>ram := m\<rparr>) xs d"
  proof (rule pt_ok_same [OF D(1)])
    show "d \<notin> set xs" by (rule pt_okD(3) [OF D(1)])
    show "tables (ram s) d \<inter> set xs = {}" using pt_ok_tables(2) [OF D(1)] by blast
    show "has_table (ram (s\<lparr>ram := m\<rparr>)) d i = has_table (ram s) d i" "table_at (ram (s\<lparr>ram := m\<rparr>)) d i = table_at (ram s) d i" if "i < 1024" for i
      using E(1,2) [OF that] by simp_all
  qed
  moreover have r: "ram (s\<lparr>ram := m\<rparr>) = m" by simp
  ultimately have us: "uspace ke KTOP (s\<lparr>ram := m\<rparr>) xs d" using sp unfolding uspace_def r V tb by blast
  show "building ke (s\<lparr>ram := m\<rparr>) xs d sz" using b us unfolding building_def r V pte by blast
  have "same_but (insert KERNBASE (set xs \<union> region (ram s) d KTOP)) (ram s) m"
    using same_but_outside [OF m] v by (auto simp: region_def)
  then show "same_pool s xs d (s\<lparr>ram := m\<rparr>) xs" unfolding same_pool_def r region_def V tb by blast
qed

lemma store_in_page:
  assumes "off + length bs \<le> 4096"
  shows "same_outside v m (store_bytes m (v + of_nat off) bs)"
proof -
  have "\<not> unat (a - (v + of_nat off)) < length bs" if "4096 \<le> unat (a - v)" for a
  proof
    assume lt: "unat (a - (v + of_nat off)) < length bs"
    have "a - v = (a - (v + of_nat off)) + of_nat off" by simp
    also have "unat \<dots> = unat (a - (v + of_nat off)) + off"
      using lt assms by (subst unat_add_small) (auto simp: unat_of_nat_u32)
    finally show False using lt assms that by simp
  qed
  then show ?thesis by (simp add: same_outside_def store_bytes_def)
qed

section \<open>Loading\<close>

text \<open>The rest of the kernel state during \<^verbatim>\<open>exec\<close>.\<close>

definition same_kernel :: "kfiles \<Rightarrow> kfiles \<Rightarrow> bool" where
  "same_kernel k k' \<longleftrightarrow> kend k' = kend k \<and> ops k' = ops k \<and> ftable k' = ftable k \<and> pipes k' = pipes k \<and> dev_read (kfs k') = dev_read (kfs k)"

lemma same_kernel_trans: "same_kernel k k1 \<Longrightarrow> same_kernel k1 k2 \<Longrightarrow> same_kernel k k2"
  by (simp add: same_kernel_def)

lemma read_file_keeps:
  assumes "read_file k ip off n = Inr ((r, bs), k')"
  shows "same_kernel k k'" "pages k' = pages k" "devs_ok (kfs k) \<Longrightarrow> length bs \<le> unat n"
  using assms readi_devs by (auto simp: read_file_def on_fs_def res_simps same_kernel_def)

lemma put_page_keeps: "same_kernel k (put_page k a bs)"
  by (simp add: put_page_def same_kernel_def)

text \<open>Where a page of a segment is loaded: its frame, or physical page zero for the page zero that is not mapped.\<close>

lemma load_target:
  assumes ke: "KERNBASE < ke" and b: "building ke s xs d sz" and a: "aligned a" "unat a < unat sz"
  shows "fst (walkpgdir s d a False) = 0 \<or>
    P2V (PTE_ADDR (load32 (ram s) (fst (walkpgdir s d a False)))) \<in> frames (ram s) d KTOP \<union> {KERNBASE}"
proof (cases "has_table (ram s) d (unat (PDX a))")
  case False
  then show ?thesis by (simp add: walkpgdir_def has_table_def slot_def Let_def)
next
  case True
  have e: "load32 (ram s) (fst (walkpgdir s d a False)) = pte_of (ram s) d a" using walk_present [OF True] pte_at_slot [OF True] by simp
  have lt: "unat a < KTOP" using a(2) building_bound [OF b] by simp
  obtain m where m: "unat a = 4096 * m" using a(1) unfolding aligned_def by (elim dvdE)
  show ?thesis
  proof (cases "m = 0")
    case True
    then have "a = 0" using m by (simp add: unat_eq_0)
    then show ?thesis using e b by (simp add: building_def P2V_def PTE_ADDR_def)
  next
    case False
    then have "mapped (ram s) d a" using b lt a(2) m by (auto simp: building_def in_pages_def)
    then show ?thesis using e frameI [OF lt] by (simp add: frame_def)
  qed
qed

lemma loaduvm_loop_keeps:
  assumes sz: "unat addr + unat fsz \<le> unat sz" and al: "aligned addr"
  shows "building (kend k) (pages k) xs d sz \<Longrightarrow> devs_ok (kfs k) \<Longrightarrow> aligned i \<Longrightarrow> KERNBASE < kend k \<Longrightarrow>
    \<exists>res. loaduvm_loop k d addr ip off fsz i = Some res \<and> (\<forall>r k'. res = Inr (r, k') \<longrightarrow>
      building (kend k) (pages k') xs d sz \<and> same_pool (pages k) xs d (pages k') xs \<and> same_kernel k k')"
proof (induction "unat fsz - unat i" arbitrary: k i rule: less_induct)
  case less
  note b = less.prems(1)
  show ?case
  proof (cases "i < fsz")
    case False
    then show ?thesis using b same_pool_refl by (subst loaduvm_loop.simps) (auto simp: same_kernel_def)
  next
    case True
    have bd: "unat i < unat fsz" "unat sz < KTOP" using True building_bound [OF b] by (auto simp: word_less_nat_alt)
    then have ai: "unat (addr + i) = unat addr + unat i" using sz by (intro unat_add_small) simp
    then have a: "aligned (addr + i)" "unat (addr + i) < unat sz" using al less.prems(3) bd sz by (simp_all add: aligned_def)
    let ?pte = "fst (walkpgdir (pages k) d (addr + i) False)" and ?n = "if fsz - i < PGSIZE then fsz - i else PGSIZE"
    let ?pa = "PTE_ADDR (load32 (ram (pages k)) ?pte)"
    consider (none) "?pte = 0" | (fault) e where "?pte \<noteq> 0" "read_file k ip (off + i) ?n = Inl e"
      | (read) r bs k1 where "?pte \<noteq> 0" "read_file k ip (off + i) ?n = Inr ((r, bs), k1)"
      by (metis (no_types) surj_pair sumE)
    then show ?thesis
    proof cases
      case none
      then show ?thesis using True by (subst loaduvm_loop.simps) simp
    next
      case fault
      then show ?thesis using True by (subst loaduvm_loop.simps) (simp add: Let_def)
    next
      case read
      note R = read_file_keeps [OF read(2)]
      have len: "length bs \<le> 4096" using R(3) [OF less.prems(2)] by (auto simp: PGSIZE_def word_less_nat_alt split: if_splits)
      let ?k = "put_page k1 (P2V ?pa) bs"
      have tgt: "P2V ?pa \<in> frames (ram (pages k)) d KTOP \<or> P2V ?pa = KERNBASE" using load_target [OF less.prems(4) b a] read(1) by auto
      have "same_outside (P2V ?pa) (ram (pages k)) (store_bytes (ram (pages k)) (P2V ?pa) bs)" using store_in_page [of 0 bs] len by simp
      note W = write_page [OF less.prems(4) b tgt this]
      have pk: "pages ?k = (pages k)\<lparr>ram := store_bytes (ram (pages k)) (P2V ?pa) bs\<rparr>" by (simp add: put_page_def R(2))
      have sk: "same_kernel k ?k" using R(1) put_page_keeps by (rule same_kernel_trans)
      show ?thesis
      proof (cases "of_int r = ?n")
        case False
        then have "loaduvm_loop k d addr ip off fsz i = Some (Inr (-1, ?k))" using True read by (subst loaduvm_loop.simps) (simp add: Let_def)
        then show ?thesis using W(1,2) sk by (simp add: pk)
      next
        case ok: True
        have step: "loaduvm_loop k d addr ip off fsz i = loaduvm_loop ?k d addr ip off fsz (i + PGSIZE)"
          using True read ok by (subst loaduvm_loop.simps) (simp add: Let_def)
        have nx: "unat (i + PGSIZE) = unat i + 4096" using bd sz by (subst unat_add_small) (auto simp: PGSIZE_def)
        then have "unat fsz - unat (i + PGSIZE) < unat fsz - unat i" "aligned (i + PGSIZE)" using bd less.prems(3) by (simp_all add: aligned_def)
        moreover have ke: "kend ?k = kend k" "dev_read (kfs ?k) = dev_read (kfs k)" using sk by (simp_all add: same_kernel_def)
        moreover have "building (kend ?k) (pages ?k) xs d sz" using W(1) unfolding pk ke(1) .
        moreover have "devs_ok (kfs ?k)" using less.prems(2) unfolding devs_ok_same [OF ke(2)] .
        moreover have "KERNBASE < kend ?k" using less.prems(4) unfolding ke(1) .
        ultimately obtain res where r: "loaduvm_loop ?k d addr ip off fsz (i + PGSIZE) = Some res"
            "\<forall>r k'. res = Inr (r, k') \<longrightarrow> building (kend ?k) (pages k') xs d sz \<and> same_pool (pages ?k) xs d (pages k') xs \<and> same_kernel ?k k'"
          using less.hyps [of "i + PGSIZE" ?k] by blast
        have "building (kend k) (pages k') xs d sz \<and> same_pool (pages k) xs d (pages k') xs \<and> same_kernel k k'" if "res = Inr (q, k')" for q k'
          using r(2) [rule_format, OF that] ke(1) same_pool_trans [OF W(2) [folded pk], of "pages k'" xs] same_kernel_trans [OF sk, of k'] by simp
        then show ?thesis unfolding step r(1) by blast
      qed
    qed
  qed
qed

text \<open>What loading keeps: the pages, and everything of the kernel but the file system.\<close>

definition loaded :: "u32 \<Rightarrow> kfiles \<Rightarrow> u32 list \<Rightarrow> u32 \<Rightarrow> u32 \<Rightarrow> kfiles \<Rightarrow> u32 list \<Rightarrow> bool" where
  "loaded ke k xs d sz k' ys \<longleftrightarrow> building ke (pages k') ys d sz \<and> same_pool (pages k) xs d (pages k') ys \<and> same_kernel k k'"

lemma loaded_refl: "building ke (pages k) xs d sz \<Longrightarrow> loaded ke k xs d sz k xs"
  by (simp add: loaded_def same_pool_refl same_kernel_def)

lemma loaded_trans: "loaded ke k xs d sz k1 ys \<Longrightarrow> loaded ke k1 ys d sz' k2 zs \<Longrightarrow> loaded ke k xs d sz' k2 zs"
  unfolding loaded_def using same_pool_trans same_kernel_trans by blast

lemma loaduvm_keeps:
  assumes "unat addr + unat fsz \<le> unat sz" and "building (kend k) (pages k) xs d sz" and "devs_ok (kfs k)" and "KERNBASE < kend k"
  shows "\<exists>res. loaduvm k d addr ip off fsz = Some res \<and> (\<forall>r k'. res = Inr (r, k') \<longrightarrow> loaded (kend k) k xs d sz k' xs)"
proof (cases "addr mod PGSIZE = 0")
  case True
  then have "aligned addr" by (simp add: aligned_mod)
  moreover have "aligned 0" by (simp add: aligned_def)
  ultimately show ?thesis using loaduvm_loop_keeps [OF assms(1) _ assms(2,3) _ assms(4)] True unfolding loaded_def loaduvm_def by simp
qed (simp add: loaduvm_def)

lemma load_segments_keeps:
  assumes "building (kend k) (pages k) xs d sz" and "devs_ok (kfs k)" and "KERNBASE < kend k"
  shows "\<exists>res. load_segments k ip d sz off n = Some res \<and>
    (\<forall>r k'. res = Inr (r, k') \<longrightarrow> (\<exists>sz' ys. loaded (kend k) k xs d sz' k' ys \<and> (r = None \<or> r = Some sz')))"
  using assms
proof (induction n arbitrary: k xs sz off)
  case 0
  then show ?case using loaded_refl [OF 0(1)] by auto
next
  case (Suc n)
  consider (fault) e where "read_file k ip off 32 = Inl e" | (read) r bs k1 where "read_file k ip off 32 = Inr ((r, bs), k1)"
    by (metis surj_pair sumE)
  then show ?case
  proof cases
    case read
    note R = read_file_keeps [OF read]
    have k1: "kend k1 = kend k" "dev_read (kfs k1) = dev_read (kfs k)" using R(1) by (simp_all add: same_kernel_def)
    have l1: "loaded (kend k) k xs d sz k1 xs" using Suc.prems(1) R(1) same_pool_refl unfolding loaded_def R(2) by blast
    have go: "\<exists>res. load_segments k2 ip d sz2 (off + 32) n = Some res \<and>
        (\<forall>r k'. res = Inr (r, k') \<longrightarrow> (\<exists>sz' ys. loaded (kend k) k xs d sz' k' ys \<and> (r = None \<or> r = Some sz')))"
      if l: "loaded (kend k) k xs d sz2 k2 ys" for k2 sz2 ys
    proof -
      have k2: "kend k2 = kend k" "dev_read (kfs k2) = dev_read (kfs k)" "building (kend k) (pages k2) ys d sz2"
        using l by (simp_all add: loaded_def same_kernel_def)
      then have "building (kend k2) (pages k2) ys d sz2" "devs_ok (kfs k2)" "KERNBASE < kend k2"
        using Suc.prems(2,3) by (simp_all add: devs_ok_def)
      from Suc.IH [OF this, of "off + 32"] show ?thesis using loaded_trans [OF l] unfolding k2(1) by blast
    qed
    let ?ph = "get_proghdr bs"
    consider (short) "of_int r \<noteq> (32 :: u32)" | (skip) "of_int r = (32 :: u32)" "ph_type ?ph \<noteq> ELF_PROG_LOAD"
      | (bad) "of_int r = (32 :: u32)" "ph_type ?ph = ELF_PROG_LOAD" "ph_memsz ?ph < ph_filesz ?ph \<or> ph_vaddr ?ph + ph_memsz ?ph < ph_vaddr ?ph"
      | (alloc) "of_int r = (32 :: u32)" "ph_type ?ph = ELF_PROG_LOAD" "\<not> ph_memsz ?ph < ph_filesz ?ph" "\<not> ph_vaddr ?ph + ph_memsz ?ph < ph_vaddr ?ph"
      by argo
    then show ?thesis
    proof cases
      case short
      then show ?thesis using read l1 by auto
    next
      case skip
      then show ?thesis using go [OF l1] read by simp
    next
      case bad
      then show ?thesis using read l1 by (auto simp: Let_def)
    next
      case alloc
      let ?new = "ph_vaddr ?ph + ph_memsz ?ph"
      obtain r2 m ys where a: "allocuvm (kend k1) (pages k1) d sz ?new = Some (Inr (r2, m))"
          "set ys \<union> region (ram m) d KTOP = set xs \<union> region (ram (pages k1)) d KTOP"
          "same_but (set xs \<union> region (ram (pages k1)) d KTOP) (ram (pages k1)) (ram m)"
          "r2 = 0 \<and> building (kend k1) m ys d sz \<or> r2 \<noteq> 0 \<and> building (kend k1) m ys d r2 \<and> r2 = (if ?new < sz then sz else ?new)"
        using alloc_building [of "kend k1" "pages k1" xs d sz ?new] Suc.prems(1,3) unfolding k1(1) R(2) by blast
      let ?k = "k1\<lparr>pages := m\<rparr>"
      have l2: "loaded (kend k) k xs d sz2 ?k ys" if "building (kend k1) m ys d sz2" for sz2
        using loaded_trans [OF l1, of sz2 ?k ys] same_poolI [OF a(2,3)] that k1(1) by (simp add: loaded_def same_kernel_def)
      show ?thesis
      proof (cases "r2 = 0 \<or> ph_vaddr ?ph mod PGSIZE \<noteq> 0")
        case True
        then have "load_segments k ip d sz off (Suc n) = Some (Inr (None, ?k))" using alloc read a(1) by (elim disjE) (simp_all add: Let_def)
        then show ?thesis using l2 a(4) by auto
      next
        case False
        then have b: "building (kend k1) m ys d r2" "unat ?new \<le> unat r2" using a(4) by (auto simp: word_less_nat_alt)
        have "unat ?new = unat (ph_vaddr ?ph) + unat (ph_memsz ?ph)" using alloc(4) unat_plus_simple [THEN iffD1] by (simp only: not_less)
        then have le: "unat (ph_vaddr ?ph) + unat (ph_filesz ?ph) \<le> unat r2" using alloc(3) b(2) by (simp add: word_less_nat_alt)
        have "devs_ok (kfs ?k)" "KERNBASE < kend ?k" "building (kend ?k) (pages ?k) ys d r2" using Suc.prems(2,3) k1 b(1) by (simp_all add: devs_ok_def)
        then obtain res where u: "loaduvm ?k d (ph_vaddr ?ph) ip (ph_off ?ph) (ph_filesz ?ph) = Some res"
            "\<forall>r k'. res = Inr (r, k') \<longrightarrow> loaded (kend k) ?k ys d r2 k' ys"
          using loaduvm_keeps [OF le, of ?k ys d ip "ph_off ?ph"] k1(1) by auto
        have step: "load_segments k ip d sz off (Suc n) = obind (Some res) (\<lambda>(r, k). if r < 0 then oret (None, k) else load_segments k ip d r2 (off + 32) n)"
          using alloc read a(1) u(1) False by (simp add: Let_def)
        show ?thesis
        proof (cases res)
          case (Inr q)
          obtain q1 k3 where q: "q = (q1, k3)" by fastforce
          have l3: "loaded (kend k) k xs d r2 k3 ys" using loaded_trans [OF l2 [OF b(1)]] u(2) Inr q by blast
          show ?thesis using go [OF l3] l3 unfolding step Inr q by (cases "q1 < 0") auto
        qed (use step in simp)
      qed
    qed
  qed simp
qed

section \<open>A small example\<close>

lemma building_demo:
  obtains m where "building 0x80100000 m [0x80200000] 0x80201000 0x1000" "\<not> has_table (ram m) 0x80201000 0"
proof -
  obtain m where m: "uspace 0x80100000 ULIM m [0x80200000] 0x80201000" "\<And>va. pte_of (ram m) 0x80201000 va = 0" "region (ram m) 0x80201000 ULIM = {0x80201000}"
    using empty_space_demo by metis
  have fr: "frames (ram m) 0x80201000 l = {}" for l using m(2) by (simp add: frames_def mapped_def)
  have "uspace 0x80100000 KTOP m [0x80200000] 0x80201000" using m(1,2) unfolding uspace_def fr by (simp add: mapped_def)
  then have "building 0x80100000 m [0x80200000] 0x80201000 0x1000" using m(2) by (simp add: building_def mapped_def in_pages_def)
  moreover have "tables (ram m) 0x80201000 \<subseteq> {0x80201000}" using m(3) unfolding region_def by blast
  then have "\<not> has_table (ram m) 0x80201000 0" using pt_ok_tables(3) [OF uspaceD(1) [OF m(1)]] tableI [of 0 "ram m" "0x80201000"] by auto
  ultimately show thesis by (rule that)
qed

end
