(* ===== verification/Execstack.thy ===== *)
theory Execstack
  imports Execload
begin

text \<open>
  The stack of a new program: \<^verbatim>\<open>copyout\<close> writes exactly the given bytes into what the process sees, the argument strings
  and the vector of their addresses end up where \<^verbatim>\<open>main\<close> looks for them, and the page below the stack cannot be
  reached from user mode.
\<close>

section \<open>Writing to user memory\<close>

text \<open>What a process sees after \<open>bs\<close> has been written at \<open>va\<close>.\<close>

definition put_view :: "(u32 \<rightharpoonup> u32 \<times> byte) \<Rightarrow> u32 \<Rightarrow> byte list \<Rightarrow> (u32 \<rightharpoonup> u32 \<times> byte)" where
  "put_view f va bs = (\<lambda>a. map_option (\<lambda>(p, b). (p, if unat (a - va) < length bs then bs ! unat (a - va) else b)) (f a))"

lemma put_view_Nil: "put_view f va [] = f"
  by (simp add: put_view_def fun_eq_iff option.map_id)

lemma put_view_at: "f a = g a \<Longrightarrow> put_view f va bs a = put_view g va bs a"
  by (simp add: put_view_def)

lemma sub_index:
  fixes a va :: u32
  assumes "l < 4294967296"
  shows "unat (a - (va + of_nat l)) = (if l \<le> unat (a - va) then unat (a - va) - l else unat (a - va) + 4294967296 - l)"
  using unat_diff_u32 [of "a - va" "of_nat l"] assms by (simp add: word_le_nat_alt diff_diff_eq)

lemma put_view_append:
  assumes "length xs + length ys < 4294967296"
  shows "put_view (put_view f va xs) (va + of_nat (length xs)) ys = put_view f va (xs @ ys)"
proof
  fix a
  show "put_view (put_view f va xs) (va + of_nat (length xs)) ys a = put_view f va (xs @ ys) a"
    using sub_index [of "length xs" a va] assms by (cases "f a") (auto simp: put_view_def nth_append)
qed

text \<open>One page of it.\<close>

lemma word_unat_eq: "of_nat (unat (x :: u32)) = x"
  by simp

lemma page_offset:
  fixes va :: u32
  shows "va = of_nat (4096 * pn va) + of_nat (unat va mod 4096)" "unat va = 4096 * pn va + unat va mod 4096"
proof -
  show e: "unat va = 4096 * pn va + unat va mod 4096" by simp
  have "va = of_nat (unat va)" by simp
  also have "\<dots> = of_nat (4096 * pn va) + of_nat (unat va mod 4096)" by (subst e) (rule of_nat_add)
  finally show "va = of_nat (4096 * pn va) + of_nat (unat va mod 4096)" .
qed

lemma same_page_diff:
  fixes a va :: u32
  assumes "pn a = pn va"
  shows "of_nat (unat a mod 4096) - of_nat (unat va mod 4096) = a - va"
  using page_offset(1) [of a] page_offset(1) [of va] assms by (metis add_diff_cancel_left)

lemma pn_bound: "pn va < 1048576"
  using unsigned_less [of va] by (intro less_mult_imp_div_less) simp

lemma in_page:
  fixes a va :: u32
  assumes "unat (a - va) < n" and "unat va mod 4096 + n \<le> 4096"
  shows "pn a = pn va"
proof -
  have "unat (a - va + va) = unat (a - va) + unat va"
    using assms page_offset(2) [of va] pn_bound [of va] by (intro unat_add_small) linarith
  then have "unat a = (unat va mod 4096 + unat (a - va)) + 4096 * pn va" using page_offset(2) [of va] by simp
  then have "pn a = (unat va mod 4096 + unat (a - va)) div 4096 + pn va" by (simp only: div_mult_self2)
  then show ?thesis using assms by simp
qed

lemma page_put:
  assumes sp: "uspace ke KTOP s xs d" and va: "unat va < KTOP" "mapped (ram s) d va" and n: "unat va mod 4096 + length bs \<le> 4096"
    and pte: "\<And>a. pte_of m d a = pte_of (ram s) d a" and a: "unat a < KTOP"
    and m: "m = store_bytes (ram s) (frame (ram s) d va + of_nat (unat va mod 4096)) bs"
  shows "uview m d a = put_view (uview (ram s) d) va bs a"
proof (cases "mapped (ram s) d a")
  case False
  then show ?thesis using entries_views [OF pte] by (simp add: uview_def put_view_def)
next
  case True
  note V = entries_views [OF pte]
  let ?v = "frame (ram s) d va" and ?w = "frame (ram s) d a"
  have "m (?w + of_nat (unat a mod 4096)) = (if unat (a - va) < length bs then bs ! unat (a - va) else ram s (?w + of_nat (unat a mod 4096)))"
  proof (cases "pn a = pn va")
    case same: True
    have "?w = ?v" using pn_pte [OF same, of "ram s" d] by (simp add: frame_def)
    moreover have "?v + of_nat (unat a mod 4096) - (?v + of_nat (unat va mod 4096)) = a - va" using same_page_diff [OF same] by simp
    ultimately show ?thesis unfolding m store_bytes_def by simp
  next
    case False
    then have "?w \<noteq> ?v" using uspaceD(6) [OF sp a va(1) True va(2)] by blast
    moreover have "same_but {?v} (ram s) m" using same_but_outside [OF store_in_page [OF n]] m by simp
    moreover have "aligned ?v" "aligned ?w" using page_facts(1) [OF uspaceD(2) [OF sp frameI]] va a True by auto
    ultimately have "m (?w + of_nat (unat a mod 4096)) = ram s (?w + of_nat (unat a mod 4096))" by (intro same_but_byte) auto
    then show ?thesis using in_page [OF _ n, of a] False by auto
  qed
  then show ?thesis using True by (simp add: uview_def V pte put_view_def)
qed

text \<open>The page of a user address, as the kernel finds it.\<close>

lemma uva2ka_page:
  assumes "mapped (ram s) d va"
  shows "uva2ka s d (PGROUNDDOWN va) = (if pte_of (ram s) d va AND PTE_U = 0 then 0 else frame (ram s) d va)"
proof -
  let ?a = "PGROUNDDOWN va"
  have "pn ?a = pn va" by (simp add: unat_PGROUNDDOWN)
  note e = pn_pte [OF this, of "ram s" d]
  have m: "mapped (ram s) d ?a" using assms e by (simp add: mapped_def)
  have "load32 (ram s) (fst (walkpgdir s d ?a False)) = pte_of (ram s) d va"
    using walk_present [OF mapped_table [OF m]] pte_at_slot [OF mapped_table [OF m]] e by simp
  then show ?thesis using assms unfolding uva2ka_def Let_def by (simp add: mapped_def frame_def)
qed

lemma copyout_bytes_runs:
  assumes ke: "KERNBASE < ke"
  shows "building ke s xs d sz \<Longrightarrow> 4096 \<le> unat va \<Longrightarrow> unat va + length bs \<le> unat sz \<Longrightarrow>
    \<exists>r s'. copyout_bytes s d va bs = Some (Inr (r, s')) \<and> building ke s' xs d sz \<and> same_pool s xs d s' xs \<and>
      (\<forall>a. pte_of (ram s') d a = pte_of (ram s) d a) \<and>
      (r = -1 \<or> r = 0 \<and> (\<forall>a. unat a < KTOP \<longrightarrow> uview (ram s') d a = put_view (uview (ram s) d) va bs a))"
proof (induction "length bs" arbitrary: s va bs rule: less_induct)
  case less
  note b = less.prems(1)
  show ?case
  proof (cases "bs = []")
    case True
    then show ?thesis using b same_pool_refl by (subst copyout_bytes.simps) (simp add: put_view_Nil)
  next
    case ne: False
    have sp: "uspace ke KTOP s xs d" using b by (simp add: building_def)
    have bd: "unat sz \<le> 234889216" by (rule building_bound [OF b])
    have lt: "unat va < unat sz" "unat va < KTOP" using less.prems(3) ne bd by (cases bs; simp)+
    have "4096 * pn va \<le> unat va" by simp
    then have "in_pages 4096 (unat sz) va" using less.prems(2) lt(1) by (auto simp: in_pages_def)
    then have mp: "mapped (ram s) d va" using b lt(2) by (simp add: building_def)
    let ?off = "unat va mod 4096" and ?va0 = "PGROUNDDOWN va" and ?v = "frame (ram s) d va"
    have va0: "unat ?va0 = 4096 * pn va" by (simp add: unat_PGROUNDDOWN)
    then have "?va0 = of_nat (4096 * pn va)" by (metis word_unat_eq)
    then have "va - ?va0 = of_nat ?off" using page_offset(1) [of va] by (metis add_diff_cancel_left')
    moreover have pg: "unat (PGSIZE - of_nat ?off) = 4096 - ?off"
      using mod_less_divisor [of 4096 "unat va"] unat_diff_u32 [of PGSIZE "of_nat ?off"] by (simp add: PGSIZE_def word_le_nat_alt)
    ultimately have off: "va - ?va0 = of_nat ?off" "unat (PGSIZE - (va - ?va0)) = 4096 - ?off" by simp_all
    let ?n = "min (4096 - ?off) (length bs)"
    let ?m = "store_bytes (ram s) (?v + of_nat ?off) (take ?n bs)"
    have n: "?off + length (take ?n bs) \<le> 4096" "0 < ?n" using ne mod_less_divisor [of 4096 "unat va"] by auto
    have step: "copyout_bytes s d va bs = (if uva2ka s d ?va0 = 0 then oret (-1, s) else copyout_bytes (s\<lparr>ram := ?m\<rparr>) d (?va0 + PGSIZE) (drop ?n bs))"
      if "uva2ka s d ?va0 \<noteq> 0 \<longrightarrow> uva2ka s d ?va0 = ?v"
      using ne that by (subst copyout_bytes.simps) (simp add: Let_def off(1) pg)
    show ?thesis
    proof (cases "uva2ka s d ?va0 = 0")
      case True
      then show ?thesis using step b same_pool_refl by simp
    next
      case False
      then have u: "uva2ka s d ?va0 = ?v" using uva2ka_page [OF mp] by (simp split: if_splits)
      let ?s = "s\<lparr>ram := ?m\<rparr>"
      have "?v \<in> frames (ram s) d KTOP \<or> ?v = KERNBASE" using frameI [OF lt(2) mp] by blast
      note W = write_page [OF ke b this store_in_page [OF n(1)]]
      have view: "uview ?m d a = put_view (uview (ram s) d) va (take ?n bs) a" if "unat a < KTOP" for a
        using page_put [OF sp lt(2) mp n(1) W(3) that refl] .
      have go: "copyout_bytes s d va bs = copyout_bytes ?s d (?va0 + PGSIZE) (drop ?n bs)" using step u False by simp
      show ?thesis
      proof (cases "length bs \<le> ?n")
        case True
        then have "copyout_bytes s d va bs = Some (Inr (0, ?s))" unfolding go by (subst copyout_bytes.simps) simp
        then show ?thesis using W view True by simp
      next
        case False
        then have nn: "?n = 4096 - ?off" by simp
        have "unat (?va0 + PGSIZE) = 4096 * pn va + 4096" using va0 lt bd by (subst unat_add_small) (simp_all add: PGSIZE_def)
        then have nx: "unat (?va0 + PGSIZE) = unat va + ?n"
          using page_offset(2) [of va] mod_less_divisor [of 4096 "unat va"] unfolding nn by linarith
        have "va + of_nat ?n = ?va0 + PGSIZE"
          using nx less.prems(3) bd by (metis (no_types, lifting) of_nat_add word_unat_eq)
        note eq = this
        have "length (drop ?n bs) < length bs" "4096 \<le> unat (?va0 + PGSIZE)" "unat (?va0 + PGSIZE) + length (drop ?n bs) \<le> unat sz"
          using n(2) ne less.prems(2,3) nx by simp_all
        from less.hyps [OF this(1) W(1) this(2,3)] obtain r s' where r: "copyout_bytes ?s d (?va0 + PGSIZE) (drop ?n bs) = Some (Inr (r, s'))"
            "building ke s' xs d sz" "same_pool ?s xs d s' xs" "\<forall>a. pte_of (ram s') d a = pte_of ?m d a"
            "r = -1 \<or> r = 0 \<and> (\<forall>a. unat a < KTOP \<longrightarrow> uview (ram s') d a = put_view (uview ?m d) (?va0 + PGSIZE) (drop ?n bs) a)"
          by auto
        have len: "length (take ?n bs) = ?n" by simp
        have "put_view (uview ?m d) (?va0 + PGSIZE) (drop ?n bs) a = put_view (uview (ram s) d) va bs a" if "unat a < KTOP" for a
          using put_view_at [of "uview ?m d" a "put_view (uview (ram s) d) va (take ?n bs)" "?va0 + PGSIZE" "drop ?n bs", OF view [OF that]] put_view_append [of "take ?n bs" "drop ?n bs" "uview (ram s) d" va, unfolded len eq]
            less.prems(3) bd by simp
        then show ?thesis unfolding go using r W(3) same_pool_trans [OF W(2) r(3)] by (intro exI [of _ r] exI [of _ s']) auto
      qed
    qed
  qed
qed

section \<open>The guard page\<close>

lemma no_user_bit: "PTE_ADDR (e AND NOT PTE_U) = PTE_ADDR e" "present (e AND NOT PTE_U) \<longleftrightarrow> present e" "(e AND NOT PTE_U) AND PTE_U = 0"
proof -
  have "bit ((2 :: u32) ^ 2) n \<longleftrightarrow> n = 2" for n unfolding bit_exp_iff by auto
  then have u: "bit PTE_U n \<longleftrightarrow> n = 2" for n by (simp add: PTE_U_def)
  have m: "(0xFFF :: u32) = mask 12" by (simp add: mask_eq_exp_minus_1)
  show "PTE_ADDR (e AND NOT PTE_U) = PTE_ADDR e" unfolding PTE_ADDR_def m
    by (rule bit_word_eqI) (auto simp: bit_simps u)
  have "(e AND NOT PTE_U) AND PTE_P = e AND PTE_P" unfolding PTE_P_def
    by (rule bit_word_eqI) (auto simp: bit_simps u)
  then show "present (e AND NOT PTE_U) \<longleftrightarrow> present e" by simp
  show "(e AND NOT PTE_U) AND PTE_U = 0" by (simp add: and.assoc)
qed

lemma building_mapped:
  assumes "building ke s xs d sz" and "4096 \<le> unat a" and "unat a < unat sz"
  shows "unat a < KTOP" "mapped (ram s) d a"
proof -
  show a: "unat a < KTOP" using building_bound [OF assms(1)] assms(3) by simp
  have "4096 * pn a \<le> unat a" by simp
  then have "in_pages 4096 (unat sz) a" using assms(2,3) by (auto simp: in_pages_def)
  then show "mapped (ram s) d a" using assms(1) a by (simp add: building_def)
qed

lemma clearpteu_runs:
  assumes b: "building ke s xs d sz" and a: "4096 \<le> unat a" "unat a < unat sz"
  shows "\<exists>s'. clearpteu s d a = Inr s' \<and> building ke s' xs d sz \<and> same_pool s xs d s' xs \<and>
    (\<forall>va. pte_of (ram s') d va = (if pn va = pn a then pte_of (ram s) d va AND NOT PTE_U else pte_of (ram s) d va))"
proof -
  have sp: "uspace ke KTOP s xs d" using b by (simp add: building_def)
  note D = uspaceD [OF sp] and M = building_mapped [OF b a]
  note h = mapped_table [OF M(2)]
  let ?slot = "slot (table_at (ram s) d (unat (PDX a))) (unat (PTX a))"
  let ?s = "s\<lparr>ram := store32 (ram s) ?slot (pte_of (ram s) d a AND NOT PTE_U)\<rparr>"
  note st = set_pte [OF D(1) h, where w = "pte_of (ram s) d a AND NOT PTE_U"]
  have t: "table_at (ram s) d (unat (PDX a)) \<in> tables (ram s) d" using h by (intro tableI) (simp_all add: PDX_less)
  have tal: "aligned (table_at (ram s) d (unat (PDX a)))" using region_pages(2) [OF sp] t by (auto simp: region_def)
  have "?slot \<noteq> 0" using slot_nonzero [OF pt_okD(4) [OF D(1) PDX_less h] PTX_less] .
  then have run: "clearpteu s d a = Inr ?s" using walk_present [OF h, of False] pte_at_slot [OF h] by (simp add: clearpteu_def)
  have pte: "pte_of (ram ?s) d va = (if pn va = pn a then pte_of (ram s) d va AND NOT PTE_U else pte_of (ram s) d va)" for va
    using st(2) [of va] pn_pte [of va a "ram s" d] by simp
  have V: "mapped (ram ?s) d = mapped (ram s) d" "frame (ram ?s) d = frame (ram s) d" unfolding mapped_def frame_def pte by (auto simp: no_user_bit)
  then have V3: "frames (ram ?s) d = frames (ram s) d" by (simp add: frames_def fun_eq_iff)
  have tb: "tables (ram ?s) d = tables (ram s) d" using st(3,4) by (rule tables_cong)
  have us: "uspace ke KTOP ?s xs d" using sp st(1) unfolding uspace_def V V3 tb by blast
  have "pte_of (ram ?s) d 0 = 0" using b unfolding pte by (simp add: building_def)
  then have "building ke ?s xs d sz" using b us unfolding building_def V by blast
  moreover have "same_but (set xs \<union> region (ram s) d KTOP) (ram s) (ram ?s)"
    using same_but_outside [OF same_outside_slot [OF tal PTX_less]] t by (simp add: region_def)
  then have "same_pool s xs d ?s xs" by (intro same_poolI) (simp_all only: region_def V3 tb)
  ultimately show ?thesis using run pte by blast
qed

section \<open>Arguments\<close>

text \<open>The process sees the bytes \<open>bs\<close> at \<open>va\<close>.\<close>

definition sees :: "(u32 \<rightharpoonup> u32 \<times> byte) \<Rightarrow> u32 \<Rightarrow> byte list \<Rightarrow> bool" where
  "sees f va bs \<longleftrightarrow> (\<forall>i < length bs. map_option snd (f (va + of_nat i)) = Some (bs ! i))"

lemma sees_put:
  assumes "\<And>i. i < length bs \<Longrightarrow> f (va + of_nat i) \<noteq> None" and "length bs < 4294967296"
  shows "sees (put_view f va bs) va bs"
  unfolding sees_def
proof (intro allI impI)
  fix i assume "i < length bs"
  then show "map_option snd (put_view f va bs (va + of_nat i)) = Some (bs ! i)"
    using assms(1) [of i] assms(2) by (auto simp: put_view_def)
qed

lemma put_view_below:
  assumes "unat va + length bs \<le> unat a \<or> unat a < unat va" and "length bs + unat va < 4294967296"
  shows "put_view f va bs a = f a"
proof -
  have "\<not> unat (a - va) < length bs" using assms unat_diff_u32 [of a va] by (auto simp: word_le_nat_alt)
  then show ?thesis by (cases "f a") (auto simp: put_view_def)
qed

lemma sees_same:
  assumes "sees f va bs" and "\<And>a. unat va \<le> unat a \<Longrightarrow> unat a < unat va + length bs \<Longrightarrow> g a = f a" and "unat va + length bs < 4294967296"
  shows "sees g va bs"
  unfolding sees_def
proof (intro allI impI)
  fix i assume i: "i < length bs"
  then have "unat (va + of_nat i) = unat va + i" using assms(3) by (subst unat_add_small) simp_all
  then show "map_option snd (g (va + of_nat i)) = Some (bs ! i)" using assms(1,2) i by (simp add: sees_def)
qed

lemma unat_word_align: "unat ((x :: u32) AND NOT 3) = unat x div 4 * 4"
proof -
  have m: "(3 :: u32) = mask 2" by (simp add: mask_eq_exp_minus_1)
  have s: "2 \<le> n \<Longrightarrow> Suc (Suc (n - 2)) = n" for n by simp
  have "x AND NOT 3 = push_bit 2 (drop_bit 2 x)" unfolding m
    by (rule bit_word_eqI) (auto simp: bit_mask_iff bit_simps s not_less simp del: mask_numeral)
  also have "\<dots> = x div 4 * 4" by (simp add: push_bit_eq_mult drop_bit_eq_div)
  finally have e: "x AND NOT 3 = x div 4 * 4" .
  have "unat x div 4 * 4 \<le> unat x" by (rule div_times_less_eq_dividend)
  also have "unat x < 4294967296" by simp
  finally show ?thesis unfolding e by (simp add: unat_word_ariths unat_div)
qed

definition room :: "byte list list \<Rightarrow> nat" where
  "room as = sum_list (map (\<lambda>a. length a + 4) as)"

lemma push_args_runs:
  assumes ke: "KERNBASE < ke"
  shows "building ke s xs d sz \<Longrightarrow> unat sp \<le> unat sz \<Longrightarrow> 4096 + room as \<le> unat sp \<Longrightarrow>
    \<exists>r s'. push_args s d as sp us = Some (Inr (r, s')) \<and> building ke s' xs d sz \<and> same_pool s xs d s' xs \<and>
      (\<forall>a. pte_of (ram s') d a = pte_of (ram s) d a) \<and>
      (r = None \<or> (\<exists>sp' ps. r = Some (sp', us @ ps) \<and> unat sp' \<le> unat sp \<and> unat sp \<le> unat sp' + room as \<and>
         list_all2 (\<lambda>p a. sees (uview (ram s') d) p (a @ [0]) \<and> unat sp' \<le> unat p \<and> unat p + length a < unat sp) ps as \<and>
         (\<forall>a. unat sp \<le> unat a \<longrightarrow> unat a < KTOP \<longrightarrow> uview (ram s') d a = uview (ram s) d a)))"
proof (induction "as" arbitrary: s sp us)
  case Nil
  then show ?case using same_pool_refl by (auto simp: room_def)
next
  case (Cons a "as")
  note b = Cons.prems(1) and bd = building_bound [OF Cons.prems(1)]
  have rm: "room (a # as) = length a + 4 + room as" by (simp add: room_def)
  let ?sp = "(sp - of_nat (length a + 1)) AND NOT 3"
  have len: "length a + 1 < 4294967296" using Cons.prems(2,3) bd rm by linarith
  have "unat (sp - of_nat (length a + 1)) = unat sp - (length a + 1)"
    using Cons.prems(3) rm unat_diff_u32 [of sp "of_nat (length a + 1)"] unat_of_nat_u32 [OF len] by (simp add: word_le_nat_alt del: of_nat_Suc of_nat_add)
  then have "unat ?sp = (unat sp - (length a + 1)) div 4 * 4" unfolding unat_word_align by simp
  then have sp: "unat ?sp + (length a + 1) \<le> unat sp" "unat sp \<le> unat ?sp + (length a + 4)"
    using Cons.prems(3) rm by linarith+
  then have pre: "4096 \<le> unat ?sp" "unat ?sp + length (a @ [0 :: byte]) \<le> unat sz" "unat ?sp \<le> unat sz" "4096 + room as \<le> unat ?sp"
    using Cons.prems(2,3) rm by simp_all
  show ?case
  proof (cases "length us \<ge> MAXARG")
    case True
    then show ?thesis using b same_pool_refl by simp
  next
    case False
    obtain r s1 where c: "copyout_bytes s d ?sp (a @ [0]) = Some (Inr (r, s1))" "building ke s1 xs d sz" "same_pool s xs d s1 xs"
        "\<forall>a. pte_of (ram s1) d a = pte_of (ram s) d a"
        "r = -1 \<or> r = 0 \<and> (\<forall>x. unat x < KTOP \<longrightarrow> uview (ram s1) d x = put_view (uview (ram s) d) ?sp (a @ [0]) x)"
      using copyout_bytes_runs [OF ke b pre(1,2)] by blast
    show ?thesis
    proof (cases "r = -1")
      case True
      then show ?thesis using False c by (simp add: Let_def)
    next
      case ok: False
      then have v1: "\<And>x. unat x < KTOP \<Longrightarrow> uview (ram s1) d x = put_view (uview (ram s) d) ?sp (a @ [0]) x" and r0: "r = 0" using c(5) by auto
      obtain q s2 where q: "push_args s1 d as ?sp (us @ [?sp]) = Some (Inr (q, s2))" "building ke s2 xs d sz" "same_pool s1 xs d s2 xs"
          "\<forall>a. pte_of (ram s2) d a = pte_of (ram s1) d a"
          "q = None \<or> (\<exists>sp' ps. q = Some (sp', (us @ [?sp]) @ ps) \<and> unat sp' \<le> unat ?sp \<and> unat ?sp \<le> unat sp' + room as \<and>
            list_all2 (\<lambda>p a. sees (uview (ram s2) d) p (a @ [0]) \<and> unat sp' \<le> unat p \<and> unat p + length a < unat ?sp) ps as \<and>
            (\<forall>a. unat ?sp \<le> unat a \<longrightarrow> unat a < KTOP \<longrightarrow> uview (ram s2) d a = uview (ram s1) d a))"
        using Cons.IH [OF c(2) pre(3,4)] by blast
      have run: "push_args s d (a # as) sp us = Some (Inr (q, s2))" using False c(1) r0 q(1) by (simp add: Let_def)
      have keep: "building ke s2 xs d sz" "same_pool s xs d s2 xs" "\<forall>a. pte_of (ram s2) d a = pte_of (ram s) d a"
        using q(2,4) c(4) same_pool_trans [OF c(3) q(3)] by simp_all
      show ?thesis
      proof (cases q)
        case None
        then show ?thesis using run keep by blast
      next
        case (Some y)
        then obtain sp' ps where y: "q = Some (sp', us @ ?sp # ps)" "unat sp' \<le> unat ?sp" "unat ?sp \<le> unat sp' + room as"
            "list_all2 (\<lambda>p a. sees (uview (ram s2) d) p (a @ [0]) \<and> unat sp' \<le> unat p \<and> unat p + length a < unat ?sp) ps as"
            "\<And>a. unat ?sp \<le> unat a \<Longrightarrow> unat a < KTOP \<Longrightarrow> uview (ram s2) d a = uview (ram s1) d a"
          using q(5) by auto
        have top: "unat sp < KTOP" using Cons.prems(2) bd by simp
        have "sees (put_view (uview (ram s) d) ?sp (a @ [0])) ?sp (a @ [0])"
        proof (rule sees_put)
          fix i assume i: "i < length (a @ [0 :: byte])"
          then have "unat (?sp + of_nat i) = unat ?sp + i" using sp top by (subst unat_add_small) simp_all
          then have "mapped (ram s) d (?sp + of_nat i)" using building_mapped(2) [OF b, of "?sp + of_nat i"] pre i by simp
          then show "uview (ram s) d (?sp + of_nat i) \<noteq> None" by (simp add: uview_def)
        qed (use len in simp)
        then have "sees (uview (ram s2) d) ?sp (a @ [0])"
          by (rule sees_same) (use y(5) v1 sp top in auto)
        moreover have "list_all2 (\<lambda>p a. sees (uview (ram s2) d) p (a @ [0]) \<and> unat sp' \<le> unat p \<and> unat p + length a < unat sp) ps as"
          using y(4) by (rule list_all2_mono) (use sp in auto)
        moreover have "uview (ram s2) d x = uview (ram s) d x" if "unat sp \<le> unat x" "unat x < KTOP" for x
          using y(5) [of x] v1 [of x] put_view_below [of ?sp "a @ [0]" x "uview (ram s) d"] that sp top by simp
        moreover have "unat sp \<le> unat sp' + room (a # as)" "unat sp' \<le> unat sp" using y(2,3) sp rm by linarith+
        ultimately show ?thesis using run keep y(1,2) sp by (intro exI [of _ q] exI [of _ s2]) simp
      qed
    qed
  qed
qed

section \<open>The whole stack\<close>

lemma building_round:
  assumes b: "building ke s xs d sz"
  shows "building ke s xs d (PGROUNDUP sz)"
proof -
  have "unat sz \<le> ULIM" using building_bound [OF b] by (simp add: ULIM_def)
  note up = round_up [OF this]
  have "in_pages 4096 (unat (PGROUNDUP sz)) va \<longleftrightarrow> in_pages 4096 (unat sz) va" for va using up(1) [of "pn va"] by (simp add: in_pages_def)
  moreover have "4096 \<le> unat (PGROUNDUP sz)" using b up(2) unfolding building_def by linarith
  ultimately show ?thesis using b unfolding building_def by simp
qed

text \<open>What \<^verbatim>\<open>main\<close> finds on its stack: a return address, the number of arguments, and the vector of the strings.\<close>

definition main_args :: "(u32 \<rightharpoonup> u32 \<times> byte) \<Rightarrow> u32 \<Rightarrow> byte list list \<Rightarrow> bool" where
  "main_args f sp argv \<longleftrightarrow> (\<exists>ps. list_all2 (\<lambda>p a. sees f p (a @ [0])) ps argv \<and>
     sees f sp (concat (map word_bytes ([0xffffffff, of_nat (length argv), sp + 12] @ ps @ [0]))))"

text \<open>The view below the kernel.\<close>

definition user_view :: "mem \<Rightarrow> u32 \<Rightarrow> u32 \<rightharpoonup> u32 \<times> byte" where
  "user_view m d a = (if unat a < KTOP then uview m d a else None)"

definition guarded :: "mem \<Rightarrow> u32 \<Rightarrow> u32 \<Rightarrow> bool" where
  "guarded m d sz \<longleftrightarrow> (\<forall>va. in_pages (unat sz - 8192) (unat sz - 4096) va \<longrightarrow> pte_of m d va AND PTE_U = 0)"

lemma length_words: "length (concat (map word_bytes us)) = 4 * length us"
  by (induction us) (simp_all add: word_bytes_def)

lemma sees_put_user:
  assumes b: "building ke s xs d sz" and "4096 \<le> unat va" and "unat va + length bs \<le> unat sz"
  shows "sees (put_view (uview (ram s) d) va bs) va bs"
proof (rule sees_put)
  have bd: "unat sz \<le> 234889216" by (rule building_bound [OF b])
  fix i assume i: "i < length bs"
  then have "unat (va + of_nat i) = unat va + i" using assms(3) bd by (subst unat_add_small) simp_all
  then have "mapped (ram s) d (va + of_nat i)" using building_mapped(2) [OF b, of "va + of_nat i"] assms(2,3) i by simp
  then show "uview (ram s) d (va + of_nat i) \<noteq> None" by (simp add: uview_def)
qed (use assms(3) building_bound [OF b] in simp)

lemma push_vector:
  assumes ke: "KERNBASE < ke" and b: "building ke s xs d sz" and sp: "4096 + 4 * length ps + 16 \<le> unat sp" "unat sp \<le> unat sz"
    and ps: "list_all2 (\<lambda>p a. sees (uview (ram s) d) p (a @ [0]) \<and> unat sp \<le> unat p \<and> unat p + length a < unat sz) ps argv"
  defines "n \<equiv> of_nat (length ps) :: u32"
  defines "sp' \<equiv> sp - (3 + n + 1) * 4"
  shows "\<exists>r s'. copyout_bytes s d sp' (concat (map word_bytes ([0xffffffff, n, sp - (n + 1) * 4] @ ps @ [0]))) = Some (Inr (r, s')) \<and>
    building ke s' xs d sz \<and> same_pool s xs d s' xs \<and> (\<forall>a. pte_of (ram s') d a = pte_of (ram s) d a) \<and>
    (r = -1 \<or> r = 0 \<and> main_args (user_view (ram s') d) sp' argv)"
proof -
  let ?us = "[0xffffffff, n, sp - (n + 1) * 4] @ ps @ [0 :: u32]"
  let ?bs = "concat (map word_bytes ?us)"
  have bd: "unat sz \<le> 234889216" by (rule building_bound [OF b])
  have lps: "length ps = length argv" using ps by (rule list_all2_lengthD)
  have len: "length ?bs = 4 * length ps + 16" unfolding length_words by simp
  have k: "sp' = sp - of_nat (4 * length ps + 16)" by (simp add: sp'_def n_def algebra_simps)
  then have u: "unat sp' = unat sp - (4 * length ps + 16)"
    using sp bd unat_diff_u32 [of sp "of_nat (4 * length ps + 16)"] unat_of_nat_u32 [of "4 * length ps + 16"] by (simp add: word_le_nat_alt del: of_nat_add of_nat_mult)
  then have pre: "4096 \<le> unat sp'" "unat sp' + length ?bs \<le> unat sz" using sp len by simp_all
  obtain r s' where r: "copyout_bytes s d sp' ?bs = Some (Inr (r, s'))" "building ke s' xs d sz" "same_pool s xs d s' xs"
      "\<forall>a. pte_of (ram s') d a = pte_of (ram s) d a"
      "r = -1 \<or> r = 0 \<and> (\<forall>a. unat a < KTOP \<longrightarrow> uview (ram s') d a = put_view (uview (ram s) d) sp' ?bs a)"
    using copyout_bytes_runs [OF ke b pre] by blast
  have "main_args (user_view (ram s') d) sp' argv" if v: "\<And>a. unat a < KTOP \<Longrightarrow> uview (ram s') d a = put_view (uview (ram s) d) sp' ?bs a"
    unfolding main_args_def
  proof (intro exI conjI)
    show "list_all2 (\<lambda>p a. sees (user_view (ram s') d) p (a @ [0])) ps argv" using ps
    proof (rule list_all2_mono)
      fix p a assume p: "sees (uview (ram s) d) p (a @ [0]) \<and> unat sp \<le> unat p \<and> unat p + length a < unat sz"
      then have "sees (uview (ram s) d) p (a @ [0])" by simp
      then show "sees (user_view (ram s') d) p (a @ [0])"
        by (rule sees_same) (use p v put_view_below [of sp' ?bs] u len sp bd in \<open>auto simp: user_view_def\<close>)
    qed
    have "sees (user_view (ram s') d) sp' ?bs"
      using sees_put_user [OF b pre] by (rule sees_same) (use v pre bd in \<open>auto simp: user_view_def\<close>)
    moreover have "sp - (n + 1) * 4 = sp' + 12" "n = of_nat (length argv)" by (simp_all add: sp'_def n_def lps)
    ultimately show "sees (user_view (ram s') d) sp' (concat (map word_bytes ([0xffffffff, of_nat (length argv), sp' + 12] @ ps @ [0])))" by (simp only:)
  qed
  then show ?thesis using r by blast
qed

lemma exec_stack_runs:
  assumes ke: "KERNBASE < ke" and b: "building ke s xs d sz" and small: "room argv + 4 * length argv + 16 \<le> 8192"
  shows "\<exists>r s' ys sz'. exec_stack ke s d sz argv = Some (Inr (r, s')) \<and> building ke s' ys d sz' \<and> same_pool s xs d s' ys \<and>
    (r = None \<or> (\<exists>sp. r = Some (sz', sp) \<and> main_args (user_view (ram s') d) sp argv \<and> guarded (ram s') d sz'))"
proof -
  let ?sz = "PGROUNDUP sz" and ?new = "PGROUNDUP sz + 2 * PGSIZE"
  note b1 = building_round [OF b]
  have bd: "unat ?sz \<le> 234889216" "4096 \<le> unat ?sz" using building_bound [OF b1] b1 by (simp_all add: building_def)
  then have new: "unat ?new = unat ?sz + 8192" by (subst unat_add_small) (simp_all add: PGSIZE_def)
  obtain r1 s1 ys where a: "allocuvm ke s d ?sz ?new = Some (Inr (r1, s1))"
      "set ys \<union> region (ram s1) d KTOP = set xs \<union> region (ram s) d KTOP" "same_but (set xs \<union> region (ram s) d KTOP) (ram s) (ram s1)"
      "r1 = 0 \<and> building ke s1 ys d ?sz \<or> r1 \<noteq> 0 \<and> building ke s1 ys d r1 \<and> r1 = (if ?new < ?sz then ?sz else ?new)"
    using alloc_building [OF ke b1, of ?new] by blast
  note p1 = same_poolI [OF a(2,3)]
  show ?thesis
  proof (cases "r1 = 0")
    case True
    then show ?thesis using a p1 by (auto simp: exec_stack_def)
  next
    case False
    then have b2: "building ke s1 ys d ?new" "r1 = ?new" using a(4) new by (auto simp: word_less_nat_alt)
    let ?g = "?new - 2 * PGSIZE"
    have g: "4096 \<le> unat ?g" "unat ?g < unat ?new" "unat ?g = unat ?new - 8192" using bd new by simp_all
    obtain s2 where c: "clearpteu s1 d ?g = Inr s2" "building ke s2 ys d ?new" "same_pool s1 ys d s2 ys"
        "\<forall>va. pte_of (ram s2) d va = (if pn va = pn ?g then pte_of (ram s1) d va AND NOT PTE_U else pte_of (ram s1) d va)"
      using clearpteu_runs [OF b2(1) g(1,2)] by blast
    have pre: "unat ?new \<le> unat ?new" "4096 + room argv \<le> unat ?new" using small new bd by linarith+
    obtain q s3 where q: "push_args s2 d argv ?new [] = Some (Inr (q, s3))" "building ke s3 ys d ?new" "same_pool s2 ys d s3 ys"
        "\<forall>a. pte_of (ram s3) d a = pte_of (ram s2) d a"
        "q = None \<or> (\<exists>sp' ps. q = Some (sp', ps) \<and> unat sp' \<le> unat ?new \<and> unat ?new \<le> unat sp' + room argv \<and>
           list_all2 (\<lambda>p a. sees (uview (ram s3) d) p (a @ [0]) \<and> unat sp' \<le> unat p \<and> unat p + length a < unat ?new) ps argv)"
      using push_args_runs [OF ke c(2) pre, of "[]"] by auto
    note p3 = same_pool_trans [OF same_pool_trans [OF p1 c(3)] q(3)]
    show ?thesis
    proof (cases q)
      case None
      then show ?thesis using a(1) b2(2) False c(1) q(1,2) p3 by (auto simp: exec_stack_def Let_def)
    next
      case (Some y)
      then obtain sp ps where y: "q = Some (sp, ps)" "unat sp \<le> unat ?new" "unat ?new \<le> unat sp + room argv"
          "list_all2 (\<lambda>p a. sees (uview (ram s3) d) p (a @ [0]) \<and> unat sp \<le> unat p \<and> unat p + length a < unat ?new) ps argv"
        using q(5) by auto
      have "length ps = length argv" using y(4) by (rule list_all2_lengthD)
      then have "4096 + 4 * length ps + 16 \<le> unat sp" using y(3) new bd small by linarith
      from push_vector [OF ke q(2) this y(2,4)] obtain r s4 where v:
          "copyout_bytes s3 d (sp - (3 + of_nat (length ps) + 1) * 4) (concat (map word_bytes ([0xffffffff, of_nat (length ps), sp - (of_nat (length ps) + 1) * 4] @ ps @ [0]))) = Some (Inr (r, s4))"
          "building ke s4 ys d ?new" "same_pool s3 ys d s4 ys" "\<forall>a. pte_of (ram s4) d a = pte_of (ram s3) d a"
          "r = -1 \<or> r = 0 \<and> main_args (user_view (ram s4) d) (sp - (3 + of_nat (length ps) + 1) * 4) argv" by blast
      have run: "exec_stack ke s d sz argv = Some (Inr (if r < 0 then None else Some (?new, sp - (3 + of_nat (length ps) + 1) * 4), s4))"
        using a(1) b2(2) False c(1) q(1) y(1) v(1) unfolding exec_stack_def Let_def by simp
      have "aligned ?g" using bd(1) building_bound [OF b] by (simp add: aligned_def unat_PGROUNDUP)
      moreover have "unat ?new - 8192 = unat ?g" "unat ?new - 4096 = unat ?g + 4096" using g new by simp_all
      ultimately have "guarded (ram s4) d ?new"
        using one_page [of ?g] v(4) q(4) c(4) no_user_bit(3) unfolding guarded_def by simp
      then show ?thesis using run v(2,5) same_pool_trans [OF p3 v(3)] by auto
    qed
  qed
qed

end
