(* ===== verification/Execrun.thy ===== *)
theory Execrun
  imports Execstack
begin

text \<open>
  The outcome of \<^verbatim>\<open>exec\<close>: the old address space is untouched until the new one is complete, then exactly its pages are
  freed; on every error path all pages of the half-built one are free again.
\<close>

section \<open>Two address spaces\<close>

text \<open>The new address space takes its pages from the free list \<open>xs\<close>; besides them only physical page zero may be written.\<close>

definition apart :: "kmem \<Rightarrow> u32 list \<Rightarrow> u32 set \<Rightarrow> kmem \<Rightarrow> bool" where
  "apart s xs R s' \<longleftrightarrow> R = set xs \<and> same_but (insert KERNBASE (set xs)) (ram s) (ram s')"

lemma apart_pool:
  assumes "apart s xs (set ys \<union> region (ram s1) d KTOP) s1" and "same_pool s1 ys d s2 zs"
  shows "apart s xs (set zs \<union> region (ram s2) d KTOP) s2"
  using assms same_but_trans unfolding apart_def same_pool_def by metis

lemma old_kept:
  assumes ke: "KERNBASE < ke" and old: "uspace ke ULIM s xs d0" and ap: "same_but (insert KERNBASE (set xs)) (ram s) (ram s')"
    and fp: "free_pages ke s' ys" "set ys \<subseteq> set xs"
  shows "uspace ke ULIM s' ys d0" "region (ram s') d0 ULIM = region (ram s) d0 ULIM"
    "unat va < ULIM \<Longrightarrow> uview (ram s') d0 va = uview (ram s) d0 va"
proof -
  have bad: "bad_page ke KERNBASE" using ke by (simp add: bad_page_def)
  have al: "\<forall>v \<in> insert KERNBASE (set xs). aligned v" using pool_aligned [OF old] by (auto simp: aligned_def KERNBASE_def)
  have dj: "region (ram s) d0 ULIM \<inter> insert KERNBASE (set xs) = {}" "region (ram s) d0 ULIM \<inter> set ys = {}"
    using region_pages(1,3) [OF old] bad fp(2) by auto
  note F = uspace_frame [OF old ap al dj(1) fp(1) dj(2)]
  show "uspace ke ULIM s' ys d0" by (rule F(1))
  show "region (ram s') d0 ULIM = region (ram s) d0 ULIM" by (rule F(2))
  show "unat va < ULIM \<Longrightarrow> uview (ram s') d0 va = uview (ram s) d0 va" by (rule F(4))
qed

text \<open>Nothing happened, as far as pages and the old address space are concerned.\<close>

definition unchanged :: "u32 \<Rightarrow> kmem \<Rightarrow> u32 list \<Rightarrow> u32 \<Rightarrow> kmem \<Rightarrow> u32 list \<Rightarrow> bool" where
  "unchanged ke s xs d0 s' ys \<longleftrightarrow> set ys = set xs \<and> uspace ke ULIM s' ys d0 \<and> region (ram s') d0 ULIM = region (ram s) d0 ULIM \<and>
     (\<forall>va. unat va < ULIM \<longrightarrow> uview (ram s') d0 va = uview (ram s) d0 va)"

lemma unchangedI:
  assumes "KERNBASE < ke" and "uspace ke ULIM s xs d0" and "same_but (insert KERNBASE (set xs)) (ram s) (ram s')"
    and "free_pages ke s' ys" "set ys = set xs"
  shows "unchanged ke s xs d0 s' ys"
  using old_kept [OF assms(1-4)] assms(5) unfolding unchanged_def by blast

lemma discard_new:
  assumes ke: "KERNBASE < ke" and old: "uspace ke ULIM s xs d0" and b: "building ke s1 ys d sz"
    and ap: "apart s xs (set ys \<union> region (ram s1) d KTOP) s1"
  shows "\<exists>s' zs. freevm ke s1 d = Some (Inr s') \<and> unchanged ke s xs d0 s' zs"
proof -
  note U = building_ulim [OF b]
  obtain s' zs where f: "freevm ke s1 d = Some (Inr s')" "free_pages ke s' zs" "set zs = set ys \<union> region (ram s1) d KTOP"
      "same_but (region (ram s1) d KTOP) (ram s1) (ram s')"
    using freevm_runs [OF ke U(1)] unfolding U(2) by blast
  have A: "set ys \<union> region (ram s1) d KTOP = set xs" "same_but (insert KERNBASE (set xs)) (ram s) (ram s1)" using ap unfolding apart_def by blast+
  have "region (ram s1) d KTOP \<subseteq> insert KERNBASE (set xs)" using A(1) by blast
  note sb = same_but_trans [OF A(2) same_but_mono [OF f(4) this]]
  have "set zs = set xs" using f(3) A(1) by simp
  then show ?thesis using f(1) unchangedI [OF ke old sb f(2)] by blast
qed

text \<open>The new address space has replaced the old one.\<close>

definition replaced :: "u32 \<Rightarrow> kmem \<Rightarrow> u32 list \<Rightarrow> u32 \<Rightarrow> kmem \<Rightarrow> u32 list \<Rightarrow> u32 \<Rightarrow> u32 \<Rightarrow> bool" where
  "replaced ke s xs d0 s' ys d sz \<longleftrightarrow> image ke s' ys d sz \<and> pte_of (ram s') d 0 = 0 \<and> guarded (ram s') d sz \<and>
     set ys \<union> region (ram s') d ULIM = set xs \<union> region (ram s) d0 ULIM"

lemma replace_old:
  assumes ke: "KERNBASE < ke" and old: "uspace ke ULIM s xs d0" and b: "building ke s1 ys d sz" and g: "guarded (ram s1) d sz"
    and ap: "apart s xs (set ys \<union> region (ram s1) d KTOP) s1"
  shows "\<exists>s' zs. freevm ke s1 d0 = Some (Inr s') \<and> replaced ke s xs d0 s' zs d sz \<and> user_view (ram s') d = user_view (ram s1) d"
proof -
  have sp: "uspace ke KTOP s1 ys d" using b by (simp add: building_def)
  have A: "set ys \<union> region (ram s1) d KTOP = set xs" "same_but (insert KERNBASE (set xs)) (ram s) (ram s1)" using ap unfolding apart_def by blast+
  have sub: "set ys \<subseteq> set xs" "region (ram s1) d KTOP \<subseteq> set xs" using A(1) by blast+
  note K = old_kept [OF ke old A(2) pt_okD(1) [OF uspaceD(1) [OF sp]] sub(1)]
  obtain s' zs where f: "freevm ke s1 d0 = Some (Inr s')" "free_pages ke s' zs" "set zs = set ys \<union> region (ram s) d0 ULIM"
      "same_but (region (ram s) d0 ULIM) (ram s1) (ram s')"
    using freevm_runs [OF ke K(1)] unfolding K(2) by blast
  have al: "\<forall>v \<in> region (ram s) d0 ULIM. aligned v" using region_pages(2) [OF old] by blast
  have dj: "region (ram s1) d KTOP \<inter> region (ram s) d0 ULIM = {}" using region_pages(3) [OF old] sub(2) by blast
  then have dj2: "region (ram s1) d KTOP \<inter> set zs = {}" using region_pages(3) [OF sp] f(3) by blast
  note F = uspace_frame [OF sp f(4) al dj f(2) dj2]
  note V = entries_views [OF F(3)]
  have "4096 \<le> unat sz" "\<forall>va. unat va < KTOP \<longrightarrow> (mapped (ram s') d va \<longleftrightarrow> in_pages 4096 (unat sz) va)" "pte_of (ram s') d 0 = 0"
    using b unfolding building_def V F(3) by blast+
  then have b': "building ke s' zs d sz" using F(1) unfolding building_def by blast
  note U = building_ulim [OF b']
  have "set zs \<union> region (ram s') d ULIM = set xs \<union> region (ram s) d0 ULIM" unfolding U(2) F(2) f(3) using A(1) by blast
  moreover have "guarded (ram s') d sz" using g unfolding guarded_def F(3) .
  ultimately have "replaced ke s xs d0 s' zs d sz" using U(3) \<open>pte_of (ram s') d 0 = 0\<close> unfolding replaced_def by blast
  moreover have "user_view (ram s') d = user_view (ram s1) d" using F(4) by (auto simp: user_view_def fun_eq_iff)
  ultimately show ?thesis using f(1) by blast
qed

section \<open>exec\<close>

text \<open>A directory with only the kernel mapped is an address space of one page, the one that is never mapped.\<close>

lemma setupkvm_building:
  assumes ke: "KERNBASE < ke" and "kdata_ok kdata" and old: "uspace ke ULIM s xs d0"
  shows "\<exists>d s' ys. setupkvm ke kdata s = Some (Inr (d, s')) \<and>
    (d = 0 \<and> unchanged ke s xs d0 s' ys \<or> d \<noteq> 0 \<and> building ke s' ys d PGSIZE \<and> apart s xs (set ys \<union> region (ram s') d KTOP) s')"
proof -
  have fp: "free_pages ke s xs" using pt_okD(1) [OF uspaceD(1) [OF old]] .
  obtain d s' ys where r: "setupkvm ke kdata s = Some (Inr (d, s'))" "same_but (set xs) (ram s) (ram s')"
      "d = 0 \<and> free_pages ke s' ys \<and> set ys = set xs \<or> d \<noteq> 0 \<and> uspace ke ULIM s' ys d \<and> set ys \<union> region (ram s') d ULIM = set xs \<and>
         (\<forall>va. unat va < KTOP \<longrightarrow> pte_of (ram s') d va = 0)"
    using setupkvm_runs [OF ke assms(2) fp] by blast
  have sb: "same_but (insert KERNBASE (set xs)) (ram s) (ram s')" using r(2) by (rule same_but_mono) blast
  have "building ke s' ys d PGSIZE \<and> apart s xs (set ys \<union> region (ram s') d KTOP) s'"
    if u: "uspace ke ULIM s' ys d" "set ys \<union> region (ram s') d ULIM = set xs" and z: "\<forall>va. unat va < KTOP \<longrightarrow> pte_of (ram s') d va = 0"
  proof -
    have nm: "\<not> mapped (ram s') d va" if "unat va < KTOP" for va using z that by (simp add: mapped_def)
    then have fr: "frames (ram s') d KTOP = {}" "frames (ram s') d ULIM = {}" by (auto simp: frames_def ULIM_def)
    have "uspace ke KTOP s' ys d" using u(1) nm unfolding uspace_def fr by blast
    moreover have "pte_of (ram s') d 0 = 0" using z by simp
    moreover have "\<not> in_pages 4096 (unat PGSIZE) va" for va by (simp add: in_pages_def PGSIZE_def)
    ultimately have "building ke s' ys d PGSIZE" using nm unfolding building_def by (simp add: PGSIZE_def)
    then show ?thesis using sb u(2) fr by (simp add: apart_def region_def)
  qed
  then show ?thesis using r(1,3) unchangedI [OF ke old sb] by blast
qed

definition exec_result :: "u32 \<Rightarrow> kfiles \<Rightarrow> u32 list \<Rightarrow> eproc \<Rightarrow> byte list \<Rightarrow> byte list list \<Rightarrow> int \<Rightarrow> eproc \<Rightarrow> kfiles \<Rightarrow> bool" where
  "exec_result ke k xs p path argv r p' k' \<longleftrightarrow> same_kernel k k' \<and>
     (\<exists>ys. r = -1 \<and> p' = p \<and> unchanged ke (pages k) xs (vpgdir p) (pages k') ys \<or>
       r = 0 \<and> replaced ke (pages k) xs (vpgdir p) (pages k') ys (vpgdir p') (vsz p') \<and>
         main_args (user_view (ram (pages k')) (vpgdir p')) (pesp p') argv \<and>
         shared_page p' = map (\<lambda>_. 0) (shared_page p) \<and> pname p' = safestrcpy (cstr_of (last_elem path)) 16)"

text \<open>A computation that ends, with a panic or a value that satisfies \<open>P\<close>.\<close>

definition ends_in :: "('a \<Rightarrow> bool) \<Rightarrow> 'a res option \<Rightarrow> bool" where
  "ends_in P c \<longleftrightarrow> (\<exists>res. c = Some res \<and> (\<forall>y. res = Inr y \<longrightarrow> P y))"

lemma ends_in_bind:
  assumes "ends_in Q c" and "\<And>y. Q y \<Longrightarrow> ends_in P (f y)"
  shows "ends_in P (obind c f)"
proof -
  obtain res where c: "c = Some res" "\<forall>y. res = Inr y \<longrightarrow> Q y" using assms(1) by (auto simp: ends_in_def)
  show ?thesis
  proof (cases res)
    case (Inl e)
    then show ?thesis using c(1) by (simp add: ends_in_def)
  next
    case (Inr y)
    then show ?thesis using c assms(2) by simp
  qed
qed

lemma ends_in_ret: "P y \<Longrightarrow> ends_in P (oret y)"
  by (simp add: ends_in_def)

lemma ends_in_some: "(\<And>y. m = Inr y \<Longrightarrow> P y) \<Longrightarrow> ends_in P (Some m)"
  by (simp add: ends_in_def)

lemma same_kernel_pages: "same_kernel k k1 \<Longrightarrow> same_kernel k (k1\<lparr>pages := m\<rparr>)"
  by (simp add: same_kernel_def)

text \<open>Between \<^verbatim>\<open>begin_op\<close> and \<^verbatim>\<open>end_op\<close>.\<close>

abbreviation in_op :: "kfiles \<Rightarrow> kfiles \<Rightarrow> bool" where
  "in_op k k1 \<equiv> same_kernel (op_begin k) k1"

lemma leave_op: "in_op k k1 \<Longrightarrow> same_kernel k (op_end k1)"
  by (simp add: same_kernel_def op_begin_def op_end_def)

lemma fs_keeps:
  assumes "on_fs' op k1 = Inr k2" and "\<And>s s'. op s = Inr s' \<Longrightarrow> dev_read s' = dev_read s"
  shows "same_kernel k1 k2" "pages k2 = pages k1"
  using assms by (auto simp: on_fs'_def res_simps same_kernel_def)

lemma put_inode:
  assumes "in_op k k1"
  shows "ends_in (\<lambda>k2. in_op k k2 \<and> pages k2 = pages k1) (Some (on_fs' (\<lambda>s. iunlockput s ip) k1))"
  by (rule ends_in_some) (use fs_keeps devs_iunlockput same_kernel_trans [OF assms] in blast)

definition kernel_ok :: "kfiles \<Rightarrow> u32 list \<Rightarrow> eproc \<Rightarrow> bool" where
  "kernel_ok k xs p \<longleftrightarrow> KERNBASE < kend k \<and> devs_ok (kfs k) \<and> uspace (kend k) ULIM (pages k) xs (vpgdir p)"

lemma kernel_okD:
  assumes "kernel_ok k xs p"
  shows "KERNBASE < kend k" "devs_ok (kfs k)" "uspace (kend k) ULIM (pages k) xs (vpgdir p)"
  using assms by (auto simp: kernel_ok_def)

text \<open>The new address space is being built, the old one is intact.\<close>

definition working :: "kfiles \<Rightarrow> u32 list \<Rightarrow> u32 \<Rightarrow> u32 \<Rightarrow> kmem \<Rightarrow> u32 list \<Rightarrow> bool" where
  "working k xs d sz m ys \<longleftrightarrow> building (kend k) m ys d sz \<and> apart (pages k) xs (set ys \<union> region (ram m) d KTOP) m"

lemma bad_result:
  assumes "same_kernel k k1" and "unchanged (kend k) (pages k) xs (vpgdir p) (pages k1) ys"
  shows "exec_result (kend k) k xs p path argv (-1) p k1"
  using assms unfolding exec_result_def by blast

lemma exec_bad_early:
  assumes "in_op k k1" and "unchanged (kend k) (pages k) xs (vpgdir p) (pages k1) ys"
  shows "ends_in (\<lambda>(r, p', k'). exec_result (kend k) k xs p path argv r p' k') (exec_bad k1 0 (Some ip) p)"
proof -
  have "exec_bad k1 0 (Some ip) p = obind (Some (on_fs' (\<lambda>s. iunlockput s ip) k1)) (\<lambda>k. oret (-1, p, op_end k))"
    by (simp add: exec_bad_def)
  moreover have "ends_in (\<lambda>(r, p', k'). exec_result (kend k) k xs p path argv r p' k') \<dots>"
    by (rule ends_in_bind [OF put_inode [OF assms(1)]], rule ends_in_ret)
      (use assms(2) leave_op bad_result in \<open>auto simp: op_end_def\<close>)
  ultimately show ?thesis by simp
qed

lemma exec_bad_late:
  assumes ok: "kernel_ok k xs p" and w: "working k xs d sz (pages k1) ys" and k1: "kend k1 = kend k"
    and op: "case ip of None \<Rightarrow> same_kernel k k1 | Some _ \<Rightarrow> in_op k k1"
  shows "ends_in (\<lambda>(r, p', k'). exec_result (kend k) k xs p path argv r p' k') (exec_bad k1 d ip p)"
proof -
  note K = kernel_okD [OF ok]
  have "building (kend k) (pages k1) ys d sz" "apart (pages k) xs (set ys \<union> region (ram (pages k1)) d KTOP) (pages k1)"
    using w by (simp_all add: working_def)
  from discard_new [OF K(1,3) this] obtain m zs where m: "freevm (kend k) (pages k1) d = Some (Inr m)" "unchanged (kend k) (pages k) xs (vpgdir p) m zs"
    by blast
  have "uspace (kend k) KTOP (pages k1) ys d" using w by (simp add: working_def building_def)
  then have "KTOP \<le> unat d" using page_facts(2) [OF pt_okD(2) [OF uspaceD(1)]] by blast
  then have "d \<noteq> 0" by auto
  let ?k = "k1\<lparr>pages := m\<rparr>"
  show ?thesis
  proof (cases ip)
    case None
    then have "exec_bad k1 d ip p = oret (-1, p, ?k)" using m(1) k1 \<open>d \<noteq> 0\<close> by (simp add: exec_bad_def)
    moreover have "exec_result (kend k) k xs p path argv (-1) p ?k" by (rule bad_result) (use op None m(2) same_kernel_pages in auto)
    ultimately show ?thesis by (simp add: ends_in_ret)
  next
    case (Some i)
    then have "exec_bad k1 d ip p = exec_bad ?k 0 (Some i) p" using m(1) k1 \<open>d \<noteq> 0\<close> by (simp add: exec_bad_def)
    then show ?thesis using exec_bad_early [of k ?k xs p zs] op Some m(2) same_kernel_pages by simp
  qed
qed

lemma exec_commit_done:
  assumes ok: "kernel_ok k xs p" and w: "working k xs d sz (pages k1) ys" and k1: "same_kernel k k1" and g: "guarded (ram (pages k1)) d sz"
    and a: "main_args (user_view (ram (pages k1)) d) sp argv"
  shows "ends_in (\<lambda>(r, p', k'). exec_result (kend k) k xs p path argv r p' k') (exec_commit k1 d sz sp entry path p)"
proof -
  note K = kernel_okD [OF ok]
  have b: "building (kend k) (pages k1) ys d sz" and ap: "apart (pages k) xs (set ys \<union> region (ram (pages k1)) d KTOP) (pages k1)"
    using w by (simp_all add: working_def)
  from replace_old [OF K(1,3) b g ap] obtain m zs where m: "freevm (kend k) (pages k1) (vpgdir p) = Some (Inr m)"
      "replaced (kend k) (pages k) xs (vpgdir p) m zs d sz" "user_view (ram m) d = user_view (ram (pages k1)) d" by blast
  have "kend k1 = kend k" using k1 by (simp add: same_kernel_def)
  then show ?thesis
    using m(1,2) a k1 same_kernel_pages [OF k1, of m] unfolding exec_commit_def Let_def exec_result_def
    by (intro ends_in_bind [where Q = "\<lambda>y. y = m"] ends_in_ret) (auto simp: ends_in_def m(3))
qed

lemma working_pool:
  assumes "working k xs d sz m ys" and "same_pool m ys d m' zs" and "building (kend k) m' zs d sz'"
  shows "working k xs d sz' m' zs"
  using assms apart_pool [OF _ assms(2)] by (simp add: working_def)

lemma exec_image:
  assumes ok: "kernel_ok k xs p" and op: "in_op k k1" and w: "working k xs d PGSIZE (pages k1) ys"
    and small: "room argv + 4 * length argv + 16 \<le> 8192"
  shows "ends_in (\<lambda>(r, p', k'). exec_result (kend k) k xs p path argv r p' k')
    (obind (load_segments k1 ip d PGSIZE off n) (\<lambda>(sz, k).
       case sz of
         None \<Rightarrow> exec_bad k d (Some ip) p
       | Some sz \<Rightarrow>
           obind (Some (on_fs' (\<lambda>s. iunlockput s ip) k)) (\<lambda>k.
             let k = op_end k
             in obind (exec_stack (kend k) (pages k) d sz argv) (\<lambda>(r, m).
                  let k = k\<lparr>pages := m\<rparr>
                  in case r of
                       None \<Rightarrow> exec_bad k d None p
                     | Some (sz, sp) \<Rightarrow> exec_commit k d sz sp entry path p))))"
    (is "ends_in ?R (obind _ ?f)")
proof (rule ends_in_bind)
  note K = kernel_okD [OF ok]
  have k1: "kend k1 = kend k" "dev_read (kfs k1) = dev_read (kfs k)" using op by (simp_all add: same_kernel_def op_begin_def)
  have b: "building (kend k1) (pages k1) ys d PGSIZE" "devs_ok (kfs k1)" "KERNBASE < kend k1"
    using w K(1,2) devs_ok_same [OF k1(2)] by (simp_all add: working_def k1)
  show "ends_in (\<lambda>(r, k2). \<exists>sz zs. in_op k k2 \<and> working k xs d sz (pages k2) zs \<and> (r = None \<or> r = Some sz)) (load_segments k1 ip d PGSIZE off n)"
  proof -
    obtain res where r: "load_segments k1 ip d PGSIZE off n = Some res"
        "\<forall>r k'. res = Inr (r, k') \<longrightarrow> (\<exists>sz' ys'. loaded (kend k1) k1 ys d sz' k' ys' \<and> (r = None \<or> r = Some sz'))"
      using load_segments_keeps [OF b] by blast
    have "\<exists>sz zs. in_op k k2 \<and> working k xs d sz (pages k2) zs \<and> (q = None \<or> q = Some sz)" if res: "res = Inr (q, k2)" for q k2
    proof -
      obtain sz zs where l: "loaded (kend k1) k1 ys d sz k2 zs" "q = None \<or> q = Some sz" using r(2) res by blast
      then show ?thesis using working_pool [OF w, of "pages k2" zs sz] same_kernel_trans [OF op, of k2] unfolding loaded_def k1(1) by blast
    qed
    then show ?thesis using r(1) by (auto simp: ends_in_def)
  qed
  fix y assume y: "case y of (r, k2) \<Rightarrow> \<exists>sz zs. in_op k k2 \<and> working k xs d sz (pages k2) zs \<and> (r = None \<or> r = Some sz)"
  obtain r k2 where rk: "y = (r, k2)" by fastforce
  then obtain sz zs where k2: "in_op k k2" "working k xs d sz (pages k2) zs" "r = None \<or> r = Some sz" using y by auto
  show "ends_in ?R (?f y)"
  proof (cases r)
    case None
    have "kend k2 = kend k" using k2(1) by (simp add: same_kernel_def op_begin_def)
    then show ?thesis using exec_bad_late [OF ok k2(2), of "Some ip"] k2(1) by (simp add: rk None)
  next
    case (Some x)
    then have x: "x = sz" using k2(3) by simp
    have "ends_in ?R (obind (Some (on_fs' (\<lambda>s. iunlockput s ip) k2)) (\<lambda>k.
             let k = op_end k
             in obind (exec_stack (kend k) (pages k) d sz argv) (\<lambda>(r, m).
                  let k = k\<lparr>pages := m\<rparr>
                  in case r of
                       None \<Rightarrow> exec_bad k d None p
                     | Some (sz, sp) \<Rightarrow> exec_commit k d sz sp entry path p)))" (is "ends_in ?R (obind _ ?g)")
    proof (rule ends_in_bind [OF put_inode [OF k2(1)]])
      fix k3 assume k3: "in_op k k3 \<and> pages k3 = pages k2"
      let ?k = "op_end k3"
      have sk: "same_kernel k ?k" using k3 leave_op by blast
      have ke: "kend ?k = kend k" "pages ?k = pages k2" using k3 by (simp_all add: same_kernel_def op_begin_def op_end_def)
      have "building (kend k) (pages k2) zs d sz" using k2(2) by (simp add: working_def)
      from exec_stack_runs [OF K(1) this small] obtain q m vs sz' where s: "exec_stack (kend k) (pages k2) d sz argv = Some (Inr (q, m))"
          "building (kend k) m vs d sz'" "same_pool (pages k2) zs d m vs"
          "q = None \<or> (\<exists>sp. q = Some (sz', sp) \<and> main_args (user_view (ram m) d) sp argv \<and> guarded (ram m) d sz')" by blast
      let ?k' = "?k\<lparr>pages := m\<rparr>"
      have w3: "working k xs d sz' (pages ?k') vs" using working_pool [OF k2(2) s(3,2)] by simp
      have sk': "same_kernel k ?k'" by (rule same_kernel_pages [OF sk])
      show "ends_in ?R (?g k3)"
      proof (cases q)
        case None
        have "ends_in ?R (exec_bad ?k' d None p)" by (rule exec_bad_late [OF ok w3]) (use sk' ke in auto)
        then show ?thesis using s(1) None by (simp add: Let_def ke)
      next
        case (Some z)
        then obtain sp where sp: "q = Some (sz', sp)" "main_args (user_view (ram m) d) sp argv" "guarded (ram m) d sz'" using s(4) by auto
        have "ends_in ?R (exec_commit ?k' d sz' sp entry path p)" by (rule exec_commit_done [OF ok w3 sk']) (use sp in auto)
        then show ?thesis using s(1) sp(1) by (simp add: Let_def ke)
      qed
    qed
    then show ?thesis by (simp add: rk Some x)
  qed
qed

lemma exec_header:
  assumes ok: "kernel_ok k xs p" and kd: "kdata_ok kdata" and small: "room argv + 4 * length argv + 16 \<le> 8192"
    and k2: "in_op k k2" "pages k2 = pages k"
  shows "ends_in (\<lambda>(r, p', k'). exec_result (kend k) k xs p path argv r p' k')
    (obind (setupkvm (kend k2) kdata (pages k2)) (\<lambda>(d, m).
       let k = k2\<lparr>pages := m\<rparr>
       in if d = 0 then exec_bad k 0 (Some ip) p
          else obind (load_segments k ip d PGSIZE off n) (\<lambda>(sz, k).
            case sz of
              None \<Rightarrow> exec_bad k d (Some ip) p
            | Some sz \<Rightarrow>
                obind (Some (on_fs' (\<lambda>s. iunlockput s ip) k)) (\<lambda>k.
                  let k = op_end k
                  in obind (exec_stack (kend k) (pages k) d sz argv) (\<lambda>(r, m).
                       let k = k\<lparr>pages := m\<rparr>
                       in case r of
                            None \<Rightarrow> exec_bad k d None p
                          | Some (sz, sp) \<Rightarrow> exec_commit k d sz sp entry path p)))))"
    (is "ends_in ?R (obind _ ?f)")
proof (rule ends_in_bind)
  note K = kernel_okD [OF ok]
  have ke: "kend k2 = kend k" using k2(1) by (simp add: same_kernel_def op_begin_def)
  show "ends_in (\<lambda>(d, m). \<exists>ys. d = 0 \<and> unchanged (kend k) (pages k) xs (vpgdir p) m ys \<or> d \<noteq> 0 \<and> working k xs d PGSIZE m ys)
      (setupkvm (kend k2) kdata (pages k2))"
    using setupkvm_building [OF K(1) kd K(3)] unfolding ke k2(2) ends_in_def working_def by fastforce
  fix y assume y: "case y of (d, m) \<Rightarrow> \<exists>ys. d = 0 \<and> unchanged (kend k) (pages k) xs (vpgdir p) m ys \<or> d \<noteq> 0 \<and> working k xs d PGSIZE m ys"
  obtain d m ys where d: "y = (d, m)" "d = 0 \<and> unchanged (kend k) (pages k) xs (vpgdir p) m ys \<or> d \<noteq> 0 \<and> working k xs d PGSIZE m ys"
    using y by (cases y) auto
  let ?k = "k2\<lparr>pages := m\<rparr>"
  have op: "in_op k ?k" by (rule same_kernel_pages [OF k2(1)])
  show "ends_in ?R (?f y)"
  proof (cases "d = 0")
    case True
    then have "ends_in ?R (exec_bad ?k 0 (Some ip) p)" using exec_bad_early [OF op] d(2) by simp
    then show ?thesis using d(1) True by (simp add: Let_def)
  next
    case False
    then have "working k xs d PGSIZE (pages ?k) ys" using d(2) by simp
    from exec_image [OF ok op this small] show ?thesis using d(1) False by (simp add: Let_def)
  qed
qed

lemma exec_runs:
  assumes ok: "kernel_ok k xs p" and kd: "kdata_ok kdata" and small: "room argv + 4 * length argv + 16 \<le> 8192"
  shows "ends_in (\<lambda>(r, p', k'). exec_result (kend k) k xs p path argv r p' k') (exec kdata k cw p path argv)"
    (is "ends_in ?R _")
proof -
  note K = kernel_okD [OF ok]
  have un: "unchanged (kend k) (pages k) xs (vpgdir p) m xs" if "m = pages k" for m using K(3) that by (simp add: unchanged_def)
  have step: "ends_in (\<lambda>k2. in_op k k2 \<and> pages k2 = pages k) (Some (on_fs' (\<lambda>s. ilock s ip) k1))" if "in_op k k1" "pages k1 = pages k" for k1 ip
  proof (rule ends_in_some)
    fix k2 assume "on_fs' (\<lambda>s. ilock s ip) k1 = Inr k2"
    note F = fs_keeps [OF this devs_ilock]
    show "in_op k k2 \<and> pages k2 = pages k" using same_kernel_trans [OF that(1) F(1)] F(2) that(2) by simp
  qed
  have rd: "ends_in (\<lambda>((r, bs), k2). in_op k k2 \<and> pages k2 = pages k) (Some (read_file k1 ip 0 52))" if "in_op k k1" "pages k1 = pages k" for k1 ip
  proof (rule ends_in_some)
    fix y assume e: "read_file k1 ip 0 52 = Inr y"
    obtain r bs k2 where y: "y = ((r, bs), k2)" by (metis surj_pair)
    note F = read_file_keeps [OF e [unfolded y]]
    show "(\<lambda>((r, bs), k2). in_op k k2 \<and> pages k2 = pages k) y" using same_kernel_trans [OF that(1) F(1)] F(2) that(2) y by simp
  qed
  show ?thesis unfolding exec_def
  proof (rule ends_in_bind [where Q = "\<lambda>(r, k1). in_op k k1 \<and> pages k1 = pages k"], goal_cases)
    case 1
    show ?case by (rule ends_in_some) (auto simp: on_fs_def res_simps same_kernel_def op_begin_def dest!: devs_namei)
  next
    case (2 y)
    then obtain r k1 where y: "y = (r, k1)" "in_op k k1" "pages k1 = pages k" by (cases y) auto
    show ?case
    proof (cases r)
      case None
      have "exec_result (kend k) k xs p path argv (-1) p (op_end k1)"
        by (rule bad_result [OF leave_op [OF y(2)] un]) (simp add: op_end_def y(3))
      then show ?thesis using y(1) None by (simp add: ends_in_ret)
    next
      case (Some ip)
      show ?thesis unfolding y(1) Some prod.case option.case
      proof (rule ends_in_bind [OF step [OF y(2,3)]], rule ends_in_bind [OF rd], goal_cases)
        case (3 k2 z)
        then obtain r bs k3 where z: "z = ((r, bs), k3)" "in_op k k3" "pages k3 = pages k" by (cases z) auto
        let ?elf = "get_elfhdr bs"
        show ?case unfolding z(1) prod.case Let_def
        proof (cases "of_int r \<noteq> (52 :: u32) \<or> elf_magic ?elf \<noteq> ELF_MAGIC", goal_cases)
          case 1
          then show ?case using exec_bad_early [OF z(2) un [OF z(3)]] by (simp only: if_True)
        next
          case 2
          then show ?case using exec_header [OF ok kd small z(2,3), unfolded Let_def] by (simp only: if_False)
        qed
      qed simp_all
    qed
  qed
qed

section \<open>Properties\<close>

text \<open>
  C17. \<^verbatim>\<open>exec\<close> replaces the memory of a process all or nothing. For a process with a well-formed address space, any
  path, any contents of the file and arguments that fit two pages, it ends; unless the file system or \<^verbatim>\<open>loaduvm\<close>
  panics, the transaction it began is over, nothing else of the kernel has changed, and: either it returns \<open>-1\<close>, the
  process sees what it saw before and the free pages are the same, or it returns 0, the new address space has exactly
  the pages from the second one up to the new size, page zero is not mapped, the page below the stack is closed to user
  mode, \<^verbatim>\<open>main\<close> finds its arguments on the stack, the shared pages are forgotten, and every page that was free or
  belonged to the old address space is now free or belongs to the new one.
\<close>

theorem exec_outcome:
  assumes "kernel_ok k xs p" and "kdata_ok kdata" and "room argv + 4 * length argv + 16 \<le> 8192"
  shows "\<exists>res. exec kdata k cw p path argv = Some res \<and>
    (\<forall>r p' k'. res = Inr (r, p', k') \<longrightarrow> exec_result (kend k) k xs p path argv r p' k')"
  using exec_runs [OF assms, of path cw] by (auto simp: ends_in_def)

text \<open>A kernel with one inode, a device that delivers what \<open>f\<close> says.\<close>

definition dev_fs :: "(u32 \<Rightarrow> int \<times> byte list) \<Rightarrow> fs" where
  "dev_fs f = \<lparr>disk = (\<lambda>_. replicate BSIZE 0), held = [],
     sb = \<lparr>sb_size = 8, sb_nblocks = 4, sb_ninodes = 8, sb_nlog = 0, sb_logstart = 2, sb_inodestart = 2, sb_bmapstart = 3\<rparr>,
     icache = [\<lparr>idev = 1, inum = 1, iref = 1, ilk = initsleeplock, valid = True, itype = T_DEV,
       major = 0, minor = 0, nlink = 1, isize = 0, addrs = replicate 13 0\<rparr>],
     dev_read = (\<lambda>_. Some f), dev_write = (\<lambda>_. None), me = 7\<rparr>"

definition dev_kernel :: "(u32 \<Rightarrow> int \<times> byte list) \<Rightarrow> kmem \<Rightarrow> kfiles" where
  "dev_kernel f m = \<lparr>kfs = dev_fs f, ftable = [], pipes = (\<lambda>_. pipe_init []), pages = m, kend = 0x80100000, ops = 0\<rparr>"

definition dev_proc :: eproc where
  "dev_proc = \<lparr>vsz = 0x1000, vpgdir = 0x80201000, shared_page = [0, 0, 0, 0], pname = [], peip = 0, pesp = 0\<rparr>"

lemma dev_kernel_ok:
  assumes "uspace 0x80100000 ULIM m xs 0x80201000" and "\<And>n. length (snd (f n)) \<le> unat n"
  shows "kernel_ok (dev_kernel f m) xs dev_proc"
  using assms by (auto simp: kernel_ok_def dev_kernel_def dev_fs_def dev_proc_def devs_ok_def KERNBASE_def)

lemma dev_file:
  shows "on_fs (\<lambda>s. namei s 0 []) (op_begin (dev_kernel f m)) = Inr (Some 0, op_begin (dev_kernel f m)\<lparr>kfs := idup (dev_fs f) 0\<rparr>)"
  by (simp add: on_fs_def namei_def namex_def namex_loop.simps skipelem_def dev_kernel_def op_begin_def)

lemma dev_exec: "\<exists>k'. exec kdata (dev_kernel (\<lambda>n. (0, [])) m) 0 p [] argv = Some (Inr (-1, p, k'))"
  unfolding exec_def dev_file
  by (simp add: on_fs'_def on_fs_def ilock_def idup_def upd_inode_def dev_fs_def dev_kernel_def op_begin_def read_file_def readi_def
      acquiresleep_def initsleeplock_def T_DEV_def exec_bad_def iunlockput_def iunlock_def iput_def holdingsleep_def releasesleep_def Let_def layout_consts)

theorem exec_outcome_witness:
  "\<exists>m k'. exec 0x80108000 (dev_kernel (\<lambda>n. (0, [])) m) 0 dev_proc [] [[0x73, 0x68]] = Some (Inr (-1, dev_proc, k')) \<and>
     exec_result 0x80100000 (dev_kernel (\<lambda>n. (0, [])) m) [0x80200000] dev_proc [] [[0x73, 0x68]] (-1) dev_proc k'"
proof -
  obtain m where m: "uspace 0x80100000 ULIM m [0x80200000] 0x80201000" using empty_space_demo by metis
  let ?k = "dev_kernel (\<lambda>n. (0, [])) m"
  have "kernel_ok ?k [0x80200000] dev_proc" by (rule dev_kernel_ok [OF m]) simp
  moreover have "kdata_ok 0x80108000" by (simp add: kdata_ok_def aligned_def KERNLINK_def KERNBASE_def EXTMEM_def P2V_def PHYSTOP_def)
  moreover have "kend ?k = 0x80100000" by (simp add: dev_kernel_def)
  ultimately show ?thesis
    using exec_outcome [of ?k "[0x80200000]" dev_proc "0x80108000" "[[0x73, 0x68]]" 0 "[]"] dev_exec [of "0x80108000" m dev_proc "[[0x73, 0x68]]"]
    by (intro exI [of _ m]) (auto simp: room_def)
qed



end
