(* ===== verification/Execimage.thy ===== *)
theory Execimage
  imports Execstack Fsfile
begin

text \<open>
  What a loaded program sees: \<^verbatim>\<open>loaduvm\<close> copies exactly the bytes of the file to exactly the addresses of the segment.
\<close>

section \<open>One page of a segment\<close>

lemma load_entry:
  assumes b: "building ke s xs d sz" and a: "aligned a" "4096 \<le> unat a" "unat a < unat sz"
  shows "fst (walkpgdir s d a False) \<noteq> 0" "P2V (PTE_ADDR (load32 (ram s) (fst (walkpgdir s d a False)))) = frame (ram s) d a"
proof -
  have ok: "pt_ok ke s xs d" using b uspaceD(1) by (auto simp: building_def)
  note h = mapped_table [OF building_mapped(2) [OF b a(2,3)]]
  show "fst (walkpgdir s d a False) \<noteq> 0" using slot_nonzero [OF pt_okD(4) [OF ok PDX_less h] PTX_less] walk_present [OF h] by simp
  show "P2V (PTE_ADDR (load32 (ram s) (fst (walkpgdir s d a False)))) = frame (ram s) d a"
    using walk_present [OF h] pte_at_slot [OF h] by (simp add: frame_def)
qed

text \<open>The bytes of a file from \<open>lo\<close> up to \<open>hi\<close>.\<close>

abbreviation part_of :: "fs \<Rightarrow> nat \<Rightarrow> nat \<Rightarrow> nat \<Rightarrow> byte list" where
  "part_of s ip lo hi \<equiv> map (content s ip) [lo..<hi]"

lemma read_part:
  assumes "open_file (kfs k) ip" and "unat off + unat n \<le> unat (isize (inode_at (kfs k) ip))"
  shows "read_file k ip off n = Inr ((int (unat n), part_of (kfs k) ip (unat off) (unat off + unat n)), k)"
proof -
  have f: "unat (isize (inode_at (kfs k) ip)) \<le> MAXFILE * BSIZE" "fs_ok (kfs k)" "file_ok (kfs k) ip" "held (kfs k) = []" "file_full (kfs k) ip"
    using assms(1) by (auto simp: open_file_def)
  have m: "MAXFILE * BSIZE < 4294967296" by (simp add: layout_consts)
  have o: "off \<le> isize (inode_at (kfs k) ip)" using assms(2) by (simp add: word_le_nat_alt)
  have mn: "min (unat n) (unat (isize (inode_at (kfs k) ip)) - unat off) = unat n" using assms(2) by linarith
  have "readi (kfs k) ip off n = Inr (int (unat n), part_of (kfs k) ip (unat off) (unat off + unat n), kfs k)"
    using readi_runs [OF f(2-5,1) o, of n] assms(2) f(1) m unfolding mn by simp
  then show ?thesis by (simp add: read_file_def on_fs_def)
qed

text \<open>One round of the loop.\<close>

lemma load_round:
  assumes ke: "KERNBASE < kend k" and b: "building (kend k) (pages k) xs d sz" and f: "open_file (kfs k) ip"
    and a: "aligned (addr + i)" "4096 \<le> unat (addr + i)" and n: "0 < n" "n \<le> 4096" "n = min (unat fsz - unat i) 4096" "unat (addr + i) + n \<le> unat sz"
    and o: "unat (off + i) + n \<le> unat (isize (inode_at (kfs k) ip))"
  obtains m where "loaduvm_loop k d addr ip off fsz i = loaduvm_loop (k\<lparr>pages := m\<rparr>) d addr ip off fsz (i + PGSIZE)"
    "building (kend k) m xs d sz" "same_pool (pages k) xs d m xs" "\<And>va. pte_of (ram m) d va = pte_of (ram (pages k)) d va"
    "\<And>va. unat va < KTOP \<Longrightarrow> uview (ram m) d va = put_view (uview (ram (pages k)) d) (addr + i) (part_of (kfs k) ip (unat (off + i)) (unat (off + i) + n)) va"
proof -
  let ?bs = "part_of (kfs k) ip (unat (off + i)) (unat (off + i) + n)" and ?v = "frame (ram (pages k)) d (addr + i)"
  let ?m = "(pages k)\<lparr>ram := store_bytes (ram (pages k)) ?v ?bs\<rparr>"
  have lt: "unat (addr + i) < unat sz" using n(1,4) by linarith
  note M = building_mapped [OF b a(2) lt] and E = load_entry [OF b a lt]
  have sp: "uspace (kend k) KTOP (pages k) xs d" using b by (simp add: building_def)
  have z: "unat (addr + i) mod 4096 = 0" using a(1) by (simp add: aligned_def)
  have len: "0 + length ?bs \<le> 4096" using n(2) by simp
  have so: "same_outside ?v (ram (pages k)) (store_bytes (ram (pages k)) ?v ?bs)" using store_in_page [OF len, of ?v] by simp
  have fr: "?v \<in> frames (ram (pages k)) d KTOP \<or> ?v = KERNBASE" using frameI [OF M] by blast
  note W = write_page [OF ke b fr so]
  have lti: "i < fsz" using n(1,3) by (auto simp: word_less_nat_alt)
  let ?n = "if fsz - i < PGSIZE then fsz - i else PGSIZE"
  have "unat (fsz - i) = unat fsz - unat i" using lti by (simp add: unat_diff_u32 word_le_nat_alt word_less_nat_alt)
  then have un: "unat ?n = n" using n(3) by (auto simp: PGSIZE_def word_less_nat_alt)
  have rd: "read_file k ip (off + i) ?n = Inr ((int (unat ?n), ?bs), k)"
    using read_part [OF f, of "off + i" ?n] o unfolding un by simp
  have "put_page k ?v ?bs = k\<lparr>pages := ?m\<rparr>" by (simp add: put_page_def)
  then have run: "loaduvm_loop k d addr ip off fsz i = loaduvm_loop (k\<lparr>pages := ?m\<rparr>) d addr ip off fsz (i + PGSIZE)"
    using lti E rd by (subst loaduvm_loop.simps) (simp add: Let_def del: of_int_of_nat_eq)
  have vw: "uview (ram ?m) d va = put_view (uview (ram (pages k)) d) (addr + i) ?bs va" if "unat va < KTOP" for va
    using page_put [OF sp M _ W(3) that, of ?bs] z len by simp
  show thesis by (rule that [OF run W(1,2) _ vw]) (use W(3) in simp)
qed

section \<open>A segment\<close>

lemma loaduvm_loop_loads:
  assumes "open_file s ip" and al: "aligned addr" "4096 \<le> unat addr" and sz: "unat addr + unat fsz \<le> unat sz"
    and o: "unat off + unat fsz \<le> unat (isize (inode_at s ip))"
  shows "KERNBASE < kend k \<Longrightarrow> kfs k = s \<Longrightarrow> building (kend k) (pages k) xs d sz \<Longrightarrow> aligned i \<Longrightarrow> unat i < unat fsz \<Longrightarrow>
    \<exists>m. loaduvm_loop k d addr ip off fsz i = Some (Inr (0, k\<lparr>pages := m\<rparr>)) \<and> building (kend k) m xs d sz \<and>
      (\<forall>va. unat va < KTOP \<longrightarrow> uview (ram m) d va =
        put_view (uview (ram (pages k)) d) (addr + i) (part_of s ip (unat off + unat i) (unat off + unat fsz)) va)"
proof (induction "unat fsz - unat i" arbitrary: k i rule: less_induct)
  case less
  note b = less.prems(3)
  have f: "open_file (kfs k) ip" using assms(1) less.prems(2) by simp
  let ?n = "min (unat fsz - unat i) 4096"
  have bd: "unat sz \<le> 234889216" by (rule building_bound [OF b])
  have ai: "unat (addr + i) = unat addr + unat i" using sz less.prems(5) bd by (intro unat_add_small) simp
  have fs: "unat (isize (inode_at s ip)) < 4294967296" by simp
  have oi: "unat (off + i) = unat off + unat i" using o less.prems(5) fs by (intro unat_add_small) linarith
  have a: "aligned (addr + i)" "4096 \<le> unat (addr + i)" using al less.prems(4) ai by (simp_all add: aligned_def)
  have n: "0 < ?n" "?n \<le> 4096" "unat (addr + i) + ?n \<le> unat sz" "unat (off + i) + ?n \<le> unat (isize (inode_at (kfs k) ip))"
    using less.prems(2,5) sz o ai oi by auto
  obtain m where m: "loaduvm_loop k d addr ip off fsz i = loaduvm_loop (k\<lparr>pages := m\<rparr>) d addr ip off fsz (i + PGSIZE)"
      "building (kend k) m xs d sz"
      "\<And>va. unat va < KTOP \<Longrightarrow> uview (ram m) d va = put_view (uview (ram (pages k)) d) (addr + i) (part_of s ip (unat off + unat i) (unat off + unat i + ?n)) va"
    by (rule load_round [OF less.prems(1) b f a n(1,2) refl n(3,4)]) (use less.prems(2) oi in simp)
  have nx: "unat (i + PGSIZE) = unat i + 4096" using less.prems(5) sz bd by (subst unat_add_small) (simp_all add: PGSIZE_def)
  show ?case
  proof (cases "unat i + 4096 < unat fsz")
    case False
    then have "loaduvm_loop k d addr ip off fsz i = Some (Inr (0, k\<lparr>pages := m\<rparr>))"
      using m(1) nx by (subst (asm) (2) loaduvm_loop.simps) (simp add: word_less_nat_alt)
    moreover have "unat off + unat i + ?n = unat off + unat fsz" using False less.prems(5) by linarith
    ultimately show ?thesis using m(2,3) by auto
  next
    case True
    let ?k = "k\<lparr>pages := m\<rparr>"
    have "unat fsz - unat (i + PGSIZE) < unat fsz - unat i" "aligned (i + PGSIZE)" "unat (i + PGSIZE) < unat fsz"
      using True nx less.prems(4) by (simp_all add: aligned_def)
    from less.hyps [OF this(1) _ _ _ this(2,3), of ?k] less.prems(1,2) m(2) obtain m' where
      r: "loaduvm_loop ?k d addr ip off fsz (i + PGSIZE) = Some (Inr (0, ?k\<lparr>pages := m'\<rparr>))" "building (kend k) m' xs d sz"
        "\<And>va. unat va < KTOP \<Longrightarrow> uview (ram m') d va =
          put_view (uview (ram m) d) (addr + (i + PGSIZE)) (part_of s ip (unat off + unat (i + PGSIZE)) (unat off + unat fsz)) va"
      by auto
    let ?A = "part_of s ip (unat off + unat i) (unat off + unat i + 4096)" and ?B = "part_of s ip (unat off + unat i + 4096) (unat off + unat fsz)"
    have n4: "?n = 4096" using True by simp
    have app: "?A @ ?B = part_of s ip (unat off + unat i) (unat off + unat fsz)"
      using upt_add_eq_append [of "unat off + unat i" "unat off + unat i + 4096" "unat fsz - unat i - 4096"] True by (simp flip: map_append)
    have pos: "addr + (i + PGSIZE) = (addr + i) + of_nat (length ?A)" by (simp add: PGSIZE_def)
    have "put_view (uview (ram m) d) (addr + (i + PGSIZE)) ?B va = put_view (uview (ram (pages k)) d) (addr + i) (?A @ ?B) va" if va: "unat va < KTOP" for va
    proof -
      have "put_view (uview (ram m) d) (addr + (i + PGSIZE)) ?B va =
          put_view (put_view (uview (ram (pages k)) d) (addr + i) ?A) (addr + (i + PGSIZE)) ?B va"
        by (rule put_view_at) (use m(3) [OF va] n4 in simp)
      also have "\<dots> = put_view (uview (ram (pages k)) d) (addr + i) (?A @ ?B) va"
        unfolding pos using put_view_append [of ?A ?B "uview (ram (pages k)) d" "addr + i"] True sz bd by simp
      finally show ?thesis .
    qed
    then show ?thesis using m(1) r nx unfolding app by (intro exI [of _ m']) (simp add: add.assoc)
  qed
qed

lemma loaduvm_loads:
  assumes "open_file (kfs k) ip" and "aligned addr" "4096 \<le> unat addr" and "unat addr + unat fsz \<le> unat sz"
    and "unat off + unat fsz \<le> unat (isize (inode_at (kfs k) ip))" and "KERNBASE < kend k" and b: "building (kend k) (pages k) xs d sz"
  shows "\<exists>m. loaduvm k d addr ip off fsz = Some (Inr (0, k\<lparr>pages := m\<rparr>)) \<and> building (kend k) m xs d sz \<and>
      (\<forall>va. unat va < KTOP \<longrightarrow> uview (ram m) d va =
        put_view (uview (ram (pages k)) d) addr (part_of (kfs k) ip (unat off) (unat off + unat fsz)) va)"
proof (cases "fsz = 0")
  case True
  have "k = k\<lparr>pages := pages k\<rparr>" by simp
  then show ?thesis using True b assms(2) by (intro exI [of _ "pages k"]) (simp add: loaduvm_def loaduvm_loop.simps put_view_Nil aligned_mod)
next
  case False
  then have z: "unat (0 :: u32) < unat fsz" "aligned 0" by (simp_all add: aligned_def unat_gt_0)
  from loaduvm_loop_loads [OF assms(1-5,6) refl b z(2,1)] show ?thesis using assms(2) by (simp add: loaduvm_def aligned_mod)
qed

section \<open>All segments\<close>

text \<open>
  What the program headers say the process should see: for each loadable one, pages of zeros up to the end of the segment,
  and in them the bytes of the file.
\<close>

definition header_at :: "fs \<Rightarrow> nat \<Rightarrow> u32 \<Rightarrow> proghdr" where
  "header_at s ip off = get_proghdr (part_of s ip (unat off) (unat off + 32))"

definition segment_view :: "fs \<Rightarrow> nat \<Rightarrow> proghdr \<Rightarrow> u32 \<Rightarrow> (u32 \<rightharpoonup> u32 \<times> byte) \<Rightarrow> (u32 \<rightharpoonup> u32 \<times> byte)" where
  "segment_view s ip ph sz f = put_view (fresh_view f sz (ph_vaddr ph + ph_memsz ph)) (ph_vaddr ph)
     (part_of s ip (unat (ph_off ph)) (unat (ph_off ph) + unat (ph_filesz ph)))"

fun program_view :: "fs \<Rightarrow> nat \<Rightarrow> u32 \<Rightarrow> nat \<Rightarrow> u32 \<Rightarrow> (u32 \<rightharpoonup> u32 \<times> byte) \<Rightarrow> u32 \<times> (u32 \<rightharpoonup> u32 \<times> byte)" where
  "program_view s ip off 0 sz f = (sz, f)"
| "program_view s ip off (Suc n) sz f =
     (let ph = header_at s ip off; new = ph_vaddr ph + ph_memsz ph
      in if ph_type ph \<noteq> ELF_PROG_LOAD then program_view s ip (off + 32) n sz f
         else program_view s ip (off + 32) n (if new < sz then sz else new) (segment_view s ip ph sz f))"

text \<open>A segment above page zero whose bytes are in the file.\<close>

definition in_file :: "fs \<Rightarrow> nat \<Rightarrow> proghdr \<Rightarrow> bool" where
  "in_file s ip ph \<longleftrightarrow> (ph_type ph = ELF_PROG_LOAD \<longrightarrow>
     4096 \<le> unat (ph_vaddr ph) \<and> unat (ph_off ph) + unat (ph_filesz ph) \<le> unat (isize (inode_at s ip)))"

lemma user_view_put:
  assumes "\<And>va. unat va < KTOP \<Longrightarrow> uview m' d va = put_view (uview m d) a bs va"
  shows "user_view m' d = put_view (user_view m d) a bs"
  using assms by (auto simp: user_view_def put_view_def fun_eq_iff)

lemma user_view_fresh:
  assumes "\<And>va. unat va < KTOP \<Longrightarrow> uview m' d va = fresh_view (uview m d) sz new va" and "unat new \<le> KTOP"
  shows "user_view m' d = fresh_view (user_view m d) sz new"
proof
  fix va
  show "user_view m' d va = fresh_view (user_view m d) sz new va"
    using assms(1) [of va] below_top [OF _ assms(2), of "unat (PGROUNDUP sz)" va] by (auto simp: user_view_def fresh_view_def)
qed

lemma load_segment:
  assumes f: "open_file (kfs k) ip" and ke: "KERNBASE < kend k" and b: "building (kend k) (pages k) xs d sz"
    and ph: "in_file (kfs k) ip ph" "ph_type ph = ELF_PROG_LOAD" "\<not> ph_memsz ph < ph_filesz ph" "\<not> ph_vaddr ph + ph_memsz ph < ph_vaddr ph"
  obtains (full) m where "allocuvm (kend k) (pages k) d sz (ph_vaddr ph + ph_memsz ph) = Some (Inr (0, m))"
    | (loaded) r m m' ys where "allocuvm (kend k) (pages k) d sz (ph_vaddr ph + ph_memsz ph) = Some (Inr (r, m))" "r \<noteq> 0"
      "r = (if ph_vaddr ph + ph_memsz ph < sz then sz else ph_vaddr ph + ph_memsz ph)"
      "ph_vaddr ph mod PGSIZE = 0 \<Longrightarrow> loaduvm (k\<lparr>pages := m\<rparr>) d (ph_vaddr ph) ip (ph_off ph) (ph_filesz ph) = Some (Inr (0, k\<lparr>pages := m'\<rparr>))"
      "ph_vaddr ph mod PGSIZE = 0 \<Longrightarrow> building (kend k) m' ys d r"
      "ph_vaddr ph mod PGSIZE = 0 \<Longrightarrow> user_view (ram m') d = segment_view (kfs k) ip ph sz (user_view (ram (pages k)) d)"
proof -
  let ?new = "ph_vaddr ph + ph_memsz ph"
  obtain r m ys where a: "allocuvm (kend k) (pages k) d sz ?new = Some (Inr (r, m))"
      "r = 0 \<or> r \<noteq> 0 \<and> building (kend k) m ys d r \<and> r = (if ?new < sz then sz else ?new) \<and>
         (\<forall>va. unat va < KTOP \<longrightarrow> uview (ram m) d va = fresh_view (uview (ram (pages k)) d) sz ?new va)"
    using alloc_building [OF ke b, of ?new] by blast
  show thesis
  proof (cases "r = 0")
    case True
    then show thesis using a(1) full by simp
  next
    case False
    then have r: "building (kend k) m ys d r" "r = (if ?new < sz then sz else ?new)"
        "\<And>va. unat va < KTOP \<Longrightarrow> uview (ram m) d va = fresh_view (uview (ram (pages k)) d) sz ?new va"
      using a(2) by blast+
    have le: "unat ?new \<le> unat r" using r(2) by (auto simp: word_less_nat_alt)
    then have "unat ?new \<le> KTOP" using building_bound [OF r(1)] by simp
    note fv = user_view_fresh [OF r(3) this]
    have "unat ?new = unat (ph_vaddr ph) + unat (ph_memsz ph)" using ph(4) unat_plus_simple [THEN iffD1] by (simp only: not_less)
    then have e: "unat (ph_vaddr ph) + unat (ph_filesz ph) \<le> unat r" using ph(3) le by (simp add: word_less_nat_alt)
    have i: "4096 \<le> unat (ph_vaddr ph)" "unat (ph_off ph) + unat (ph_filesz ph) \<le> unat (isize (inode_at (kfs k) ip))"
      using ph(1,2) by (auto simp: in_file_def)
    let ?k = "k\<lparr>pages := m\<rparr>"
    have "\<exists>m'. loaduvm ?k d (ph_vaddr ph) ip (ph_off ph) (ph_filesz ph) = Some (Inr (0, k\<lparr>pages := m'\<rparr>)) \<and> building (kend k) m' ys d r \<and>
        user_view (ram m') d = segment_view (kfs k) ip ph sz (user_view (ram (pages k)) d)" if z: "ph_vaddr ph mod PGSIZE = 0"
    proof -
      have "aligned (ph_vaddr ph)" using z by (simp add: aligned_mod)
      from loaduvm_loads [of ?k, OF _ this i(1) e, of ip "ph_off ph" ys d] f ke i(2) r(1)
      obtain m' where m': "loaduvm ?k d (ph_vaddr ph) ip (ph_off ph) (ph_filesz ph) = Some (Inr (0, k\<lparr>pages := m'\<rparr>))" "building (kend k) m' ys d r"
          "\<And>va. unat va < KTOP \<Longrightarrow> uview (ram m') d va =
            put_view (uview (ram m) d) (ph_vaddr ph) (part_of (kfs k) ip (unat (ph_off ph)) (unat (ph_off ph) + unat (ph_filesz ph))) va"
        by auto
      then show ?thesis using user_view_put [OF m'(3)] fv unfolding segment_view_def by auto
    qed
    then show thesis using loaded [OF a(1) False r(2), of _ ys] by (cases "ph_vaddr ph mod PGSIZE = 0") blast+
  qed
qed

lemma load_segments_loads:
  assumes "KERNBASE < kend k" and "building (kend k) (pages k) xs d sz" and "open_file (kfs k) ip"
    and "unat off + 32 * n \<le> unat (isize (inode_at (kfs k) ip))" and "\<forall>j < n. in_file (kfs k) ip (header_at (kfs k) ip (off + of_nat (32 * j)))"
  shows "\<exists>r k'. load_segments k ip d sz off n = Some (Inr (r, k')) \<and> kfs k' = kfs k \<and>
    (r = None \<or> (\<exists>ys. r = Some (fst (program_view (kfs k) ip off n sz (user_view (ram (pages k)) d))) \<and>
       building (kend k) (pages k') ys d (fst (program_view (kfs k) ip off n sz (user_view (ram (pages k)) d))) \<and>
       user_view (ram (pages k')) d = snd (program_view (kfs k) ip off n sz (user_view (ram (pages k)) d))))"
  using assms
proof (induction n arbitrary: k xs sz off)
  case 0
  then show ?case by auto
next
  case (Suc n)
  let ?ph = "header_at (kfs k) ip off" and ?s = "kfs k"
  let ?new = "ph_vaddr ?ph + ph_memsz ?ph"
  have fs: "unat (isize (inode_at ?s ip)) < 4294967296" by simp
  have "unat off + 32 \<le> unat (isize (inode_at ?s ip))" using Suc.prems(4) by simp
  then have o: "unat (off + 32) = unat off + 32" using unat_add_small [of off 32] le_less_trans [OF _ fs] by simp
  have "read_file k ip off 32 = Inr ((int (unat (32 :: u32)), part_of ?s ip (unat off) (unat off + unat (32 :: u32))), k)"
    by (rule read_part [OF Suc.prems(3)]) (use Suc.prems(4) in simp)
  then have rd: "read_file k ip off 32 = Inr ((32, part_of ?s ip (unat off) (unat off + 32)), k)" by simp
  have ph: "get_proghdr (part_of ?s ip (unat off) (unat off + 32)) = ?ph" by (simp add: header_at_def)
  have i0: "in_file ?s ip ?ph" using Suc.prems(5) [rule_format, of 0] by simp
  have rest: "unat (off + 32) + 32 * n \<le> unat (isize (inode_at ?s ip))" "\<forall>j < n. in_file ?s ip (header_at ?s ip ((off + 32) + of_nat (32 * j)))"
    using Suc.prems(4) Suc.prems(5) [rule_format, of "Suc _"] o by (auto simp: algebra_simps)
  have go: "\<exists>r k'. load_segments (k\<lparr>pages := m\<rparr>) ip d sz' (off + 32) n = Some (Inr (r, k')) \<and> kfs k' = ?s \<and>
      (r = None \<or> (\<exists>ys. r = Some (fst (program_view ?s ip (off + 32) n sz' (user_view (ram m) d))) \<and>
         building (kend k) (pages k') ys d (fst (program_view ?s ip (off + 32) n sz' (user_view (ram m) d))) \<and>
         user_view (ram (pages k')) d = snd (program_view ?s ip (off + 32) n sz' (user_view (ram m) d))))"
    if "building (kend k) m ys d sz'" for m ys sz'
    using Suc.IH [of "k\<lparr>pages := m\<rparr>" ys sz' "off + 32"] Suc.prems(1,3) rest that by simp
  have kk: "k\<lparr>pages := pages k\<rparr> = k" by simp
  consider (skip) "ph_type ?ph \<noteq> ELF_PROG_LOAD" | (bad) "ph_type ?ph = ELF_PROG_LOAD" "ph_memsz ?ph < ph_filesz ?ph \<or> ?new < ph_vaddr ?ph"
    | (load) "ph_type ?ph = ELF_PROG_LOAD" "\<not> ph_memsz ?ph < ph_filesz ?ph" "\<not> ?new < ph_vaddr ?ph" by argo
  then show ?case
  proof cases
    case skip
    then show ?thesis using go [OF Suc.prems(2), unfolded kk] rd ph by (simp add: Let_def)
  next
    case bad
    then have "load_segments k ip d sz off (Suc n) = Some (Inr (None, k))" using rd ph by (elim disjE) (simp_all add: Let_def)
    then show ?thesis by simp
  next
    case load
    show ?thesis
    proof (rule load_segment [OF Suc.prems(3,1,2) i0 load])
      fix m assume "allocuvm (kend k) (pages k) d sz ?new = Some (Inr (0, m))"
      then have "load_segments k ip d sz off (Suc n) = Some (Inr (None, k\<lparr>pages := m\<rparr>))" using load rd ph by (simp add: Let_def)
      then show ?thesis by simp
    next
      fix r m m' ys
      assume a: "allocuvm (kend k) (pages k) d sz ?new = Some (Inr (r, m))" "r \<noteq> 0" "r = (if ?new < sz then sz else ?new)"
        and l: "ph_vaddr ?ph mod PGSIZE = 0 \<Longrightarrow> loaduvm (k\<lparr>pages := m\<rparr>) d (ph_vaddr ?ph) ip (ph_off ?ph) (ph_filesz ?ph) = Some (Inr (0, k\<lparr>pages := m'\<rparr>))"
          "ph_vaddr ?ph mod PGSIZE = 0 \<Longrightarrow> building (kend k) m' ys d r"
          "ph_vaddr ?ph mod PGSIZE = 0 \<Longrightarrow> user_view (ram m') d = segment_view ?s ip ?ph sz (user_view (ram (pages k)) d)"
      show ?thesis
      proof (cases "ph_vaddr ?ph mod PGSIZE = 0")
        case False
        then have "load_segments k ip d sz off (Suc n) = Some (Inr (None, k\<lparr>pages := m\<rparr>))" using load rd ph a(1,2) by (simp add: Let_def)
        then show ?thesis by simp
      next
        case True
        have "load_segments k ip d sz off (Suc n) = load_segments (k\<lparr>pages := m'\<rparr>) ip d r (off + 32) n"
          using load rd ph a(1,2) l(1) [OF True] True by (simp add: Let_def)
        moreover have "program_view ?s ip off (Suc n) sz (user_view (ram (pages k)) d) = program_view ?s ip (off + 32) n r (user_view (ram m') d)"
          using load(1) a(3) l(3) [OF True] by (simp add: Let_def)
        ultimately show ?thesis using go [OF l(2) [OF True]] by (simp only:)
      qed
    qed
  qed
qed

text \<open>
  C18. Loading the segments of a program gives the process the memory its file describes. For a regular file whose program
  headers and segments lie inside the file, with no segment in page zero, the loop of \<^verbatim>\<open>exec\<close> over the headers never panics
  and leaves the file system as it is; when it succeeds, the size and everything the process sees are those of the
  headers: for each loadable one, zeroed pages up to its end, and at its address the bytes of the file, nothing else changed.
\<close>

theorem load_segments_image:
  assumes "KERNBASE < kend k" and "building (kend k) (pages k) xs d sz" and "open_file (kfs k) ip"
    and "unat off + 32 * n \<le> unat (isize (inode_at (kfs k) ip))" and "\<forall>j < n. in_file (kfs k) ip (header_at (kfs k) ip (off + of_nat (32 * j)))"
  shows "\<exists>r k'. load_segments k ip d sz off n = Some (Inr (r, k')) \<and> kfs k' = kfs k \<and>
    (case r of None \<Rightarrow> True | Some sz' \<Rightarrow> program_view (kfs k) ip off n sz (user_view (ram (pages k)) d) = (sz', user_view (ram (pages k')) d) \<and>
       (\<exists>ys. building (kend k) (pages k') ys d sz'))"
proof -
  let ?v = "program_view (kfs k) ip off n sz (user_view (ram (pages k)) d)"
  obtain r k' where r: "load_segments k ip d sz off n = Some (Inr (r, k'))" "kfs k' = kfs k"
      "r = None \<or> (\<exists>ys. r = Some (fst ?v) \<and> building (kend k) (pages k') ys d (fst ?v) \<and> user_view (ram (pages k')) d = snd ?v)"
    using load_segments_loads [OF assms] by blast
  then show ?thesis by (intro exI [of _ r] exI [of _ k']) (auto simp: prod_eq_iff)
qed

text \<open>A file with one header and eight bytes for address \<^verbatim>\<open>0x1000\<close>.\<close>

definition program_demo :: "byte list" where
  "program_demo = [1, 0, 0, 0, 32, 0, 0, 0, 0, 0x10, 0, 0, 0, 0, 0, 0, 8, 0, 0, 0, 8, 0, 0, 0, 5, 0, 0, 0, 0, 0x10, 0, 0] @ [0x90, 0x90, 0x90, 0x90, 0x90, 0x90, 0xeb, 0xfe]"

lemma program_file:
  obtains s where "open_file s 0" "unat (isize (inode_at s 0)) = 40"
    "header_at s 0 0 = \<lparr>ph_type = 1, ph_off = 32, ph_vaddr = 0x1000, ph_filesz = 8, ph_memsz = 8\<rparr>"
proof -
  have len: "length program_demo = 40" by (simp add: program_demo_def)
  have "card {4, 5 :: u32} \<le> card (free_blocks (fs_demo T_FILE))" using open_file_demo(2) by (intro card_mono) auto
  then have fr: "2 * blocks_touched (unat 0) (length program_demo) \<le> card (free_blocks (fs_demo T_FILE))"
    by (simp add: blocks_touched_def BSIZE_def len)
  have mx: "unat 0 + length program_demo \<le> MAXFILE * BSIZE" by (simp add: len layout_consts)
  obtain s1 s where s: "wrote_bytes (fs_demo T_FILE) 0 s1 (unat 0) program_demo" "open_file s 0"
      "unat (isize (inode_at s 0)) = max (unat (isize (inode_at (fs_demo T_FILE) 0))) (unat 0 + length program_demo)"
      "\<And>k. k < MAXFILE * BSIZE \<Longrightarrow> content s 0 k = content s1 0 k"
    by (rule writei_runs [OF open_file_demo(1) [OF disjI1 [OF refl]] _ mx fr]) simp_all
  have "content s 0 k = program_demo ! k" if "k < 40" for k
    using s(1) s(4) [of k] that by (simp add: wrote_bytes_def len layout_consts)
  then have "part_of s 0 0 32 = take 32 program_demo" by (intro nth_equalityI) (simp_all add: len)
  then have "header_at s 0 0 = \<lparr>ph_type = 1, ph_off = 32, ph_vaddr = 0x1000, ph_filesz = 8, ph_memsz = 8\<rparr>"
    by (simp add: header_at_def get_proghdr_def program_demo_def get32_def)
  moreover have "unat (isize (inode_at s 0)) = 40" using s(3) len by (simp add: fs_demo_def)
  ultimately show thesis using s(2) that by blast
qed

theorem load_segments_image_witness:
  "\<exists>k r k'. load_segments k 0 0x80201000 0x1000 0 1 = Some (Inr (r, k')) \<and> (r = None \<or> r = Some 0x1008)"
proof -
  obtain m where m: "building 0x80100000 m [0x80200000] 0x80201000 0x1000" by (rule building_demo)
  obtain s where s: "open_file s 0" "unat (isize (inode_at s 0)) = 40"
      "header_at s 0 0 = \<lparr>ph_type = 1, ph_off = 32, ph_vaddr = 0x1000, ph_filesz = 8, ph_memsz = 8\<rparr>" by (rule program_file)
  let ?k = "\<lparr>kfs = s, ftable = [], pipes = (\<lambda>_. pipe_init []), pages = m, kend = 0x80100000, ops = 0\<rparr>"
  have "in_file s 0 (header_at s 0 0)" using s(2) by (simp add: in_file_def s(3))
  then obtain r k' where "load_segments ?k 0 0x80201000 0x1000 0 1 = Some (Inr (r, k'))"
      "case r of None \<Rightarrow> True | Some sz' \<Rightarrow> program_view s 0 0 1 0x1000 (user_view (ram m) 0x80201000) = (sz', user_view (ram (pages k')) 0x80201000)"
    using load_segments_image [of ?k "[0x80200000]" "0x80201000" "0x1000" 0 0 1] m s(1,2) by (auto simp: KERNBASE_def split: option.splits)
  moreover have "fst (program_view s 0 0 1 0x1000 f) = 0x1008" for f by (simp add: s(3) ELF_PROG_LOAD_def Let_def)
  ultimately show ?thesis by (intro exI [of _ ?k] exI [of _ r] exI [of _ k']) (auto split: option.splits simp: prod_eq_iff)
qed

end
