(* ===== verification/Umalloc.thy ===== *)
theory Umalloc
  imports Prelude
begin

text \<open>
  The memory allocator of user programs, \<^verbatim>\<open>umalloc.c\<close>. The fields of the headers are functions of the address of the
  header; \<open>base\<close> is the address of the static header. The system call \<^verbatim>\<open>sbrk\<close> is the end of the process memory
  and a parameter \<open>grant\<close> that says whether the kernel can extend it; with a negative argument it always shrinks.
\<close>

section \<open>The allocator\<close>

record uheap =
  hptr :: "u32 \<Rightarrow> u32"
  hsize :: "u32 \<Rightarrow> u32"
  freep :: u32
  brk :: u32

partial_function (option) free_loop :: "uheap \<Rightarrow> u32 \<Rightarrow> u32 \<Rightarrow> u32 option" where
  "free_loop s bp p =
     (if p < bp \<and> bp < hptr s p then Some p
      else if hptr s p \<le> p \<and> (p < bp \<or> bp < hptr s p) then Some p
      else free_loop s bp (hptr s p))"

text \<open>The part of \<^verbatim>\<open>free\<close> after the loop.\<close>

definition free_link :: "uheap \<Rightarrow> u32 \<Rightarrow> u32 \<Rightarrow> uheap" where
  "free_link s bp p =
     (let s = (if bp + 8 * hsize s bp = hptr s p
               then s\<lparr>hsize := (hsize s)(bp := hsize s bp + hsize s (hptr s p)), hptr := (hptr s)(bp := hptr s (hptr s p))\<rparr>
               else s\<lparr>hptr := (hptr s)(bp := hptr s p)\<rparr>);
          s = (if p + 8 * hsize s p = bp
               then s\<lparr>hsize := (hsize s)(p := hsize s p + hsize s bp), hptr := (hptr s)(p := hptr s bp)\<rparr>
               else s\<lparr>hptr := (hptr s)(p := bp)\<rparr>)
      in s\<lparr>freep := p\<rparr>)"

definition ufree :: "uheap \<Rightarrow> u32 \<Rightarrow> uheap option" where
  "ufree s ap = (let bp = ap - 8 in map_option (free_link s bp) (free_loop s bp (freep s)))"

definition sbrk :: "(u32 \<Rightarrow> u32 \<Rightarrow> bool) \<Rightarrow> uheap \<Rightarrow> u32 \<Rightarrow> u32 \<times> uheap" where
  "sbrk grant s n = (if 0 < sint n \<and> \<not> grant (brk s) n then (-1, s) else (brk s, s\<lparr>brk := brk s + n\<rparr>))"

definition morecore :: "(u32 \<Rightarrow> u32 \<Rightarrow> bool) \<Rightarrow> uheap \<Rightarrow> u32 \<Rightarrow> (u32 \<times> uheap) option" where
  "morecore grant s nu =
     (let nu = (if nu < 4096 then 4096 else nu); (p, s) = sbrk grant s (nu * 8)
      in if p = -1 then Some (0, s)
         else map_option (\<lambda>s. (freep s, s)) (ufree (s\<lparr>hsize := (hsize s)(p := nu)\<rparr>) (p + 8)))"

text \<open>Taking \<open>nunits\<close> from the block \<open>p\<close>, which is large enough.\<close>

definition take_units :: "uheap \<Rightarrow> u32 \<Rightarrow> u32 \<Rightarrow> u32 \<Rightarrow> u32 \<times> uheap" where
  "take_units s nunits prevp p =
     (if hsize s p = nunits then (p + 8, s\<lparr>hptr := (hptr s)(prevp := hptr s p), freep := prevp\<rparr>)
      else let s = s\<lparr>hsize := (hsize s)(p := hsize s p - nunits)\<rparr>; q = p + 8 * hsize s p
           in (q + 8, s\<lparr>hsize := (hsize s)(q := nunits), freep := prevp\<rparr>))"

partial_function (option) malloc_loop :: "(u32 \<Rightarrow> u32 \<Rightarrow> bool) \<Rightarrow> uheap \<Rightarrow> u32 \<Rightarrow> u32 \<Rightarrow> u32 \<Rightarrow> (u32 \<times> uheap) option" where
  "malloc_loop grant s nunits prevp p =
     (if nunits \<le> hsize s p then Some (take_units s nunits prevp p)
      else if p = freep s then
        Option.bind (morecore grant s nunits) (\<lambda>(p, s).
          if p = 0 then Some (0, s) else malloc_loop grant s nunits p (hptr s p))
      else malloc_loop grant s nunits p (hptr s p))"

definition umalloc :: "(u32 \<Rightarrow> u32 \<Rightarrow> bool) \<Rightarrow> u32 \<Rightarrow> uheap \<Rightarrow> u32 \<Rightarrow> (u32 \<times> uheap) option" where
  "umalloc grant base s nbytes =
     (let nunits = (nbytes + 8 - 1) div 8 + 1;
          s = (if freep s = 0 then s\<lparr>hptr := (hptr s)(base := base), hsize := (hsize s)(base := 0), freep := base\<rparr> else s)
      in malloc_loop grant s nunits (freep s) (hptr s (freep s)))"

section \<open>The free list\<close>

text \<open>A path along the pointers.\<close>

fun links :: "uheap \<Rightarrow> u32 \<Rightarrow> u32 list \<Rightarrow> bool" where
  "links s p [] \<longleftrightarrow> True"
| "links s p (q # qs) \<longleftrightarrow> hptr s p = q \<and> links s q qs"

lemma links_append: "links s p (xs @ ys) \<longleftrightarrow> links s p xs \<and> links s (last (p # xs)) ys"
  by (induction xs arbitrary: p) auto

lemma links_cong: "(\<And>x. x \<in> set (p # butlast xs) \<Longrightarrow> hptr s' x = hptr s x) \<Longrightarrow> links s' p xs = links s p xs"
proof (induction xs arbitrary: p)
  case (Cons q qs)
  then show ?case by (cases qs) auto
qed simp

lemma links_shift:
  assumes "links s p xs" and "hptr s' q = hptr s p" and "\<And>x. x \<in> set (butlast xs) \<Longrightarrow> hptr s' x = hptr s x"
  shows "links s' q xs"
proof (cases xs)
  case (Cons y ys)
  have "links s' y ys = links s y ys"
  proof (cases "ys = []")
    case False
    then show ?thesis using assms(3) Cons by (intro links_cong) auto
  qed simp
  then show ?thesis using assms Cons by simp
qed simp

text \<open>A ring; adding a node after \<open>p\<close>, and leaving out the node after \<open>y\<close>.\<close>

definition ring :: "uheap \<Rightarrow> u32 list \<Rightarrow> bool" where
  "ring s L \<longleftrightarrow> L \<noteq> [] \<and> distinct L \<and> links s (last L) L"

lemma ring_parts: "ring s (us @ p # vs) \<longleftrightarrow> distinct (us @ p # vs) \<and> links s (last (p # vs)) (us @ [p]) \<and> links s p vs"
  using links_append [of s "last (p # vs)" "us @ [p]" vs] by (auto simp: ring_def)

lemma ring_insert:
  assumes r: "ring s (us @ p # vs)" and x: "x \<notin> set (us @ p # vs)" and h: "hptr s' = (hptr s)(x := hptr s p, p := x)"
  shows "ring s' (us @ p # x # vs)"
proof -
  have R: "distinct (us @ p # vs)" "links s (last (p # vs)) (us @ [p])" "links s p vs" using r by (auto simp: ring_parts)
  have new: "distinct (us @ p # x # vs)" "x \<noteq> p" using R(1) x by auto
  have s': "hptr s' x = hptr s p" "hptr s' p = x" "y \<noteq> x \<Longrightarrow> y \<noteq> p \<Longrightarrow> hptr s' y = hptr s y" for y using new(2) by (auto simp: h)
  have v: "links s' x vs" using R(3) s'(1) by (rule links_shift) (use new in \<open>auto intro!: s'(3) dest: in_set_butlastD\<close>)
  have e: "hptr s' (last (x # vs)) = hptr s (last (p # vs))"
  proof (cases "vs = []")
    case False
    then have "last vs \<noteq> x" "last vs \<noteq> p" using last_in_set [OF False] new by auto
    then show ?thesis using s'(3) False by simp
  qed (use s'(1) in simp)
  have "links s' (last (x # vs)) (us @ [p])"
    by (rule links_shift [OF R(2) e]) (use new in \<open>auto intro!: s'(3)\<close>)
  then show ?thesis using v s'(2) new(1) links_append [of s' "last (x # vs)" "us @ [p]" "x # vs"] by (simp add: ring_def)
qed

lemma ring_skip:
  assumes r: "ring s (us @ y # z # vs)" and h: "hptr s' = (hptr s)(y := hptr s z)"
  shows "ring s' (us @ y # vs)"
proof -
  have R: "distinct (us @ y # z # vs)" "links s (last (z # vs)) (us @ [y])" "links s y (z # vs)" using r by (auto simp: ring_parts)
  have s': "hptr s' y = hptr s z" "x \<noteq> y \<Longrightarrow> hptr s' x = hptr s x" for x by (auto simp: h)
  have "links s z vs" using R(3) by simp
  then have v: "links s' y vs" using s'(1) by (rule links_shift) (use R(1) in \<open>auto intro!: s'(2) dest: in_set_butlastD\<close>)
  have e: "hptr s' (last (y # vs)) = hptr s (last (z # vs))"
  proof (cases "vs = []")
    case False
    then have "last vs \<noteq> y" using last_in_set [OF False] R(1) by auto
    then show ?thesis using s'(2) False by simp
  qed (use s'(1) in simp)
  have "links s' (last (y # vs)) (us @ [y])"
    by (rule links_shift [OF R(2) e]) (use R(1) in \<open>auto intro!: s'(2)\<close>)
  then show ?thesis using v R(1) by (simp add: ring_parts)
qed

lemma ring_next:
  assumes "ring s (us @ q # vs)"
  shows "hptr s q = hd (vs @ us @ [q])"
proof -
  have "links s (last (q # vs)) (us @ [q])" "links s q vs" using assms by (auto simp: ring_parts)
  then show ?thesis by (cases vs; cases us) auto
qed

text \<open>In a ring there is a path from each node to each other one.\<close>

lemma ring_path:
  assumes r: "ring s L" and q: "q \<in> set L" and p: "p \<in> set L" "q \<noteq> p"
  shows "\<exists>zs. links s q (zs @ [p]) \<and> set zs \<subseteq> set L \<and> p \<notin> set zs \<and> q \<notin> set zs"
proof -
  obtain us vs where L: "L = us @ q # vs" using split_list [OF q] by blast
  have R: "distinct L" "links s (last (q # vs)) (us @ [q])" "links s q vs" using r by (auto simp: ring_parts L)
  show ?thesis
  proof (cases "p \<in> set vs")
    case True
    then obtain zs ws where v: "vs = zs @ p # ws" "p \<notin> set zs" using split_list_first by metis
    have "links s q (zs @ [p])" using R(3) links_append [of s q "zs @ [p]" ws] v(1) by simp
    moreover have "q \<notin> set zs" "set zs \<subseteq> set L" using R(1) unfolding L v(1) by auto
    ultimately show ?thesis using v(2) by blast
  next
    case False
    then have "p \<in> set us" using p L by auto
    then obtain ts ws where u: "us = ts @ p # ws" "p \<notin> set ts" using split_list_first by metis
    have "links s (last (q # vs)) (ts @ [p])" using R(2) links_append [of s "last (q # vs)" "ts @ [p]" "ws @ [q]"] u(1) by simp
    then have "links s q ((vs @ ts) @ [p])" using R(3) by (simp add: links_append)
    moreover have "q \<notin> set (vs @ ts)" "p \<notin> set (vs @ ts)" "set (vs @ ts) \<subseteq> set L" using R(1) False u(2) unfolding L u(1) by auto
    ultimately show ?thesis by blast
  qed
qed

section \<open>The invariant\<close>

text \<open>The end of the block with header \<open>x\<close>, and the bytes of a set of blocks.\<close>

definition fin :: "uheap \<Rightarrow> u32 \<Rightarrow> nat" where
  "fin s x = unat x + 8 * unat (hsize s x)"

definition space :: "uheap \<Rightarrow> u32 set \<Rightarrow> nat set" where
  "space s X = (\<Union>x \<in> X. {unat x..<fin s x})"

definition before :: "uheap \<Rightarrow> u32 \<Rightarrow> u32 \<Rightarrow> bool" where
  "before s x y \<longleftrightarrow> x < y \<and> fin s x \<le> unat y"

text \<open>The ring \<open>L\<close> of free blocks starts at the static header and is sorted; the blocks in it and the allocated ones do not overlap.\<close>

definition heap_core :: "u32 \<Rightarrow> uheap \<Rightarrow> u32 list \<Rightarrow> u32 set \<Rightarrow> bool" where
  "heap_core b s L al \<longleftrightarrow> ring s L \<and> hd L = b \<and> hsize s b = 0 \<and> sorted_wrt (before s) L \<and> al \<inter> set L = {} \<and>
     (\<forall>x \<in> set (tl L) \<union> al. 0 < hsize s x \<and> b < x \<and> fin s x \<le> unat (brk s)) \<and>
     (\<forall>x \<in> al. \<forall>y \<in> set (tl L) \<union> al. x \<noteq> y \<longrightarrow> fin s x \<le> unat y \<or> fin s y \<le> unat x) \<and>
     b < brk s \<and> unat (brk s) \<le> 2147483648"

definition coalesced :: "uheap \<Rightarrow> u32 list \<Rightarrow> bool" where
  "coalesced s L \<longleftrightarrow> successively (\<lambda>x y. fin s x \<noteq> unat y) L"

definition heap_ok :: "u32 \<Rightarrow> uheap \<Rightarrow> u32 list \<Rightarrow> u32 set \<Rightarrow> bool" where
  "heap_ok b s L al \<longleftrightarrow> heap_core b s L al \<and> coalesced s L \<and> freep s \<in> set L \<and> b \<noteq> 0"

lemma heap_coreD:
  assumes "heap_core b s L al"
  shows "ring s L" "L = b # tl L" "hsize s b = 0" "sorted_wrt (before s) L" "al \<inter> set L = {}"
    "\<And>x. x \<in> set (tl L) \<union> al \<Longrightarrow> 0 < hsize s x \<and> b < x \<and> fin s x \<le> unat (brk s)"
    "\<And>x y. x \<in> al \<Longrightarrow> y \<in> set (tl L) \<union> al \<Longrightarrow> x \<noteq> y \<Longrightarrow> fin s x \<le> unat y \<or> fin s y \<le> unat x"
    "b < brk s" "unat (brk s) \<le> 2147483648" "fin s b = unat b"
  using assms by (auto simp: heap_core_def ring_def fin_def)

lemma fin_inc: "0 < hsize s x \<Longrightarrow> unat x + 8 \<le> fin s x"
  by (simp add: fin_def word_less_nat_alt)

text \<open>Where a block belongs.\<close>

lemma place_of:
  assumes c: "heap_core b s L al" and x: "x \<in> al"
  obtains us p vs where "L = us @ p # vs" "\<And>y. y \<in> set (us @ [p]) \<Longrightarrow> before s y x" "\<And>y. y \<in> set vs \<Longrightarrow> before s x y"
proof -
  note D = heap_coreD [OF c]
  let ?A = "takeWhile (\<lambda>y. y < x) L" and ?vs = "dropWhile (\<lambda>y. y < x) L"
  have bx: "b < x" "0 < hsize s x" using D(6) x by auto
  have "?A \<noteq> []" using D(2) bx(1) by (metis list.distinct(1) takeWhile.simps(2))
  then have A: "?A = butlast ?A @ [last ?A]" by simp
  have L: "L = butlast ?A @ last ?A # ?vs" using A takeWhile_dropWhile_id [of "\<lambda>y. y < x" L] by (metis append.assoc append_Cons append_Nil)
  have lo: "before s y x" if "y \<in> set ?A" for y
  proof -
    have y: "y < x" "y \<in> set L" using that set_takeWhileD by fastforce+
    show ?thesis
    proof (cases "y = b")
      case True
      then show ?thesis using y(1) D(10) by (simp add: before_def word_less_nat_alt)
    next
      case False
      then have t: "y \<in> set (tl L)" using y(2) D(2) by (metis set_ConsD)
      then have "y \<noteq> x" "unat y + 8 \<le> fin s y" "unat x + 8 \<le> fin s x" using y(1) D(6) fin_inc bx(2) by auto
      then show ?thesis using D(7) [OF x, of y] t y(1) by (auto simp: before_def word_less_nat_alt)
    qed
  qed
  have hi: "before s x y" if v: "y \<in> set ?vs" for y
  proof -
    obtain v vs where V: "?vs = v # vs" using v by (cases ?vs) auto
    then have vx: "\<not> v < x" using hd_dropWhile [of "\<lambda>y. y < x" L] by auto
    have "sorted_wrt (before s) (v # vs)" using D(4) V by (metis sorted_wrt_append takeWhile_dropWhile_id)
    then have "y = v \<or> v < y" using v V by (auto simp: before_def)
    then have ge: "\<not> y < x" using vx by auto
    have "y \<in> set L" using v set_dropWhileD by fastforce
    moreover have "x \<notin> set L" using D(5) x by blast
    ultimately have ne: "y \<noteq> x" "y \<in> set (tl L)" using ge bx(1) D(2) by (metis, metis set_ConsD)
    then have "unat y + 8 \<le> fin s y" using D(6) fin_inc by auto
    moreover have "x < y" using ge ne(1) by simp
    ultimately show ?thesis using D(7) [OF x, of y] ne by (auto simp: before_def word_less_nat_alt)
  qed
  show thesis by (rule that [OF L]) (use lo hi A in \<open>auto simp flip: A\<close>)
qed

section \<open>free\<close>

lemma split_unique:
  assumes "distinct (xs @ x # ys)" and e: "xs @ x # ys = xs' @ x # ys'"
  shows "ys = ys'"
proof -
  have "x \<notin> set xs" "x \<notin> set ys" using assms(1) by auto
  from iffD1 [OF append_Cons_eq_iff [OF this] e] show ?thesis by (rule conjunct2)
qed

definition stops_at :: "uheap \<Rightarrow> u32 \<Rightarrow> u32 \<Rightarrow> bool" where
  "stops_at s x q \<longleftrightarrow> q < x \<and> x < hptr s q \<or> hptr s q \<le> q \<and> (q < x \<or> x < hptr s q)"

lemma free_loop_step: "free_loop s x q = (if stops_at s x q then Some q else free_loop s x (hptr s q))"
  by (subst free_loop.simps) (auto simp: stops_at_def)

lemma free_loop_walk: "links s q (zs @ [p]) \<Longrightarrow> \<forall>z \<in> set (q # zs). \<not> stops_at s x z \<Longrightarrow> stops_at s x p \<Longrightarrow> free_loop s x q = Some p"
proof (induction zs arbitrary: q)
  case Nil
  then show ?case by (subst free_loop_step, subst free_loop_step) auto
next
  case (Cons z zs)
  then show ?case by (subst free_loop_step) auto
qed

lemma stops_at_iff:
  assumes c: "heap_core b s (us @ p # vs) al" and lo: "\<And>y. y \<in> set (us @ [p]) \<Longrightarrow> before s y x" and hi: "\<And>y. y \<in> set vs \<Longrightarrow> before s x y"
    and q: "q \<in> set (us @ p # vs)"
  shows "stops_at s x q \<longleftrightarrow> q = p"
proof -
  note D = heap_coreD [OF c]
  obtain as cs where L: "us @ p # vs = as @ q # cs" using split_list [OF q] by blast
  have nx: "hptr s q = hd (cs @ as @ [q])" using ring_next D(1) unfolding L by blast
  have hb: "hd (as @ [q]) = b" using D(2) L by (cases as) auto
  have so: "sorted_wrt (before s) (as @ q # cs)" using D(4) unfolding L .
  have bx: "b \<le> q" "b < x"
    using so hb D(2) lo [of b] by (cases as; cases us; auto simp: before_def)+
  have lt: "y < x" if "y \<in> set (us @ [p])" for y using lo [OF that] by (simp add: before_def)
  have gt: "x < y" if "y \<in> set vs" for y using hi [OF that] by (simp add: before_def)
  have d: "distinct (us @ p # vs)" using D(1) by (simp add: ring_def)
  show ?thesis
  proof (cases cs)
    case Nil
    then have n: "hptr s q = b" using nx hb by simp
    have last: "last (p # vs) = q" using arg_cong [OF L, of last] Nil by simp
    show ?thesis
    proof (cases "vs = []")
      case True
      then show ?thesis using last lt n bx by (simp add: stops_at_def)
    next
      case False
      then have "q \<in> set vs" "q \<noteq> p" using last last_in_set [OF False] d by auto
      then show ?thesis using gt [of q] n bx by (auto simp: stops_at_def)
    qed
  next
    case (Cons r rs)
    then have n: "hptr s q = r" "q < r" using nx so by (simp_all add: sorted_wrt_append before_def)
    have st: "stops_at s x q \<longleftrightarrow> q < x \<and> x < r" using n by (auto simp: stops_at_def)
    show ?thesis
    proof
      assume "q = p"
      then have "vs = cs" using split_unique [OF d] L by blast
      then show "stops_at s x q" using st lt [of p] gt [of r] Cons \<open>q = p\<close> by simp
    next
      assume "stops_at s x q"
      then have q: "q < x" "x < r" using st by auto
      then have "q \<in> set (us @ [p])" using gt [of q] \<open>q \<in> set (us @ p # vs)\<close> by auto
      moreover have False if qu: "q \<in> set us"
      proof -
        obtain u1 u2 where u: "us = u1 @ q # u2" using split_list [OF qu] by blast
        have "u2 @ p # vs = cs" using split_unique [of u1 q "u2 @ p # vs" as cs] L d unfolding u by simp
        then have "r \<in> set (us @ [p])" using Cons u by (cases u2) auto
        then show False using lt [of r] q(2) by auto
      qed
      ultimately show "q = p" by auto
    qed
  qed
qed

lemma free_loop_finds:
  assumes c: "heap_core b s (us @ p # vs) al" and lo: "\<And>y. y \<in> set (us @ [p]) \<Longrightarrow> before s y x" and hi: "\<And>y. y \<in> set vs \<Longrightarrow> before s x y"
    and q: "q \<in> set (us @ p # vs)"
  shows "free_loop s x q = Some p"
proof (cases "q = p")
  case True
  then show ?thesis using stops_at_iff [OF c lo hi q] by (subst free_loop_step) simp
next
  case False
  obtain zs where z: "links s q (zs @ [p])" "set zs \<subseteq> set (us @ p # vs)" "p \<notin> set zs"
    using ring_path [OF heap_coreD(1) [OF c] q _ False] by auto
  have "\<not> stops_at s x y" if "y \<in> set (q # zs)" for y
  proof -
    have "y \<in> set (us @ p # vs)" "y \<noteq> p" using that q z(2,3) False by auto
    then show ?thesis using stops_at_iff [OF c lo hi] by blast
  qed
  moreover have "stops_at s x p" using stops_at_iff [OF c lo hi, of p] by simp
  ultimately show ?thesis using free_loop_walk [OF z(1)] by blast
qed

text \<open>The two updates \<^verbatim>\<open>free\<close> is made of: linking a block in, and joining a block with the one after it.\<close>

definition link_in :: "uheap \<Rightarrow> u32 \<Rightarrow> u32 \<Rightarrow> uheap" where
  "link_in s p x = s\<lparr>hptr := (hptr s)(x := hptr s p, p := x)\<rparr>"

definition join :: "uheap \<Rightarrow> u32 \<Rightarrow> u32 \<Rightarrow> uheap" where
  "join s y z = s\<lparr>hsize := (hsize s)(y := hsize s y + hsize s z), hptr := (hptr s)(y := hptr s z)\<rparr>"

lemma core_link_in:
  assumes c: "heap_core b s (us @ p # vs) al" and x: "x \<in> al"
    and lo: "\<And>y. y \<in> set (us @ [p]) \<Longrightarrow> before s y x" and hi: "\<And>y. y \<in> set vs \<Longrightarrow> before s x y"
  shows "heap_core b (link_in s p x) (us @ p # x # vs) (al - {x})"
proof -
  note D = heap_coreD [OF c]
  have xn: "x \<notin> set (us @ p # vs)" using D(5) x by auto
  have f: "fin (link_in s p x) = fin s" "before (link_in s p x) = before s" "hsize (link_in s p x) = hsize s" "brk (link_in s p x) = brk s"
    by (simp_all add: fun_eq_iff fin_def before_def link_in_def)
  have "ring (link_in s p x) (us @ p # x # vs)" by (rule ring_insert [OF D(1) xn]) (simp add: link_in_def)
  moreover have "sorted_wrt (before s) (us @ p # x # vs)" using D(4) lo hi by (auto simp: sorted_wrt_append)
  moreover have "hd (us @ p # x # vs) = b" using D(2) by (cases us) auto
  moreover have tl: "set (tl (us @ p # x # vs)) = insert x (set (tl (us @ p # vs)))" by (cases us) auto
  moreover have "(al - {x}) \<inter> set (us @ p # x # vs) = {}" using D(5) by auto
  ultimately show ?thesis
    using D(3,8,9) D(6) D(7) x unfolding heap_core_def f by auto
qed

lemma core_join:
  assumes c: "heap_core b s (us @ y # z # vs) al" and e: "fin s y = unat z" and yb: "y \<noteq> b"
  shows "heap_core b (join s y z) (us @ y # vs) al" "fin (join s y z) = (fin s)(y := fin s z)"
proof -
  note D = heap_coreD [OF c]
  have y: "y \<in> set (tl (us @ y # z # vs))" "z \<in> set (tl (us @ y # z # vs))" using D(2) yb by (cases us; auto)+
  have ub: "us \<noteq> []" using D(2) yb by auto
  have "8 * (unat (hsize s y) + unat (hsize s z)) \<le> 2147483648" using D(6,9) y e by (fastforce simp: fin_def)
  then have u: "unat (hsize s y + hsize s z) = unat (hsize s y) + unat (hsize s z)" by (intro unat_add_small) simp
  show f: "fin (join s y z) = (fin s)(y := fin s z)" using e u by (auto simp: fun_eq_iff fin_def join_def)
  have bz: "0 < hsize (join s y z) y" using D(6) y u by (simp add: join_def word_less_nat_alt)
  have so: "sorted_wrt (before s) (us @ y # z # vs)" by (rule D(4))
  have "sorted_wrt (before (join s y z)) (us @ y # vs)"
  proof -
    have d: "y \<notin> set us" "y \<notin> set vs" using D(1) by (auto simp: ring_def)
    have sub: "sorted_wrt (before (join s y z)) xs" if "sorted_wrt (before s) xs" "y \<notin> set xs" for xs
      using that(1) by (rule sorted_wrt_mono_rel [rotated]) (use that(2) in \<open>auto simp: before_def f\<close>)
    show ?thesis using so d sub unfolding sorted_wrt_append by (auto simp: before_def f)
  qed
  moreover have "ring (join s y z) (us @ y # vs)" by (rule ring_skip [OF D(1)]) (simp add: join_def)
  moreover have "hd (us @ y # vs) = b" using D(2) ub by (cases us) auto
  moreover have "hsize (join s y z) b = 0" "brk (join s y z) = brk s" using D(3) yb by (simp_all add: join_def)
  moreover have "al \<inter> set (us @ y # vs) = {}" using D(5) by auto
  moreover have "0 < hsize (join s y z) x \<and> b < x \<and> fin (join s y z) x \<le> unat (brk s)" if "x \<in> set (tl (us @ y # vs)) \<union> al" for x
  proof -
    have "x \<in> set (tl (us @ y # z # vs)) \<union> al" using that ub by (cases us) auto
    then show ?thesis using D(6) [of x] D(6) [of z] y bz unfolding f by (cases "x = y") (auto simp: join_def)
  qed
  moreover have "fin (join s y z) x \<le> unat w \<or> fin (join s y z) w \<le> unat x" if x: "x \<in> al" and w: "w \<in> set (tl (us @ y # vs)) \<union> al" "x \<noteq> w" for x w
  proof -
    have xy: "x \<noteq> y" "x \<noteq> z" using x D(5) by auto
    have w': "w \<in> set (tl (us @ y # z # vs)) \<union> al" using w ub by (cases us) auto
    have "unat x + 8 \<le> fin s x" using D(6) x fin_inc by blast
    then show ?thesis using D(7) [OF x w' w(2)] D(7) [OF x, of z] y xy e unfolding f by (cases "w = y") auto
  qed
  ultimately show "heap_core b (join s y z) (us @ y # vs) al" using D(8,9) unfolding heap_core_def by auto
qed

lemma fin_freep: "fin (s\<lparr>freep := p\<rparr>) = fin s"
  by (simp add: fun_eq_iff fin_def)

lemma links_freep: "links (s\<lparr>freep := p\<rparr>) q xs = links s q xs"
  by (rule links_cong) simp

lemma heap_core_freep: "heap_core b (s\<lparr>freep := p\<rparr>) L al = heap_core b s L al"
proof -
  have "before (s\<lparr>freep := p\<rparr>) = before s" by (simp add: fun_eq_iff before_def fin_freep)
  then show ?thesis by (simp add: heap_core_def ring_def links_freep fin_freep)
qed

lemma coalesced_freep: "coalesced (s\<lparr>freep := p\<rparr>) L = coalesced s L"
  by (simp add: coalesced_def fin_freep)

lemma coalesced_append: "coalesced s (xs @ y # ys) \<longleftrightarrow> coalesced s (xs @ [y]) \<and> coalesced s (y # ys)"
  by (auto simp: coalesced_def successively_append_iff)

lemma coalesced_cong: "(\<And>x. x \<in> set (butlast L) \<Longrightarrow> fin s' x = fin s x) \<Longrightarrow> coalesced s' L = coalesced s L"
proof (induction L)
  case (Cons x L)
  then show ?case by (cases L) (auto simp: coalesced_def)
qed (simp add: coalesced_def)

lemma space_join:
  assumes "fin (join s y z) = (fin s)(y := fin s z)" and "fin s y = unat z" and "y \<notin> X" and "unat z \<le> fin s z"
  shows "space (join s y z) (insert y X) = space s (insert y (insert z X))"
proof -
  have "{unat y..<fin s z} = {unat y..<fin s y} \<union> {unat z..<fin s z}" using assms(2,4) by (auto simp: fin_def)
  moreover have "space (join s y z) X = space s X" unfolding space_def using assms(1,3) by (intro SUP_cong) auto
  ultimately show ?thesis using assms(1) by (simp add: space_def Un_assoc)
qed

lemma unat_units: "8 * unat (h :: u32) < 4294967296 \<Longrightarrow> unat (8 * h) = 8 * unat h"
  by (simp add: unat_word_ariths)

lemma word_end:
  assumes "fin s y < 4294967296"
  shows "y + 8 * hsize s y = z \<longleftrightarrow> fin s y = unat z"
proof -
  have "unat (8 * hsize s y) = 8 * unat (hsize s y)" using assms by (simp add: fin_def unat_word_ariths)
  then have "unat (y + 8 * hsize s y) = fin s y" using assms by (subst unat_add_small) (simp_all add: fin_def)
  then show ?thesis by (metis word_unat_eq_iff)
qed

text \<open>Joining with the block above, when it starts where the block ends.\<close>

lemma join_above:
  assumes c: "heap_core b s (us @ x # vs) al" and xb: "x \<noteq> b \<or> fin s x \<noteq> unat (hd vs)" and old: "coalesced s vs"
    and s': "s' = (if vs \<noteq> [] \<and> fin s x = unat (hd vs) then join s x (hd vs) else s)"
  obtains ws where "heap_core b s' (us @ x # ws) al" "coalesced s' (x # ws)"
    "space s' (set (us @ x # ws)) = space s (set (us @ x # vs))" "\<And>y. y \<noteq> x \<Longrightarrow> hsize s' y = hsize s y" "hsize s x \<le> hsize s' x"
    "brk s' = brk s" "\<And>v. v \<in> set vs \<Longrightarrow> \<exists>y \<in> set (x # ws). hsize s v \<le> hsize s' y"
proof (cases "vs \<noteq> [] \<and> fin s x = unat (hd vs)")
  case True
  then obtain v ws where v: "vs = v # ws" "fin s x = unat v" by (cases vs) auto
  note D = heap_coreD [OF c]
  have "x \<noteq> b" using True xb by blast
  note J = core_join [OF c [unfolded v(1)] v(2) this]
  have s1: "s' = join s x v" using s' True v(1) by simp
  have d: "x \<notin> set us" "x \<notin> set ws" "v \<notin> set us" "v \<notin> set ws" "x \<noteq> v" using D(1) v(1) by (auto simp: ring_def)
  have "coalesced s' (x # ws)"
  proof (cases ws)
    case (Cons w ws')
    have "coalesced s' ws = coalesced s ws" by (rule coalesced_cong) (use d J(2) s1 in \<open>auto dest: in_set_butlastD\<close>)
    then show ?thesis using old J(2) s1 v(1) Cons by (simp add: coalesced_def)
  qed (simp add: coalesced_def)
  moreover have "space s' (set (us @ x # ws)) = space s (set (us @ x # vs))"
    using space_join [OF J(2) v(2), of "set us \<union> set ws"] d s1 v(1) by (simp add: fin_def insert_commute)
  moreover have "fin s x \<le> fin s' x" using v(2) J(2) s1 by (simp add: fin_def)
  then have "hsize s x \<le> hsize s' x" by (simp add: fin_def word_le_nat_alt)
  moreover have "hsize s' y = hsize s y" if "y \<noteq> x" for y using that s1 by (simp add: join_def)
  moreover have "brk s' = brk s" using s1 by (simp add: join_def)
  moreover have "hsize s v \<le> hsize s' x"
    using fun_cong [OF J(2), of x] D(4) s1 unfolding v(1) by (auto simp: sorted_wrt_append before_def fin_def word_le_nat_alt word_less_nat_alt)
  moreover have "hsize s' y = hsize s y" if "y \<in> set ws" for y using that d s1 by (auto simp: join_def)
  ultimately show thesis using that [of ws] J(1) s1 v(1) by auto
next
  case False
  then have "coalesced s (x # vs)" using old by (cases vs) (auto simp: coalesced_def)
  then show thesis using that [of vs] c False s' by auto
qed

lemma free_link_steps:
  assumes c: "heap_core b s (us @ p # vs) al" and x: "x \<in> al" "before s p x"
  defines "s1 \<equiv> link_in s p x"
  defines "s2 \<equiv> if vs \<noteq> [] \<and> fin s1 x = unat (hd vs) then join s1 x (hd vs) else s1"
  shows "free_link s x p = (if fin s2 p = unat x then join s2 p x else s2)\<lparr>freep := p\<rparr>"
proof -
  note D = heap_coreD [OF c]
  have xp: "x \<noteq> p" "x \<notin> set (us @ p # vs)" using D(5) x by auto
  have nx: "hptr s p = hd (vs @ us @ [p])" by (rule ring_next [OF D(1)])
  have fx: "fin s x < 4294967296" "b < x" "0 < hsize s x" using D(6) [of x] x(1) D(9) by auto
  have "unat x < 4294967296" "fin s p \<le> unat x" using x(2) by (simp_all add: before_def)
  then have fp: "fin s p < 4294967296" by linarith
  have hb: "hd (us @ [p]) = b" using D(2) by (cases us) auto
  have up: "x + 8 * hsize s x = hptr s p \<longleftrightarrow> vs \<noteq> [] \<and> fin s1 x = unat (hd vs)"
  proof (cases vs)
    case Nil
    then have "hptr s p = b" using nx hb by simp
    moreover have "fin s x \<noteq> unat b" using fx(2) by (simp add: fin_def word_less_nat_alt)
    ultimately show ?thesis using word_end [OF fx(1)] Nil by simp
  next
    case (Cons v vs')
    then show ?thesis using word_end [OF fx(1)] nx by (simp add: s1_def link_in_def fin_def)
  qed
  have vp: "hd vs \<noteq> p" "hd vs \<noteq> x" "hptr s p = hd vs" if "vs \<noteq> []" using that D(1) xp(2) nx by (cases vs; auto simp: ring_def)+
  have "fin s2 p = fin s p" "hsize s2 p = hsize s p" using xp(1) by (auto simp: s2_def s1_def fin_def join_def link_in_def)
  then have down: "p + 8 * hsize s2 p = x \<longleftrightarrow> fin s2 p = unat x" using word_end [OF fp] by simp
  show ?thesis
  proof (cases "vs \<noteq> [] \<and> fin s1 x = unat (hd vs)")
    case True
    have t: "hptr s2 = (hptr s)(x := hptr s (hd vs), p := x)" "hsize s2 = (hsize s)(x := hsize s x + hsize s (hd vs))" "brk s2 = brk s"
      using True vp xp(1) by (auto simp: s2_def s1_def join_def link_in_def fun_eq_iff)
    have e: "s2 = s\<lparr>hptr := (hptr s)(x := hptr s (hd vs), p := x), hsize := (hsize s)(x := hsize s x + hsize s (hd vs))\<rparr>"
      using t True by (simp add: s2_def s1_def join_def link_in_def)
    show ?thesis using up down True vp xp(1) unfolding free_link_def Let_def e join_def by (simp add: fun_upd_twist)
  next
    case False
    then have "s2 = s1" unfolding s2_def by (rule if_not_P)
    then have e: "s2 = s\<lparr>hptr := (hptr s)(x := hptr s p, p := x)\<rparr>" by (simp add: s1_def link_in_def)
    show ?thesis using up down False xp(1) unfolding free_link_def Let_def e join_def by (simp add: fun_upd_twist)
  qed
qed

lemma ufree_runs:
  assumes ok: "heap_ok b s L al" and x: "x \<in> al"
  shows "\<exists>s' L'. ufree s (x + 8) = Some s' \<and> heap_ok b s' L' (al - {x}) \<and> space s' (set L') = space s (set L) \<union> {unat x..<fin s x} \<and>
    (\<forall>y \<in> al - {x}. hsize s' y = hsize s y) \<and> brk s' = brk s \<and> (\<exists>y \<in> set L'. hsize s x \<le> hsize s' y)"
proof -
  have c: "heap_core b s L al" and co: "coalesced s L" "freep s \<in> set L" "b \<noteq> 0" using ok by (auto simp: heap_ok_def)
  obtain us p vs where L: "L = us @ p # vs" and lo: "\<And>y. y \<in> set (us @ [p]) \<Longrightarrow> before s y x" and hi: "\<And>y. y \<in> set vs \<Longrightarrow> before s x y"
    by (rule place_of [OF c x]) blast
  note D = heap_coreD [OF c]
  have bx: "b < x" using D(6) x by blast
  note c = c [unfolded L]
  have fl: "free_loop s x (freep s) = Some p" using free_loop_finds [OF c lo hi] co(2) L by simp
  let ?s1 = "link_in s p x"
  define s2 where "s2 = (if vs \<noteq> [] \<and> fin ?s1 x = unat (hd vs) then join ?s1 x (hd vs) else ?s1)"
  define s3 where "s3 = (if x # vs \<noteq> [] \<and> fin s2 p = unat x then join s2 p x else s2)"
  have f1: "fin ?s1 = fin s" "hsize ?s1 = hsize s" by (simp_all add: fun_eq_iff fin_def link_in_def)
  have run: "ufree s (x + 8) = Some (s3\<lparr>freep := p\<rparr>)"
    using fl free_link_steps [OF c x, folded s2_def] lo by (simp add: ufree_def s3_def)
  have xp: "x \<noteq> p" "x \<notin> set us" "p \<notin> set us" using D(1,5) x L by (auto simp: ring_def)
  have "coalesced s (us @ [p])" "coalesced s (p # vs)" using co(1) unfolding L coalesced_append [of s us p vs] by auto
  then have co1: "coalesced ?s1 (us @ [p])" "coalesced ?s1 vs" unfolding coalesced_def f1 by (auto simp: successively_Cons)
  have c1: "heap_core b ?s1 ((us @ [p]) @ x # vs) (al - {x})" using core_link_in [OF c x lo hi] by simp
  obtain ws where w: "heap_core b s2 ((us @ [p]) @ x # ws) (al - {x})" "coalesced s2 (x # ws)"
      "space s2 (set ((us @ [p]) @ x # ws)) = space ?s1 (set ((us @ [p]) @ x # vs))" "\<And>y. y \<noteq> x \<Longrightarrow> hsize s2 y = hsize ?s1 y" "hsize ?s1 x \<le> hsize s2 x"
      "brk s2 = brk ?s1"
    by (rule join_above [OF c1 _ co1(2) s2_def]) (use bx in auto)
  have pb: "p \<noteq> b \<or> fin s2 p \<noteq> unat (hd (x # ws))"
    using bx D(10) w(4) [of p] xp(1) f1 by (auto simp: fin_def word_less_nat_alt)
  have s3': "s3 = (if x # ws \<noteq> [] \<and> fin s2 p = unat (hd (x # ws)) then join s2 p (hd (x # ws)) else s2)" by (simp add: s3_def)
  obtain zs where z: "heap_core b s3 (us @ p # zs) (al - {x})" "coalesced s3 (p # zs)"
      "space s3 (set (us @ p # zs)) = space s2 (set (us @ p # x # ws))" "\<And>y. y \<noteq> p \<Longrightarrow> hsize s3 y = hsize s2 y" "hsize s2 p \<le> hsize s3 p"
      "brk s3 = brk s2" "\<exists>y \<in> set (p # zs). hsize s2 x \<le> hsize s3 y"
    by (rule join_above [OF _ pb w(2) s3']) (use w(1) in auto)
  have "hsize s3 y = hsize s y" if "y \<noteq> x" "y \<noteq> p" for y using that w(4) z(4) f1 by simp
  note h3 = this
  have u3: "fin s3 y = fin s y" if "y \<in> set us" for y
  proof -
    have "y \<noteq> x" "y \<noteq> p" using that xp by auto
    then show ?thesis using h3 by (simp add: fin_def)
  qed
  have "coalesced s3 (us @ [p]) = coalesced s (us @ [p])" by (rule coalesced_cong) (use u3 in auto)
  then have "coalesced s3 (us @ p # zs)" using z(2) co1(1) f1 coalesced_append [of s3 us p zs] by (simp add: coalesced_def)
  moreover have "heap_core b (s3\<lparr>freep := p\<rparr>) (us @ p # zs) (al - {x})" "coalesced (s3\<lparr>freep := p\<rparr>) (us @ p # zs) = coalesced s3 (us @ p # zs)"
    using z(1) unfolding heap_core_freep coalesced_freep by simp_all
  ultimately have "heap_ok b (s3\<lparr>freep := p\<rparr>) (us @ p # zs) (al - {x})" using co(3) by (simp add: heap_ok_def)
  moreover have "space (s3\<lparr>freep := p\<rparr>) (set (us @ p # zs)) = space s (set L) \<union> {unat x..<fin s x}"
    using w(3) z(3) unfolding L by (simp add: space_def f1 fin_freep) (auto simp: space_def)
  moreover have "\<forall>y \<in> al - {x}. hsize s3 y = hsize s y" using h3 D(5) L by auto
  moreover have "brk s3 = brk s" using w(6) z(6) by (simp add: link_in_def)
  moreover have "\<exists>y \<in> set (us @ p # zs). hsize s x \<le> hsize s3 y" using z(7) w(5) f1(2) order_trans by fastforce
  ultimately show ?thesis using run by (intro exI [of _ "s3\<lparr>freep := p\<rparr>"] exI [of _ "us @ p # zs"]) simp
qed

section \<open>malloc\<close>

lemma core_apart:
  assumes c: "heap_core b s L al" and x: "x \<in> set L \<union> al" "y \<in> set L \<union> al" "x \<noteq> y"
  shows "fin s x \<le> unat y \<or> fin s y \<le> unat x"
proof -
  note D = heap_coreD [OF c]
  have t: "z = b \<or> z \<in> set (tl L)" if "z \<in> set L" for z using that D(2) by (metis set_ConsD)
  have bz: "fin s b \<le> unat z" if "z \<in> al" for z using that D(6,10) by (simp add: word_less_nat_alt less_imp_le)
  consider "x \<in> set L" "y \<in> set L" | "x \<in> al" | "y \<in> al" using x by blast
  then show ?thesis
  proof cases
    case 1
    have "before s u w \<or> before s w u" if "u \<in> set L" "w \<in> set L" "u \<noteq> w" for u w
      using that D(4) by (induction L) auto
    then show ?thesis using 1 x(3) by (auto simp: before_def)
  next
    case 2
    then show ?thesis using D(7) [OF 2, of y] x t [of y] bz by blast
  next
    case 3
    then show ?thesis using D(7) [OF 3, of x] x t [of x] bz by blast
  qed
qed

lemma ring_pred:
  assumes r: "ring s L" and q: "q \<in> set L" "hptr s q = x" "x \<noteq> hd L"
  obtains us vs where "L = us @ q # x # vs"
proof -
  obtain us vs where L: "L = us @ q # vs" using split_list [OF q(1)] by blast
  have "x = hd (vs @ us @ [q])" using ring_next [OF r [unfolded L]] q(2) by simp
  moreover have "hd (us @ [q]) = hd L" unfolding L by (cases us) auto
  ultimately have "vs \<noteq> []" "hd vs = x" using q(3) by (cases vs; simp)+
  then have "L = us @ q # x # tl vs" using L by (metis list.collapse)
  then show thesis by (rule that)
qed

text \<open>Taking a block, or the end of one.\<close>

definition took :: "u32 \<Rightarrow> uheap \<Rightarrow> u32 set \<Rightarrow> u32 \<Rightarrow> u32 \<Rightarrow> uheap \<Rightarrow> bool" where
  "took b s al n r s' \<longleftrightarrow> (\<exists>L'. r \<noteq> 0 \<and> heap_ok b s' L' (insert (r - 8) al)) \<and> r - 8 \<notin> al \<and> hsize s' (r - 8) = n \<and>
     (\<forall>y \<in> al. hsize s' y = hsize s y) \<and> brk s' = brk s"

lemma take_exact:
  assumes ok: "heap_ok b s (us @ q # p # vs) al" and n: "0 < n" "hsize s p = n"
  shows "\<exists>s'. take_units s n q p = (p + 8, s') \<and> took b s al n (p + 8) s'"
proof -
  let ?L = "us @ q # p # vs" and ?L' = "us @ q # vs" and ?s = "s\<lparr>hptr := (hptr s)(q := hptr s p), freep := q\<rparr>"
  have c: "heap_core b s ?L al" and co: "coalesced s ?L" "b \<noteq> 0" using ok by (auto simp: heap_ok_def)
  note D = heap_coreD [OF c]
  have pb: "p \<noteq> b" using n D(3) by auto
  have p: "p \<in> set (tl ?L)" using D(2) pb by (cases us) auto
  have f: "fin ?s = fin s" "before ?s = before s" by (simp_all add: fun_eq_iff fin_def before_def)
  have "ring ?s ?L'" by (rule ring_skip [OF D(1)]) simp
  moreover have d: "p \<notin> set ?L'" using D(1) by (auto simp: ring_def)
  moreover have "sorted_wrt (before s) ?L'" using D(4) by (auto simp: sorted_wrt_append)
  moreover have hd: "hd ?L' = b" using D(2) by (cases us) auto
  moreover have tl: "set (tl ?L) = insert p (set (tl ?L'))" by (cases us) auto
  moreover have "fin s x \<le> unat y \<or> fin s y \<le> unat x" if "x \<in> insert p al" "y \<in> set (tl ?L') \<union> insert p al" "x \<noteq> y" for x y
    by (rule core_apart [OF c]) (use that p in \<open>auto dest: list.set_sel(2) [rotated]\<close>)
  ultimately have "heap_core b ?s ?L' (insert p al)"
    using D(3,5,6,8,9) p unfolding heap_core_def f by auto
  moreover have "coalesced ?s ?L'"
  proof -
    have "coalesced s (us @ [q])" "coalesced s vs" using co(1) by (auto simp: coalesced_def successively_append_iff successively_Cons)
    moreover have "fin s q \<noteq> unat (hd vs)" if "vs \<noteq> []" using that D(4) by (cases vs) (auto simp: sorted_wrt_append before_def word_less_nat_alt)
    ultimately show ?thesis unfolding coalesced_append [of _ us q vs] by (auto simp: coalesced_def f successively_Cons)
  qed
  ultimately have "heap_ok b ?s ?L' (insert p al)" using co(2) by (simp add: heap_ok_def)
  moreover have "p + 8 \<noteq> 0"
  proof
    assume "p + 8 = 0"
    then have "p = - 8" by (simp add: eq_neg_iff_add_eq_0)
    then have "unat p = 4294967288" by simp
    then show False using D(6) [of p] D(9) p by (simp add: fin_def)
  qed
  moreover have "p \<notin> al" using D(5) by auto
  ultimately show ?thesis using n by (auto simp: take_units_def took_def)
qed

lemma take_end:
  assumes ok: "heap_ok b s (us @ q # p # vs) al" and n: "0 < n" "n < hsize s p"
  shows "\<exists>r s'. take_units s n q p = (r, s') \<and> took b s al n r s'"
proof -
  let ?L = "us @ q # p # vs" and ?h = "hsize s p - n"
  define x where "x = p + 8 * ?h"
  let ?s = "s\<lparr>hsize := (hsize s)(p := ?h, x := n), freep := q\<rparr>"
  have c: "heap_core b s ?L al" and co: "coalesced s ?L" "b \<noteq> 0" using ok by (auto simp: heap_ok_def)
  note D = heap_coreD [OF c]
  have pb: "p \<noteq> b" using n D(3) by auto
  have p: "p \<in> set (tl ?L)" using D(2) pb by (cases us) auto
  have h: "unat ?h = unat (hsize s p) - unat n" "unat n < unat (hsize s p)" "0 < unat n" using n by (simp_all add: unat_diff_u32 word_less_nat_alt word_le_nat_alt)
  have fp: "fin s p \<le> 2147483648" using D(6) [of p] D(9) p by auto
  then have "8 * unat ?h < 4294967296" using h by (simp add: fin_def)
  then have "unat (8 * ?h) = 8 * unat ?h" by (rule unat_units)
  then have x: "unat x = unat p + 8 * unat ?h" using fp h unat_add_small [of p "8 * ?h"] unfolding fin_def x_def by linarith
  have lt: "unat p < unat x" "unat x + 8 * unat n = fin s p" using x h by (simp_all add: fin_def)
  have xo: "y \<noteq> x" if y: "y \<in> set ?L \<union> al" for y
  proof (cases "y = p")
    case False
    have "fin s y \<le> unat p \<or> fin s p \<le> unat y" using core_apart [OF c y, of p] False by auto
    then show ?thesis using lt h by (auto simp: fin_def)
  qed (use lt(1) in auto)
  have px: "p \<noteq> x" using lt(1) by auto
  have f: "fin ?s y = (if y = x then fin s p else if y = p then unat x else fin s y)" for y
    using lt px x by (auto simp: fin_def)
  have le: "fin ?s y \<le> fin s y" if "y \<in> set ?L \<union> al" for y using xo [OF that] f lt by auto
  have fx: "fin s y \<le> unat p \<or> fin s p \<le> unat y" if "y \<in> set ?L \<union> al" "y \<noteq> p" for y using core_apart [OF c that(1), of p] that(2) by auto
  have "ring ?s ?L" using D(1) unfolding ring_def by (subst links_cong) auto
  moreover have "sorted_wrt (before ?s) ?L"
    using D(4) by (rule sorted_wrt_mono_rel [rotated]) (use le in \<open>auto simp: before_def intro: order_trans\<close>)
  moreover have "hd ?L = b" using D(2) by (cases us) auto
  moreover have bx: "b < x" using D(6) [of p] p lt(1) by (auto simp: word_less_nat_alt)
  then have "hsize ?s b = 0" using D(3) pb by auto
  moreover have "insert x al \<inter> set ?L = {}" using D(5) xo by auto
  moreover have "0 < hsize ?s y \<and> b < y \<and> fin ?s y \<le> unat (brk ?s)" if y: "y \<in> set (tl ?L) \<union> insert x al" for y
  proof (cases "y = x")
    case True
    then show ?thesis using n(1) bx f D(6) [of p] p by auto
  next
    case False
    then have y': "y \<in> set (tl ?L) \<union> al" "y \<in> set ?L \<union> al" using y by (auto dest: list.set_sel(2) [rotated])
    have "0 < ?h" using h by (simp add: word_less_nat_alt)
    then show ?thesis using D(6) [OF y'(1)] le [OF y'(2)] False by auto
  qed
  moreover have "fin ?s y \<le> unat z \<or> fin ?s z \<le> unat y" if y: "y \<in> insert x al" and z: "z \<in> set (tl ?L) \<union> insert x al" "y \<noteq> z" for y z
  proof -
    have z': "z = x \<or> z \<in> set ?L \<union> al" using z by (auto dest: list.set_sel(2) [rotated])
    have in_x: "fin ?s x \<le> unat w \<or> fin ?s w \<le> unat x" if "w \<in> set ?L \<union> al" for w
      using fx [OF that] f [of x] f [of w] xo [OF that] lt by auto
    show ?thesis
    proof (cases "y = x \<or> z = x")
      case True
      then show ?thesis using in_x [of z] in_x [of y] y z' z(2) by auto
    next
      case False
      then have "y \<in> set ?L \<union> al" "z \<in> set ?L \<union> al" using y z' by auto
      then show ?thesis using core_apart [OF c _ _ z(2)] le [of y] le [of z] by force
    qed
  qed
  ultimately have "heap_core b ?s ?L (insert x al)" using D(8,9) unfolding heap_core_def by auto
  moreover have "coalesced ?s ?L"
  proof -
    have "fin ?s y \<noteq> unat z" if "y \<in> set ?L" "z \<in> set ?L" "fin s y \<noteq> unat z" for y z
      using that f [of y] xo [of y] xo [of z] by (auto simp: word_unat_eq_iff)
    then show ?thesis using co(1) unfolding coalesced_def by (elim successively_mono [rotated]) auto
  qed
  ultimately have "heap_ok b ?s ?L (insert x al)" using co(2) by (simp add: heap_ok_def)
  moreover have "x + 8 \<noteq> 0"
  proof
    assume "x + 8 = 0"
    then have "x = - 8" by (metis add_eq_0_iff minus_minus)
    then have "unat x = 4294967288" by simp
    then show False using lt fp by simp
  qed
  moreover have "x \<notin> al" using xo by auto
  moreover have "\<forall>y \<in> al. hsize ?s y = hsize s y" using xo D(5) by auto
  moreover have "take_units s n q p = (x + 8, ?s)" using n(2) by (simp add: take_units_def Let_def x_def)
  ultimately show ?thesis by (auto simp: took_def)
qed

text \<open>The search goes once around the ring, from the block after \<^verbatim>\<open>freep\<close> to \<^verbatim>\<open>freep\<close> itself.\<close>

lemma scan_hit:
  "links s prv (zs @ [x]) \<Longrightarrow> \<forall>z \<in> set zs. hsize s z < n \<and> z \<noteq> freep s \<Longrightarrow> n \<le> hsize s x \<Longrightarrow>
    malloc_loop grant s n prv (hptr s prv) = Some (take_units s n (last (prv # zs)) x)"
proof (induction zs arbitrary: prv)
  case Nil
  then show ?case by (subst malloc_loop.simps) simp
next
  case (Cons z zs)
  then show ?case by (subst malloc_loop.simps) (auto dest: leD)
qed

lemma scan_miss:
  "links s prv (zs @ [freep s]) \<Longrightarrow> \<forall>z \<in> set zs. hsize s z < n \<and> z \<noteq> freep s \<Longrightarrow> hsize s (freep s) < n \<Longrightarrow>
    malloc_loop grant s n prv (hptr s prv) = Option.bind (morecore grant s n) (\<lambda>(p, s).
      if p = 0 then Some (0, s) else malloc_loop grant s n p (hptr s p))"
proof (induction zs arbitrary: prv)
  case Nil
  then show ?case by (subst malloc_loop.simps) (auto dest: leD)
next
  case (Cons z zs)
  then show ?case by (subst malloc_loop.simps) (auto dest: leD)
qed

lemma round_trip:
  assumes "ring s L" and "f \<in> set L"
  obtains zs where "links s f (zs @ [f])" "set L = insert f (set zs)" "distinct zs" "f \<notin> set zs"
proof -
  obtain us vs where L: "L = us @ f # vs" using split_list [OF assms(2)] by blast
  have R: "distinct L" "links s (last (f # vs)) (us @ [f])" "links s f vs" using assms(1) by (auto simp: ring_parts L)
  then have "links s f ((vs @ us) @ [f])" by (simp add: links_append)
  moreover have "set L = insert f (set (vs @ us))" "distinct (vs @ us)" "f \<notin> set (vs @ us)" using R(1) unfolding L by auto
  ultimately show thesis by (rule that)
qed

lemma malloc_found:
  assumes ok: "heap_ok b s L al" and n: "0 < n" and y: "y \<in> set L" "n \<le> hsize s y"
  shows "\<exists>r s'. malloc_loop grant s n (freep s) (hptr s (freep s)) = Some (r, s') \<and> took b s al n r s'"
proof -
  have c: "heap_core b s L al" and f: "freep s \<in> set L" using ok by (auto simp: heap_ok_def)
  note D = heap_coreD [OF c]
  obtain ws where w: "links s (freep s) (ws @ [freep s])" "set L = insert (freep s) (set ws)" "distinct ws" "freep s \<notin> set ws"
    by (rule round_trip [OF D(1) f])
  have "\<exists>z \<in> set (ws @ [freep s]). n \<le> hsize s z" using y w(2) by auto
  from split_list_first_prop [OF this] obtain zs x rs where z: "ws @ [freep s] = zs @ x # rs" "n \<le> hsize s x" "\<forall>z \<in> set zs. \<not> n \<le> hsize s z"
    by blast
  have l: "links s (freep s) (zs @ [x])" using w(1) z(1) links_append [of s "freep s" "zs @ [x]" rs] by simp
  have zw: "set zs \<subseteq> set ws" using z(1) by (cases rs rule: rev_cases) auto
  then have "\<forall>z \<in> set zs. hsize s z < n \<and> z \<noteq> freep s" using z(3) w(4) by auto
  note hit = scan_hit [OF l this z(2)]
  let ?q = "last (freep s # zs)"
  have "x \<noteq> b" using n D(3) z(2) by auto
  then have xh: "x \<noteq> hd L" using D(2) by (metis list.sel(1))
  have q: "?q \<in> set L" using w(2) subsetD [OF zw last_in_set [of zs]] by simp
  have "hptr s ?q = x" using l by (simp add: links_append)
  then obtain us vs where L: "L = us @ ?q # x # vs" using ring_pred [OF D(1) q _ xh] by metis
  show ?thesis
  proof (cases "hsize s x = n")
    case True
    then show ?thesis using take_exact [OF ok [unfolded L] n True] hit by auto
  next
    case False
    then have "n < hsize s x" using z(2) by simp
    then show ?thesis using take_end [OF ok [unfolded L] n] hit by auto
  qed
qed

text \<open>More memory from the kernel, which never gives addresses from \<^verbatim>\<open>KERNBASE\<close> on.\<close>

definition grant_ok :: "(u32 \<Rightarrow> u32 \<Rightarrow> bool) \<Rightarrow> bool" where
  "grant_ok grant \<longleftrightarrow> (\<forall>a n. grant a n \<longrightarrow> unat a + unat n \<le> 2147483648)"

lemma heap_extend:
  assumes ok: "heap_ok b s L al" and nu: "0 < nu" "unat (brk s) + 8 * unat nu \<le> 2147483648"
  shows "heap_ok b (s\<lparr>brk := brk s + nu * 8, hsize := (hsize s)(brk s := nu)\<rparr>) L (insert (brk s) al)" and "brk s \<notin> al"
proof -
  let ?x = "brk s" and ?s = "s\<lparr>brk := brk s + nu * 8, hsize := (hsize s)(brk s := nu)\<rparr>"
  have c: "heap_core b s L al" and o: "coalesced s L" "freep s \<in> set L" "b \<noteq> 0" using ok by (auto simp: heap_ok_def)
  note D = heap_coreD [OF c]
  have "unat (nu * 8) = 8 * unat nu" using unat_units [of nu] nu(2) by (simp add: mult.commute)
  then have br: "unat (brk ?s) = unat ?x + 8 * unat nu" using nu(2) by (simp add: unat_add_small)
  have in_L: "y = b \<or> y \<in> set (tl L)" if "y \<in> set L" for y using that D(2) by (metis set_ConsD)
  have ne: "y \<noteq> ?x" if "y \<in> set L \<union> al" for y
  proof (cases "y = b")
    case False
    then have "0 < hsize s y" "fin s y \<le> unat ?x" using D(6) [of y] in_L [of y] that by auto
    then show ?thesis using fin_inc by fastforce
  qed (use D(8) in auto)
  then show xn: "brk s \<notin> al" by blast
  have f: "fin ?s y = fin s y" if "y \<in> set L \<union> al" for y using ne [OF that] by (simp add: fin_def)
  have fx: "fin ?s ?x = unat ?x + 8 * unat nu" by (simp add: fin_def)
  have tl: "set (tl L) \<subseteq> set L" using D(2) by (metis set_subset_Cons)
  have "ring ?s L" using D(1) unfolding ring_def by (subst links_cong) auto
  moreover have "sorted_wrt (before ?s) L"
    using D(4) by (rule sorted_wrt_mono_rel [rotated]) (use f in \<open>auto simp: before_def\<close>)
  moreover have "hsize ?s b = 0" using D(3,8) by auto
  moreover have "hd L = b" using D(2) by (metis list.sel(1))
  moreover have "insert ?x al \<inter> set L = {}" using D(5) ne by auto
  moreover have "0 < hsize ?s y \<and> b < y \<and> fin ?s y \<le> unat (brk ?s)" if y: "y \<in> set (tl L) \<union> insert ?x al" for y
  proof (cases "y = ?x")
    case True
    then show ?thesis using nu(1) D(8) fx br by simp
  next
    case False
    then have "y \<in> set (tl L) \<union> al" using y by auto
    then show ?thesis using D(6) [of y] f [of y] tl br False by auto
  qed
  moreover have "fin ?s y \<le> unat z \<or> fin ?s z \<le> unat y" if y: "y \<in> insert ?x al" and z: "z \<in> set (tl L) \<union> insert ?x al" "y \<noteq> z" for y z
  proof (cases "y = ?x \<or> z = ?x")
    case True
    have "fin ?s w \<le> unat ?x" if "w \<in> set (tl L) \<union> al" for w using D(6) [OF that] f [of w] that tl by auto
    then show ?thesis using True y z by auto
  next
    case False
    then have "y \<in> al" "z \<in> set (tl L) \<union> al" using y z by auto
    then show ?thesis using D(7) [of y z] f [of y] f [of z] tl z(2) by auto
  qed
  moreover have "b < brk ?s" using D(8) br by (simp add: word_less_nat_alt)
  ultimately have "heap_core b ?s L (insert ?x al)" using nu(2) br unfolding heap_core_def by auto
  moreover have "coalesced ?s L = coalesced s L" by (rule coalesced_cong) (use f in \<open>auto dest: in_set_butlastD\<close>)
  ultimately show "heap_ok b ?s L (insert ?x al)" using o by (simp add: heap_ok_def)
qed

lemma morecore_runs:
  assumes ok: "heap_ok b s L al" and n: "0 < n" "unat n < 268435456" and g: "grant_ok grant"
  defines "m \<equiv> (if n < 4096 then 4096 else n)"
  shows "\<not> grant (brk s) (m * 8) \<and> morecore grant s n = Some (0, s) \<or>
    (\<exists>s' L' y. morecore grant s n = Some (freep s', s') \<and> freep s' \<noteq> 0 \<and> heap_ok b s' L' al \<and> y \<in> set L' \<and> n \<le> hsize s' y \<and> (\<forall>y \<in> al. hsize s' y = hsize s y))"
proof -
  have m: "n \<le> m" "0 < m" "8 * unat m < 2147483648" using n by (auto simp: m_def word_less_nat_alt word_le_nat_alt)
  have m8: "unat (m * 8) = 8 * unat m" using unat_units [of m] m(3) by (simp add: mult.commute)
  have "sint (of_nat (unat (m * 8)) :: u32) = int (unat (m * 8))" by (rule sint_of_nat_u32) (simp only: m8 m(3))
  moreover have "0 < unat (m * 8)" using m8 m(2) by (simp add: word_less_nat_alt)
  ultimately have "0 < sint (of_nat (unat (m * 8)) :: u32)" by linarith
  then have pos: "0 < sint (m * 8)" by simp
  show ?thesis
  proof (cases "grant (brk s) (m * 8)")
    case False
    then show ?thesis using pos by (simp add: morecore_def sbrk_def m_def Let_def)
  next
    case True
    then have le: "unat (brk s) + 8 * unat m \<le> 2147483648" using g m8 unfolding grant_ok_def by fastforce
    let ?s = "s\<lparr>brk := brk s + m * 8, hsize := (hsize s)(brk s := m)\<rparr>"
    note E = heap_extend [OF ok m(2) le]
    obtain s' L' where u: "ufree ?s (brk s + 8) = Some s'" "heap_ok b s' L' (insert (brk s) al - {brk s})"
        "\<forall>y \<in> insert (brk s) al - {brk s}. hsize s' y = hsize ?s y" "\<exists>y \<in> set L'. hsize ?s (brk s) \<le> hsize s' y"
      using ufree_runs [OF E(1), of "brk s"] by blast
    have al: "insert (brk s) al - {brk s} = al" using E(2) by auto
    have h: "heap_ok b s' L' al" using u(2) unfolding al .
    then have c: "heap_core b s' L' al" "freep s' \<in> set L'" "b \<noteq> 0" by (auto simp: heap_ok_def)
    have "freep s' \<noteq> 0"
    proof (cases "freep s' = b")
      case False
      then have "freep s' \<in> set (tl L')" using c(2) heap_coreD(2) [OF c(1)] by (metis set_ConsD)
      then have "b < freep s'" using heap_coreD(6) [OF c(1)] by blast
      then show ?thesis by (metis word_not_simps(1))
    qed (use c(3) in simp)
    moreover have "brk s \<noteq> -1"
    proof
      assume "brk s = -1"
      then have "unat (brk s) = 4294967295" by (simp add: unsigned_minus_1_eq_mask mask_eq_exp_minus_1)
      then show False using le by simp
    qed
    moreover have "\<forall>y \<in> al. hsize s' y = hsize s y" using u(3) E(2) unfolding al by auto
    moreover obtain y where "y \<in> set L'" "n \<le> hsize s' y" using u(4) m(1) by (auto intro: order_trans)
    moreover have "morecore grant s n = Some (freep s', s')"
      using True u(1) \<open>brk s \<noteq> -1\<close> by (simp add: morecore_def sbrk_def Let_def flip: m_def)
    ultimately show ?thesis using h by blast
  qed
qed

text \<open>Before the first call of \<^verbatim>\<open>malloc\<close>, or in use.\<close>

definition heap_inv :: "u32 \<Rightarrow> uheap \<Rightarrow> u32 set \<Rightarrow> bool" where
  "heap_inv b s al \<longleftrightarrow> b \<noteq> 0 \<and> b < brk s \<and> unat (brk s) \<le> 2147483648 \<and> freep s = 0 \<and> al = {} \<or> (\<exists>L. heap_ok b s L al)"

lemma freep_nonzero: "heap_ok b s L al \<Longrightarrow> freep s \<noteq> 0"
proof -
  assume "heap_ok b s L al"
  then have c: "heap_core b s L al" "freep s \<in> set L" "b \<noteq> 0" by (auto simp: heap_ok_def)
  have "freep s = b \<or> b < freep s" using c(2) heap_coreD(2,6) [OF c(1)] by (metis UnI1 set_ConsD)
  then show ?thesis using c(3) word_not_simps(1) by metis
qed

text \<open>The number of units \<^verbatim>\<open>malloc\<close> asks for, as long as its sum does not wrap.\<close>

definition units :: "u32 \<Rightarrow> u32" where
  "units nbytes = (nbytes + 8 - 1) div 8 + 1"

text \<open>What it asks the kernel for when no block is large enough.\<close>

definition growth :: "u32 \<Rightarrow> u32" where
  "growth nbytes = (if units nbytes < 4096 then 4096 else units nbytes) * 8"

lemma units_enough:
  assumes "unat nbytes \<le> 2147483600"
  shows "0 < units nbytes" "unat (units nbytes) < 268435456" "unat nbytes + 8 \<le> 8 * unat (units nbytes)"
proof -
  have "unat (nbytes + 8 - 1) = unat nbytes + 7" using assms unat_add_small [of 7 nbytes] by simp
  then have "unat ((nbytes + 8 - 1) div 8) = (unat nbytes + 7) div 8" by (simp add: unat_div)
  then have u: "unat (units nbytes) = (unat nbytes + 7) div 8 + 1" unfolding units_def using assms by (subst unat_add_small) simp_all
  then show "0 < units nbytes" by (simp add: word_less_nat_alt)
  have "m + 8 \<le> 8 * ((m + 7) div 8 + 1)" "m \<le> 2147483600 \<Longrightarrow> (m + 7) div 8 + 1 < 268435456" for m :: nat by presburger+
  then show "unat (units nbytes) < 268435456" "unat nbytes + 8 \<le> 8 * unat (units nbytes)" using assms unfolding u by blast+
qed

lemma umalloc_runs:
  assumes inv: "heap_inv b s al" and g: "grant_ok grant" and n: "unat nbytes \<le> 2147483600"
  shows "\<exists>r s'. umalloc grant b s nbytes = Some (r, s') \<and> (\<forall>y \<in> al. hsize s' y = hsize s y) \<and>
    (r = 0 \<and> heap_inv b s' al \<and> \<not> grant (brk s) (growth nbytes) \<or>
     r \<noteq> 0 \<and> r - 8 \<notin> al \<and> heap_inv b s' (insert (r - 8) al) \<and> unat (r - 8) + 8 + unat nbytes \<le> fin s' (r - 8))"
proof -
  define t where "t = (if freep s = 0 then s\<lparr>hptr := (hptr s)(b := b), hsize := (hsize s)(b := 0), freep := b\<rparr> else s)"
  have ok: "\<exists>L. heap_ok b t L al"
  proof (cases "freep s = 0")
    case True
    then have "b \<noteq> 0 \<and> b < brk s \<and> unat (brk s) \<le> 2147483648 \<and> al = {}" using inv freep_nonzero by (auto simp: heap_inv_def)
    then have "heap_ok b t [b] al" using True by (simp add: t_def heap_ok_def heap_core_def ring_def coalesced_def)
    then show ?thesis by blast
  next
    case False
    then show ?thesis using inv by (auto simp: heap_inv_def t_def)
  qed
  have t: "brk t = brk s" "\<forall>y \<in> al. hsize t y = hsize s y" using inv freep_nonzero by (auto simp: t_def heap_inv_def)
  note N = units_enough [OF n]
  let ?n = "units nbytes"
  have run: "umalloc grant b s nbytes = malloc_loop grant t ?n (freep t) (hptr t (freep t))" by (simp add: umalloc_def units_def t_def Let_def)
  have got: "r \<noteq> 0 \<and> r - 8 \<notin> al \<and> heap_inv b s' (insert (r - 8) al) \<and> unat (r - 8) + 8 + unat nbytes \<le> fin s' (r - 8) \<and> (\<forall>y \<in> al. hsize s' y = hsize u y)"
    if "took b u al ?n r s'" for u r s'
    using that N(3) by (auto simp: took_def heap_inv_def fin_def)
  obtain L where L: "heap_ok b t L al" using ok by blast
  show ?thesis
  proof (cases "\<exists>y \<in> set L. ?n \<le> hsize t y")
    case True
    then obtain r s' where "malloc_loop grant t ?n (freep t) (hptr t (freep t)) = Some (r, s')" "took b t al ?n r s'"
      using malloc_found [OF L N(1)] by blast
    then show ?thesis using run got t(2) by auto
  next
    case False
    have c: "heap_core b t L al" "freep t \<in> set L" using L by (auto simp: heap_ok_def)
    obtain zs where z: "links t (freep t) (zs @ [freep t])" "set L = insert (freep t) (set zs)" "freep t \<notin> set zs"
      using round_trip [OF heap_coreD(1) [OF c(1)] c(2)] by blast
    have "\<forall>y \<in> set zs. hsize t y < ?n \<and> y \<noteq> freep t" "hsize t (freep t) < ?n" using False z(2,3) by (auto simp: not_le)
    note miss = scan_miss [OF z(1) this, of grant]
    consider (no) "\<not> grant (brk t) (growth nbytes)" "morecore grant t ?n = Some (0, t)"
      | (yes) s1 L1 y where "morecore grant t ?n = Some (freep s1, s1)" "freep s1 \<noteq> 0" "heap_ok b s1 L1 al" "y \<in> set L1" "?n \<le> hsize s1 y" "\<forall>y \<in> al. hsize s1 y = hsize t y"
      using morecore_runs [OF L N(1,2) g] unfolding growth_def by blast
    then show ?thesis
    proof cases
      case no
      then have "umalloc grant b s nbytes = Some (0, t)" using run miss by simp
      moreover have "heap_inv b t al" using L by (auto simp: heap_inv_def)
      ultimately show ?thesis using no(1) t by auto
    next
      case yes
      then obtain r s' where r: "malloc_loop grant s1 ?n (freep s1) (hptr s1 (freep s1)) = Some (r, s')" "took b s1 al ?n r s'"
        using malloc_found [OF yes(3) N(1) yes(4,5)] by blast
      then have "umalloc grant b s nbytes = Some (r, s')" using run miss yes(1,2) by simp
      then show ?thesis using got [OF r(2)] yes(6) t(2) by auto
    qed
  qed
qed

section \<open>Any sequence of calls\<close>

text \<open>The states of a program that calls \<^verbatim>\<open>malloc\<close>, and \<^verbatim>\<open>free\<close> on blocks it has, with the headers of these blocks.\<close>

inductive heap_use :: "(u32 \<Rightarrow> u32 \<Rightarrow> bool) \<Rightarrow> u32 \<Rightarrow> uheap \<Rightarrow> u32 set \<Rightarrow> bool" for grant b where
  start: "b \<noteq> 0 \<Longrightarrow> b < brk s \<Longrightarrow> unat (brk s) \<le> 2147483648 \<Longrightarrow> freep s = 0 \<Longrightarrow> heap_use grant b s {}"
| malloc: "heap_use grant b s al \<Longrightarrow> unat nbytes \<le> 2147483600 \<Longrightarrow> umalloc grant b s nbytes = Some (r, s') \<Longrightarrow>
    heap_use grant b s' (if r = 0 then al else insert (r - 8) al)"
| free: "heap_use grant b s al \<Longrightarrow> x \<in> al \<Longrightarrow> ufree s (x + 8) = Some s' \<Longrightarrow> heap_use grant b s' (al - {x})"

lemma heap_use_inv: "heap_use grant b s al \<Longrightarrow> grant_ok grant \<Longrightarrow> heap_inv b s al"
proof (induction rule: heap_use.induct)
  case (start s)
  then show ?case by (simp add: heap_inv_def)
next
  case (malloc s al nbytes r s')
  then show ?case using umalloc_runs [of b s al grant nbytes] by auto
next
  case (free s al x s')
  then obtain L where "heap_ok b s L al" by (auto simp: heap_inv_def)
  from ufree_runs [OF this free.hyps(2)] free.hyps(3) show ?case by (auto simp: heap_inv_def)
qed

text \<open>
  C13. The allocator is safe for every program that frees only blocks it has: after any sequence of calls, the blocks in use do not
  overlap; \<^verbatim>\<open>free\<close> of any of them returns and leaves the others alone; \<^verbatim>\<open>malloc\<close> of up to two gigabytes returns, with null
  only if the kernel refuses to extend the process, and otherwise with a new block that has room for the
  bytes, ends below the end of the process memory and overlaps no block in use.
\<close>

theorem umalloc_safe:
  assumes "heap_use grant b s al" and "grant_ok grant"
  shows "(\<forall>x \<in> al. (\<forall>y \<in> al. x \<noteq> y \<longrightarrow> fin s x \<le> unat y \<or> fin s y \<le> unat x) \<and>
      (\<exists>s'. ufree s (x + 8) = Some s' \<and> (\<forall>y \<in> al - {x}. hsize s' y = hsize s y))) \<and>
    (\<forall>nbytes. unat nbytes \<le> 2147483600 \<longrightarrow> (\<exists>r s'. umalloc grant b s nbytes = Some (r, s') \<and>
      (\<forall>y \<in> al. hsize s' y = hsize s y) \<and> (r = 0 \<longrightarrow> \<not> grant (brk s) (growth nbytes)) \<and>
      (r \<noteq> 0 \<longrightarrow> r - 8 \<notin> al \<and> unat (r - 8) + 8 + unat nbytes \<le> fin s' (r - 8) \<and> fin s' (r - 8) \<le> unat (brk s') \<and>
        (\<forall>y \<in> al. fin s y \<le> unat (r - 8) \<or> fin s' (r - 8) \<le> unat y))))"
proof
  have inv: "heap_inv b s al" using heap_use_inv assms by blast
  show "\<forall>x \<in> al. (\<forall>y \<in> al. x \<noteq> y \<longrightarrow> fin s x \<le> unat y \<or> fin s y \<le> unat x) \<and>
      (\<exists>s'. ufree s (x + 8) = Some s' \<and> (\<forall>y \<in> al - {x}. hsize s' y = hsize s y))"
  proof (intro ballI conjI impI)
    fix x assume x: "x \<in> al"
    then obtain L where L: "heap_ok b s L al" using inv by (auto simp: heap_inv_def)
    show "fin s x \<le> unat y \<or> fin s y \<le> unat x" if "y \<in> al" "x \<noteq> y" for y using core_apart [of b s L al x y] L x that by (simp add: heap_ok_def)
    show "\<exists>s'. ufree s (x + 8) = Some s' \<and> (\<forall>y \<in> al - {x}. hsize s' y = hsize s y)" using ufree_runs [OF L x] by blast
  qed
  show "\<forall>nbytes. unat nbytes \<le> 2147483600 \<longrightarrow> (\<exists>r s'. umalloc grant b s nbytes = Some (r, s') \<and>
      (\<forall>y \<in> al. hsize s' y = hsize s y) \<and> (r = 0 \<longrightarrow> \<not> grant (brk s) (growth nbytes)) \<and>
      (r \<noteq> 0 \<longrightarrow> r - 8 \<notin> al \<and> unat (r - 8) + 8 + unat nbytes \<le> fin s' (r - 8) \<and> fin s' (r - 8) \<le> unat (brk s') \<and>
        (\<forall>y \<in> al. fin s y \<le> unat (r - 8) \<or> fin s' (r - 8) \<le> unat y)))"
  proof (intro allI impI)
    fix nbytes :: u32 assume n: "unat nbytes \<le> 2147483600"
    obtain r s' where r: "umalloc grant b s nbytes = Some (r, s')" "\<forall>y \<in> al. hsize s' y = hsize s y"
        "r = 0 \<and> heap_inv b s' al \<and> \<not> grant (brk s) (growth nbytes) \<or>
         r \<noteq> 0 \<and> r - 8 \<notin> al \<and> heap_inv b s' (insert (r - 8) al) \<and> unat (r - 8) + 8 + unat nbytes \<le> fin s' (r - 8)"
      using umalloc_runs [OF inv assms(2) n] by blast
    have "fin s' (r - 8) \<le> unat (brk s') \<and> (\<forall>y \<in> al. fin s y \<le> unat (r - 8) \<or> fin s' (r - 8) \<le> unat y)" if i: "heap_inv b s' (insert (r - 8) al)" "r - 8 \<notin> al"
    proof -
      obtain L where "heap_ok b s' L (insert (r - 8) al)" using i(1) by (auto simp: heap_inv_def)
      then have c: "heap_core b s' L (insert (r - 8) al)" by (simp add: heap_ok_def)
      have "fin s y \<le> unat (r - 8) \<or> fin s' (r - 8) \<le> unat y" if y: "y \<in> al" for y
      proof -
        have "fin s' y = fin s y" using r(2) y by (simp add: fin_def)
        moreover have "y \<noteq> r - 8" using y i(2) by auto
        ultimately show ?thesis using core_apart [OF c, of y "r - 8"] y by auto
      qed
      then show ?thesis using heap_coreD(6) [OF c, of "r - 8"] by auto
    qed
    then show "\<exists>r s'. umalloc grant b s nbytes = Some (r, s') \<and>
      (\<forall>y \<in> al. hsize s' y = hsize s y) \<and> (r = 0 \<longrightarrow> \<not> grant (brk s) (growth nbytes)) \<and>
      (r \<noteq> 0 \<longrightarrow> r - 8 \<notin> al \<and> unat (r - 8) + 8 + unat nbytes \<le> fin s' (r - 8) \<and> fin s' (r - 8) \<le> unat (brk s') \<and>
        (\<forall>y \<in> al. fin s y \<le> unat (r - 8) \<or> fin s' (r - 8) \<le> unat y))"
      using r by (intro exI [of _ r] exI [of _ s']) auto
  qed
qed

definition new_heap :: uheap where
  "new_heap = \<lparr>hptr = \<lambda>_. 0, hsize = \<lambda>_. 0, freep = 0, brk = 0x4000\<rparr>"

definition user_limit :: "u32 \<Rightarrow> u32 \<Rightarrow> bool" where
  "user_limit a n \<longleftrightarrow> unat a + unat n \<le> 2147483648"

lemma new_heap_ok: "heap_use user_limit 0x1800 new_heap {}" "grant_ok user_limit" "user_limit (brk new_heap) (growth 100)"
  by (simp_all add: new_heap_def user_limit_def grant_ok_def heap_use.start growth_def units_def)

theorem umalloc_safe_witness: "\<exists>r s'. umalloc user_limit 0x1800 new_heap 100 = Some (r, s') \<and> r \<noteq> 0"
proof -
  have "unat (100 :: u32) \<le> 2147483600" by simp
  from mp [OF spec [OF conjunct2 [OF umalloc_safe [OF new_heap_ok(1,2)]], of 100] this]
  obtain r s' where r: "umalloc user_limit 0x1800 new_heap 100 = Some (r, s')" "r = 0 \<longrightarrow> \<not> user_limit (brk new_heap) (growth 100)"
    by (elim exE conjE)
  then have "r \<noteq> 0" using new_heap_ok(3) by blast
  with r(1) show ?thesis by blast
qed

text \<open>A request for almost four gigabytes wraps around to a single unit, a block with no room for any byte.\<close>

lemma malloc_wraps: "4294967289 \<le> unat nbytes \<Longrightarrow> units nbytes = 1"
proof -
  assume n: "4294967289 \<le> unat nbytes"
  have "unat nbytes < 4294967296" by simp
  then have "unat nbytes - 4294967289 < 8" by linarith
  then have "(unat nbytes + 7) mod 4294967296 < 8" using n le_less_trans [OF mod_less_eq_dividend] by (simp add: le_mod_geq)
  then have "unat (nbytes + 7) < 8" by (simp add: unat_word_ariths)
  then have "unat ((nbytes + 7) div 8) = 0" by (simp add: unat_div)
  then have "(nbytes + 7) div 8 = 0" by (simp only: unat_eq_0)
  then show ?thesis by (simp add: units_def add.commute)
qed

end
