(* ===== verification/Spec2Isabelle.thy ===== *)
theory Spec2Isabelle
  imports Pipe Console Spinlock Kalloc Log Shm Dirfacts Checked Fdrefs Ptable Grep Sh Fscheck Uspace Execrun Execimage Umalloc
begin

text \<open>
  Verification of a teaching kernel for the x86, in two variants that share most of their code: \<^verbatim>\<open>src/part1\<close>
  has pages of memory shared between processes and keeps the first page of every process unmapped;
  \<^verbatim>\<open>src/part2\<close> has a scheduler with two priorities, files with checksums in their block addresses and a checker
  for file system images. Code that both variants have is taken from part 2; \<^verbatim>\<open>vm.c\<close> and the sharing code
  are taken from part 1.

  \<^bold>\<open>How the code is modelled.\<close> Machine integers are words of their width; the memory of the machine is a
  function from 32-bit addresses to bytes, and structures the C code keeps inside pages (the free list, page
  tables) are stored there as bytes. Tables of structures are lists of records, pointers into a table
  are indices. A routine that panics returns \<open>Inl (Panic msg)\<close>, one that would wait for another process
  returns \<open>Inl (Sleep why)\<close>; a loop without an evident bound is a \<open>partial_function\<close> into \<open>option\<close>,
  and the theorems about it prove that it returns. A spin lock that brackets a whole routine makes the
  routine one step; locks and interleaving are themselves the subject of \<open>Spinlock\<close>, \<open>Pipe\<close>,
  \<open>Bio\<close>, \<open>Shm\<close> and \<open>Ptable\<close>, whose step relations allow every order of the steps of any number of processes.

  \<^bold>\<open>Theories.\<close>
  \<^item> \<open>Prelude\<close>: outcomes and their sequencing, table scans, facts on words. \<open>Bytes\<close>: little-endian fields
    of a block.
  \<^item> \<open>CString\<close> (\<^verbatim>\<open>string.c\<close>): block moves on memory, strings. \<open>Format\<close> (\<^verbatim>\<open>printf.c\<close>, \<^verbatim>\<open>ulib.c\<close>, formatting in \<^verbatim>\<open>console.c\<close>):
    numbers print correctly and read back.
  \<^item> \<open>Spinlock\<close> (\<^verbatim>\<open>spinlock.c\<close>): mutual exclusion over all interleavings of any number of CPUs. \<open>Sleeplock\<close> (\<^verbatim>\<open>sleeplock.c\<close>).
  \<^item> \<open>Kalloc\<close> (\<^verbatim>\<open>kalloc.c\<close>): the free list; the locale \<open>page_allocator\<close> states what clients rely on.
  \<^item> \<open>Ring\<close>: the ring buffer with wrapping counters, a locale that \<open>Pipe\<close> (\<^verbatim>\<open>pipe.c\<close>) and \<open>Console\<close> (\<^verbatim>\<open>console.c\<close>) interpret.
  \<^item> \<open>Ide\<close> (\<^verbatim>\<open>ide.c\<close>, \<^verbatim>\<open>memide.c\<close>), \<open>Bio\<close> and \<open>Bioseq\<close> (\<^verbatim>\<open>bio.c\<close>), \<open>Log\<close> (\<^verbatim>\<open>log.c\<close>): from the request queue of the disk
    to transactions that survive a crash at any block write. The locale \<open>block_store\<close> is what the file system sees.
  \<^item> \<open>Fs\<close>, \<open>Fsdata\<close>, \<open>Dir\<close> (\<^verbatim>\<open>fs.c\<close>): blocks, inodes, file contents, directories and paths on the logical disk
    of \<open>block_store\<close>; \<open>Fsblock\<close>, \<open>Fsfile\<close>, \<open>Dirfacts\<close>, \<open>Checked\<close> hold the proofs about the bitmap, reading and
    writing, directories and the checksummed files.
  \<^item> \<open>Syscall\<close> (\<^verbatim>\<open>syscall.c\<close>), \<open>Filetable\<close> (\<^verbatim>\<open>file.c\<close>), \<open>Sysfile\<close> (\<^verbatim>\<open>sysfile.c\<close>), \<open>Fdrefs\<close>: arguments from user memory, open
    files, the file system calls; every call ends the transactions it began, and the counts of open files are exact.
  \<^item> \<open>Vm\<close> (\<^verbatim>\<open>vm.c\<close> of part 1) and \<open>Shm\<close> (its callers in \<^verbatim>\<open>proc.c\<close> and \<^verbatim>\<open>exec.c\<close>): page tables in memory, user memory, the
    shared pages and their counts. \<open>Uvm\<close>, \<open>Uspace\<close>, \<open>Kvm\<close>, \<open>Ucopy\<close>: an address space as the set of pages it owns and the map from
    addresses to bytes its process sees; growing, shrinking, freeing and copying it.
  \<^item> \<open>Exec\<close> (\<^verbatim>\<open>exec.c\<close> of part 1): loading a program, over the file system and the page tables. \<open>Execload\<close>, \<open>Execstack\<close>,
    \<open>Execimage\<close>, \<open>Execrun\<close>: the image is what the file describes, the arguments are on the stack, and \<^verbatim>\<open>exec\<close> succeeds or changes nothing;
    \<open>Devs\<close>: what the file system never changes.
  \<^item> \<open>Proc\<close> (\<^verbatim>\<open>proc.c\<close> of part 2), \<open>Schedule\<close>, \<open>Ptable\<close>: the process calls and the scheduler; high priority
    comes first, a pass makes progress, and the process table is consistent in every reachable state.
  \<^item> \<open>Grep\<close> (\<^verbatim>\<open>grep.c\<close>): the matcher against the meaning of its patterns, and the buffered reading of lines. \<open>Sh\<close> (the parser of
    \<^verbatim>\<open>sh.c\<close>): it always ends, its strings are the words of the input, and it reads back every printed command.
  \<^item> \<open>Umalloc\<close> (\<^verbatim>\<open>umalloc.c\<close>): the ring of free blocks of a user program; blocks in use never overlap, and every call returns.
  \<^item> \<open>Fscheck\<close> (\<^verbatim>\<open>linux/fsChecker.c\<close>): what an accepted image satisfies, and images that the checker wrongly rejects.
  \<^item> This theory: the scheduler on a consistent table.

  \<^bold>\<open>Bounds.\<close> Only the shell parser uses fuel: four times the length of the input and four more, which \<open>parsecmd_ends\<close> proves
  enough for every input. The loops of \<open>Kalloc\<close>, \<open>Vm\<close>, \<open>Exec\<close> and \<open>Umalloc\<close> are partial functions on
  addresses and are proved to return for the arguments that occur; everything else recurses on a list, a
  number of slots, or with a measure. The pids of \<open>Proc\<close> are unbounded integers; the step relation of \<open>Ptable\<close>
  forks only while the C counter has not overflowed.

  \<^bold>\<open>Not modelled.\<close> Boot code, interrupt controllers, the serial port, keyboard scan codes and trap entry are
  hardware set-up or assembly.
  The context switch is the parameter \<open>run\<close> of the scheduler. Running a parsed command in the shell is a sequence of
  system calls of several processes; the other user programs, the tests and \<^verbatim>\<open>mkfs.c\<close> are not part of the model. On a single level, inode and buffer locks of the file system
  calls are the sets of locked blocks and the sleep lock fields; their interleaving is not explored above \<open>Bio\<close>.
\<close>

section \<open>The scheduler on a consistent process table\<close>

lemma kstep_length:
  assumes "kstep K K'" "ptable_ok K"
  shows "length (procs K') = length (procs K)"
  using assms
proof (induction rule: kstep.induct)
  case (fork K cur kdata r K')
  from fork(3) show ?case by (cases rule: fork_cases) (auto simp: touches_def)
next
  case (exit K cur K')
  then show ?case using exit_nth(1) by blast
next
  case (wait K cur r K')
  then show ?case
    by (auto simp: wait_scan_def res_simps sleep_begin_def simp del: find_index_None split: option.splits if_splits)
next
  case (grow K cur n r K')
  from grow(2) show ?case by (cases rule: growproc_cases) simp_all
next
  case (account i K K')
  then show ?case using account_cases(2) by blast
next
  case (kill K target)
  then show ?case by (simp add: kill_def del: find_index_None split: option.split)
qed (simp_all add: sleep_begin_def sleep_end_def wakeup_def yield_cpu_def setpri_def dispatch_def)

lemma ksteps_length: "kstep\<^sup>*\<^sup>* K K' \<Longrightarrow> ptable_ok K \<Longrightarrow> length (procs K') = length (procs K)"
  by (induction rule: rtranclp_induct) (auto dest: kstep_length ptable_ok_steps)

text \<open>
  A run of a process by kernel steps, after which its slot is still in use: \<^verbatim>\<open>ptable.lock\<close> is held from the end of \<^verbatim>\<open>exit\<close>
  until the scheduler is back, so nobody can reap the process in between.
\<close>

definition kernel_run :: "(nat \<Rightarrow> kernel \<Rightarrow> kernel) \<Rightarrow> bool" where
  "kernel_run run \<longleftrightarrow> (\<forall>i L. running L i \<longrightarrow> kstep\<^sup>*\<^sup>* L (run i L) \<and> pstate (proc_at (run i L) i) \<noteq> UNUSED)"

lemma run_proc_steps:
  assumes run: "kernel_run run" and ok: "ptable_ok K" and i: "i < length (procs K)" "pstate (proc_at K i) = RUNNABLE"
  obtains L where "run_proc run i K = ret L" "kstep\<^sup>*\<^sup>* K L"
proof -
  let ?D = "dispatch i K" let ?M = "run i ?D"
  have D: "kstep K ?D" using i by (rule kstep.dispatch)
  have "running ?D i" using i by (simp add: running_def dispatch_def upd_proc_nth)
  then have M: "kstep\<^sup>*\<^sup>* ?D ?M" "pstate (proc_at ?M i) \<noteq> UNUSED" using run by (auto simp: kernel_run_def)
  have steps: "kstep\<^sup>*\<^sup>* K ?M" using D M(1) by (rule converse_rtranclp_into_rtranclp)
  then have "ptable_ok ?M" "i < length (procs ?M)" using ok i ptable_ok_steps ksteps_length by auto
  then have "pri_ok (proc_at ?M i)" using M(2) by (auto simp: ptable_ok_def proc_ok_def)
  then obtain L where L: "account i ?M = ret L" using account_runs by blast
  show thesis
    by (rule that [of L]) (use L steps kstep.account in \<open>auto simp: run_proc_def intro: rtranclp.rtrancl_into_rtrancl\<close>)
qed

lemma sched_loop_steps:
  assumes run: "kernel_run run"
  shows "ptable_ok K \<Longrightarrow> \<forall>i \<in> set is. i < length (procs K) \<Longrightarrow> \<exists>trc K'. sched_loop run lv is K = ret (trc, K') \<and> kstep\<^sup>*\<^sup>* K K'"
proof (induction "is" arbitrary: lv K)
  case (Cons i "is")
  show ?case
  proof (cases "pstate (proc_at K i) = RUNNABLE \<and> pri (proc_at K i) = lv")
    case True
    then obtain L where L: "run_proc run i K = ret L" "kstep\<^sup>*\<^sup>* K L"
      using run_proc_steps [OF run Cons.prems(1), of i] Cons.prems(2) by auto
    have "ptable_ok L" "length (procs L) = length (procs K)" using L(2) Cons.prems(1) ptable_ok_steps ksteps_length by auto
    then have "\<exists>trc K'. sched_loop run lv' is L = ret (trc, K') \<and> kstep\<^sup>*\<^sup>* L K'" for lv'
      using Cons.IH [of L lv'] Cons.prems(2) by simp
    then obtain trc K' where "sched_loop run (if pstate (proc_at L i) \<noteq> ZOMBIE \<and> pri (proc_at L i) > lv then pri (proc_at L i) else lv) is L = ret (trc, K')"
      "kstep\<^sup>*\<^sup>* L K'" by blast
    then show ?thesis using True L by (auto simp: Let_def intro: rtranclp_trans)
  next
    case False
    then show ?thesis using Cons.IH [OF Cons.prems(1)] Cons.prems(2) by auto
  qed
qed simp


text \<open>Init and a child of high priority are runnable; a run is a tick and a yield.\<close>

definition pass_demo :: "kfiles \<Rightarrow> kernel" where
  "pass_demo k = yield_cpu (wait_demo k) 1"

definition tick_yield :: "nat \<Rightarrow> kernel \<Rightarrow> kernel" where
  "tick_yield i K = yield_cpu (K\<lparr>ticks := ticks K + 1\<rparr>) i"


end
